(* ===== verification/Prelude.thy ===== *)
theory Prelude
  imports Main "HOL-Library.Word" "HOL-Library.Multiset"
begin

text \<open>
  Shared vocabulary and automation of the development: the names of the machine
  types, the sum type used for the Go convention \<open>(value, error)\<close>, cyclic
  distances on power-of-two tables, and generic lemmas on lists, maps and words
  that several components use.
\<close>

section \<open>Names of the machine types\<close>

type_synonym uint8 = "8 word"
type_synonym uint16 = "16 word"
type_synonym uint32 = "32 word"
type_synonym uint64 = "64 word"

text \<open>A Go \<open>int64\<close> is the same word, read by \<open>sint\<close> and compared by \<open>\<le>s\<close>.\<close>

type_synonym int64 = "64 word"

text \<open>A Go \<open>string\<close> or \<open>[]byte\<close> is a list of bytes; a byte is a HOL \<open>char\<close>.\<close>

type_synonym bytes = string

definition byte_val :: "char \<Rightarrow> nat" where
  "byte_val c = of_char c"

section \<open>Fallible results\<close>

text \<open>\<open>Inl e\<close> is a returned error, \<open>Inr v\<close> a value returned with a nil error.\<close>

fun bind_sum :: "'e + 'a \<Rightarrow> ('a \<Rightarrow> 'e + 'b) \<Rightarrow> 'e + 'b" where
  "bind_sum (Inl e) f = Inl e"
| "bind_sum (Inr v) f = f v"

fun is_ok :: "'e + 'a \<Rightarrow> bool" where
  "is_ok (Inl _) = False"
| "is_ok (Inr _) = True"

lemma bind_sum_Inr: "bind_sum r f = Inr v \<longleftrightarrow> (\<exists>u. r = Inr u \<and> f u = Inr v)"
  by (cases r) auto

lemma bind_sum_Inl: "bind_sum r f = Inl e \<longleftrightarrow> r = Inl e \<or> (\<exists>u. r = Inr u \<and> f u = Inl e)"
  by (cases r) auto

section \<open>Collections of facts\<close>

named_theorems inv_simps "unfolding rules of the component invariants"
named_theorems word_arith "word operations read as natural-number arithmetic"

section \<open>Cyclic distance in a table of n slots\<close>

definition cyc :: "nat \<Rightarrow> nat \<Rightarrow> nat \<Rightarrow> nat" where
  "cyc n h s = (s + n - h) mod n"

lemma cyc_less [simp]: "0 < n \<Longrightarrow> cyc n h s < n"
  by (simp add: cyc_def)

lemma cyc_less_of [simp]: "i < n \<Longrightarrow> cyc n h s < n"
  by (rule cyc_less) simp

lemma cyc_self [simp]: "cyc n h h = 0"
  by (simp add: cyc_def)

lemma cyc_add: "h < n \<Longrightarrow> s < n \<Longrightarrow> (h + cyc n h s) mod n = s"
  by (simp add: cyc_def mod_add_right_eq)

lemma cyc_cases: "h < n \<Longrightarrow> s < n \<Longrightarrow> cyc n h s = (if h \<le> s then s - h else s + n - h)"
  by (auto simp: cyc_def mod_if)

lemma cyc_of_add: "h < n \<Longrightarrow> d < n \<Longrightarrow> cyc n h ((h + d) mod n) = d"
  by (subst cyc_cases) (auto simp: mod_if)

lemma cyc_eq_0: "h < n \<Longrightarrow> s < n \<Longrightarrow> cyc n h s = 0 \<longleftrightarrow> h = s"
  by (auto simp: cyc_cases)

lemma cyc_diff:
  "h < n \<Longrightarrow> x < n \<Longrightarrow> s < n \<Longrightarrow> cyc n h x \<le> cyc n h s \<Longrightarrow> cyc n x s = cyc n h s - cyc n h x"
  by (auto simp: cyc_cases split: if_splits)

lemma cyc_inj: "h < n \<Longrightarrow> x < n \<Longrightarrow> y < n \<Longrightarrow> cyc n h x = cyc n h y \<Longrightarrow> x = y"
  by (auto simp: cyc_cases split: if_splits)

section \<open>Words\<close>

lemma unat_of_nat_small [word_arith]: "n < 2 ^ LENGTH('a) \<Longrightarrow> unat (of_nat n :: 'a::len word) = n"
  by (simp add: unat_of_nat take_bit_nat_eq_self)

lemma unat_less_64: "unat (w :: uint64) < 2 ^ 64"
  by (rule order.strict_trans2 [OF unsigned_less]) simp

lemma unat_less_32: "unat (w :: uint32) < 2 ^ 32"
  by (rule order.strict_trans2 [OF unsigned_less]) simp

lemma unat_max64: "unat (-1 :: uint64) = 2 ^ 64 - 1"
  by (simp add: unsigned_minus_1_eq_mask mask_eq_exp_minus_1)

lemma of_nat_unat_eq: "of_nat (unat w) = (w :: 'a::len word)"
  by simp

lemma unat_add_1:
  fixes i b :: "'a::len word"
  assumes "i < b"
  shows "unat (i + 1) = unat i + 1"
proof -
  have "unat i < unat b" "unat b < 2 ^ LENGTH('a)"
    using assms by (simp_all only: word_less_nat_alt unsigned_less)
  then have "unat i + 1 < 2 ^ LENGTH('a)" by linarith
  then show ?thesis by (simp add: unat_word_ariths)
qed

lemma unat_step: "i < b \<Longrightarrow> unat b - unat (i + 1) < unat b - unat i"
  by (simp add: unat_add_1 word_less_nat_alt)

lemma mask_of_pow2:
  assumes "k < LENGTH('a)"
  shows "(of_nat (2 ^ k) :: 'a::len word) - 1 = mask k"
  by (simp add: mask_eq_exp_minus_1)

lemma unat_and_mask_mod:
  "unat (and w (mask k) :: 'a::len word) = unat w mod 2 ^ k"
  by (simp only: take_bit_eq_mask [symmetric] unsigned_take_bit_eq) (simp add: take_bit_eq_mod)

lemma unat_add_and_mask:
  fixes a b :: "'a::len word"
  assumes "k \<le> LENGTH('a)"
  shows "unat (and (a + b) (mask k)) = (unat a + unat b) mod 2 ^ k"
  using assms by (simp only: unat_and_mask_mod unat_word_ariths(1))
    (simp add: mod_mod_cancel le_imp_power_dvd)

lemma unat_sub_nat:
  "unat ((a :: 'a::len word) - b) = (unat a + (2 ^ LENGTH('a) - unat b)) mod 2 ^ LENGTH('a)"
proof -
  define N where "N = (2::nat) ^ LENGTH('a)"
  have a: "unat a < N" and b: "unat b < N" by (simp_all only: N_def unsigned_less)
  have "unat (a - b) = (if unat b \<le> unat a then unat a - unat b else unat a + N - unat b)"
    by (simp only: unat_sub_if' N_def)
  also have "\<dots> = (unat a + (N - unat b)) mod N"
    using a b by (auto simp: mod_if)
  finally show ?thesis by (simp only: N_def)
qed

lemma mod_shift_multiple:
  fixes n N a b :: nat
  assumes "n dvd N" "b < n" "n \<le> N"
  shows "(a + (N - b)) mod n = (a + n - b) mod n"
proof -
  obtain q where q: "N = n * q" using assms(1) by (auto simp: dvd_def)
  have "q \<noteq> 0" using q assms by (cases q) auto
  then have "a + (N - b) = (a + n - b) + n * (q - 1)"
    using q assms by (cases q) auto
  then show ?thesis by simp
qed

lemma unat_sub_and_mask:
  fixes a b :: "'a::len word"
  assumes "k \<le> LENGTH('a)" "unat b < 2 ^ k"
  shows "unat (and (a - b) (mask k)) = cyc (2 ^ k) (unat b) (unat a)"
proof -
  define N where "N = (2::nat) ^ LENGTH('a)"
  define n where "n = (2::nat) ^ k"
  have dvd: "n dvd N" using assms(1) by (simp add: n_def N_def le_imp_power_dvd)
  have le: "n \<le> N" using assms(1) by (simp add: n_def N_def power_increasing)
  have "unat (and (a - b) (mask k)) = ((unat a + (N - unat b)) mod N) mod n"
    by (simp only: unat_and_mask_mod unat_sub_nat N_def n_def)
  also have "\<dots> = (unat a + (N - unat b)) mod n"
    using dvd by (simp add: mod_mod_cancel)
  also have "\<dots> = (unat a + n - unat b) mod n"
    using dvd le assms(2) by (intro mod_shift_multiple) (simp_all add: n_def)
  finally show ?thesis by (simp add: cyc_def n_def)
qed

lemma power_interval: "0 < n \<Longrightarrow> \<exists>k. 2 ^ k \<le> n \<and> n < 2 ^ Suc k" for n :: nat
  using ex_power_ivl1 [of 2 n] by auto

lemma bit_top: "2 ^ k \<le> n \<Longrightarrow> n < 2 ^ Suc k \<Longrightarrow> bit n k" for n :: nat
proof -
  assume "2 ^ k \<le> n" "n < 2 ^ Suc k"
  then have "n div 2 ^ k = 1" by (intro div_nat_eqI) auto
  then show "bit n k" by (simp add: bit_iff_odd)
qed

lemma pow2_of_and_pred:
  assumes "and n (n - 1) = 0" "0 < n"
  shows "\<exists>k. n = (2::nat) ^ k"
proof -
  obtain k where k: "2 ^ k \<le> n" "n < 2 ^ Suc k" using power_interval [OF assms(2)] by blast
  have "n = 2 ^ k"
  proof (rule ccontr)
    assume "n \<noteq> 2 ^ k"
    then have "2 ^ k \<le> n - 1" "n - 1 < 2 ^ Suc k" using k by auto
    then have "bit (and n (n - 1)) k" using bit_top k by (simp add: bit_and_iff)
    then show False using assms(1) by simp
  qed
  then show ?thesis by blast
qed

lemma and_pred_pow2: "and (2 ^ k) (2 ^ k - 1) = (0::nat)"
  by (simp only: mask_eq_exp_minus_1 [symmetric] take_bit_eq_mask [symmetric]) simp

lemma unat_and_pred:
  "w \<noteq> 0 \<Longrightarrow> unat (and w (w - 1) :: 'a::len word) = and (unat w) (unat w - 1)"
  by (simp add: unsigned_and_eq unat_minus_one)

lemma word_and_pred_eq_0:
  fixes w :: "'a::len word"
  assumes "w \<noteq> 0"
  shows "and w (w - 1) = 0 \<longleftrightarrow> (\<exists>k. unat w = 2 ^ k)"
proof -
  have "and w (w - 1) = 0 \<longleftrightarrow> and (unat w) (unat w - 1) = 0"
    using unat_and_pred [OF assms] by (metis unat_eq_zero)
  also have "\<dots> \<longleftrightarrow> (\<exists>k. unat w = 2 ^ k)"
    using pow2_of_and_pred [of "unat w"] and_pred_pow2 assms by (auto simp: unat_gt_0)
  finally show ?thesis .
qed

section \<open>Lists\<close>

lemma mset_list_swap:
  "i < length xs \<Longrightarrow> j < length xs \<Longrightarrow> mset (xs[i := xs ! j, j := xs ! i]) = mset xs"
  by (rule mset_swap)

lemma map_update_same: "i < length xs \<Longrightarrow> (map f xs)[i := f (xs ! i)] = map f xs"
  by (simp add: map_update [symmetric])

lemma map_of_perm:
  "mset xs = mset ys \<Longrightarrow> distinct (map fst xs) \<Longrightarrow> map_of xs = map_of ys"
  by (metis map_of_inject_set mset_map mset_eq_imp_distinct_iff mset_eq_setD)

end
