(* ===== verification/CursorIndex.thy ===== *)
theory CursorIndex
  imports Prelude
begin

text \<open>
  The fixed open-addressing indexes of \<open>src/internal/cursor/storage.go\<close>:
  \<open>tokenIndex\<close> (keys are 128-bit tokens) and \<open>lineageIndex\<close> (keys are \<open>uint64\<close>
  lineage ids).  The source repeats the same code for both; here one polymorphic
  record serves both, a row per slot instead of four parallel columns of one length.
  Deletion is the backward-shift deletion of linear probing.  The theory shows that
  both indexes refine a finite map from keys to arena references.
\<close>

section \<open>The fixed tables\<close>

type_synonym arenaRef = uint32

definition noRef :: arenaRef where
  "noRef = -1"

type_synonym token = "128 word"

record 'k index_slot =
  slot_state :: uint8
  slot_home :: uint32
  slot_key :: 'k
  slot_ref :: arenaRef

record 'k probe_index =
  slots :: "'k index_slot list"
  live :: uint32

type_synonym tokenIndex = "token probe_index"
type_synonym lineageIndex = "uint64 probe_index"

datatype cursor_error =
    AccountingOverflow | DuplicateKey | IndexFull | InvalidHome | RegistryInvariant

definition maxIntValue :: uint64 where
  "maxIntValue = drop_bit 1 (-1)"

definition fixedLength :: "uint64 \<Rightarrow> cursor_error + nat" where
  "fixedLength sz =
    (if sz = 0 \<or> sz > maxIntValue \<or> sz > 0xFFFFFFFF then Inl AccountingOverflow
     else Inr (unat sz))"

definition new_index :: "uint64 \<Rightarrow> cursor_error + 'k::zero probe_index" where
  "new_index sz =
    (case fixedLength sz of
       Inl e \<Rightarrow> Inl AccountingOverflow
     | Inr len \<Rightarrow>
         if and sz (sz - 1) \<noteq> 0 then Inl AccountingOverflow
         else Inr \<lparr>slots = replicate len
                     \<lparr>slot_state = 0, slot_home = 0, slot_key = 0, slot_ref = 0\<rparr>,
                   live = 0\<rparr>)"

definition cyclicDistance :: "uint32 \<Rightarrow> uint32 \<Rightarrow> uint32 \<Rightarrow> uint32" where
  "cyclicDistance home slot sz = and (slot - home) (sz - 1)"

definition size32 :: "'a list \<Rightarrow> uint32" where
  "size32 xs = of_nat (length xs)"

definition slot_at :: "'k index_slot list \<Rightarrow> uint32 \<Rightarrow> uint32 \<Rightarrow> uint32" where
  "slot_at ss home probe = and (home + probe) (size32 ss - 1)"

text \<open>The probe loop shared by \<open>lookup\<close>, \<open>insert\<close> and \<open>delete\<close>, with its three exits.\<close>

datatype probe_exit = Vacant uint32 | Hit uint32 | Exhausted

function probe_loop :: "'k index_slot list \<Rightarrow> 'k \<Rightarrow> uint32 \<Rightarrow> uint32 \<Rightarrow> probe_exit" where
  "probe_loop ss key home probe =
    (if probe < size32 ss then
       let slot = slot_at ss home probe; row = ss ! unat slot in
       if slot_state row = 0 then Vacant slot
       else if slot_key row = key then Hit slot
       else probe_loop ss key home (probe + 1)
     else Exhausted)"
  by pat_completeness auto
termination
  by (relation "measure (\<lambda>(ss, key, home, probe). unat (size32 ss) - unat probe)")
    (auto simp: unat_step)

declare probe_loop.simps [simp del]

definition index_lookup :: "'k probe_index \<Rightarrow> 'k \<Rightarrow> uint32 \<Rightarrow> arenaRef option" where
  "index_lookup ix key home =
    (if unat home \<ge> length (slots ix) \<or> length (slots ix) = 0 then None
     else case probe_loop (slots ix) key home 0 of
       Hit slot \<Rightarrow> Some (slot_ref (slots ix ! unat slot))
     | _ \<Rightarrow> None)"

definition index_insert ::
  "'k probe_index \<Rightarrow> 'k \<Rightarrow> arenaRef \<Rightarrow> uint32 \<Rightarrow> cursor_error + 'k probe_index" where
  "index_insert ix key ref home =
    (if unat home \<ge> length (slots ix) \<or> length (slots ix) = 0 then Inl InvalidHome
     else case probe_loop (slots ix) key home 0 of
       Vacant slot \<Rightarrow>
         Inr (ix\<lparr>slots := (slots ix)[unat slot :=
                   \<lparr>slot_state = 1, slot_home = home, slot_key = key, slot_ref = ref\<rparr>],
                 live := live ix + 1\<rparr>)
     | Hit slot \<Rightarrow> Inl DuplicateKey
     | Exhausted \<Rightarrow> Inl IndexFull)"

definition cleared_slot :: "'k::zero index_slot" where
  "cleared_slot = \<lparr>slot_state = 0, slot_home = 0, slot_key = 0, slot_ref = noRef\<rparr>"

definition index_clear :: "'k::zero index_slot list \<Rightarrow> uint32 \<Rightarrow> 'k index_slot list" where
  "index_clear ss slot = ss[unat slot := cleared_slot]"

definition moved_row :: "'k index_slot \<Rightarrow> 'k index_slot" where
  "moved_row row = \<lparr>slot_state = 1, slot_home = slot_home row, slot_key = slot_key row,
                    slot_ref = slot_ref row\<rparr>"

definition row_weight :: "uint32 \<Rightarrow> 'k index_slot list \<Rightarrow> nat \<Rightarrow> nat" where
  "row_weight sz ss i = (if slot_state (ss ! i) = 0 then 0
     else unat (cyclicDistance (slot_home (ss ! i)) (of_nat i) sz))"

definition table_weight :: "'k index_slot list \<Rightarrow> nat" where
  "table_weight ss = (\<Sum>i<length ss. row_weight (size32 ss) ss i)"

lemma slot_at_bound:
  assumes "scanned < size32 ss"
  shows "unat (slot_at ss hole scanned) < length ss"
proof -
  have pos: "0 < size32 ss" using assms by (rule le_less_trans [rotated]) simp
  have "slot_at ss hole scanned \<le> size32 ss - 1"
    by (simp add: slot_at_def word_and_le1)
  also have "\<dots> < size32 ss" using pos by (cases "size32 ss = 0") (simp_all add: word_less_nat_alt unat_minus_one)
  finally have "unat (slot_at ss hole scanned) < unat (size32 ss)"
    by (simp add: word_less_nat_alt)
  also have "\<dots> \<le> length ss" by (simp add: size32_def unat_of_nat take_bit_nat_less_eq_self)
  finally show ?thesis .
qed

lemma table_weight_move:
  fixes ss :: "'k::zero index_slot list"
  assumes s: "s < length ss" and occ: "slot_state (ss ! s) \<noteq> 0"
    and lt: "cyclicDistance (slot_home (ss ! s)) (of_nat h) (size32 ss)
             < cyclicDistance (slot_home (ss ! s)) (of_nat s) (size32 ss)"
  shows "table_weight (ss[h := moved_row (ss ! s), s := cleared_slot]) < table_weight ss"
proof -
  let ?ss = "ss[h := moved_row (ss ! s), s := cleared_slot]"
  let ?w = "row_weight (size32 ss)"
  have sz: "size32 ?ss = size32 ss" by (simp add: size32_def)
  have hs: "h \<noteq> s" using lt by auto
  have ws: "?w ?ss s = 0" using s by (simp add: row_weight_def cleared_slot_def)
  have other: "?w ?ss i = ?w ss i" if "i \<noteq> h" "i \<noteq> s" for i
    using that by (simp add: row_weight_def nth_list_update)
  show ?thesis
  proof (cases "h < length ss")
    case True
    have wh: "?w ?ss h < ?w ss s"
      using True hs s lt occ
      by (simp add: row_weight_def moved_row_def word_less_nat_alt)
    let ?R = "\<Sum>i\<in>{..<length ss} - {s} - {h}. ?w ss i"
    have "table_weight ?ss = ?w ?ss s + (?w ?ss h + (\<Sum>i\<in>{..<length ss} - {s} - {h}. ?w ?ss i))"
      unfolding table_weight_def sz using s True hs
      by (simp add: sum.remove [of _ s] sum.remove [of _ h])
    also have "\<dots> = ?w ?ss h + ?R" using other ws by simp
    also have "\<dots> < ?w ss s + (?w ss h + ?R)" using wh by simp
    also have "\<dots> = table_weight ss"
      unfolding table_weight_def using s True hs
      by (simp add: sum.remove [of _ s] sum.remove [of _ h])
    finally show ?thesis .
  next
    case False
    have "table_weight ?ss = ?w ?ss s + (\<Sum>i\<in>{..<length ss} - {s}. ?w ?ss i)"
      unfolding table_weight_def sz using s by (simp add: sum.remove [of _ s])
    also have "\<dots> = (\<Sum>i\<in>{..<length ss} - {s}. ?w ss i)"
      using False other ws by (auto intro!: sum.cong)
    also have "\<dots> < ?w ss s + (\<Sum>i\<in>{..<length ss} - {s}. ?w ss i)"
      using lt occ by (simp add: row_weight_def word_less_nat_alt)
    also have "\<dots> = table_weight ss"
      unfolding table_weight_def using s by (simp add: sum.remove [of _ s])
    finally show ?thesis .
  qed
qed

text \<open>The loop that closes the gap left by a deleted row.  It ends because every move
  brings one row strictly closer to its home slot.\<close>

function shift_loop ::
  "'k::zero index_slot list \<Rightarrow> uint32 \<Rightarrow> uint32 \<Rightarrow> 'k index_slot list" where
  "shift_loop ss hole scanned =
    (if scanned < size32 ss then
       let slot = slot_at ss hole scanned; row = ss ! unat slot in
       if slot_state row = 0 then ss
       else if cyclicDistance (slot_home row) hole (size32 ss)
             < cyclicDistance (slot_home row) slot (size32 ss)
       then shift_loop (index_clear (ss[unat hole := moved_row row]) slot) slot 1
       else shift_loop ss hole (scanned + 1)
     else ss)"
  by pat_completeness auto
termination
proof (relation "measures [\<lambda>(ss, hole, scanned). table_weight ss,
    \<lambda>(ss, hole, scanned). unat (size32 ss) - unat scanned]", goal_cases)
  case 1 then show ?case by simp
next
  case (2 ss hole scanned slot row)
  then show ?case
    using table_weight_move [of "unat slot" ss "unat hole"] slot_at_bound [of scanned ss hole]
    by (simp add: index_clear_def)
next
  case (3 ss hole scanned slot row)
  then show ?case
    by (auto simp: unat_step)
qed

declare shift_loop.simps [simp del]

definition index_delete :: "'k::zero probe_index \<Rightarrow> 'k \<Rightarrow> uint32 \<Rightarrow> 'k probe_index option" where
  "index_delete ix key home =
    (if unat home \<ge> length (slots ix) \<or> length (slots ix) = 0 then None
     else case probe_loop (slots ix) key home 0 of
       Hit hole \<Rightarrow>
         Some (ix\<lparr>slots := shift_loop (index_clear (slots ix) hole) hole 1,
                  live := live ix - 1\<rparr>)
     | _ \<Rightarrow> None)"

section \<open>Reading the word arithmetic on a power-of-two table\<close>

definition table_len :: "'k index_slot list \<Rightarrow> bool" where
  "table_len ss \<longleftrightarrow> (\<exists>k\<le>31. length ss = 2 ^ k)"

lemma table_len_pos: "table_len ss \<Longrightarrow> 0 < length ss"
  by (auto simp: table_len_def)

lemma table_len_update [simp]: "table_len (ss[i := r]) = table_len ss"
  by (simp add: table_len_def)

lemma size32_update [simp]: "size32 (ss[i := r]) = size32 ss"
  by (simp add: size32_def)

lemma table_len_le: "table_len ss \<Longrightarrow> length ss \<le> 2 ^ 31"
  unfolding table_len_def by (metis power_increasing one_le_numeral)

lemma unat_less_len:
  assumes "table_len ss" "n \<le> length ss"
  shows "unat (of_nat n :: uint32) = n"
  using assms table_len_le [of ss] by (intro unat_of_nat_small) simp

lemma unat_size32: "table_len ss \<Longrightarrow> unat (size32 ss) = length ss"
  by (simp add: size32_def unat_less_len)

lemma table_mask:
  assumes "table_len ss"
  obtains k where "k \<le> 31" "length ss = 2 ^ k" "size32 ss - 1 = mask k"
  using assms by (auto simp: table_len_def size32_def mask_eq_exp_minus_1)

lemma unat_slot_at:
  assumes "table_len ss"
  shows "unat (slot_at ss home probe) = (unat home + unat probe) mod length ss"
proof -
  obtain k where k: "k \<le> 31" "length ss = 2 ^ k" "size32 ss - 1 = mask k"
    using assms by (rule table_mask)
  then show ?thesis by (simp add: slot_at_def unat_add_and_mask)
qed

lemma unat_cyclicDistance:
  assumes "table_len ss" "unat home < length ss"
  shows "unat (cyclicDistance home slot (size32 ss)) = cyc (length ss) (unat home) (unat slot)"
proof -
  obtain k where k: "k \<le> 31" "length ss = 2 ^ k" "size32 ss - 1 = mask k"
    using assms(1) by (rule table_mask)
  then show ?thesis using assms(2) by (simp add: cyclicDistance_def unat_sub_and_mask)
qed

section \<open>The table invariant\<close>

abbreviation occupied :: "'k index_slot list \<Rightarrow> nat \<Rightarrow> bool" where
  "occupied ss i \<equiv> slot_state (ss ! i) \<noteq> 0"

definition live_rows :: "'k index_slot list \<Rightarrow> 'k index_slot list" where
  "live_rows ss = filter (\<lambda>r. slot_state r \<noteq> 0) ss"

text \<open>The home of a key: the leading 64 bits of the keyed digest (a parameter),
  reduced by the mask of the table, as \<open>Registry.keyedHome\<close> does.\<close>

definition keyedHome :: "('k \<Rightarrow> uint64) \<Rightarrow> nat \<Rightarrow> 'k \<Rightarrow> uint32" where
  "keyedHome mac len key = ucast (and (mac key) (of_nat len - 1))"

definition row_path_ok :: "'k index_slot list \<Rightarrow> nat option \<Rightarrow> nat \<Rightarrow> bool" where
  "row_path_ok ss gap i \<longleftrightarrow>
    (let n = length ss; h = unat (slot_home (ss ! i)) in
     \<forall>d < cyc n h i. occupied ss ((h + d) mod n) \<or> gap = Some ((h + d) mod n))"

definition rows_ok :: "('k \<Rightarrow> uint64) \<Rightarrow> 'k index_slot list \<Rightarrow> nat option \<Rightarrow> bool" where
  "rows_ok mac ss gap \<longleftrightarrow>
    (\<forall>i < length ss. slot_state (ss ! i) \<le> 1 \<and>
       (occupied ss i \<longrightarrow> slot_home (ss ! i) = keyedHome mac (length ss) (slot_key (ss ! i)) \<and>
          row_path_ok ss gap i))"

definition keys_distinct :: "'k index_slot list \<Rightarrow> bool" where
  "keys_distinct ss = distinct (map slot_key (live_rows ss))"

definition index_inv :: "('k \<Rightarrow> uint64) \<Rightarrow> 'k probe_index \<Rightarrow> bool" where
  "index_inv mac ix \<longleftrightarrow> table_len (slots ix) \<and> rows_ok mac (slots ix) None \<and>
    keys_distinct (slots ix) \<and> live ix = of_nat (length (live_rows (slots ix)))"

definition index_map :: "'k probe_index \<Rightarrow> 'k \<Rightarrow> arenaRef option" where
  "index_map ix = map_of (map (\<lambda>r. (slot_key r, slot_ref r)) (live_rows (slots ix)))"

lemma unat_ucast_32: "unat (x :: uint64) < 2 ^ 32 \<Longrightarrow> unat (ucast x :: uint32) = unat x"
  by (simp add: unsigned_ucast_eq take_bit_nat_eq_self)

lemma keyedHome_less:
  assumes "table_len ss"
  shows "unat (keyedHome mac (length ss) key) < length ss"
proof -
  obtain k where k: "k \<le> 31" "length ss = 2 ^ k" using assms by (auto simp: table_len_def)
  have "(of_nat (length ss) :: uint64) - 1 = mask k" using k by (simp add: mask_eq_exp_minus_1)
  then have "unat (and (mac key) (of_nat (length ss) - 1)) = unat (mac key) mod 2 ^ k"
    by (simp add: unat_and_mask_mod)
  moreover have "unat (mac key) mod 2 ^ k < 2 ^ k" by simp
  moreover have "(2::nat) ^ k \<le> 2 ^ 31" using k by (intro power_increasing) auto
  ultimately have "unat (and (mac key) (of_nat (length ss) - 1)) < 2 ^ k \<and> (2::nat) ^ k \<le> 2 ^ 31"
    by metis
  then show ?thesis using k(2) unfolding keyedHome_def by (subst unat_ucast_32) auto
qed

lemma rows_okD:
  assumes "rows_ok mac ss gap" "i < length ss" "occupied ss i"
  shows "slot_state (ss ! i) = 1" "slot_home (ss ! i) = keyedHome mac (length ss) (slot_key (ss ! i))"
    "row_path_ok ss gap i"
proof -
  have "slot_state (ss ! i) \<le> 1" "slot_state (ss ! i) \<noteq> 0"
    using assms by (auto simp: rows_ok_def)
  then show "slot_state (ss ! i) = 1"
    by (metis order.antisym word_gt_0 word_le_sub1 word_less_1 leI)
qed (use assms in \<open>auto simp: rows_ok_def\<close>)

lemma live_rows_iff: "r \<in> set (live_rows ss) \<longleftrightarrow> (\<exists>i<length ss. ss ! i = r \<and> occupied ss i)"
  by (auto simp: live_rows_def in_set_conv_nth)

lemma index_map_eq:
  assumes "keys_distinct (slots ix)"
  shows "index_map ix key = Some ref \<longleftrightarrow>
    (\<exists>i<length (slots ix). occupied (slots ix) i \<and> slot_key (slots ix ! i) = key \<and>
       slot_ref (slots ix ! i) = ref)"
proof -
  have "index_map ix key = Some ref \<longleftrightarrow>
      (key, ref) \<in> set (map (\<lambda>r. (slot_key r, slot_ref r)) (live_rows (slots ix)))"
    unfolding index_map_def using assms
    by (intro map_of_eq_Some_iff) (simp add: keys_distinct_def comp_def)
  also have "\<dots> \<longleftrightarrow> (\<exists>r \<in> set (live_rows (slots ix)). slot_key r = key \<and> slot_ref r = ref)"
    by auto
  also have "\<dots> \<longleftrightarrow> (\<exists>i<length (slots ix). occupied (slots ix) i \<and> slot_key (slots ix ! i) = key \<and>
       slot_ref (slots ix ! i) = ref)"
    unfolding Bex_def live_rows_iff by blast
  finally show ?thesis .
qed

lemma index_map_None:
  "index_map ix key = None \<longleftrightarrow>
    (\<forall>i<length (slots ix). occupied (slots ix) i \<longrightarrow> slot_key (slots ix ! i) \<noteq> key)"
proof -
  have "index_map ix key = None \<longleftrightarrow> (\<forall>r \<in> set (live_rows (slots ix)). slot_key r \<noteq> key)"
    by (auto simp: index_map_def map_of_eq_None_iff image_image)
  also have "\<dots> \<longleftrightarrow> (\<forall>i<length (slots ix). occupied (slots ix) i \<longrightarrow> slot_key (slots ix ! i) \<noteq> key)"
    unfolding Ball_def live_rows_iff by blast
  finally show ?thesis .
qed

section \<open>The probe loop\<close>

definition probe_seen :: "'k index_slot list \<Rightarrow> 'k \<Rightarrow> nat \<Rightarrow> nat \<Rightarrow> nat \<Rightarrow> bool" where
  "probe_seen ss key h p q \<longleftrightarrow>
    (\<forall>j. p \<le> j \<and> j < q \<longrightarrow> occupied ss ((h + j) mod length ss) \<and>
       slot_key (ss ! ((h + j) mod length ss)) \<noteq> key)"

definition probe_result_ok ::
  "'k index_slot list \<Rightarrow> 'k \<Rightarrow> nat \<Rightarrow> nat \<Rightarrow> probe_exit \<Rightarrow> bool" where
  "probe_result_ok ss key h p r \<longleftrightarrow> (case r of
     Vacant s \<Rightarrow> \<exists>d. p \<le> d \<and> d < length ss \<and> unat s = (h + d) mod length ss \<and>
        slot_state (ss ! unat s) = 0 \<and> probe_seen ss key h p d
   | Hit s \<Rightarrow> \<exists>d. p \<le> d \<and> d < length ss \<and> unat s = (h + d) mod length ss \<and>
        slot_state (ss ! unat s) \<noteq> 0 \<and> slot_key (ss ! unat s) = key \<and> probe_seen ss key h p d
   | Exhausted \<Rightarrow> probe_seen ss key h p (length ss))"

lemma probe_seen_empty [simp]: "probe_seen ss key h p p"
  by (auto simp: probe_seen_def)

lemma probe_seen_Suc:
  "probe_seen ss key h (Suc p) q \<Longrightarrow> occupied ss ((h + p) mod length ss) \<Longrightarrow>
   slot_key (ss ! ((h + p) mod length ss)) \<noteq> key \<Longrightarrow> probe_seen ss key h p q"
  unfolding probe_seen_def by (metis le_neq_implies_less Suc_leI)

lemma probe_result_ok_Suc:
  "probe_result_ok ss key h (Suc p) r \<Longrightarrow> occupied ss ((h + p) mod length ss) \<Longrightarrow>
   slot_key (ss ! ((h + p) mod length ss)) \<noteq> key \<Longrightarrow> probe_result_ok ss key h p r"
  unfolding probe_result_ok_def
  by (auto split: probe_exit.splits intro: probe_seen_Suc Suc_leD)

lemma probe_loop_ok:
  assumes "table_len ss" "unat home < length ss" "unat probe \<le> length ss"
  shows "probe_result_ok ss key (unat home) (unat probe) (probe_loop ss key home probe)"
  using assms
proof (induction ss key home probe rule: probe_loop.induct)
  case (1 ss key home probe)
  let ?slot = "slot_at ss home probe" and ?row = "ss ! unat (slot_at ss home probe)"
  have us: "unat ?slot = (unat home + unat probe) mod length ss"
    using 1 by (simp add: unat_slot_at)
  have lt: "probe < size32 ss \<longleftrightarrow> unat probe < length ss"
    using 1 by (simp add: word_less_nat_alt unat_size32)
  consider (stop) "\<not> probe < size32 ss"
    | (vac) "probe < size32 ss" "slot_state ?row = 0"
    | (hit) "probe < size32 ss" "slot_state ?row \<noteq> 0" "slot_key ?row = key"
    | (onward) "probe < size32 ss" "slot_state ?row \<noteq> 0" "slot_key ?row \<noteq> key"
    by blast
  then show ?case
  proof cases
    case stop
    then show ?thesis using 1 lt
      by (simp add: probe_loop.simps [of ss key home probe] probe_result_ok_def probe_seen_def)
  next
    case vac
    then show ?thesis using lt us
      by (auto simp: probe_loop.simps [of ss key home probe] probe_result_ok_def)
  next
    case hit
    then show ?thesis using lt us
      by (auto simp: probe_loop.simps [of ss key home probe] probe_result_ok_def)
  next
    case onward
    have "unat (probe + 1) = Suc (unat probe)" using onward by (simp add: unat_add_1)
    then have "probe_result_ok ss key (unat home) (Suc (unat probe)) (probe_loop ss key home (probe + 1))"
      using 1(1) [OF onward(1) refl refl onward(2,3)] 1(2-) lt onward by auto
    then show ?thesis using onward us
      by (auto simp: probe_loop.simps [of ss key home probe] intro: probe_result_ok_Suc)
  qed
qed

text \<open>On a well-formed table the loop started at the key's home decides membership.\<close>

lemma probe_absent:
  assumes len: "table_len ss" and ok: "rows_ok mac ss None"
    and seen: "probe_seen ss key (unat (keyedHome mac (length ss) key)) 0 d"
    and stop: "d = length ss \<or> \<not> occupied ss ((unat (keyedHome mac (length ss) key) + d) mod length ss)"
    and i: "i < length ss" "occupied ss i"
  shows "slot_key (ss ! i) \<noteq> key"
proof
  assume k: "slot_key (ss ! i) = key"
  let ?n = "length ss" and ?h = "unat (keyedHome mac (length ss) key)"
  let ?c = "cyc (length ss) (unat (keyedHome mac (length ss) key)) i"
  have h: "?h < ?n" using len by (rule keyedHome_less)
  have home: "unat (slot_home (ss ! i)) = ?h" using rows_okD(2) [OF ok i] k by simp
  have at: "(?h + ?c) mod ?n = i" using h i(1) by (rule cyc_add)
  have path: "occupied ss ((?h + e) mod ?n)" if "e < ?c" for e
    using rows_okD(3) [OF ok i] that home by (simp add: row_path_ok_def Let_def)
  show False
  proof (cases "?c < d")
    case True
    then show False using seen at k by (auto simp: probe_seen_def)
  next
    case False
    have "?c < ?n" using i by (intro cyc_less) auto
    then have vac: "\<not> occupied ss ((?h + d) mod ?n)" using stop False by auto
    then show False using path [of d] False at i(2) by (cases "d = ?c") auto
  qed
qed

lemma probe_loop_cases [consumes 2, case_names Hit Vacant Full]:
  assumes inv: "index_inv mac ix" and home: "home = keyedHome mac (length (slots ix)) key"
  obtains s where "probe_loop (slots ix) key home 0 = Hit s" "unat s < length (slots ix)"
      "occupied (slots ix) (unat s)" "slot_key (slots ix ! unat s) = key"
    | s d where "probe_loop (slots ix) key home 0 = Vacant s" "index_map ix key = None"
      "d < length (slots ix)" "unat s = (unat home + d) mod length (slots ix)"
      "\<not> occupied (slots ix) (unat s)"
      "\<And>e. e < d \<Longrightarrow> occupied (slots ix) ((unat home + e) mod length (slots ix))"
    | "probe_loop (slots ix) key home 0 = Exhausted" "index_map ix key = None"
      "\<And>i. i < length (slots ix) \<Longrightarrow> occupied (slots ix) i"
proof -
  let ?ss = "slots ix" and ?n = "length (slots ix)"
  have len: "table_len ?ss" and ok: "rows_ok mac ?ss None" using inv by (auto simp: index_inv_def)
  have h: "unat home < ?n" using len home by (simp add: keyedHome_less)
  have res: "probe_result_ok ?ss key (unat home) 0 (probe_loop ?ss key home 0)"
    using probe_loop_ok [OF len h, of 0 key] by simp
  show thesis
  proof (cases "probe_loop ?ss key home 0")
    case (Vacant s)
    then obtain d where d: "d < ?n" "unat s = (unat home + d) mod ?n" "\<not> occupied ?ss (unat s)"
        "probe_seen ?ss key (unat home) 0 d"
      using res by (auto simp: probe_result_ok_def)
    then have "index_map ix key = None"
      using probe_absent [OF len ok, of key d] home by (auto simp: index_map_None)
    then show thesis using that(2) Vacant d by (auto simp: probe_seen_def)
  next
    case (Hit s)
    then obtain d where "unat s = (unat home + d) mod ?n"
        and *: "occupied ?ss (unat s)" "slot_key (?ss ! unat s) = key"
      using res unfolding probe_result_ok_def by auto
    then have "unat s < ?n" using table_len_pos [OF len] by simp
    then show thesis using that(1) Hit * by blast
  next
    case Exhausted
    then have seen: "probe_seen ?ss key (unat home) 0 ?n" using res by (simp add: probe_result_ok_def)
    have "occupied ?ss i" if i: "i < ?n" for i
    proof -
      have "cyc ?n (unat home) i < ?n" using i by (rule cyc_less_of)
      then show ?thesis using seen cyc_add [OF h i] by (auto simp: probe_seen_def)
    qed
    moreover have "index_map ix key = None"
      using probe_absent [OF len ok, of key ?n] seen home by (auto simp: index_map_None)
    ultimately show thesis using that(3) Exhausted by auto
  qed
qed

section \<open>Insertion\<close>

lemma mset_live_rows: "mset (live_rows ss) = filter_mset (\<lambda>r. slot_state r \<noteq> 0) (mset ss)"
  by (simp add: live_rows_def)

lemma mset_live_rows_fill:
  assumes "i < length ss" "slot_state (ss ! i) = 0" "slot_state r \<noteq> 0"
  shows "mset (live_rows (ss[i := r])) = add_mset r (mset (live_rows ss))"
proof -
  have "mset ss = add_mset (ss ! i) (mset ss - {#ss ! i#})" using assms(1) by simp
  then show ?thesis using assms
    by (simp add: mset_live_rows mset_update)
qed

lemma mset_live_rows_clear:
  assumes "i < length ss" "slot_state (ss ! i) \<noteq> 0" "slot_state r = 0"
  shows "mset (live_rows ss) = add_mset (ss ! i) (mset (live_rows (ss[i := r])))"
  using mset_live_rows_fill [of i "ss[i := r]" "ss ! i"] assms by simp

lemma keys_distinct_mset:
  "mset (live_rows ss) = mset rows \<Longrightarrow> keys_distinct ss = distinct (map slot_key rows)"
  unfolding keys_distinct_def by (metis mset_eq_imp_distinct_iff mset_map)

lemma index_map_mset:
  assumes "mset (live_rows (slots ix)) = mset rows" "distinct (map slot_key rows)"
  shows "index_map ix = map_of (map (\<lambda>r. (slot_key r, slot_ref r)) rows)"
  unfolding index_map_def using assms
  by (intro map_of_perm) (simp_all add: comp_def keys_distinct_mset [unfolded keys_distinct_def])

lemma live_mset: "mset (live_rows ss) = mset rows \<Longrightarrow> length (live_rows ss) = length rows"
  by (rule mset_eq_length)

lemma rows_ok_fill:
  assumes len: "table_len ss" and ok: "rows_ok mac ss None" and s: "s < length ss"
    and vac: "\<not> occupied ss s"
    and home: "slot_home r = keyedHome mac (length ss) (slot_key r)" "slot_state r = 1"
    and at: "s = (unat (slot_home r) + d) mod length ss" "d < length ss"
    and path: "\<And>e. e < d \<Longrightarrow> occupied ss ((unat (slot_home r) + e) mod length ss)"
  shows "rows_ok mac (ss[s := r]) None"
  unfolding rows_ok_def
proof (intro allI impI conjI)
  fix i assume i: "i < length (ss[s := r])"
  show "slot_state (ss[s := r] ! i) \<le> 1"
    using ok i home s by (auto simp: rows_ok_def nth_list_update)
  assume occ: "occupied (ss[s := r]) i"
  show "slot_home (ss[s := r] ! i) = keyedHome mac (length (ss[s := r])) (slot_key (ss[s := r] ! i))"
    using ok i home occ s by (auto simp: rows_ok_def nth_list_update)
  have keep: "occupied (ss[s := r]) j" if "occupied ss j" for j
    using that home vac by (cases "j = s") auto
  have c: "cyc (length ss) (unat (slot_home r)) s = d"
    unfolding at(1) using at(2) keyedHome_less [OF len, of mac "slot_key r"] home(1)
    by (intro cyc_of_add) simp_all
  show "row_path_ok (ss[s := r]) None i"
  proof (cases "i = s")
    case True
    then show ?thesis using path c s keep by (simp add: row_path_ok_def Let_def)
  next
    case False
    then have "row_path_ok ss None i" using rows_okD(3) [OF ok] i occ by simp
    then show ?thesis using False keep by (auto simp: row_path_ok_def Let_def)
  qed
qed

lemma index_insert_Inr:
  assumes inv: "index_inv mac ix" and home: "home = keyedHome mac (length (slots ix)) key"
    and ins: "index_insert ix key ref home = Inr ix'"
  shows "index_inv mac ix'" "index_map ix' = (index_map ix)(key \<mapsto> ref)"
    "length (slots ix') = length (slots ix)" "index_map ix key = None"
    "length (live_rows (slots ix')) = Suc (length (live_rows (slots ix)))"
proof -
  let ?ss = "slots ix"
  let ?r = "\<lparr>slot_state = 1, slot_home = home, slot_key = key, slot_ref = ref\<rparr>"
  have len: "table_len ?ss" and ok: "rows_ok mac ?ss None" and dist: "keys_distinct ?ss"
    and live: "live ix = of_nat (length (live_rows ?ss))"
    using inv by (auto simp: index_inv_def)
  obtain s :: uint32 and d where s: "index_map ix key = None" "d < length ?ss"
      "unat s = (unat home + d) mod length ?ss" "\<not> occupied ?ss (unat s)"
      "\<And>e. e < d \<Longrightarrow> occupied ?ss ((unat home + e) mod length ?ss)"
      and ix': "ix' = ix\<lparr>slots := ?ss[unat s := ?r], live := live ix + 1\<rparr>"
    using inv home
  proof (cases rule: probe_loop_cases)
    case (Vacant s d)
    have "ix' = ix\<lparr>slots := ?ss[unat s := ?r], live := live ix + 1\<rparr>"
      using ins Vacant(1) by (simp add: index_insert_def split: if_splits)
    then show thesis by (intro that [of d s] Vacant)
  qed (use ins in \<open>auto simp: index_insert_def split: if_splits\<close>)
  have us: "unat s < length ?ss" using s table_len_pos [OF len] by simp
  have m: "mset (live_rows (slots ix')) = mset (?r # live_rows ?ss)"
    using us s(4) by (simp add: ix' mset_live_rows_fill)
  have fresh: "distinct (map slot_key (?r # live_rows ?ss))"
    using dist s(1) by (auto simp: keys_distinct_def index_map_None live_rows_iff)
  have "rows_ok mac (?ss[unat s := ?r]) None"
    by (rule rows_ok_fill [OF len ok us s(4), where d = d]) (use s home in auto)
  moreover have "keys_distinct (slots ix')" using keys_distinct_mset [OF m] fresh by simp
  moreover have "live ix' = of_nat (length (live_rows (slots ix')))"
    using live_mset [OF m] live by (simp add: ix')
  ultimately show "index_inv mac ix'" using len by (simp add: index_inv_def ix')
  show "index_map ix' = (index_map ix)(key \<mapsto> ref)"
    using index_map_mset [OF m fresh] by (simp add: index_map_def)
  show "length (slots ix') = length ?ss" "index_map ix key = None" using s by (simp_all add: ix')
  show "length (live_rows (slots ix')) = Suc (length (live_rows (slots ix)))"
    using live_mset [OF m] by simp
qed

lemma length_filter_all: "length (filter P xs) = length xs \<longleftrightarrow> (\<forall>i<length xs. P (xs ! i))"
proof -
  have "length (filter P xs) = length xs \<longleftrightarrow> (\<forall>x\<in>set xs. P x)"
    by (metis filter_True length_filter_less less_irrefl)
  then show ?thesis by (simp only: all_set_conv_all_nth)
qed

lemma index_insert_Inl:
  assumes inv: "index_inv mac ix" and home: "home = keyedHome mac (length (slots ix)) key"
  shows "index_insert ix key ref home = Inl e \<longleftrightarrow>
    (e = DuplicateKey \<and> index_map ix key \<noteq> None) \<or>
    (e = IndexFull \<and> index_map ix key = None \<and> length (live_rows (slots ix)) = length (slots ix))"
proof -
  have h: "unat home < length (slots ix)"
    using inv home by (simp add: index_inv_def keyedHome_less)
  have full: "length (live_rows (slots ix)) = length (slots ix) \<longleftrightarrow>
      (\<forall>i<length (slots ix). occupied (slots ix) i)"
    unfolding live_rows_def by (rule length_filter_all)
  show ?thesis
    using inv home
    by (cases rule: probe_loop_cases) (use h full in \<open>auto simp: index_insert_def index_map_None\<close>)
qed

lemma index_lookup_correct:
  assumes inv: "index_inv mac ix" and home: "home = keyedHome mac (length (slots ix)) key"
  shows "index_lookup ix key home = index_map ix key"
proof -
  have h: "unat home < length (slots ix)" and d: "keys_distinct (slots ix)"
    using inv home by (auto simp: index_inv_def keyedHome_less)
  show ?thesis
    using inv home
  proof (cases rule: probe_loop_cases)
    case (Hit s)
    then have "index_map ix key = Some (slot_ref (slots ix ! unat s))"
      using d by (auto simp: index_map_eq)
    then show ?thesis using Hit h by (auto simp: index_lookup_def)
  qed (use h in \<open>auto simp: index_lookup_def\<close>)
qed

section \<open>Deletion with backward shift\<close>

text \<open>While the gap moves, every row's path is unbroken except at the gap.\<close>

lemma rows_ok_move:
  assumes len: "table_len ss" and ok: "rows_ok mac ss (Some h)" and h: "h < length ss"
    and gap: "\<not> occupied ss h" and s: "s < length ss" "occupied ss s"
    and closer: "cyc (length ss) (unat (slot_home (ss ! s))) h
                 < cyc (length ss) (unat (slot_home (ss ! s))) s"
  shows "rows_ok mac (ss[h := ss ! s, s := cleared_slot]) (Some s)"
  unfolding rows_ok_def
proof (intro allI impI)
  define t where "t = ss[h := ss ! s, s := cleared_slot]"
  have hs: "h \<noteq> s" using gap s by auto
  have th: "t ! h = ss ! s" and ts: "slot_state (t ! s) = 0"
    and other: "\<And>j. j \<noteq> h \<Longrightarrow> j \<noteq> s \<Longrightarrow> t ! j = ss ! j" and lt: "length t = length ss"
    using hs h s by (simp_all add: t_def cleared_slot_def)
  have keep: "occupied t j \<or> s = j" if "occupied ss j \<or> h = j" for j
    using that th s(2) other by (cases "j = s"; cases "j = h") auto
  fix i assume i: "i < length (ss[h := ss ! s, s := cleared_slot])"
  have goal: "slot_state (t ! i) \<le> 1 \<and>
      (occupied t i \<longrightarrow> slot_home (t ! i) = keyedHome mac (length t) (slot_key (t ! i)) \<and>
         row_path_ok t (Some s) i)"
  proof (cases "i = s")
    case True
    then show ?thesis using ts by simp
  next
    case False
    define m where "m = (if i = h then s else i)"
    have m: "m < length ss" "t ! i = ss ! m" using False i s th other by (auto simp: m_def)
    have "row_path_ok t (Some s) i" if occ: "occupied ss m"
    proof -
      let ?a = "unat (slot_home (ss ! m))" and ?n = "length ss"
      have path: "occupied ss ((?a + d) mod ?n) \<or> h = (?a + d) mod ?n" if "d < cyc ?n ?a m" for d
        using rows_okD(3) [OF ok m(1) occ] that by (simp add: row_path_ok_def Let_def)
      have "cyc ?n ?a i \<le> cyc ?n ?a m" using closer by (auto simp: m_def)
      then show ?thesis using path keep m lt by (auto simp: row_path_ok_def Let_def)
    qed
    then show ?thesis using ok m lt by (auto simp: rows_ok_def)
  qed
  then show "slot_state (ss[h := ss ! s, s := cleared_slot] ! i) \<le> 1 \<and>
      (occupied (ss[h := ss ! s, s := cleared_slot]) i \<longrightarrow>
        slot_home (ss[h := ss ! s, s := cleared_slot] ! i) =
          keyedHome mac (length (ss[h := ss ! s, s := cleared_slot]))
            (slot_key (ss[h := ss ! s, s := cleared_slot] ! i)) \<and>
        row_path_ok (ss[h := ss ! s, s := cleared_slot]) (Some s) i)"
    unfolding t_def .
qed

text \<open>When the scan stops, no row needs the gap any more.\<close>

lemma rows_ok_done:
  assumes len: "table_len ss" and ok: "rows_ok mac ss (Some h)" and h: "h < length ss"
    and t: "0 < t" "t = length ss \<or> \<not> occupied ss ((h + t) mod length ss)"
    and scanned: "\<And>u. 0 < u \<Longrightarrow> u < t \<Longrightarrow> u < length ss \<Longrightarrow> occupied ss ((h + u) mod length ss) \<Longrightarrow>
        \<not> cyc (length ss) (unat (slot_home (ss ! ((h + u) mod length ss)))) h
          < cyc (length ss) (unat (slot_home (ss ! ((h + u) mod length ss)))) ((h + u) mod length ss)"
  shows "rows_ok mac ss None"
  unfolding rows_ok_def
proof (intro allI impI conjI)
  let ?n = "length ss"
  fix i assume i: "i < ?n"
  show "slot_state (ss ! i) \<le> 1" using ok i by (simp add: rows_ok_def)
  assume occ: "occupied ss i"
  let ?a = "unat (slot_home (ss ! i))"
  have home: "slot_home (ss ! i) = keyedHome mac ?n (slot_key (ss ! i))"
    and path: "\<And>d. d < cyc ?n ?a i \<Longrightarrow> occupied ss ((?a + d) mod ?n) \<or> h = (?a + d) mod ?n"
    using ok i occ by (auto simp: rows_ok_def row_path_ok_def Let_def)
  show "slot_home (ss ! i) = keyedHome mac ?n (slot_key (ss ! i))" by (rule home)
  have a: "?a < ?n" using home len by (simp add: keyedHome_less)
  have "\<not> (\<exists>d < cyc ?n ?a i. h = (?a + d) mod ?n)"
  proof
    assume "\<exists>d < cyc ?n ?a i. h = (?a + d) mod ?n"
    then obtain d where d: "d < cyc ?n ?a i" "h = (?a + d) mod ?n" by blast
    have ci: "cyc ?n ?a i < ?n" using i by (rule cyc_less_of)
    then have "d < ?n" using d(1) by linarith
    then have ch: "cyc ?n ?a h = d" using cyc_of_add [OF a] d(2) by blast
    let ?u = "cyc ?n h i"
    have u: "?u = cyc ?n ?a i - d" using cyc_diff [OF a h i] ch d by simp
    have at: "(h + ?u) mod ?n = i" using h i by (rule cyc_add)
    have uless: "?u < ?n" using i by (rule cyc_less_of)
    have "\<not> ?u < t" using scanned [of ?u] u d at ch uless occ by auto
    then have tn: "t < ?n" "t \<le> ?u" "\<not> occupied ss ((h + t) mod ?n)" using t uless by auto
    then have "t \<noteq> ?u" using at occ by auto
    then have "d + t < cyc ?n ?a i" using tn u by simp
    moreover have "(?a + (d + t)) mod ?n = (h + t) mod ?n"
      unfolding d(2) by (simp only: mod_add_left_eq add.assoc)
    ultimately have "h = (h + t) mod ?n" using path [of "d + t"] tn(3) by metis
    then have "cyc ?n h h = t" using cyc_of_add [OF h tn(1)] by simp
    then show False using t(1) by simp
  qed
  then show "row_path_ok ss None i" using path by (auto simp: row_path_ok_def Let_def)
qed

lemma shift_loop_ok:
  fixes ss :: "'k::zero index_slot list"
  assumes "table_len ss" "rows_ok mac ss (Some (unat hole))" "unat hole < length ss"
    "ss ! unat hole = cleared_slot" "0 < unat scanned" "unat scanned \<le> length ss"
    "\<forall>u. 0 < u \<and> u < unat scanned \<longrightarrow>
        \<not> cyc (length ss) (unat (slot_home (ss ! ((unat hole + u) mod length ss)))) (unat hole)
          < cyc (length ss) (unat (slot_home (ss ! ((unat hole + u) mod length ss))))
              ((unat hole + u) mod length ss)"
  shows "rows_ok mac (shift_loop ss hole scanned) None \<and>
         mset (shift_loop ss hole scanned) = mset ss"
  using assms
proof (induction ss hole scanned rule: shift_loop.induct)
  case (1 ss hole scanned)
  note IH1 = "1.IH"(1) and IH2 = "1.IH"(2)
  note len = "1.prems"(1) and ok = "1.prems"(2) and hole = "1.prems"(3) and clr = "1.prems"(4)
    and pos = "1.prems"(5) and le = "1.prems"(6) and seen = "1.prems"(7)
  let ?n = "length ss" and ?slot = "slot_at ss hole scanned"
  let ?row = "ss ! unat ?slot"
  have us: "unat ?slot = (unat hole + unat scanned) mod ?n" using len by (rule unat_slot_at)
  have uslt: "unat ?slot < ?n" using us table_len_pos [OF len] by simp
  have lt: "scanned < size32 ss \<longleftrightarrow> unat scanned < ?n"
    using len by (simp add: word_less_nat_alt unat_size32)
  note step = shift_loop.simps [of ss hole scanned]
  have finish: "rows_ok mac ss None" if "unat scanned = ?n \<or> \<not> occupied ss (unat ?slot)"
    using that seen us by (intro rows_ok_done [OF len ok hole pos]) auto
  show ?case
  proof (cases "scanned < size32 ss \<and> occupied ss (unat ?slot)")
    case False
    then have "unat scanned = ?n \<or> \<not> occupied ss (unat ?slot)" using lt le by linarith
    moreover have "shift_loop ss hole scanned = ss" using False by (auto simp: step Let_def)
    ultimately show ?thesis using finish by simp
  next
    case True
    then have cont: "scanned < size32 ss" and occ: "occupied ss (unat ?slot)" by auto
    have home: "unat (slot_home ?row) < ?n"
      using rows_okD(2) [OF ok uslt occ] keyedHome_less [OF len] by simp
    let ?closer = "cyclicDistance (slot_home ?row) hole (size32 ss)
                   < cyclicDistance (slot_home ?row) ?slot (size32 ss)"
    have closer: "?closer \<longleftrightarrow> cyc ?n (unat (slot_home ?row)) (unat hole)
                   < cyc ?n (unat (slot_home ?row)) (unat ?slot)"
      using unat_cyclicDistance [OF len home] by (simp add: word_less_nat_alt)
    show ?thesis
    proof (cases ?closer)
      case moved: True
      let ?ss = "index_clear (ss[unat hole := moved_row ?row]) ?slot"
      have row: "moved_row ?row = ?row"
        using rows_okD(1) [OF ok uslt occ] by (simp add: moved_row_def)
      have ss: "?ss = ss[unat hole := ?row, unat ?slot := ss ! unat hole]"
        by (simp add: index_clear_def row clr)
      have rows: "rows_ok mac ?ss (Some (unat ?slot))"
        unfolding ss clr
        by (rule rows_ok_move [OF len ok hole _ uslt occ]) (use closer moved clr in \<open>simp_all add: cleared_slot_def\<close>)
      have ms: "mset ?ss = mset ss" unfolding ss using hole uslt by (intro mset_list_swap)
      have "rows_ok mac (shift_loop ?ss ?slot 1) None \<and> mset (shift_loop ?ss ?slot 1) = mset ?ss"
        by (rule IH1 [OF cont refl refl _ moved])
          (use rows len uslt occ table_len_pos [OF len] in
            \<open>auto simp: index_clear_def Suc_le_eq\<close>)
      moreover have "shift_loop ss hole scanned = shift_loop ?ss ?slot 1"
        using cont occ moved by (simp add: step Let_def)
      ultimately show ?thesis using ms by simp
    next
      case stay: False
      have suc: "unat (scanned + 1) = unat scanned + 1" using cont by (rule unat_add_1)
      have "rows_ok mac (shift_loop ss hole (scanned + 1)) None \<and>
          mset (shift_loop ss hole (scanned + 1)) = mset ss"
      proof (rule IH2 [OF cont refl refl _ stay])
        show "\<forall>u. 0 < u \<and> u < unat (scanned + 1) \<longrightarrow>
          \<not> cyc ?n (unat (slot_home (ss ! ((unat hole + u) mod ?n)))) (unat hole)
            < cyc ?n (unat (slot_home (ss ! ((unat hole + u) mod ?n)))) ((unat hole + u) mod ?n)"
          using seen stay closer us suc by (auto simp: less_Suc_eq)
      qed (use len ok hole clr occ suc lt cont in auto)
      moreover have "shift_loop ss hole scanned = shift_loop ss hole (scanned + 1)"
        using cont occ stay by (simp add: step Let_def)
      ultimately show ?thesis by simp
    qed
  qed
qed

lemma index_delete_Some:
  fixes ix :: "'a::zero probe_index"
  assumes inv: "index_inv mac ix" and home: "home = keyedHome mac (length (slots ix)) key"
    and del: "index_delete ix key home = Some ix'"
  shows "index_inv mac ix'" "index_map ix' = (index_map ix)(key := None)"
    "length (slots ix') = length (slots ix)" "index_map ix key \<noteq> None"
    "length (live_rows (slots ix)) = Suc (length (live_rows (slots ix')))"
proof -
  let ?ss = "slots ix"
  have len: "table_len ?ss" and ok: "rows_ok mac ?ss None" and dist: "keys_distinct ?ss"
    and live: "live ix = of_nat (length (live_rows ?ss))"
    using inv by (auto simp: index_inv_def)
  obtain s :: uint32 where s: "unat s < length ?ss" "occupied ?ss (unat s)" "slot_key (?ss ! unat s) = key"
    and ix': "ix' = ix\<lparr>slots := shift_loop (index_clear ?ss s) s 1, live := live ix - 1\<rparr>"
    using inv home
  proof (cases rule: probe_loop_cases)
    case (Hit s)
    have "ix' = ix\<lparr>slots := shift_loop (index_clear ?ss s) s 1, live := live ix - 1\<rparr>"
      using del Hit(1) by (simp add: index_delete_def split: if_splits)
    then show thesis by (intro that [of s] Hit)
  qed (use del in \<open>auto simp: index_delete_def split: if_splits\<close>)
  have "rows_ok mac (index_clear ?ss s) (Some (unat s))"
    unfolding rows_ok_def
  proof (intro allI impI)
    fix i assume "i < length (index_clear ?ss s)"
    then show "slot_state (index_clear ?ss s ! i) \<le> 1 \<and> (occupied (index_clear ?ss s) i \<longrightarrow>
        slot_home (index_clear ?ss s ! i)
          = keyedHome mac (length (index_clear ?ss s)) (slot_key (index_clear ?ss s ! i)) \<and>
        row_path_ok (index_clear ?ss s) (Some (unat s)) i)"
      using ok s(1)
      by (cases "i = unat s")
        (auto simp: index_clear_def rows_ok_def row_path_ok_def Let_def cleared_slot_def nth_list_update)
  qed
  then have shift: "rows_ok mac (slots ix') None" "mset (slots ix') = mset (index_clear ?ss s)"
    using shift_loop_ok [of "index_clear ?ss s" mac s 1] len s(1) table_len_pos [OF len]
    by (auto simp: index_clear_def ix' Suc_le_eq)
  have "mset (live_rows (slots ix')) = mset (live_rows (?ss[unat s := cleared_slot]))"
    unfolding mset_live_rows shift(2) index_clear_def ..
  moreover have "slot_state (cleared_slot :: 'a index_slot) = 0" by (simp add: cleared_slot_def)
  ultimately have m: "mset (live_rows ?ss) = mset (?ss ! unat s # live_rows (slots ix'))"
    using mset_live_rows_clear [OF s(1,2), of cleared_slot] by simp
  have d: "distinct (map slot_key (?ss ! unat s # live_rows (slots ix')))"
    using dist keys_distinct_mset [OF m] by simp
  have ll: "length (slots ix') = length ?ss"
    using mset_eq_length [OF shift(2)] by (simp add: index_clear_def)
  have count: "length (live_rows ?ss) = Suc (length (live_rows (slots ix')))"
    using live_mset [OF m] by simp
  have "live ix' = live ix - 1" by (simp add: ix')
  then have lv: "live ix' = of_nat (length (live_rows (slots ix')))"
    unfolding live count by simp
  have "keys_distinct (slots ix')" using d by (simp add: keys_distinct_def)
  moreover have "table_len (slots ix')" using len unfolding table_len_def ll .
  ultimately show "index_inv mac ix'"
    unfolding index_inv_def using shift(1) lv by blast
  have im: "index_map ix = (index_map ix')(key \<mapsto> slot_ref (?ss ! unat s))"
    using index_map_mset [OF m d] s(3) by (simp add: index_map_def)
  moreover have "index_map ix' key = None"
    using d s(3) by (auto simp: index_map_def map_of_eq_None_iff)
  ultimately show "index_map ix' = (index_map ix)(key := None)" by auto
  show "index_map ix key \<noteq> None" using im by simp
  show "length (slots ix') = length ?ss" by (rule ll)
  show "length (live_rows ?ss) = Suc (length (live_rows (slots ix')))" by (rule count)
qed

lemma index_delete_None:
  assumes inv: "index_inv mac ix" and home: "home = keyedHome mac (length (slots ix)) key"
  shows "index_delete ix key home = None \<longleftrightarrow> index_map ix key = None"
proof -
  have h: "unat home < length (slots ix)" and d: "keys_distinct (slots ix)"
    using inv home by (auto simp: index_inv_def keyedHome_less)
  show ?thesis
    using inv home
  proof (cases rule: probe_loop_cases)
    case (Hit s)
    then have "index_map ix key = Some (slot_ref (slots ix ! unat s))"
      using d by (auto simp: index_map_eq)
    then show ?thesis using Hit h by (auto simp: index_delete_def)
  qed (use h in \<open>auto simp: index_delete_def\<close>)
qed

section \<open>The index as a bounded finite map\<close>

lemma card_dom_index_map:
  assumes "keys_distinct (slots ix)"
  shows "card (dom (index_map ix)) = length (live_rows (slots ix))"
proof -
  have "dom (index_map ix) = set (map slot_key (live_rows (slots ix)))"
    by (auto simp: index_map_def dom_map_of_conv_image_fst image_image)
  then show ?thesis using assms by (simp only: keys_distinct_def distinct_card length_map)
qed

datatype ('k, 'v) index_op = Put 'k 'v | Del 'k

text \<open>The abstract operations: duplicate keys and insertions into a full map are refused.\<close>

fun map_step :: "nat \<Rightarrow> ('k, 'v) index_op \<Rightarrow> ('k \<Rightarrow> 'v option) \<Rightarrow> ('k \<Rightarrow> 'v option)" where
  "map_step cap (Put k v) m = (if m k \<noteq> None \<or> card (dom m) = cap then m else m(k \<mapsto> v))"
| "map_step cap (Del k) m = m(k := None)"

fun index_step ::
  "('s \<Rightarrow> 'k \<Rightarrow> 'v \<Rightarrow> 'e + 's) \<Rightarrow> ('s \<Rightarrow> 'k \<Rightarrow> 's option) \<Rightarrow> ('k, 'v) index_op \<Rightarrow> 's \<Rightarrow> 's" where
  "index_step ins del (Put k v) s = (case ins s k v of Inl e \<Rightarrow> s | Inr s' \<Rightarrow> s')"
| "index_step ins del (Del k) s = (case del s k of None \<Rightarrow> s | Some s' \<Rightarrow> s')"

locale bounded_index =
  fixes inv :: "'s \<Rightarrow> bool"
    and contents :: "'s \<Rightarrow> 'k \<Rightarrow> 'v option"
    and capacity :: "'s \<Rightarrow> nat"
    and find :: "'s \<Rightarrow> 'k \<Rightarrow> 'v option"
    and ins :: "'s \<Rightarrow> 'k \<Rightarrow> 'v \<Rightarrow> 'e + 's"
    and del :: "'s \<Rightarrow> 'k \<Rightarrow> 's option"
  assumes find_law: "inv s \<Longrightarrow> find s k = contents s k"
    and ins_ok: "inv s \<Longrightarrow> ins s k v = Inr s' \<Longrightarrow>
      inv s' \<and> contents s' = (contents s)(k \<mapsto> v) \<and> capacity s' = capacity s"
    and ins_refused: "inv s \<Longrightarrow>
      (\<exists>e. ins s k v = Inl e) \<longleftrightarrow> contents s k \<noteq> None \<or> card (dom (contents s)) = capacity s"
    and del_ok: "inv s \<Longrightarrow> del s k = Some s' \<Longrightarrow>
      inv s' \<and> contents s' = (contents s)(k := None) \<and> capacity s' = capacity s"
    and del_absent: "inv s \<Longrightarrow> del s k = None \<Longrightarrow> contents s k = None"
begin

lemma step_refines:
  assumes "inv s"
  shows "inv (index_step ins del opn s) \<and> capacity (index_step ins del opn s) = capacity s \<and>
    contents (index_step ins del opn s) = map_step (capacity s) opn (contents s)"
proof (cases opn)
  case (Put k v)
  show ?thesis
  proof (cases "ins s k v")
    case (Inl e)
    then show ?thesis using assms Put ins_refused [OF assms, of k v] by auto
  next
    case (Inr s')
    then show ?thesis using assms Put ins_ok [OF assms Inr] ins_refused [OF assms, of k v] by auto
  qed
next
  case (Del k)
  then show ?thesis
    using assms del_ok [OF assms, of k] del_absent [OF assms, of k] by (cases "del s k") auto
qed

lemma run_refines:
  assumes "inv s"
  shows "inv (fold (index_step ins del) ops s) \<and>
    capacity (fold (index_step ins del) ops s) = capacity s \<and>
    contents (fold (index_step ins del) ops s) = fold (map_step (capacity s)) ops (contents s)"
  using assms
proof (induction ops arbitrary: s)
  case (Cons opn ops)
  then show ?case using step_refines [OF Cons.prems, of opn]
    Cons.IH [of "index_step ins del opn s"] by simp
qed simp

lemma find_after_del:
  "inv s \<Longrightarrow> del s k = Some s' \<Longrightarrow> find s' k' = (if k' = k then None else find s k')"
  using del_ok [of s k s'] find_law by auto

lemma find_after_ins:
  "inv s \<Longrightarrow> ins s k v = Inr s' \<Longrightarrow> find s' k' = (if k' = k then Some v else find s k')"
  using ins_ok [of s k v s'] find_law by auto

end

definition keyed_lookup :: "('k \<Rightarrow> uint64) \<Rightarrow> 'k probe_index \<Rightarrow> 'k \<Rightarrow> arenaRef option" where
  "keyed_lookup mac ix key = index_lookup ix key (keyedHome mac (length (slots ix)) key)"

definition keyed_insert ::
  "('k \<Rightarrow> uint64) \<Rightarrow> 'k probe_index \<Rightarrow> 'k \<Rightarrow> arenaRef \<Rightarrow> cursor_error + 'k probe_index" where
  "keyed_insert mac ix key ref = index_insert ix key ref (keyedHome mac (length (slots ix)) key)"

definition keyed_delete ::
  "('k \<Rightarrow> uint64) \<Rightarrow> 'k::zero probe_index \<Rightarrow> 'k \<Rightarrow> 'k probe_index option" where
  "keyed_delete mac ix key = index_delete ix key (keyedHome mac (length (slots ix)) key)"

lemma bounded_index_laws:
  "bounded_index (index_inv mac) index_map (\<lambda>ix. length (slots ix))
     (keyed_lookup mac) (keyed_insert mac) (keyed_delete (mac :: 'k::zero \<Rightarrow> uint64))"
proof
  fix s s' :: "'k probe_index" and k :: 'k and v :: arenaRef
  assume inv: "index_inv mac s"
  then have card: "card (dom (index_map s)) = length (live_rows (slots s))"
    by (simp add: index_inv_def card_dom_index_map)
  show "keyed_lookup mac s k = index_map s k"
    using index_lookup_correct [OF inv refl] by (simp add: keyed_lookup_def)
  show "keyed_insert mac s k v = Inr s' \<Longrightarrow> index_inv mac s' \<and>
      index_map s' = (index_map s)(k \<mapsto> v) \<and> length (slots s') = length (slots s)"
    using index_insert_Inr(1-3) [OF inv refl] by (simp add: keyed_insert_def)
  show "(\<exists>e. keyed_insert mac s k v = Inl e) \<longleftrightarrow>
      index_map s k \<noteq> None \<or> card (dom (index_map s)) = length (slots s)"
    unfolding card keyed_insert_def index_insert_Inl [OF inv refl]
    by (cases "index_map s k") auto
  show "keyed_delete mac s k = Some s' \<Longrightarrow> index_inv mac s' \<and>
      index_map s' = (index_map s)(k := None) \<and> length (slots s') = length (slots s)"
    using index_delete_Some(1-3) [OF inv refl] by (simp add: keyed_delete_def)
  show "keyed_delete mac s k = None \<Longrightarrow> index_map s k = None"
    using index_delete_None [OF inv refl] by (simp add: keyed_delete_def)
qed

interpretation token_ix: bounded_index "index_inv mac" index_map "\<lambda>ix. length (slots ix)"
  "keyed_lookup mac" "keyed_insert mac" "keyed_delete (mac :: token \<Rightarrow> uint64)" for mac
  by (rule bounded_index_laws)

interpretation lineage_ix: bounded_index "index_inv mac" index_map "\<lambda>ix. length (slots ix)"
  "keyed_lookup mac" "keyed_insert mac" "keyed_delete (mac :: uint64 \<Rightarrow> uint64)" for mac
  by (rule bounded_index_laws)

text \<open>The instance of the polymorphic operations that the source writes out a second time.\<close>

definition lineage_lookup :: "lineageIndex \<Rightarrow> uint64 \<Rightarrow> uint32 \<Rightarrow> arenaRef option" where
  "lineage_lookup = index_lookup"

definition lineage_insert ::
  "lineageIndex \<Rightarrow> uint64 \<Rightarrow> arenaRef \<Rightarrow> uint32 \<Rightarrow> cursor_error + lineageIndex" where
  "lineage_insert = index_insert"

definition lineage_delete :: "lineageIndex \<Rightarrow> uint64 \<Rightarrow> uint32 \<Rightarrow> lineageIndex option" where
  "lineage_delete = index_delete"

section \<open>Properties of the indexes\<close>

lemma unat_maxIntValue: "unat maxIntValue = 2 ^ 63 - 1"
  by (simp add: maxIntValue_def mask_eq_exp_minus_1)

lemma fixedLength_Inr: "fixedLength sz = Inr n \<longleftrightarrow> n = unat sz \<and> 0 < n \<and> n < 2 ^ 32"
  using unat_maxIntValue
  by (auto simp: fixedLength_def word_less_nat_alt word_le_nat_alt unat_gt_0 not_less)

lemma new_index_inv:
  assumes "new_index sz = Inr ix"
  shows "index_inv mac ix" "index_map ix = Map.empty" "length (slots ix) = unat sz"
proof -
  let ?row = "\<lparr>slot_state = 0, slot_home = 0, slot_key = 0, slot_ref = 0\<rparr> :: 'a index_slot"
  have len: "fixedLength sz = Inr (unat sz)" and p2: "and sz (sz - 1) = 0"
    and ix: "ix = \<lparr>slots = replicate (unat sz) ?row, live = 0\<rparr>"
    using assms by (auto simp: new_index_def fixedLength_Inr split: sum.splits if_splits)
  have sz: "0 < unat sz" "unat sz < 2 ^ 32" using len by (simp_all add: fixedLength_Inr)
  then have "sz \<noteq> 0" by (simp add: unat_gt_0)
  then obtain k where k: "unat sz = 2 ^ k" using word_and_pred_eq_0 [of sz] p2 by auto
  then have "(2::nat) ^ k < 2 ^ 32" using sz by simp
  then have "k < 32" by (rule power_less_imp_less_exp [rotated]) simp
  then have "k \<le> 31" by simp
  then have "table_len (slots ix)" using k by (auto simp: table_len_def ix)
  then show "index_inv mac ix" "index_map ix = Map.empty" "length (slots ix) = unat sz"
    by (simp_all add: ix index_inv_def rows_ok_def keys_distinct_def live_rows_def index_map_def)
qed

text \<open>C1. Any sequence of insertions and deletions run on a fresh token index, whatever the
  keyed digest does (so also when every key collides), leaves the table holding exactly the
  finite map that the sequence describes, duplicates and insertions into a full table refused;
  a lookup after it returns what the map holds.\<close>

theorem token_index_refines_map:
  fixes mac :: "token \<Rightarrow> uint64"
  assumes "new_index sz = Inr ix"
  shows "keyed_lookup mac (fold (index_step (keyed_insert mac) (keyed_delete mac)) ops ix) key
    = fold (map_step (unat sz)) ops Map.empty key"
  using token_ix.run_refines [OF new_index_inv(1) [OF assms], of mac ops]
    token_ix.find_law [of mac] new_index_inv(2,3) [OF assms] by simp

lemma token_index_refines_map_witness:
  "\<exists>ix. new_index 4 = Inr ix \<and>
     keyed_lookup (\<lambda>_ :: token. 3) (fold (index_step (keyed_insert (\<lambda>_. 3)) (keyed_delete (\<lambda>_. 3)))
       [Put 1 10, Put 2 20, Put 1 30, Del 1, Put 3 30] ix) 2 = Some 20"
proof -
  have "\<exists>ix :: tokenIndex. new_index 4 = Inr ix"
    using fixedLength_Inr [of 4 4] by (simp add: new_index_def)
  moreover have "fold (map_step (unat (4 :: uint64)))
      [Put 1 10, Put 2 20, Put 1 30, Del 1, Put 3 30] Map.empty (2 :: token) = Some (20 :: arenaRef)"
    by simp
  ultimately show ?thesis using token_index_refines_map [of 4] by metis
qed

text \<open>C2. The backward-shift deletion of the lineage index removes one key and no other: after
  \<open>delete\<close> the key is gone, every other key is found exactly as before, the table invariant
  (unbroken probe paths, distinct keys, exact live count) holds, and deletion fails only for a
  key that lookup does not find.\<close>

theorem lineage_delete_exact:
  fixes mac :: "uint64 \<Rightarrow> uint64"
  assumes "index_inv mac ix" "home = keyedHome mac (length (slots ix)) key"
  shows "case lineage_delete ix key home of
     None \<Rightarrow> lineage_lookup ix key home = None
   | Some ix' \<Rightarrow> index_inv mac ix' \<and> live ix' = live ix - 1 \<and>
       (\<forall>k. lineage_lookup ix' k (keyedHome mac (length (slots ix')) k) =
         (if k = key then None else lineage_lookup ix k (keyedHome mac (length (slots ix)) k)))"
proof (cases "lineage_delete ix key home")
  case None
  then show ?thesis
    using index_delete_None [OF assms] index_lookup_correct [OF assms]
    by (simp add: lineage_delete_def lineage_lookup_def)
next
  case (Some ix')
  then have del: "index_delete ix key home = Some ix'" by (simp add: lineage_delete_def)
  then have "live ix' = live ix - 1"
    by (auto simp: index_delete_def split: if_splits probe_exit.splits)
  then show ?thesis
    using Some index_delete_Some(1) [OF assms del] del
      lineage_ix.find_after_del [OF assms(1), of key ix'] assms(2)
    by (simp add: lineage_lookup_def keyed_delete_def keyed_lookup_def)
qed

lemma lineage_delete_exact_witness:
  "index_inv (\<lambda>_. 0) \<lparr>slots = [\<lparr>slot_state = 1, slot_home = 0, slot_key = 7 :: uint64, slot_ref = 5\<rparr>], live = 1\<rparr> \<and>
   (case lineage_delete \<lparr>slots = [\<lparr>slot_state = 1, slot_home = 0, slot_key = 7, slot_ref = 5\<rparr>], live = 1\<rparr> 7 0 of
     None \<Rightarrow> False | Some ix' \<Rightarrow> lineage_lookup ix' 7 0 = None)"
proof -
  let ?ix = "\<lparr>slots = [\<lparr>slot_state = 1, slot_home = 0, slot_key = 7, slot_ref = 5\<rparr>], live = 1\<rparr> :: lineageIndex"
  have inv: "index_inv (\<lambda>_. 0) ?ix"
    by (auto simp: index_inv_def table_len_def rows_ok_def row_path_ok_def keys_distinct_def
        live_rows_def keyedHome_def intro!: exI [of _ 0])
  have home: "0 = keyedHome (\<lambda>_. 0) (length (slots ?ix)) (7 :: uint64)" by (simp add: keyedHome_def)
  have "lineage_delete ?ix 7 0 \<noteq> None"
    by (simp add: lineage_delete_def index_delete_def probe_loop.simps size32_def slot_at_def)
  then show ?thesis
    using lineage_delete_exact [OF inv home] inv
    by (auto simp: keyedHome_def split: option.splits dest: spec [of _ 7])
qed

end
