(* ===== verification/CursorArena.thy ===== *)
theory CursorArena
  imports CursorIndex
begin

text \<open>
  The entry and lineage arenas of \<open>src/internal/cursor/storage.go\<close>: fixed rows,
  an intrusive free list, and references that carry the generation of the row they
  were claimed from.  Both arenas refine one small view (free list, occupancy,
  generations), on which the safety of stale references is proved once.
\<close>

section \<open>References\<close>

record arena_ref =
  ref_index :: arenaRef
  ref_generation :: uint32

type_synonym EntryRef = arena_ref
type_synonym lineageRef = arena_ref

section \<open>The entry arena\<close>

record ('st, 'memo, 'rt) entry_row =
  e_occupied :: uint8
  e_kind :: uint8
  e_flags :: uint16
  e_generation :: uint32
  e_nextFree :: arenaRef
  e_lineage :: arenaRef
  e_parent :: arenaRef
  e_successor :: arenaRef
  e_page :: uint32
  e_state :: "'st option"
  e_memo :: "'memo option"
  e_runtime :: "'rt option"
  e_stateBytes :: uint64
  e_memoBytes :: uint64

record ('st, 'memo, 'rt) entryArena =
  e_freeHead :: arenaRef
  e_rows :: "('st, 'memo, 'rt) entry_row list"

definition new_entry_row :: "nat \<Rightarrow> nat \<Rightarrow> ('st, 'memo, 'rt) entry_row" where
  "new_entry_row len i =
    \<lparr>e_occupied = 0, e_kind = 0, e_flags = 0, e_generation = 1,
     e_nextFree = (if i + 1 < len then of_nat (i + 1) else noRef),
     e_lineage = noRef, e_parent = noRef, e_successor = noRef, e_page = 0,
     e_state = None, e_memo = None, e_runtime = None, e_stateBytes = 0, e_memoBytes = 0\<rparr>"

definition newEntryArena :: "uint64 \<Rightarrow> cursor_error + ('st, 'memo, 'rt) entryArena" where
  "newEntryArena sz = bind_sum (fixedLength sz) (\<lambda>len.
     Inr \<lparr>e_freeHead = 0, e_rows = map (new_entry_row len) [0..<len]\<rparr>)"

definition entry_claim ::
  "('st, 'memo, 'rt) entryArena \<Rightarrow> (EntryRef \<times> ('st, 'memo, 'rt) entryArena) option" where
  "entry_claim a =
    (if e_freeHead a = noRef then None
     else let i = e_freeHead a; row = e_rows a ! unat i in
       Some (\<lparr>ref_index = i, ref_generation = e_generation row\<rparr>,
             a\<lparr>e_freeHead := e_nextFree row,
               e_rows := (e_rows a)[unat i := row\<lparr>e_nextFree := noRef, e_occupied := 1\<rparr>]\<rparr>))"

definition entry_valid :: "('st, 'memo, 'rt) entryArena \<Rightarrow> EntryRef \<Rightarrow> bool" where
  "entry_valid a r \<longleftrightarrow> unat (ref_index r) < length (e_rows a) \<and>
     e_occupied (e_rows a ! unat (ref_index r)) \<noteq> 0 \<and>
     e_generation (e_rows a ! unat (ref_index r)) = ref_generation r"

definition entry_release ::
  "('st, 'memo, 'rt) entryArena \<Rightarrow> EntryRef \<Rightarrow> ('st, 'memo, 'rt) entryArena option" where
  "entry_release a r =
    (if \<not> entry_valid a r \<or> e_generation (e_rows a ! unat (ref_index r)) = -1 then None
     else let i = ref_index r; row = e_rows a ! unat i in
       Some (a\<lparr>e_rows := (e_rows a)[unat i :=
                 \<lparr>e_occupied = 0, e_kind = 0, e_flags = 0, e_generation = e_generation row + 1,
                  e_nextFree = e_freeHead a,
                  e_lineage = noRef, e_parent = noRef, e_successor = noRef, e_page = 0,
                  e_state = None, e_memo = None, e_runtime = None,
                  e_stateBytes = 0, e_memoBytes = 0\<rparr>],
               e_freeHead := i\<rparr>))"

section \<open>The lineage arena\<close>

record ('root, 'sh) lineage_row =
  l_occupied :: uint8
  l_flags :: uint16
  l_generation :: uint32
  l_nextFree :: arenaRef
  l_lruPrev :: arenaRef
  l_lruNext :: arenaRef
  l_entryHead :: arenaRef
  l_pins :: uint32
  l_resident :: uint32
  l_tombstones :: uint32
  l_id :: uint64
  l_createdAt :: int64
  l_workExpiresAt :: int64
  l_commitDeadline :: int64
  l_protectedUntil :: int64
  l_reservedSlots :: uint64
  l_reservedBytes :: uint64
  l_dynamicBytes :: uint64
  l_root :: "'root option"
  l_shared :: "'sh option"
  l_sharedBytes :: uint64

record ('root, 'sh) lineageArena =
  l_freeHead :: arenaRef
  l_lruHead :: arenaRef
  l_lruTail :: arenaRef
  l_rows :: "('root, 'sh) lineage_row list"

definition blank_lineage_row :: "uint32 \<Rightarrow> arenaRef \<Rightarrow> ('root, 'sh) lineage_row" where
  "blank_lineage_row gen next_free =
    \<lparr>l_occupied = 0, l_flags = 0, l_generation = gen, l_nextFree = next_free,
     l_lruPrev = noRef, l_lruNext = noRef, l_entryHead = noRef,
     l_pins = 0, l_resident = 0, l_tombstones = 0, l_id = 0,
     l_createdAt = 0, l_workExpiresAt = 0, l_commitDeadline = 0, l_protectedUntil = 0,
     l_reservedSlots = 0, l_reservedBytes = 0, l_dynamicBytes = 0,
     l_root = None, l_shared = None, l_sharedBytes = 0\<rparr>"

definition newLineageArena :: "uint64 \<Rightarrow> cursor_error + ('root, 'sh) lineageArena" where
  "newLineageArena sz = bind_sum (fixedLength sz) (\<lambda>len.
     Inr \<lparr>l_freeHead = 0, l_lruHead = noRef, l_lruTail = noRef,
          l_rows = map (\<lambda>i. blank_lineage_row 1 (if i + 1 < len then of_nat (i + 1) else noRef))
                     [0..<len]\<rparr>)"

definition lineage_claim ::
  "('root, 'sh) lineageArena \<Rightarrow> (lineageRef \<times> ('root, 'sh) lineageArena) option" where
  "lineage_claim a =
    (if l_freeHead a = noRef then None
     else let i = l_freeHead a; row = l_rows a ! unat i in
       Some (\<lparr>ref_index = i, ref_generation = l_generation row\<rparr>,
             a\<lparr>l_freeHead := l_nextFree row,
               l_rows := (l_rows a)[unat i := row\<lparr>l_nextFree := noRef, l_occupied := 1\<rparr>]\<rparr>))"

definition lineage_valid :: "('root, 'sh) lineageArena \<Rightarrow> lineageRef \<Rightarrow> bool" where
  "lineage_valid a r \<longleftrightarrow> unat (ref_index r) < length (l_rows a) \<and>
     l_occupied (l_rows a ! unat (ref_index r)) \<noteq> 0 \<and>
     l_generation (l_rows a ! unat (ref_index r)) = ref_generation r"

definition lineage_release ::
  "('root, 'sh) lineageArena \<Rightarrow> lineageRef \<Rightarrow> ('root, 'sh) lineageArena option" where
  "lineage_release a r =
    (if \<not> lineage_valid a r \<or> l_generation (l_rows a ! unat (ref_index r)) = -1 then None
     else let i = ref_index r; row = l_rows a ! unat i in
       Some (a\<lparr>l_rows := (l_rows a)[unat i :=
                 blank_lineage_row (l_generation row + 1) (l_freeHead a)],
               l_freeHead := i\<rparr>))"

section \<open>The common view\<close>

record arena_view =
  v_head :: arenaRef
  v_occ :: "bool list"
  v_gen :: "uint32 list"
  v_next :: "arenaRef list"

definition view_claim :: "arena_view \<Rightarrow> (arena_ref \<times> arena_view) option" where
  "view_claim v =
    (if v_head v = noRef then None
     else let i = v_head v in
       Some (\<lparr>ref_index = i, ref_generation = v_gen v ! unat i\<rparr>,
             v\<lparr>v_head := v_next v ! unat i, v_next := (v_next v)[unat i := noRef],
               v_occ := (v_occ v)[unat i := True]\<rparr>))"

definition view_valid :: "arena_view \<Rightarrow> arena_ref \<Rightarrow> bool" where
  "view_valid v r \<longleftrightarrow> unat (ref_index r) < length (v_occ v) \<and> v_occ v ! unat (ref_index r) \<and>
     v_gen v ! unat (ref_index r) = ref_generation r"

definition view_release :: "arena_view \<Rightarrow> arena_ref \<Rightarrow> arena_view option" where
  "view_release v r =
    (if \<not> view_valid v r \<or> ref_generation r = -1 then None
     else let i = ref_index r in
       Some (v\<lparr>v_occ := (v_occ v)[unat i := False], v_gen := (v_gen v)[unat i := v_gen v ! unat i + 1],
               v_next := (v_next v)[unat i := v_head v], v_head := i\<rparr>))"

fun free_chain :: "arenaRef list \<Rightarrow> arenaRef \<Rightarrow> nat list \<Rightarrow> bool" where
  "free_chain nxt h [] \<longleftrightarrow> h = noRef"
| "free_chain nxt h (i # is) \<longleftrightarrow> h \<noteq> noRef \<and> unat h = i \<and> free_chain nxt (nxt ! i) is"

definition view_inv :: "arena_view \<Rightarrow> bool" where
  "view_inv v \<longleftrightarrow> length (v_gen v) = length (v_occ v) \<and> length (v_next v) = length (v_occ v) \<and>
     length (v_occ v) < 2 ^ 32 \<and>
     (\<exists>fs. free_chain (v_next v) (v_head v) fs \<and> distinct fs \<and>
        set fs = {i. i < length (v_occ v) \<and> \<not> v_occ v ! i})"

definition view_live :: "arena_view \<Rightarrow> nat set" where
  "view_live v = {i. i < length (v_occ v) \<and> v_occ v ! i}"

text \<open>A reference is retired once the row's generation has passed it.\<close>

definition view_retired :: "arena_view \<Rightarrow> arena_ref \<Rightarrow> bool" where
  "view_retired v r \<longleftrightarrow> unat (ref_generation r) < unat (v_gen v ! unat (ref_index r)) \<and>
     unat (ref_index r) < length (v_gen v)"

lemma free_chain_update:
  "i \<notin> set fs \<Longrightarrow> free_chain (nxt[i := x]) h fs = free_chain nxt h fs"
  by (induction fs arbitrary: h) auto

lemma unat_noRef: "unat noRef = 2 ^ 32 - 1"
  by (simp add: noRef_def unsigned_minus_1_eq_mask mask_eq_exp_minus_1)

lemma view_claim_None:
  assumes "view_inv v"
  shows "view_claim v = None \<longleftrightarrow> view_live v = {..<length (v_occ v)}"
proof -
  obtain fs where fs: "free_chain (v_next v) (v_head v) fs"
      "set fs = {i. i < length (v_occ v) \<and> \<not> v_occ v ! i}"
    using assms by (auto simp: view_inv_def)
  have "view_claim v = None \<longleftrightarrow> fs = []"
    using fs(1) by (cases fs) (auto simp: view_claim_def Let_def)
  also have "\<dots> \<longleftrightarrow> set fs = {}" by simp
  also have "\<dots> \<longleftrightarrow> view_live v = {..<length (v_occ v)}"
    unfolding fs(2) view_live_def by auto
  finally show ?thesis .
qed

lemma view_claim_Some:
  assumes inv: "view_inv v" and cl: "view_claim v = Some (r, v')"
  shows "view_inv v'" "\<not> view_valid v r" "view_valid v' r' \<longleftrightarrow> r' = r \<or> view_valid v r'"
    "view_live v' = insert (unat (ref_index r)) (view_live v)" "unat (ref_index r) \<notin> view_live v"
    "length (v_occ v') = length (v_occ v)" "v_gen v' = v_gen v" "\<not> view_retired v r"
proof -
  obtain fs where fs: "free_chain (v_next v) (v_head v) fs" "distinct fs"
      "set fs = {i. i < length (v_occ v) \<and> \<not> v_occ v ! i}"
      and len: "length (v_gen v) = length (v_occ v)" "length (v_next v) = length (v_occ v)"
        "length (v_occ v) < 2 ^ 32"
    using inv by (auto simp: view_inv_def)
  have head: "v_head v \<noteq> noRef" and r: "r = \<lparr>ref_index = v_head v, ref_generation = v_gen v ! unat (v_head v)\<rparr>"
    and v': "v' = v\<lparr>v_head := v_next v ! unat (v_head v),
      v_next := (v_next v)[unat (v_head v) := noRef], v_occ := (v_occ v)[unat (v_head v) := True]\<rparr>"
    using cl by (auto simp: view_claim_def Let_def split: if_splits)
  obtain gs where gs: "fs = unat (v_head v) # gs" "free_chain (v_next v) (v_next v ! unat (v_head v)) gs"
    using fs(1) head by (cases fs) auto
  let ?i = "unat (v_head v)"
  have i: "?i < length (v_occ v)" "\<not> v_occ v ! ?i" "?i \<notin> set gs" using fs gs by auto
  have "free_chain (v_next v') (v_head v') gs" using gs i by (simp add: v' free_chain_update)
  moreover have "set gs = {j. j < length (v_occ v') \<and> \<not> v_occ v' ! j}"
  proof -
    have "set gs = set fs - {?i}" using fs(2) gs(1) by auto
    then show ?thesis unfolding fs(3) using i(1) by (auto simp: v' nth_list_update)
  qed
  moreover have "distinct gs" using fs(2) gs(1) by simp
  moreover have "length (v_gen v') = length (v_occ v')" "length (v_next v') = length (v_occ v')"
    "length (v_occ v') < 2 ^ 32"
    using len by (simp_all add: v')
  ultimately show "view_inv v'" unfolding view_inv_def by blast
  show "\<not> view_valid v r" "unat (ref_index r) \<notin> view_live v" "length (v_occ v') = length (v_occ v)"
    "v_gen v' = v_gen v" "\<not> view_retired v r"
    using i by (simp_all add: view_valid_def r v' view_live_def view_retired_def)
  show "view_live v' = insert (unat (ref_index r)) (view_live v)"
    using i by (auto simp: view_live_def r v' nth_list_update)
  show "view_valid v' r' \<longleftrightarrow> r' = r \<or> view_valid v r'"
    using i by (cases r')
      (auto simp: view_valid_def r v' nth_list_update dest: word_unat_eq_iff [THEN iffD2])
qed

lemma view_release_Some:
  assumes inv: "view_inv v" and rel: "view_release v r = Some v'"
  shows "view_inv v'" "view_valid v r" "view_valid v' r' \<longleftrightarrow> view_valid v r' \<and> r' \<noteq> r"
    "view_live v' = view_live v - {unat (ref_index r)}"
    "length (v_occ v') = length (v_occ v)" "view_retired v' r"
    "view_retired v r' \<Longrightarrow> view_retired v' r'"
proof -
  obtain fs where fs: "free_chain (v_next v) (v_head v) fs" "distinct fs"
      "set fs = {i. i < length (v_occ v) \<and> \<not> v_occ v ! i}"
      and len: "length (v_gen v) = length (v_occ v)" "length (v_next v) = length (v_occ v)"
        "length (v_occ v) < 2 ^ 32"
    using inv by (auto simp: view_inv_def)
  let ?i = "unat (ref_index r)"
  have val: "view_valid v r" and top: "ref_generation r \<noteq> -1"
    and v': "v' = v\<lparr>v_occ := (v_occ v)[?i := False], v_gen := (v_gen v)[?i := v_gen v ! ?i + 1],
      v_next := (v_next v)[?i := v_head v], v_head := ref_index r\<rparr>"
    using rel by (auto simp: view_release_def Let_def split: if_splits)
  have i: "?i < length (v_occ v)" "v_occ v ! ?i" "v_gen v ! ?i = ref_generation r"
    using val by (auto simp: view_valid_def)
  have "ref_index r \<noteq> noRef" using i(1) len(3) by (auto simp: unat_noRef)
  moreover have "?i \<notin> set fs" using fs i by auto
  ultimately have chain: "free_chain (v_next v') (v_head v') (?i # fs)"
    using fs i len by (simp add: v' free_chain_update)
  have "set (?i # fs) = {j. j < length (v_occ v') \<and> \<not> v_occ v' ! j}"
    using fs(3) i by (auto simp: v' nth_list_update)
  then show "view_inv v'"
    unfolding view_inv_def using len fs(2) chain \<open>?i \<notin> set fs\<close>
    by (intro conjI exI [of _ "?i # fs"]) (simp_all add: v')
  have gen: "unat (ref_generation r + 1) = unat (ref_generation r) + 1"
    using top by (metis add.commute unatSuc add_eq_0_iff plus_1_eq_Suc)
  show "view_valid v r" by (rule val)
  show "view_live v' = view_live v - {?i}" "length (v_occ v') = length (v_occ v)"
    using i by (auto simp: view_live_def v' nth_list_update split: if_splits)
  show "view_retired v' r" using i gen len by (simp add: view_retired_def v')
  show "view_valid v' r' \<longleftrightarrow> view_valid v r' \<and> r' \<noteq> r"
    using i by (cases r; cases r')
      (auto simp: view_valid_def v' nth_list_update dest: word_unat_eq_iff [THEN iffD2])
  show "view_retired v r' \<Longrightarrow> view_retired v' r'"
    using i gen len by (cases "unat (ref_index r') = ?i") (auto simp: view_retired_def v')
qed

section \<open>The arena contract\<close>

datatype arena_op = Claim | Release arena_ref

fun arena_step ::
  "('a \<Rightarrow> (arena_ref \<times> 'a) option) \<Rightarrow> ('a \<Rightarrow> arena_ref \<Rightarrow> 'a option) \<Rightarrow> arena_op \<Rightarrow> 'a \<Rightarrow> 'a" where
  "arena_step claim release Claim a = (case claim a of None \<Rightarrow> a | Some (r, a') \<Rightarrow> a')"
| "arena_step claim release (Release r) a = (case release a r of None \<Rightarrow> a | Some a' \<Rightarrow> a')"

locale generational_arena =
  fixes view :: "'a \<Rightarrow> arena_view"
    and claim :: "'a \<Rightarrow> (arena_ref \<times> 'a) option"
    and valid :: "'a \<Rightarrow> arena_ref \<Rightarrow> bool"
    and release :: "'a \<Rightarrow> arena_ref \<Rightarrow> 'a option"
  assumes claim_view: "view_inv (view a) \<Longrightarrow> map_option (\<lambda>(r, a'). (r, view a')) (claim a) = view_claim (view a)"
    and valid_view: "valid a r \<longleftrightarrow> view_valid (view a) r"
    and release_view: "map_option view (release a r) = view_release (view a) r"
begin

lemma claim_Some:
  assumes inv: "view_inv (view a)" and cl: "claim a = Some (r, a')"
  shows "view_inv (view a')" "\<not> valid a r" "valid a' r' \<longleftrightarrow> r' = r \<or> valid a r'"
    "view_live (view a') = insert (unat (ref_index r)) (view_live (view a))"
    "unat (ref_index r) \<notin> view_live (view a)"
    "length (v_occ (view a')) = length (v_occ (view a))"
    "view_retired (view a) r' \<Longrightarrow> view_retired (view a') r'"
proof -
  have "view_claim (view a) = Some (r, view a')" using cl claim_view [OF inv] by simp
  note facts = view_claim_Some [OF inv this]
  show "view_inv (view a')" "\<not> valid a r" "valid a' r' \<longleftrightarrow> r' = r \<or> valid a r'"
    "view_live (view a') = insert (unat (ref_index r)) (view_live (view a))"
    "unat (ref_index r) \<notin> view_live (view a)"
    "length (v_occ (view a')) = length (v_occ (view a))"
    using facts(1-6) by (simp_all add: valid_view)
  show "view_retired (view a) r' \<Longrightarrow> view_retired (view a') r'"
    using facts(7) by (simp add: view_retired_def)
qed

lemma claim_None:
  assumes "view_inv (view a)"
  shows "claim a = None \<longleftrightarrow> view_live (view a) = {..<length (v_occ (view a))}"
  using view_claim_None [OF assms] claim_view [OF assms] by (metis option.map_disc_iff)

lemma release_Some:
  assumes inv: "view_inv (view a)" and rel: "release a r = Some a'"
  shows "view_inv (view a')" "valid a r" "valid a' r' \<longleftrightarrow> valid a r' \<and> r' \<noteq> r"
    "view_live (view a') = view_live (view a) - {unat (ref_index r)}"
    "length (v_occ (view a')) = length (v_occ (view a))"
    "view_retired (view a') r" "view_retired (view a) r' \<Longrightarrow> view_retired (view a') r'"
proof -
  have "view_release (view a) r = Some (view a')" using rel release_view [of a r] by simp
  note facts = view_release_Some [OF inv this]
  show "view_inv (view a')" "valid a r" "valid a' r' \<longleftrightarrow> valid a r' \<and> r' \<noteq> r"
    "view_live (view a') = view_live (view a) - {unat (ref_index r)}"
    "length (v_occ (view a')) = length (v_occ (view a))"
    "view_retired (view a') r" "view_retired (view a) r' \<Longrightarrow> view_retired (view a') r'"
    using facts by (simp_all add: valid_view)
qed

lemma retired_not_valid: "view_retired (view a) r \<Longrightarrow> \<not> valid a r"
  by (auto simp: valid_view view_valid_def view_retired_def)

lemma run_inv:
  assumes "view_inv (view a)"
  shows "view_inv (view (fold (arena_step claim release) ops a)) \<and>
    length (v_occ (view (fold (arena_step claim release) ops a))) = length (v_occ (view a)) \<and>
    (view_retired (view a) r \<longrightarrow> view_retired (view (fold (arena_step claim release) ops a)) r)"
  using assms
proof (induction ops arbitrary: a)
  case (Cons opn ops)
  let ?a = "arena_step claim release opn a"
  have "view_inv (view ?a) \<and> length (v_occ (view ?a)) = length (v_occ (view a)) \<and>
      (view_retired (view a) r \<longrightarrow> view_retired (view ?a) r)"
    using Cons.prems claim_Some [OF Cons.prems] release_Some [OF Cons.prems]
    by (cases opn) (auto split: option.splits)
  then show ?case using Cons.IH [of ?a] by simp
qed simp

lemma stale_forever:
  assumes "view_inv (view a)" "release a r = Some a'"
  shows "\<not> valid (fold (arena_step claim release) ops a') r"
  using retired_not_valid run_inv [OF release_Some(1) [OF assms], of ops r] release_Some(6) [OF assms]
  by blast

end

definition entry_view :: "('st, 'memo, 'rt) entryArena \<Rightarrow> arena_view" where
  "entry_view a = \<lparr>v_head = e_freeHead a, v_occ = map (\<lambda>r. e_occupied r \<noteq> 0) (e_rows a),
     v_gen = map e_generation (e_rows a), v_next = map e_nextFree (e_rows a)\<rparr>"

definition lineage_view :: "('root, 'sh) lineageArena \<Rightarrow> arena_view" where
  "lineage_view a = \<lparr>v_head = l_freeHead a, v_occ = map (\<lambda>r. l_occupied r \<noteq> 0) (l_rows a),
     v_gen = map l_generation (l_rows a), v_next = map l_nextFree (l_rows a)\<rparr>"

lemma view_head_less:
  assumes "view_inv v" "v_head v \<noteq> noRef"
  shows "unat (v_head v) < length (v_occ v)"
proof -
  obtain fs where "free_chain (v_next v) (v_head v) fs"
      "set fs = {i. i < length (v_occ v) \<and> \<not> v_occ v ! i}"
    using assms(1) by (auto simp: view_inv_def)
  then show ?thesis using assms(2) by (cases fs) auto
qed

interpretation entries: generational_arena entry_view entry_claim entry_valid entry_release
proof
  fix a :: "('a, 'b, 'c) entryArena" and r :: arena_ref
  show "map_option (\<lambda>(r, a'). (r, entry_view a')) (entry_claim a) = view_claim (entry_view a)"
    if "view_inv (entry_view a)"
    using view_head_less [OF that]
    by (auto simp: entry_claim_def view_claim_def entry_view_def Let_def map_update map_update_same)
  show "entry_valid a r \<longleftrightarrow> view_valid (entry_view a) r"
    by (auto simp: entry_valid_def view_valid_def entry_view_def)
  then show "map_option entry_view (entry_release a r) = view_release (entry_view a) r"
    by (auto simp: entry_release_def view_release_def entry_valid_def entry_view_def Let_def map_update map_update_same)
qed

interpretation lineages: generational_arena lineage_view lineage_claim lineage_valid lineage_release
proof
  fix a :: "('a, 'b) lineageArena" and r :: arena_ref
  show "map_option (\<lambda>(r, a'). (r, lineage_view a')) (lineage_claim a) = view_claim (lineage_view a)"
    if "view_inv (lineage_view a)"
    using view_head_less [OF that]
    by (auto simp: lineage_claim_def view_claim_def lineage_view_def Let_def map_update map_update_same)
  show "lineage_valid a r \<longleftrightarrow> view_valid (lineage_view a) r"
    by (auto simp: lineage_valid_def view_valid_def lineage_view_def)
  then show "map_option lineage_view (lineage_release a r) = view_release (lineage_view a) r"
    by (auto simp: lineage_release_def view_release_def lineage_valid_def lineage_view_def
        blank_lineage_row_def Let_def map_update)
qed

section \<open>Fresh arenas\<close>

lemma free_chain_upt:
  assumes "i < n" "n < 2 ^ 32"
    and nxt: "\<And>i. i + 1 < n \<Longrightarrow> nxt ! i = of_nat (i + 1)" "nxt ! (n - 1) = noRef"
  shows "free_chain nxt (of_nat i) [i..<n]"
  using assms(1)
proof (induction "n - i" arbitrary: i)
  case (Suc d)
  have u: "unat (of_nat i :: arenaRef) = i"
    using Suc.prems assms(2) by (intro unat_of_nat_small) simp
  then have ne: "of_nat i \<noteq> noRef" using Suc.prems assms(2) unat_noRef by auto
  have tl: "free_chain nxt (nxt ! i) [Suc i..<n]"
  proof (cases "i + 1 < n")
    case True
    then have "free_chain nxt (of_nat (i + 1)) [i + 1..<n]" using Suc by (intro Suc.hyps(1)) auto
    then show ?thesis using nxt(1) [OF True] by simp
  next
    case False
    then have "n = Suc i" using Suc.prems by simp
    then show ?thesis using nxt(2) by simp
  qed
  have "[i..<n] = i # [Suc i..<n]" using Suc.prems by (rule upt_conv_Cons)
  then show ?case using tl u ne by (simp only: free_chain.simps) simp
qed simp

lemma fresh_view:
  assumes "0 < n" "n < 2 ^ 32"
  shows "view_inv \<lparr>v_head = 0, v_occ = replicate n False, v_gen = replicate n 1,
     v_next = map (\<lambda>i. if i + 1 < n then of_nat (i + 1) else noRef) [0..<n]\<rparr>"
proof -
  let ?nxt = "map (\<lambda>i. if i + 1 < n then of_nat (i + 1) else noRef) [0..<n]"
  have "free_chain ?nxt (of_nat 0) [0..<n]"
    using assms by (intro free_chain_upt) simp_all
  moreover have "(of_nat 0 :: arenaRef) = 0" by simp
  ultimately have "free_chain ?nxt 0 [0..<n]" by metis
  moreover have "set [0..<n] = {i. i < n \<and> \<not> replicate n False ! i}" by auto
  ultimately show ?thesis using assms(2) unfolding view_inv_def
    by (intro conjI exI [of _ "[0..<n]"]) simp_all
qed

lemma newEntryArena_view:
  assumes "newEntryArena sz = Inr a"
  shows "view_inv (entry_view a)" "view_live (entry_view a) = {}"
    "length (v_occ (entry_view a)) = unat sz"
proof -
  have n: "0 < unat sz" "unat sz < 2 ^ 32" and a: "a = \<lparr>e_freeHead = 0, e_rows = map (new_entry_row (unat sz)) [0..<unat sz]\<rparr>"
    using assms by (auto simp: newEntryArena_def bind_sum_Inr fixedLength_Inr)
  then have v: "entry_view a = \<lparr>v_head = 0, v_occ = replicate (unat sz) False, v_gen = replicate (unat sz) 1,
     v_next = map (\<lambda>i. if i + 1 < unat sz then of_nat (i + 1) else noRef) [0..<unat sz]\<rparr>"
    by (simp add: entry_view_def new_entry_row_def comp_def map_replicate_const)
  show "view_inv (entry_view a)" unfolding v using n by (rule fresh_view)
  show "view_live (entry_view a) = {}" "length (v_occ (entry_view a)) = unat sz"
    by (simp_all add: v view_live_def)
qed

lemma newLineageArena_view:
  assumes "newLineageArena sz = Inr a"
  shows "view_inv (lineage_view a)" "view_live (lineage_view a) = {}"
    "length (v_occ (lineage_view a)) = unat sz"
proof -
  have n: "0 < unat sz" "unat sz < 2 ^ 32" and a: "a = \<lparr>l_freeHead = 0, l_lruHead = noRef, l_lruTail = noRef,
      l_rows = map (\<lambda>i. blank_lineage_row 1 (if i + 1 < unat sz then of_nat (i + 1) else noRef)) [0..<unat sz]\<rparr>"
    using assms by (auto simp: newLineageArena_def bind_sum_Inr fixedLength_Inr)
  then have v: "lineage_view a = \<lparr>v_head = 0, v_occ = replicate (unat sz) False, v_gen = replicate (unat sz) 1,
     v_next = map (\<lambda>i. if i + 1 < unat sz then of_nat (i + 1) else noRef) [0..<unat sz]\<rparr>"
    by (simp add: lineage_view_def blank_lineage_row_def comp_def map_replicate_const)
  show "view_inv (lineage_view a)" unfolding v using n by (rule fresh_view)
  show "view_live (lineage_view a) = {}" "length (v_occ (lineage_view a)) = unat sz"
    by (simp_all add: v view_live_def)
qed

text \<open>C3. A reference to a cursor entry is dead for ever once it has been released: whatever
  claims and releases follow on the arena, also when its row is claimed again and again, the old
  reference is never valid, because the generation of a row only grows and a row whose generation
  is exhausted is never given out again.\<close>

theorem entry_ref_never_revives:
  assumes "newEntryArena sz = Inr a0"
    and "entry_release (fold (arena_step entry_claim entry_release) before a0) r = Some a"
  shows "\<not> entry_valid (fold (arena_step entry_claim entry_release) after a) r"
proof -
  have "view_inv (entry_view (fold (arena_step entry_claim entry_release) before a0))"
    using entries.run_inv [OF newEntryArena_view(1) [OF assms(1)], of before r] by (rule conjunct1)
  then show ?thesis using assms(2) by (rule entries.stale_forever)
qed

lemma entry_ref_never_revives_witness:
  "\<exists>a0 a :: (nat, nat, nat) entryArena. newEntryArena 2 = Inr a0 \<and>
     entry_release (fold (arena_step entry_claim entry_release) [Claim, Claim] a0)
       \<lparr>ref_index = 0, ref_generation = 1\<rparr> = Some a \<and>
     \<not> entry_valid (fold (arena_step entry_claim entry_release) [Claim] a)
       \<lparr>ref_index = 0, ref_generation = 1\<rparr>"
proof -
  let ?a0 = "\<lparr>e_freeHead = 0, e_rows = map (new_entry_row 2) [0..<2]\<rparr> :: (nat, nat, nat) entryArena"
  let ?r = "\<lparr>ref_index = 0, ref_generation = 1\<rparr>"
  have new: "newEntryArena 2 = Inr ?a0"
    using fixedLength_Inr [of 2 2] by (simp add: newEntryArena_def)
  have "entry_release (fold (arena_step entry_claim entry_release) [Claim, Claim] ?a0) ?r \<noteq> None"
    by (simp add: entry_claim_def new_entry_row_def entry_release_def entry_valid_def Let_def
        noRef_def upt_rec)
  then show ?thesis using entry_ref_never_revives [OF new, of "[Claim, Claim]" ?r _ "[Claim]"] new
    by blast
qed

text \<open>C4. Claims never hand out a row that is in use and fail exactly when none is free: on every
  reachable lineage arena a claim fails iff all rows are live; otherwise the new reference was not
  valid before, afterwards exactly it and the references valid before are valid, and it takes one
  more row.\<close>

theorem lineage_claim_exact:
  assumes "newLineageArena sz = Inr a0"
    and "a = fold (arena_step lineage_claim lineage_release) ops a0"
  shows "case lineage_claim a of
     None \<Rightarrow> view_live (lineage_view a) = {..<unat sz}
   | Some (r, a') \<Rightarrow> \<not> lineage_valid a r \<and>
       (\<forall>r'. lineage_valid a' r' \<longleftrightarrow> r' = r \<or> lineage_valid a r') \<and>
       view_live (lineage_view a') = insert (unat (ref_index r)) (view_live (lineage_view a)) \<and>
       unat (ref_index r) \<notin> view_live (lineage_view a) \<and>
       view_live (lineage_view a) \<noteq> {..<unat sz}"
proof -
  have inv: "view_inv (lineage_view a)" and len: "length (v_occ (lineage_view a)) = unat sz"
    using lineages.run_inv [OF newLineageArena_view(1) [OF assms(1)], of ops]
      newLineageArena_view(3) [OF assms(1)] assms(2) by auto
  show ?thesis
    using lineages.claim_None [OF inv] lineages.claim_Some [OF inv] len
    by (auto split: option.split)
qed

lemma lineage_claim_exact_witness:
  "\<exists>a0 a' :: (nat, nat) lineageArena. newLineageArena 1 = Inr a0 \<and>
     (\<exists>r. lineage_claim (fold (arena_step lineage_claim lineage_release) [] a0) = Some (r, a') \<and>
       \<not> lineage_valid a0 r \<and> lineage_valid a' r)"
proof -
  let ?a0 = "\<lparr>l_freeHead = 0, l_lruHead = noRef, l_lruTail = noRef,
      l_rows = [blank_lineage_row 1 noRef]\<rparr> :: (nat, nat) lineageArena"
  have new: "newLineageArena 1 = Inr ?a0"
    using fixedLength_Inr [of 1 1] by (simp add: newLineageArena_def)
  have "lineage_claim ?a0 \<noteq> None" by (simp add: lineage_claim_def noRef_def Let_def)
  then show ?thesis using lineage_claim_exact [OF new refl, of "[]"] new
    by (auto split: option.splits)
qed

end
