(* ===== verification/CursorAccounting.thy ===== *)
theory CursorAccounting
  imports CursorArena
begin

text \<open>
  The checked \<open>uint64\<close> accounting of \<open>src/internal/cursor/accounting.go\<close>: overflow
  tests, power-of-two table sizes and the complete fixed layout of one registry.
  The target is a 64-bit one (\<open>bits.UintSize = 64\<close>).
\<close>

section \<open>Checked arithmetic\<close>

definition checkedAdd :: "uint64 \<Rightarrow> uint64 \<Rightarrow> cursor_error + uint64" where
  "checkedAdd left right = (if right > (-1) - left then Inl AccountingOverflow else Inr (left + right))"

definition checkedMul :: "uint64 \<Rightarrow> uint64 \<Rightarrow> cursor_error + uint64" where
  "checkedMul left right =
    (if left \<noteq> 0 \<and> right > (-1) div left then Inl AccountingOverflow else Inr (left * right))"

definition roundUp :: "uint64 \<Rightarrow> uint64 \<Rightarrow> uint64" where
  "roundUp val alignment = and (val + alignment - 1) (not (alignment - 1))"

text \<open>\<open>bits.Len64\<close>: the number of bits needed to write the value.\<close>

fun bit_len :: "nat \<Rightarrow> nat" where
  "bit_len n = (if n = 0 then 0 else Suc (bit_len (n div 2)))"

declare bit_len.simps [simp del]

definition nextPowerOfTwo :: "uint64 \<Rightarrow> cursor_error + uint64" where
  "nextPowerOfTwo val =
    (if val = 0 then Inl AccountingOverflow
     else if and val (val - 1) = 0 then Inr val
     else let shift = bit_len (unat val) in
       if shift \<ge> 64 then Inl AccountingOverflow else Inr (push_bit shift 1))"

section \<open>Accounting records\<close>

record EntryAccounting =
  ea_StateBytes :: uint64
  ea_MemoBytes :: uint64

record LineageAccounting =
  la_Resident :: uint64
  la_Tombstones :: uint64
  la_ReservedSlots :: uint64
  la_EntryBytes :: uint64
  la_SharedBytes :: uint64
  la_RootBytes :: uint64
  la_ReservedBytes :: uint64

definition EntryBytes :: "EntryAccounting \<Rightarrow> cursor_error + uint64" where
  "EntryBytes a = checkedAdd (ea_StateBytes a) (ea_MemoBytes a)"

definition LineageBytes :: "LineageAccounting \<Rightarrow> cursor_error + uint64" where
  "LineageBytes a =
    bind_sum (checkedAdd (la_EntryBytes a) (la_SharedBytes a)) (\<lambda>tot.
    bind_sum (checkedAdd tot (la_RootBytes a)) (\<lambda>tot.
    checkedAdd tot (la_ReservedBytes a)))"

definition UsedSlots :: "LineageAccounting \<Rightarrow> cursor_error + uint64" where
  "UsedSlots a =
    bind_sum (checkedAdd (la_Resident a) (la_Tombstones a)) (\<lambda>tot.
    checkedAdd tot (la_ReservedSlots a))"

record Layout =
  MaxEntries :: uint64
  IndexSlots :: uint64
  WordBytes :: uint64
  TokenIndexBacking :: uint64
  LineageIndexBacking :: uint64
  EntryArenaBacking :: uint64
  LineageArenaBacking :: uint64
  SliceDescriptors :: uint64
  ScalarBytes :: uint64
  Total :: uint64

fun checked_sum :: "uint64 \<Rightarrow> uint64 list \<Rightarrow> cursor_error + uint64" where
  "checked_sum tot [] = Inr tot"
| "checked_sum tot (part # parts) =
    bind_sum (checkedAdd tot part) (\<lambda>tot. checked_sum tot parts)"

definition ContainerLayout :: "uint64 \<Rightarrow> cursor_error + Layout" where
  "ContainerLayout maxEntries =
    (if maxEntries = 0 \<or> maxEntries > (-1) div 2 then Inl AccountingOverflow
     else case nextPowerOfTwo (maxEntries * 2) of
       Inl e \<Rightarrow> Inl AccountingOverflow
     | Inr indexSlots \<Rightarrow>
       if indexSlots > maxIntValue then Inl AccountingOverflow
       else if maxEntries > maxIntValue then Inl AccountingOverflow
       else let wordBytes = 8 in
         bind_sum (checkedMul indexSlots 25) (\<lambda>tokenBacking.
         bind_sum (checkedMul indexSlots 17) (\<lambda>lineageBacking.
         bind_sum (checkedMul maxEntries (44 + 5 * wordBytes)) (\<lambda>entryBacking.
         bind_sum (checkedMul maxEntries (107 + 3 * wordBytes)) (\<lambda>arenaBacking.
         let slices = 43 * 3 * wordBytes;
             indexArenaScalars = roundUp 4 wordBytes * 3 + roundUp 12 wordBytes;
             registryScalars = 8 + 20 * 8 + 3 * wordBytes + 32 + 4 * wordBytes + 10 * 8 + 3 * 8 + 1 + 8;
             scalars = indexArenaScalars + roundUp registryScalars wordBytes in
         bind_sum (checked_sum 0 [tokenBacking, lineageBacking, entryBacking, arenaBacking,
             slices, scalars]) (\<lambda>tot.
         Inr \<lparr>MaxEntries = maxEntries, IndexSlots = indexSlots, WordBytes = wordBytes,
              TokenIndexBacking = tokenBacking, LineageIndexBacking = lineageBacking,
              EntryArenaBacking = entryBacking, LineageArenaBacking = arenaBacking,
              SliceDescriptors = slices, ScalarBytes = scalars, Total = tot\<rparr>))))))"

section \<open>Exactness\<close>

lemma checkedAdd_Inr:
  "checkedAdd a b = Inr c \<longleftrightarrow> unat a + unat b < 2 ^ 64 \<and> unat c = unat a + unat b"
proof -
  have "a \<le> -1" by simp
  then have "unat ((-1) - a) = 2 ^ 64 - 1 - unat a" by (simp only: unat_sub unat_max64)
  moreover have "unat a < 2 ^ 64" by (rule unat_less_64)
  ultimately have "b > (-1) - a \<longleftrightarrow> \<not> unat a + unat b < 2 ^ 64"
    by (auto simp: word_less_nat_alt)
  moreover have "unat a + unat b < 2 ^ 64 \<Longrightarrow> unat (a + b) = unat a + unat b"
    by (simp add: unat_word_ariths)
  ultimately show ?thesis
    by (auto simp: checkedAdd_def word_unat_eq_iff)
qed

lemma checkedMul_Inr:
  "checkedMul a b = Inr c \<longleftrightarrow> unat a * unat b < 2 ^ 64 \<and> unat c = unat a * unat b"
proof (cases "a = 0")
  case True
  then have "checkedMul a b = Inr c \<longleftrightarrow> c = 0" by (auto simp: checkedMul_def)
  then show ?thesis using True by (simp add: unat_eq_zero)
next
  case False
  then have pos: "0 < unat a" by (simp add: unat_gt_0)
  have "unat ((-1) div a) = (2 ^ 64 - 1) div unat a" by (simp only: unat_div unat_max64)
  then have "b > (-1) div a \<longleftrightarrow> (2 ^ 64 - 1) div unat a < unat b" by (simp only: word_less_nat_alt)
  also have "\<dots> \<longleftrightarrow> \<not> unat b * unat a \<le> 2 ^ 64 - 1"
    using less_eq_div_iff_mult_less_eq [OF pos, of "unat b" "2 ^ 64 - 1"] by linarith
  finally have "b > (-1) div a \<longleftrightarrow> \<not> unat a * unat b < 2 ^ 64" by (auto simp: mult.commute)
  moreover have "unat a * unat b < 2 ^ 64 \<Longrightarrow> unat (a * b) = unat a * unat b"
    by (simp add: unat_word_ariths)
  ultimately show ?thesis using False by (auto simp: checkedMul_def word_unat_eq_iff)
qed

lemma bit_len_bounds: "0 < n \<Longrightarrow> 2 ^ (bit_len n - 1) \<le> n \<and> n < 2 ^ bit_len n \<and> 0 < bit_len n"
proof (induction n rule: bit_len.induct)
  case (1 n)
  show ?case
  proof (cases "n div 2 = 0")
    case True
    then have "n = 1" using 1 by simp
    then show ?thesis by (simp add: bit_len.simps)
  next
    case False
    obtain k where k: "bit_len (n div 2) = Suc k" using 1 False by (cases "bit_len (n div 2)") auto
    have "2 ^ k \<le> n div 2" "n div 2 < 2 ^ Suc k" using 1 False k by auto
    then show ?thesis using 1(2) k by (simp add: bit_len.simps [of n]) linarith
  qed
qed

lemma checked_sum_Inr:
  "checked_sum t ps = Inr c \<Longrightarrow> unat c = unat t + sum_list (map unat ps)"
  by (induction ps arbitrary: t) (auto simp: bind_sum_Inr checkedAdd_Inr)

lemma nextPowerOfTwo_spec:
  "case nextPowerOfTwo v of
     Inl e \<Rightarrow> v = 0 \<or> 2 ^ 63 < unat v
   | Inr p \<Rightarrow> v \<noteq> 0 \<and> unat v \<le> 2 ^ 63 \<and>
      (\<exists>k. unat p = 2 ^ k \<and> unat v \<le> 2 ^ k \<and> (\<forall>j. unat v \<le> 2 ^ j \<longrightarrow> k \<le> j))"
proof (cases "v = 0")
  case True
  then show ?thesis by (simp add: nextPowerOfTwo_def)
next
  case False
  have lt: "unat v < 2 ^ 64" by (rule unat_less_64)
  show ?thesis
  proof (cases "and v (v - 1) = 0")
    case True
    then obtain k where k: "unat v = 2 ^ k" using word_and_pred_eq_0 [OF False] by blast
    then have "(2::nat) ^ k < 2 ^ 64" using lt by simp
    then have "k < 64" by (rule power_less_imp_less_exp [rotated]) simp
    then have "(2::nat) ^ k \<le> 2 ^ 63" by (intro power_increasing) simp_all
    moreover have "\<And>j. (2::nat) ^ k \<le> 2 ^ j \<Longrightarrow> k \<le> j"
      by simp
    ultimately have "\<exists>k. unat v = 2 ^ k \<and> unat v \<le> 2 ^ k \<and> (\<forall>j. unat v \<le> 2 ^ j \<longrightarrow> k \<le> j)"
      "unat v \<le> 2 ^ 63"
      using k by auto
    moreover have "nextPowerOfTwo v = Inr v" using True False by (simp add: nextPowerOfTwo_def)
    ultimately show ?thesis using False by simp
  next
    case np: False
    let ?s = "bit_len (unat v)"
    have s: "2 ^ (?s - 1) \<le> unat v" "unat v < 2 ^ ?s" "0 < ?s"
      using bit_len_bounds [of "unat v"] False by (simp_all add: unat_gt_0)
    have "unat v \<noteq> 2 ^ (?s - 1)" using np word_and_pred_eq_0 [OF False] by auto
    then have s': "2 ^ (?s - 1) < unat v" using s(1) by simp
    show ?thesis
    proof (cases "64 \<le> ?s")
      case True
      then have "(2::nat) ^ 63 \<le> 2 ^ (?s - 1)" by (intro power_increasing) simp_all
      then show ?thesis using True False np s' by (simp add: nextPowerOfTwo_def)
    next
      case small: False
      have pw: "unat (push_bit ?s 1 :: uint64) = 2 ^ ?s"
      proof -
        have "(2::nat) ^ ?s < 2 ^ LENGTH(64)" using small by (intro power_strict_increasing) simp_all
        then have "unat (of_nat (2 ^ ?s) :: uint64) = 2 ^ ?s" by (rule unat_of_nat_small)
        then show ?thesis by simp
      qed
      have "(2::nat) ^ ?s \<le> 2 ^ 63" using small by (intro power_increasing) simp_all
      moreover have "?s \<le> j" if "unat v \<le> 2 ^ j" for j
      proof -
        have "(2::nat) ^ (?s - 1) < 2 ^ j" using s' that by (rule less_le_trans)
        then have "?s - 1 < j" by (rule power_less_imp_less_exp [rotated]) simp
        then show ?thesis by simp
      qed
      moreover have "nextPowerOfTwo v = Inr (push_bit ?s 1)"
        using small False np by (simp add: nextPowerOfTwo_def Let_def)
      ultimately show ?thesis using False s(2) pw by auto
    qed
  qed
qed



lemma container_layout:
  assumes "ContainerLayout m = Inr l"
  shows "MaxEntries l = m \<and> (\<exists>k. unat (IndexSlots l) = 2 ^ k) \<and>
    2 * unat m \<le> unat (IndexSlots l) \<and> unat (IndexSlots l) < 4 * unat m \<and>
    unat (Total l) = 42 * unat (IndexSlots l) + 215 * unat m + 1448"
proof -
  from assms obtain p where m: "m \<noteq> 0" "\<not> m > (-1) div 2" and p: "nextPowerOfTwo (m * 2) = Inr p"
    and slots: "MaxEntries l = m" "IndexSlots l = p"
    by (auto simp: ContainerLayout_def bind_sum_Inr Let_def split: if_splits sum.splits)
  from assms m p obtain ta la ea ra where parts: "checkedMul p 25 = Inr ta" "checkedMul p 17 = Inr la"
      "checkedMul m 84 = Inr ea" "checkedMul m 131 = Inr ra"
      "checked_sum 0 [ta, la, ea, ra, 1032, 416] = Inr (Total l)"
    by (auto simp: ContainerLayout_def bind_sum_Inr roundUp_def Let_def split: if_splits)
  have "unat m \<le> (2 ^ 64 - 1) div 2"
    using m(2) by (simp only: not_less word_le_nat_alt unat_div unat_max64) simp
  then have m2: "unat (m * 2) = 2 * unat m" by (simp add: unat_word_ariths)
  obtain k where k: "unat p = 2 ^ k" "2 * unat m \<le> 2 ^ k" "\<forall>j. 2 * unat m \<le> 2 ^ j \<longrightarrow> k \<le> j"
    using nextPowerOfTwo_spec [of "m * 2"] p m2 by auto
  have "0 < unat m" using m(1) by (simp add: unat_gt_0)
  then obtain k' where k': "k = Suc k'" using k(2) by (cases k) auto
  have "\<not> 2 * unat m \<le> 2 ^ k'" using k(3) k' by (metis Suc_n_not_le_n)
  then have "unat p < 4 * unat m" using k(1) k' by simp
  moreover have "unat (Total l) = unat ta + unat la + unat ea + unat ra + 1032 + 416"
    using checked_sum_Inr [OF parts(5)] by simp
  then have "unat (Total l) = 42 * unat p + 215 * unat m + 1448"
    using parts(1-4) by (simp add: checkedMul_Inr)
  ultimately show ?thesis using slots k by auto
qed

lemma checkedAdd_Inl: "checkedAdd a b = Inl e \<longleftrightarrow> e = AccountingOverflow \<and> 2 ^ 64 \<le> unat a + unat b"
proof (cases "checkedAdd a b")
  case (Inl e')
  have "\<not> unat a + unat b < 2 ^ 64"
  proof
    assume "unat a + unat b < 2 ^ 64"
    then have "checkedAdd a b = Inr (a + b)" unfolding checkedAdd_Inr by (simp add: unat_word_ariths)
    then show False using Inl by simp
  qed
  moreover have "e' = AccountingOverflow" using Inl by (simp add: checkedAdd_def split: if_splits)
  ultimately show ?thesis using Inl by auto
next
  case (Inr c)
  then have "unat a + unat b < 2 ^ 64" by (simp only: checkedAdd_Inr)
  then show ?thesis using Inr by simp
qed

lemma checkedMul_Inl: "checkedMul a b = Inl e \<longleftrightarrow> e = AccountingOverflow \<and> 2 ^ 64 \<le> unat a * unat b"
proof (cases "checkedMul a b")
  case (Inl e')
  have "\<not> unat a * unat b < 2 ^ 64"
  proof
    assume "unat a * unat b < 2 ^ 64"
    then have "checkedMul a b = Inr (a * b)" unfolding checkedMul_Inr by (simp add: unat_word_ariths)
    then show False using Inl by simp
  qed
  moreover have "e' = AccountingOverflow" using Inl by (simp add: checkedMul_def split: if_splits)
  ultimately show ?thesis using Inl by auto
next
  case (Inr c)
  then have "unat a * unat b < 2 ^ 64" by (simp only: checkedMul_Inr)
  then show ?thesis using Inr by simp
qed

lemma checked_sum_Inl: "checked_sum t ps = Inl e \<Longrightarrow> 2 ^ 64 \<le> unat t + sum_list (map unat ps)"
proof (induction ps arbitrary: t)
  case (Cons p ps)
  show ?case
  proof (cases "checkedAdd t p")
    case (Inl e')
    then show ?thesis by (simp add: checkedAdd_Inl)
  next
    case (Inr c)
    then have "2 ^ 64 \<le> unat c + sum_list (map unat ps)" using Cons by simp
    then show ?thesis using Inr by (simp add: checkedAdd_Inr)
  qed
qed simp

text \<open>A layout exists for every number of entries that the tables of one process can hold.\<close>

lemma container_layout_exists:
  assumes "0 < unat m" "unat m < 2 ^ 31"
  shows "\<exists>l. ContainerLayout m = Inr l"
proof -
  have m0: "m \<noteq> 0" using assms(1) by auto
  have "unat ((-1 :: uint64) div 2) = 2 ^ 63 - 1" by (simp add: unat_div unat_max64)
  then have m1: "\<not> m > (-1) div 2" using assms(2) by (simp add: not_less word_le_nat_alt)
  have m2: "unat (m * 2) = 2 * unat m" using assms(2) by (simp add: unat_word_ariths)
  then obtain p where p: "nextPowerOfTwo (m * 2) = Inr p"
    using nextPowerOfTwo_spec [of "m * 2"] assms m2 by (cases "nextPowerOfTwo (m * 2)") auto
  obtain k where k: "unat p = 2 ^ k" "2 * unat m \<le> 2 ^ k" "\<forall>j. 2 * unat m \<le> 2 ^ j \<longrightarrow> k \<le> j"
    using nextPowerOfTwo_spec [of "m * 2"] p m2 by auto
  have "2 * unat m \<le> 2 ^ 32" using assms(2) by simp
  then have "k \<le> 32" using k(3) by blast
  then have pk: "unat p \<le> 2 ^ 32" unfolding k(1) by (rule power_increasing) simp
  have big: "\<not> p > maxIntValue" "\<not> m > maxIntValue"
    using pk assms(2) by (simp_all add: not_less word_le_nat_alt maxIntValue_def mask_eq_exp_minus_1)
  obtain ta where ta: "checkedMul p 25 = Inr ta" using pk by (cases "checkedMul p 25") (auto simp: checkedMul_Inl)
  obtain la where la: "checkedMul p 17 = Inr la" using pk by (cases "checkedMul p 17") (auto simp: checkedMul_Inl)
  obtain ea where ea: "checkedMul m 84 = Inr ea" using assms(2) by (cases "checkedMul m 84") (auto simp: checkedMul_Inl)
  obtain ra where ra: "checkedMul m 131 = Inr ra" using assms(2) by (cases "checkedMul m 131") (auto simp: checkedMul_Inl)
  have "checked_sum 0 [ta, la, ea, ra, 1032, 416] \<noteq> Inl e" for e
    using checked_sum_Inl [of 0 "[ta, la, ea, ra, 1032, 416]" e] ta la ea ra pk assms(2) by (auto simp: checkedMul_Inr)
  then obtain tot where tot: "checked_sum 0 [ta, la, ea, ra, 1032, 416] = Inr tot"
    by (cases "checked_sum 0 [ta, la, ea, ra, 1032, 416]") auto
  show ?thesis
    using m0 m1 big ta la ea ra tot
    by (simp add: ContainerLayout_def p Let_def roundUp_def del: checked_sum.simps)
qed




end
