(* ===== verification/GoStd.thy ===== *)
theory GoStd
  imports Prelude
begin

text \<open>
  The functions of Go's standard library that the program uses on strings and
  numbers, as the library documents them: byte-wise comparison, \<open>strconv\<close> decimal
  formatting and parsing of unsigned integers, and \<open>unicode/utf8\<close>.
\<close>

section \<open>Bytes\<close>

definition byte_of :: "nat \<Rightarrow> char" where
  "byte_of n = char_of (n mod 256)"

lemma byte_val_less [simp]: "byte_val c < 256"
  by (simp add: byte_val_def)

lemma byte_val_of [simp]: "n < 256 \<Longrightarrow> byte_val (byte_of n) = n"
  by (simp add: byte_val_def byte_of_def)

lemma byte_of_val [simp]: "byte_of (byte_val c) = c"
  by (simp add: byte_val_def byte_of_def)

lemma byte_val_inj: "byte_val a = byte_val b \<longleftrightarrow> a = b"
  by (metis byte_of_val)

text \<open>\<open>bytes.Compare\<close> and \<open>strings.Compare\<close>.\<close>

fun compare_bytes :: "bytes \<Rightarrow> bytes \<Rightarrow> int" where
  "compare_bytes [] [] = 0"
| "compare_bytes [] (b # bs) = -1"
| "compare_bytes (a # as) [] = 1"
| "compare_bytes (a # as) (b # bs) =
    (if byte_val a < byte_val b then -1 else if byte_val a > byte_val b then 1
     else compare_bytes as bs)"

lemma compare_bytes_refl [simp]: "compare_bytes a a = 0"
  by (induction a) auto

lemma compare_bytes_eq: "compare_bytes a b = 0 \<longleftrightarrow> a = b"
  by (induction a b rule: compare_bytes.induct) (auto simp: byte_val_inj [symmetric])

lemma compare_bytes_swap: "compare_bytes b a = - compare_bytes a b"
  by (induction a b rule: compare_bytes.induct) auto

lemma compare_bytes_trans:
  "compare_bytes a b < 0 \<Longrightarrow> compare_bytes b c < 0 \<Longrightarrow> compare_bytes a c < 0"
proof (induction a b arbitrary: c rule: compare_bytes.induct)
  case (2 b bs)
  then show ?case by (cases c) simp_all
next
  case (4 a as b bs)
  obtain d ds where c: "c = d # ds" using 4(3) by (cases c) auto
  consider "byte_val a < byte_val b" | "a = b" "compare_bytes as bs < 0"
    using 4(2) byte_val_inj [of a b] by (auto split: if_splits)
  then show ?case
  proof cases
    case 1
    then show ?thesis using 4(3) c by (auto split: if_splits)
  next
    case 2
    have "byte_val b < byte_val d \<or> b = d \<and> compare_bytes bs ds < 0"
      using 4(3) c byte_val_inj [of b d] by (auto split: if_splits)
    then show ?thesis using 2 c 4(1) by auto
  qed
qed simp_all

lemma compare_bytes_range: "compare_bytes a b \<in> {-1, 0, 1}"
  by (induction a b rule: compare_bytes.induct) auto

section \<open>Decimal digits\<close>

definition isDecimalDigit :: "char \<Rightarrow> bool" where
  "isDecimalDigit c \<longleftrightarrow> byte_val CHR ''0'' \<le> byte_val c \<and> byte_val c \<le> byte_val CHR ''9''"

text \<open>\<open>c - '0'\<close> on bytes.\<close>

definition digit_val :: "char \<Rightarrow> nat" where
  "digit_val c = (byte_val c + 256 - 48) mod 256"

definition digit_char :: "nat \<Rightarrow> char" where
  "digit_char n = byte_of (n + 48)"

lemma byte_val_0: "byte_val CHR ''0'' = 48" and byte_val_9: "byte_val CHR ''9'' = 57"
  by (simp_all add: byte_val_def)

lemma digit_val_less: "isDecimalDigit c \<Longrightarrow> digit_val c < 10"
  unfolding isDecimalDigit_def digit_val_def byte_val_0 byte_val_9 by (auto simp: mod_if)

lemma digit_val_eq: "isDecimalDigit c \<Longrightarrow> digit_val c = byte_val c - 48"
  unfolding isDecimalDigit_def digit_val_def byte_val_0 byte_val_9 by (auto simp: mod_if)

lemma digit_char_val [simp]: "isDecimalDigit c \<Longrightarrow> digit_char (digit_val c) = c"
  unfolding digit_char_def by (simp add: digit_val_eq) (simp add: isDecimalDigit_def byte_val_0)

lemma digit_val_char [simp]: "n < 10 \<Longrightarrow> digit_val (digit_char n) = n"
  by (simp add: digit_val_def digit_char_def)

lemma isDecimalDigit_char [simp]: "n < 10 \<Longrightarrow> isDecimalDigit (digit_char n)"
  by (simp add: isDecimalDigit_def digit_char_def byte_val_0 byte_val_9)

lemma digit_val_inj:
  "isDecimalDigit a \<Longrightarrow> isDecimalDigit b \<Longrightarrow> digit_val a = digit_val b \<longleftrightarrow> a = b"
  by (metis digit_char_val)

lemma digit_order:
  "isDecimalDigit a \<Longrightarrow> isDecimalDigit b \<Longrightarrow> byte_val a < byte_val b \<longleftrightarrow> digit_val a < digit_val b"
  by (auto simp: digit_val_eq isDecimalDigit_def byte_val_0)

lemma digit_0 [simp]: "isDecimalDigit CHR ''0''" "digit_val CHR ''0'' = 0" "digit_char 0 = CHR ''0''"
proof -
  show "isDecimalDigit CHR ''0''" "digit_val CHR ''0'' = 0"
    by (simp_all add: isDecimalDigit_def digit_val_def byte_val_def)
  then show "digit_char 0 = CHR ''0''" using digit_char_val [of "CHR ''0''"] by simp
qed

abbreviation digits :: "bytes \<Rightarrow> bool" where
  "digits s \<equiv> list_all isDecimalDigit s"

text \<open>The value of a digit string, accumulated from the left.\<close>

fun dec_acc :: "nat \<Rightarrow> bytes \<Rightarrow> nat" where
  "dec_acc acc [] = acc"
| "dec_acc acc (c # cs) = dec_acc (acc * 10 + digit_val c) cs"

abbreviation dec_val :: "bytes \<Rightarrow> nat" where
  "dec_val s \<equiv> dec_acc 0 s"

lemma dec_acc_eq: "dec_acc acc s = acc * 10 ^ length s + dec_val s"
proof (induction s arbitrary: acc)
  case (Cons c cs)
  show ?case using Cons [of "acc * 10 + digit_val c"] Cons [of "digit_val c"]
    by (simp add: algebra_simps)
qed simp

lemma dec_val_Cons: "dec_val (c # cs) = digit_val c * 10 ^ length cs + dec_val cs"
  using dec_acc_eq [of "digit_val c" cs] by simp

declare dec_acc.simps(2) [simp del] and dec_val_Cons [simp]

lemma dec_val_append: "dec_val (s @ t) = dec_val s * 10 ^ length t + dec_val t"
  by (induction s) (simp_all add: power_add algebra_simps)

lemma dec_val_less: "digits s \<Longrightarrow> dec_val s < 10 ^ length s"
proof (induction s)
  case (Cons c cs)
  then have "digit_val c \<le> 9" using digit_val_less [of c] by simp
  then have "digit_val c * 10 ^ length cs \<le> 9 * 10 ^ length cs" by (rule mult_right_mono) simp
  moreover have "dec_val cs < 10 ^ length cs" using Cons by simp
  moreover have "(10::nat) ^ length (c # cs) = 9 * 10 ^ length cs + 10 ^ length cs" by simp
  ultimately show ?case unfolding dec_val_Cons by linarith
qed simp

lemma dec_val_zeros: "dec_val (replicate n CHR ''0'') = 0"
  by (induction n) simp_all

lemma dec_val_ge:
  assumes "digits (c # cs)" "c \<noteq> CHR ''0''"
  shows "10 ^ length cs \<le> dec_val (c # cs)"
proof -
  have "digit_val c \<noteq> 0" using assms digit_val_inj [of c "CHR ''0''"] by auto
  then have "1 * 10 ^ length cs \<le> digit_val c * 10 ^ length cs" by (intro mult_right_mono) auto
  then show ?thesis unfolding dec_val_Cons by linarith
qed

lemma dec_val_inj:
  "digits s \<Longrightarrow> digits t \<Longrightarrow> length s = length t \<Longrightarrow> dec_val s = dec_val t \<Longrightarrow> s = t"
proof (induction s arbitrary: t)
  case (Cons c cs)
  from Cons.prems(3) obtain d ds where t: "t = d # ds" "length cs = length ds" by (cases t) auto
  let ?p = "10 ^ length ds :: nat"
  have b: "dec_val cs < ?p" "dec_val ds < ?p" 
  proof -
    have "digits cs" "digits ds" using Cons.prems(1,2) t by simp_all
    then show "dec_val cs < ?p" "dec_val ds < ?p"
      using dec_val_less [of cs] dec_val_less [of ds] t(2) by simp_all
  qed
  have eq: "digit_val c * ?p + dec_val cs = digit_val d * ?p + dec_val ds"
    using Cons.prems(4) t by simp
  have dv: "(x * ?p + y) div ?p = x" if "y < ?p" for x y using that by simp
  have "digit_val c = digit_val d" using arg_cong [OF eq, of "\<lambda>x. x div ?p"] dv b by metis
  moreover from this have "dec_val cs = dec_val ds" using eq by simp
  moreover have "isDecimalDigit c" "isDecimalDigit d" "digits cs" "digits ds"
    using Cons.prems(1,2) t by simp_all
  ultimately show ?case using Cons.IH [of ds] t digit_val_inj [of c d] by simp
qed simp

text \<open>Canonical magnitudes: no leading zero, except \<open>"0"\<close> itself.\<close>

definition canonical :: "bytes \<Rightarrow> bool" where
  "canonical s \<longleftrightarrow> s \<noteq> [] \<and> digits s \<and> (hd s = CHR ''0'' \<longrightarrow> s = ''0'')"

lemma canonical_zero:
  assumes "canonical s"
  shows "dec_val s = 0 \<longleftrightarrow> s = ''0''"
proof -
  obtain c cs where s: "s = c # cs" using assms by (cases s) (auto simp: canonical_def)
  show ?thesis
  proof (cases "c = CHR ''0''")
    case True
    then have "s = ''0''" using assms s by (simp add: canonical_def)
    then show ?thesis by simp
  next
    case False
    have "(0::nat) < 10 ^ length cs" by simp
    also have "\<dots> \<le> dec_val s" 
    proof -
      have "digits (c # cs)" using assms s by (simp add: canonical_def)
      then show ?thesis using dec_val_ge [OF _ False] s by (simp only:)
    qed
    finally show ?thesis using False s by (simp del: dec_val_Cons)
  qed
qed

lemma canonical_length_less:
  assumes "canonical s" "canonical t" "length s < length t"
  shows "dec_val s < dec_val t"
proof -
  obtain c cs where t: "t = c # cs" using assms(3) by (cases t) auto
  have "s \<noteq> []" using assms(1) by (simp add: canonical_def)
  then have "c \<noteq> CHR ''0''" using assms t by (cases s) (auto simp: canonical_def)
  then have "10 ^ length cs \<le> dec_val t" using assms(2) t dec_val_ge [of c cs] by (simp add: canonical_def)
  moreover have "dec_val s < 10 ^ length s" using assms(1) by (simp add: canonical_def dec_val_less)
  moreover have "(10::nat) ^ length s \<le> 10 ^ length cs" using assms(3) t by (intro power_increasing) auto
  ultimately show ?thesis by linarith
qed

lemma canonical_inj:
  assumes "canonical s" "canonical t"
  shows "dec_val s = dec_val t \<longleftrightarrow> s = t"
proof
  assume eq: "dec_val s = dec_val t"
  then have "length s = length t"
    using canonical_length_less [OF assms] canonical_length_less [OF assms(2,1)]
    by (metis linorder_neqE_nat less_irrefl)
  then show "s = t" using dec_val_inj [OF _ _ _ eq] assms by (simp add: canonical_def)
qed simp

section \<open>\<open>strconv\<close>\<close>

fun formatUint :: "nat \<Rightarrow> bytes" where
  "formatUint n = (if n < 10 then [digit_char n] else formatUint (n div 10) @ [digit_char (n mod 10)])"

declare formatUint.simps [simp del]

lemma formatUint_digits: "digits (formatUint n)"
  by (induction n rule: formatUint.induct) (subst formatUint.simps, simp)

lemma formatUint_val [simp]: "dec_val (formatUint n) = n"
  by (induction n rule: formatUint.induct)
    (subst formatUint.simps, simp add: dec_val_append)

lemma formatUint_not_Nil [simp]: "formatUint n \<noteq> []"
  by (subst formatUint.simps) simp

lemma formatUint_hd: "0 < n \<Longrightarrow> hd (formatUint n) \<noteq> CHR ''0''"
proof (induction n rule: formatUint.induct)
  case (1 n)
  show ?case
  proof (cases "n < 10")
    case True
    then have "digit_char n \<noteq> CHR ''0''" using 1(2) digit_val_char [of n] by (metis digit_0(2) less_irrefl)
    then show ?thesis using True by (subst formatUint.simps) simp
  next
    case False
    then show ?thesis using 1(1) by (subst formatUint.simps) (simp add: hd_append)
  qed
qed

lemma formatUint_canonical: "canonical (formatUint n)"
proof (cases "n = 0")
  case True
  then show ?thesis by (simp add: formatUint.simps canonical_def)
next
  case False
  then show ?thesis using formatUint_hd [of n] formatUint_digits [of n] by (simp add: canonical_def)
qed

text \<open>\<open>strconv.ParseUint(s, 10, 64)\<close> on a string without sign, underscore or base prefix.\<close>

definition parseUint :: "bytes \<Rightarrow> uint64 option" where
  "parseUint s =
    (if s = [] \<or> \<not> digits s then None
     else if dec_val s < 2 ^ 64 then Some (of_nat (dec_val s)) else None)"

lemma parseUint_Some: "parseUint s = Some v \<longleftrightarrow> s \<noteq> [] \<and> digits s \<and> dec_val s = unat v"
proof -
  have "dec_val s < 2 ^ 64 \<Longrightarrow> of_nat (dec_val s) = v \<longleftrightarrow> dec_val s = unat v"
    using unat_of_nat_small [of "dec_val s", where 'a = 64] by auto
  then show ?thesis using unat_less_64 [of v] by (auto simp: parseUint_def)
qed

section \<open>\<open>unicode/utf8\<close>\<close>

type_synonym rune = nat

definition RuneError :: rune where
  "RuneError = 0xFFFD"

text \<open>The scalars that UTF-8 encodes: no surrogates, nothing above U+10FFFF.\<close>

definition scalar :: "rune \<Rightarrow> bool" where
  "scalar r \<longleftrightarrow> r < 0xD800 \<or> (0xDFFF < r \<and> r \<le> 0x10FFFF)"

definition cont_byte :: "char \<Rightarrow> bool" where
  "cont_byte c \<longleftrightarrow> 0x80 \<le> byte_val c \<and> byte_val c \<le> 0xBF"

text \<open>The accepted range of the second byte, by first byte.\<close>

definition second_ok :: "nat \<Rightarrow> char \<Rightarrow> bool" where
  "second_ok b0 c \<longleftrightarrow>
    (if b0 = 0xE0 then 0xA0 \<le> byte_val c \<and> byte_val c \<le> 0xBF
     else if b0 = 0xED then 0x80 \<le> byte_val c \<and> byte_val c \<le> 0x9F
     else if b0 = 0xF0 then 0x90 \<le> byte_val c \<and> byte_val c \<le> 0xBF
     else if b0 = 0xF4 then 0x80 \<le> byte_val c \<and> byte_val c \<le> 0x8F
     else cont_byte c)"

text \<open>\<open>utf8.DecodeRune\<close>: the rune and its width; \<open>(RuneError, 1)\<close> for a bad encoding.\<close>

fun DecodeRune :: "bytes \<Rightarrow> rune \<times> nat" where
  "DecodeRune [] = (RuneError, 0)"
| "DecodeRune (a # s) =
    (let b0 = byte_val a in
     if b0 < 0x80 then (b0, 1)
     else if 0xC2 \<le> b0 \<and> b0 \<le> 0xDF then
       (case s of b # _ \<Rightarrow>
          if cont_byte b then ((b0 - 0xC0) * 64 + (byte_val b - 0x80), 2) else (RuneError, 1)
        | _ \<Rightarrow> (RuneError, 1))
     else if 0xE0 \<le> b0 \<and> b0 \<le> 0xEF then
       (case s of b # c # _ \<Rightarrow>
          if second_ok b0 b \<and> cont_byte c
          then (((b0 - 0xE0) * 64 + (byte_val b - 0x80)) * 64 + (byte_val c - 0x80), 3)
          else (RuneError, 1)
        | _ \<Rightarrow> (RuneError, 1))
     else if 0xF0 \<le> b0 \<and> b0 \<le> 0xF4 then
       (case s of b # c # d # _ \<Rightarrow>
          if second_ok b0 b \<and> cont_byte c \<and> cont_byte d
          then ((((b0 - 0xF0) * 64 + (byte_val b - 0x80)) * 64 + (byte_val c - 0x80)) * 64
                + (byte_val d - 0x80), 4)
          else (RuneError, 1)
        | _ \<Rightarrow> (RuneError, 1))
     else (RuneError, 1))"

text \<open>\<open>utf8.AppendRune\<close> on an empty destination, and \<open>utf8.RuneLen\<close>.\<close>

definition EncodeRune :: "rune \<Rightarrow> bytes" where
  "EncodeRune r0 =
    (let r = (if scalar r0 then r0 else RuneError) in
     if r < 0x80 then [byte_of r]
     else if r < 0x800 then [byte_of (0xC0 + r div 64), byte_of (0x80 + r mod 64)]
     else if r < 0x10000 then
       [byte_of (0xE0 + r div 4096), byte_of (0x80 + r div 64 mod 64), byte_of (0x80 + r mod 64)]
     else [byte_of (0xF0 + r div 262144), byte_of (0x80 + r div 4096 mod 64),
           byte_of (0x80 + r div 64 mod 64), byte_of (0x80 + r mod 64)])"

definition RuneLen :: "rune \<Rightarrow> int" where
  "RuneLen r = (if r < 0x80 then 1 else if r < 0x800 then 2 else if \<not> scalar r then -1
     else if r < 0x10000 then 3 else 4)"

lemma join64: "y < 64 \<Longrightarrow> (q * 64 + y) div 64 = q" "y < 64 \<Longrightarrow> (q * 64 + y) mod 64 = y" for q y :: nat
  by simp_all

lemma div_4096: "r div 4096 = r div 64 div 64" "r div 262144 = r div 64 div 64 div 64" for r :: nat
  by (simp_all add: div_mult2_eq [symmetric])

lemma split3:
  fixes r :: nat
  assumes "r < 0x10000"
  obtains a b c where "r = (a * 64 + b) * 64 + c" "a < 16" "b < 64" "c < 64"
    "r div 4096 = a" "r div 64 mod 64 = b" "r mod 64 = c"
proof
  have "r div 64 div 64 = r div 4096" by (simp add: div_mult2_eq [symmetric])
  then have "r div 4096 * 64 + r div 64 mod 64 = r div 64"
    using div_mult_mod_eq [of "r div 64" 64] by (simp only:)
  then show "r = (r div 4096 * 64 + r div 64 mod 64) * 64 + r mod 64"
    using div_mult_mod_eq [of r 64] by (simp only:)
qed (use assms in auto)

lemma split4:
  fixes r :: nat
  assumes "r < 0x140000"
  obtains a b c d where "r = ((a * 64 + b) * 64 + c) * 64 + d" "a < 5" "b < 64" "c < 64" "d < 64"
    "r div 262144 = a" "r div 4096 mod 64 = b" "r div 64 mod 64 = c" "r mod 64 = d"
proof
  have "r div 4096 div 64 = r div 262144" by (simp add: div_mult2_eq [symmetric])
  then have 1: "r div 262144 * 64 + r div 4096 mod 64 = r div 4096"
    using div_mult_mod_eq [of "r div 4096" 64] by (simp only:)
  have "r div 64 div 64 = r div 4096" by (simp add: div_mult2_eq [symmetric])
  then have 2: "r div 4096 * 64 + r div 64 mod 64 = r div 64"
    using div_mult_mod_eq [of "r div 64" 64] by (simp only:)
  show "r = ((r div 262144 * 64 + r div 4096 mod 64) * 64 + r div 64 mod 64) * 64 + r mod 64"
    unfolding 1 2 by (simp only: div_mult_mod_eq)
qed (use assms in auto)

lemma DecodeRune_Encode:
  assumes "scalar r"
  shows "DecodeRune (EncodeRune r @ rest) = (r, length (EncodeRune r))"
proof -
  consider "r < 0x80" | "0x80 \<le> r" "r < 0x800" | "0x800 \<le> r" "r < 0x10000" | "0x10000 \<le> r"
    by linarith
  then show ?thesis
  proof cases
    case 1
    then show ?thesis using assms by (simp add: EncodeRune_def)
  next
    case 2
    have "2 \<le> r div 64" "r div 64 < 32" "r mod 64 < 64" using 2 by auto
    then show ?thesis using assms 2 by (simp add: EncodeRune_def cont_byte_def)
  next
    case 3
    from 3(2) obtain a b c where r: "r = (a * 64 + b) * 64 + c" "a < 16" "b < 64" "c < 64"
      and d: "r div 4096 = a" "r div 64 mod 64 = b" "r mod 64 = c" by (rule split3)
    have enc: "EncodeRune r = [byte_of (0xE0 + a), byte_of (0x80 + b), byte_of (0x80 + c)]"
      using assms 3 by (simp add: EncodeRune_def d)
    have "a = 0 \<Longrightarrow> 32 \<le> b" "a = 13 \<Longrightarrow> b < 32"
      using r 3 assms by (auto simp: scalar_def)
    then have "second_ok (0xE0 + a) (byte_of (0x80 + b))"
      using r(2-4) by (auto simp: second_ok_def cont_byte_def)
    then show ?thesis unfolding enc using r by (simp add: cont_byte_def)
  next
    case 4
    have top: "r \<le> 0x10FFFF" using assms 4 by (simp add: scalar_def)
    then have "r < 0x140000" by simp
    then obtain a b c d where r: "r = ((a * 64 + b) * 64 + c) * 64 + d" "a < 5" "b < 64" "c < 64" "d < 64"
      and e: "r div 262144 = a" "r div 4096 mod 64 = b" "r div 64 mod 64 = c" "r mod 64 = d"
      by (rule split4)
    have enc: "EncodeRune r = [byte_of (0xF0 + a), byte_of (0x80 + b), byte_of (0x80 + c), byte_of (0x80 + d)]"
      using assms 4 by (simp add: EncodeRune_def e)
    have "a = 0 \<Longrightarrow> 16 \<le> b" "a = 4 \<Longrightarrow> b < 16" using r 4 top by simp_all
    then have "second_ok (0xF0 + a) (byte_of (0x80 + b))"
      using r(2-5) by (auto simp: second_ok_def cont_byte_def)
    then show ?thesis unfolding enc using r by (simp add: cont_byte_def)
  qed
qed

text \<open>Conversely a well-formed encoding is the encoding of the scalar it decodes to.\<close>

lemma DecodeRune_cases:
  assumes "DecodeRune s = (r, w)" "s \<noteq> []"
  shows "(r = RuneError \<and> w = 1) \<or> (scalar r \<and> (\<exists>rest. s = EncodeRune r @ rest \<and> w = length (EncodeRune r)))"
proof -
  obtain a t where s: "s = a # t" using assms(2) by (cases s) auto
  show ?thesis
  proof (cases "r = RuneError \<and> w = 1")
    case False
    let ?b0 = "byte_val a"
    consider "?b0 < 0x80" "r = ?b0" "w = 1"
      | b u where "0xC2 \<le> ?b0" "?b0 \<le> 0xDF" "t = b # u" "cont_byte b"
          "r = (?b0 - 0xC0) * 64 + (byte_val b - 0x80)" "w = 2"
      | b c u where "0xE0 \<le> ?b0" "?b0 \<le> 0xEF" "t = b # c # u" "second_ok ?b0 b" "cont_byte c"
          "r = ((?b0 - 0xE0) * 64 + (byte_val b - 0x80)) * 64 + (byte_val c - 0x80)" "w = 3"
      | b c d u where "0xF0 \<le> ?b0" "?b0 \<le> 0xF4" "t = b # c # d # u" "second_ok ?b0 b" "cont_byte c"
          "cont_byte d" "r = (((?b0 - 0xF0) * 64 + (byte_val b - 0x80)) * 64 + (byte_val c - 0x80)) * 64
             + (byte_val d - 0x80)" "w = 4"
      using assms(1) False unfolding s
      by (auto simp: Let_def split: if_splits list.splits)
    then show ?thesis
    proof cases
      case 1
      then have "scalar r" "EncodeRune r = [a]" by (simp_all add: scalar_def EncodeRune_def)
      then show ?thesis using 1 s by simp
    next
      case (2 b u)
      define x y where "x = ?b0 - 0xC0" and "y = byte_val b - 0x80"
      have xy: "2 \<le> x" "x < 32" "y < 64" "a = byte_of (0xC0 + x)" "b = byte_of (0x80 + y)"
        using 2 by (auto simp: x_def y_def cont_byte_def)
      have r: "r = x * 64 + y" using 2 by (simp add: x_def y_def)
      have "scalar r" "EncodeRune r = [a, b]"
        using xy by (simp_all add: r scalar_def EncodeRune_def)
      then show ?thesis using 2 s by simp
    next
      case (3 b c u)
      define x y z where "x = ?b0 - 0xE0" and "y = byte_val b - 0x80" and "z = byte_val c - 0x80"
      have xy: "x < 16" "y < 64" "z < 64" "a = byte_of (0xE0 + x)" "b = byte_of (0x80 + y)"
          "c = byte_of (0x80 + z)"
        and rng: "0 < x \<or> 32 \<le> y" "x < 13 \<or> 13 < x \<or> x = 13 \<and> y < 32"
        using 3 by (auto simp: x_def y_def z_def cont_byte_def second_ok_def split: if_splits)
      have r: "r = (x * 64 + y) * 64 + z" using 3 by (simp add: x_def y_def z_def)
      have r': "r = x * 4096 + y * 64 + z" unfolding r by simp
      have "0x800 \<le> r" using rng(1) unfolding r' by (elim disjE) linarith+
      moreover have "r < 0x10000" using xy(1-3) unfolding r' by linarith
      moreover have sc: "scalar r"
      proof -
        have "r < 0xD800 \<or> 0xDFFF < r" using rng(2) xy(1-3) unfolding r' by (elim disjE conjE) linarith+
        then show ?thesis using \<open>r < 0x10000\<close> by (auto simp: scalar_def)
      qed
      moreover have "r div 4096 = x" "r div 64 mod 64 = y" "r mod 64 = z"
        unfolding r div_4096 by (simp_all only: join64 xy(1-3))
      ultimately have "EncodeRune r = [a, b, c]" using xy by (simp add: EncodeRune_def)
      then show ?thesis using sc 3 s by simp
    next
      case (4 b c d u)
      define x y z v where "x = ?b0 - 0xF0" and "y = byte_val b - 0x80" and "z = byte_val c - 0x80"
        and "v = byte_val d - 0x80"
      have xy: "x < 5" "y < 64" "z < 64" "v < 64" "a = byte_of (0xF0 + x)" "b = byte_of (0x80 + y)"
          "c = byte_of (0x80 + z)" "d = byte_of (0x80 + v)"
        and rng: "0 < x \<or> 16 \<le> y" "x < 4 \<or> y < 16"
        using 4 by (auto simp: x_def y_def z_def v_def cont_byte_def second_ok_def split: if_splits)
      have r: "r = ((x * 64 + y) * 64 + z) * 64 + v" using 4 by (simp add: x_def y_def z_def v_def)
      have r': "r = x * 262144 + y * 4096 + z * 64 + v" unfolding r by simp
      have "0x10000 \<le> r" using rng(1) unfolding r' by (elim disjE) linarith+
      moreover have "r \<le> 0x10FFFF" using xy(1-4) rng(2) unfolding r' by (elim disjE) linarith+
      moreover have sc: "scalar r" using calculation by (simp add: scalar_def)
      moreover have "r div 262144 = x" "r div 4096 mod 64 = y" "r div 64 mod 64 = z" "r mod 64 = v"
        unfolding r div_4096 by (simp_all only: join64 xy(1-4))
      ultimately have "EncodeRune r = [a, b, c, d]" using xy by (simp add: EncodeRune_def)
      then show ?thesis using sc 4 s by simp
    qed
  qed simp
qed

text \<open>\<open>utf8.Valid\<close>.\<close>

fun ValidUTF8 :: "bytes \<Rightarrow> bool" where
  "ValidUTF8 [] = True"
| "ValidUTF8 (c # cs) =
    (let (r, w) = DecodeRune (c # cs) in
     if r = RuneError \<and> w = 1 then False else ValidUTF8 (drop (w - 1) cs))"

declare ValidUTF8.simps(2) [simp del] and DecodeRune.simps [simp del]

definition utf8_encode :: "rune list \<Rightarrow> bytes" where
  "utf8_encode rs = concat (map EncodeRune rs)"

lemma utf8_encode_simps [simp]:
  "utf8_encode [] = []" "utf8_encode (r # rs) = EncodeRune r @ utf8_encode rs"
  "utf8_encode (rs @ ts) = utf8_encode rs @ utf8_encode ts"
  by (simp_all add: utf8_encode_def)

lemma EncodeRune_length: "1 \<le> length (EncodeRune r)" "length (EncodeRune r) \<le> 4"
  by (simp_all add: EncodeRune_def Let_def)

lemma EncodeRune_not_Nil [simp]: "EncodeRune r \<noteq> []"
  using EncodeRune_length(1) [of r] by auto

lemma length_Encode_RuneError: "length (EncodeRune RuneError) = 3"
  by (simp add: EncodeRune_def RuneError_def scalar_def)

lemma RuneLen_Encode: "scalar r \<Longrightarrow> RuneLen r = int (length (EncodeRune r))"
  by (simp add: RuneLen_def EncodeRune_def Let_def)

lemma decode_not_error:
  "scalar r \<Longrightarrow> \<not> (r = RuneError \<and> length (EncodeRune r) = 1)"
  using length_Encode_RuneError by auto

lemma ValidUTF8_Encode [simp]:
  assumes "scalar r"
  shows "ValidUTF8 (EncodeRune r @ rest) = ValidUTF8 rest"
proof -
  obtain c cs where c: "EncodeRune r = c # cs" by (cases "EncodeRune r") auto
  have "DecodeRune (c # (cs @ rest)) = (r, length (EncodeRune r))"
    using DecodeRune_Encode [OF assms, of rest] c by simp
  then show ?thesis using decode_not_error [OF assms] c by (auto simp: ValidUTF8.simps(2))
qed

lemma ValidUTF8_encode: "list_all scalar rs \<Longrightarrow> ValidUTF8 (utf8_encode rs)"
  by (induction rs) simp_all

lemma ValidUTF8_decode: "ValidUTF8 s \<Longrightarrow> \<exists>rs. list_all scalar rs \<and> s = utf8_encode rs"
proof (induction s rule: ValidUTF8.induct)
  case 1
  then show ?case by (intro exI [of _ "[]"]) simp
next
  case (2 c cs)
  obtain r w where d: "DecodeRune (c # cs) = (r, w)" by (cases "DecodeRune (c # cs)")
  then have ne: "\<not> (r = RuneError \<and> w = 1)" and v: "ValidUTF8 (drop (w - 1) cs)"
    using 2(2) by (simp_all add: ValidUTF8.simps(2) split: if_splits)
  obtain rest where r: "scalar r" "c # cs = EncodeRune r @ rest" "w = length (EncodeRune r)"
    using DecodeRune_cases [OF d] ne by auto
  have "drop w (c # cs) = rest" using r by simp
  moreover have "w \<noteq> 0" using r(3) by simp
  ultimately have "drop (w - 1) cs = rest" by (simp add: drop_Cons')
  then obtain rs where "list_all scalar rs" "rest = utf8_encode rs"
    using 2(1) [OF d [symmetric] refl ne] v by auto
  then show ?case using r by (intro exI [of _ "r # rs"]) simp
qed

lemma ValidUTF8_iff: "ValidUTF8 s \<longleftrightarrow> (\<exists>rs. list_all scalar rs \<and> s = utf8_encode rs)"
  using ValidUTF8_decode ValidUTF8_encode by blast

lemma EncodeRune_ascii: "r < 0x80 \<Longrightarrow> EncodeRune r = [byte_of r]"
  by (simp add: EncodeRune_def scalar_def)

text \<open>A scalar that is not ASCII is encoded in bytes that all are \<open>0x80\<close> or more.\<close>

lemma EncodeRune_high:
  assumes "scalar r" "0x80 \<le> r" "c \<in> set (EncodeRune r)"
  shows "0x80 \<le> byte_val c"
proof -
  have "r < 0x140000" using assms(1) by (auto simp: scalar_def)
  then have "r div 262144 < 5" by auto
  moreover have "r div 4096 < 16" if "r < 0x10000" using that by auto
  moreover have "r div 64 < 32" if "r < 0x800" using that by auto
  moreover have "x mod 64 + 128 < 256" for x :: nat
    using mod_less_divisor [of 64 x] by linarith
  ultimately show ?thesis
    using assms by (auto simp: EncodeRune_def Let_def add.commute [of 128] split: if_splits)
qed

end
