(* ===== verification/JsonDecimal.thy ===== *)
theory JsonDecimal
  imports Complex_Main GoStd
begin

text \<open>
  Arbitrary-precision JSON numbers, \<open>src/internal/jsonwire/decimal.go\<close>: parsing and
  normalisation without machine integers, exact comparison with a \<open>uint64\<close>, and the
  canonical key of numeric request ids.  Lengths and slice positions are \<open>nat\<close>; digit
  arithmetic is done on the decimal text as the code does it.  The value of a
  \<open>Decimal\<close> is a rational, against which every operation is proved exact.
\<close>

section \<open>Errors\<close>

datatype ErrorKind = KindSyntax | KindResource | KindUnicode | KindDuplicate | KindMismatch

datatype ValidationScope = ScopeValue | ScopeDocument | ScopeProtocolEnvelope | ScopeProtocolParams

record ValidationError =
  ve_kind :: ErrorKind
  ve_position :: nat
  ve_scope :: ValidationScope

definition newValidationError :: "ErrorKind \<Rightarrow> nat \<Rightarrow> ValidationError" where
  "newValidationError kind position = \<lparr>ve_kind = kind, ve_position = position, ve_scope = ScopeValue\<rparr>"

section \<open>Magnitudes: canonical decimal text\<close>

definition normalizeMagnitude :: "bytes \<Rightarrow> bytes" where
  "normalizeMagnitude raw =
    (let rest = dropWhile (\<lambda>c. c = CHR ''0'') raw in if rest = [] then ''0'' else rest)"

definition magnitudeFromInt :: "nat \<Rightarrow> bytes" where
  "magnitudeFromInt n = formatUint n"

definition magnitudeIsZero :: "bytes \<Rightarrow> bool" where
  "magnitudeIsZero m \<longleftrightarrow> m = ''0''"

definition compareMagnitude :: "bytes \<Rightarrow> bytes \<Rightarrow> int" where
  "compareMagnitude l r =
    (if length l < length r then -1 else if length l > length r then 1 else compare_bytes l r)"

definition compareMagnitudeInt :: "bytes \<Rightarrow> nat \<Rightarrow> int" where
  "compareMagnitudeInt m n = compareMagnitude m (magnitudeFromInt n)"

definition magnitudeToSmallInt :: "bytes \<Rightarrow> nat" where
  "magnitudeToSmallInt m = foldl (\<lambda>v c. v * 10 + digit_val c) 0 m"

text \<open>The loops of \<open>addMagnitude\<close> and \<open>subtractMagnitude\<close> walk from the last digit to the
  first; here they walk over the reversed texts and build the reversed result.\<close>

fun add_loop :: "bytes \<Rightarrow> bytes \<Rightarrow> nat \<Rightarrow> bytes \<times> nat" where
  "add_loop [] [] carry = ([], carry)"
| "add_loop (l # ls) [] carry =
    (let s = carry + digit_val l; (ds, c) = add_loop ls [] (s div 10)
     in (digit_char (s mod 10) # ds, c))"
| "add_loop [] (r # rs) carry =
    (let s = carry + digit_val r; (ds, c) = add_loop [] rs (s div 10)
     in (digit_char (s mod 10) # ds, c))"
| "add_loop (l # ls) (r # rs) carry =
    (let s = carry + digit_val l + digit_val r; (ds, c) = add_loop ls rs (s div 10)
     in (digit_char (s mod 10) # ds, c))"

definition addMagnitude :: "bytes \<Rightarrow> bytes \<Rightarrow> bytes" where
  "addMagnitude l r =
    (let (ds, carry) = add_loop (rev l) (rev r) 0
     in if carry = 0 then rev ds else digit_char carry # rev ds)"

fun sub_loop :: "bytes \<Rightarrow> bytes \<Rightarrow> int \<Rightarrow> bytes" where
  "sub_loop [] rs borrow = []"
| "sub_loop (l # ls) rs borrow =
    (let d0 = int (digit_val l) - borrow;
         d1 = (case rs of [] \<Rightarrow> d0 | r # _ \<Rightarrow> d0 - int (digit_val r));
         (d, b) = (if d1 < 0 then (d1 + 10, 1) else (d1, 0))
     in digit_char (nat d) # sub_loop ls (tl rs) b)"

definition subtractMagnitude :: "bytes \<Rightarrow> bytes \<Rightarrow> bytes" where
  "subtractMagnitude larger smaller = normalizeMagnitude (rev (sub_loop (rev larger) (rev smaller) 0))"

definition addSignedMagnitude :: "bool \<Rightarrow> bytes \<Rightarrow> bool \<Rightarrow> bytes \<Rightarrow> bool \<times> bytes" where
  "addSignedMagnitude leftNegative l rightNegative r =
    (if magnitudeIsZero l \<and> magnitudeIsZero r then (False, ''0'')
     else if magnitudeIsZero l then (rightNegative, r)
     else if magnitudeIsZero r then (leftNegative, l)
     else if leftNegative = rightNegative then (leftNegative, addMagnitude l r)
     else if compareMagnitude l r = 0 then (False, ''0'')
     else if compareMagnitude l r = 1 then (leftNegative, subtractMagnitude l r)
     else (rightNegative, subtractMagnitude r l))"

section \<open>Parsing\<close>

record Decimal =
  negative :: bool
  zero :: bool
  significand :: bytes
  scaleNegative :: bool
  scaleMagnitude :: bytes

definition zeroDecimal :: Decimal where
  "zeroDecimal = \<lparr>negative = False, zero = True, significand = [], scaleNegative = False,
                  scaleMagnitude = []\<rparr>"

text \<open>A syntax error at the position where the remaining text starts.\<close>

definition syntaxAt :: "bytes \<Rightarrow> bytes \<Rightarrow> ValidationError + 'a" where
  "syntaxAt raw rest = Inl (newValidationError KindSyntax (length raw - length rest))"

definition scan_integer :: "bytes \<Rightarrow> bytes \<Rightarrow> ValidationError + bytes \<times> bytes" where
  "scan_integer raw rest =
    (case rest of
       [] \<Rightarrow> syntaxAt raw rest
     | c # cs \<Rightarrow>
         if c = CHR ''0'' then Inr (''0'', cs)
         else if \<not> isDecimalDigit c then syntaxAt raw rest
         else Inr (takeWhile isDecimalDigit rest, dropWhile isDecimalDigit rest))"

definition scan_fraction :: "bytes \<Rightarrow> bytes \<Rightarrow> ValidationError + bytes \<times> bytes" where
  "scan_fraction raw rest =
    (if rest \<noteq> [] \<and> hd rest = CHR ''.'' then
       let cs = tl rest in
       if cs = [] \<or> \<not> isDecimalDigit (hd cs) then syntaxAt raw cs
       else Inr (takeWhile isDecimalDigit cs, dropWhile isDecimalDigit cs)
     else Inr ([], rest))"

definition scan_exponent :: "bytes \<Rightarrow> bytes \<Rightarrow> ValidationError + bool \<times> bytes \<times> bytes" where
  "scan_exponent raw rest =
    (if rest \<noteq> [] \<and> (hd rest = CHR ''e'' \<or> hd rest = CHR ''E'') then
       let cs = tl rest;
           (neg, ds) = (if cs \<noteq> [] \<and> (hd cs = CHR ''+'' \<or> hd cs = CHR ''-'')
                        then (hd cs = CHR ''-'', tl cs) else (False, cs)) in
       if ds = [] \<or> \<not> isDecimalDigit (hd ds) then syntaxAt raw ds
       else Inr (neg, normalizeMagnitude (takeWhile isDecimalDigit ds), dropWhile isDecimalDigit ds)
     else Inr (False, ''0'', rest))"

definition normalize_decimal :: "bool \<Rightarrow> bytes \<Rightarrow> bytes \<Rightarrow> bool \<Rightarrow> bytes \<Rightarrow> Decimal" where
  "normalize_decimal neg ip fp exponentNegative exponentMagnitude =
    (let tail = dropWhile (\<lambda>c. c = CHR ''0'') (ip @ fp) in
     if tail = [] then zeroDecimal
     else let sig = rev (dropWhile (\<lambda>c. c = CHR ''0'') (rev tail));
              trailingZeros = length tail - length sig;
              (sn, sm) = addSignedMagnitude exponentNegative exponentMagnitude
                           True (magnitudeFromInt (length fp));
              (sn, sm) = addSignedMagnitude sn sm False (magnitudeFromInt trailingZeros)
          in \<lparr>negative = neg, zero = False, significand = sig,
              scaleNegative = sn, scaleMagnitude = sm\<rparr>)"

definition ParseDecimal :: "bytes \<Rightarrow> ValidationError + Decimal" where
  "ParseDecimal raw =
    (if raw = [] then Inl (newValidationError KindSyntax 0)
     else let neg = (hd raw = CHR ''-''); body = (if neg then tl raw else raw) in
       bind_sum (scan_integer raw body) (\<lambda>(ip, r1).
       bind_sum (scan_fraction raw r1) (\<lambda>(fp, r2).
       bind_sum (scan_exponent raw r2) (\<lambda>(en, em, r3).
         if r3 \<noteq> [] then syntaxAt raw r3
         else Inr (normalize_decimal neg ip fp en em)))))"

section \<open>Reading a decimal\<close>

definition IsInteger :: "Decimal \<Rightarrow> bool" where
  "IsInteger d \<longleftrightarrow> zero d \<or> (significand d \<noteq> [] \<and> \<not> scaleNegative d)"

text \<open>The digit loop of the non-negative scale: missing digits count as zero.\<close>

fun compare_padded :: "bytes \<Rightarrow> bytes \<Rightarrow> int" where
  "compare_padded sig [] = 0"
| "compare_padded sig (t # ts) =
    (let digit = (case sig of [] \<Rightarrow> CHR ''0'' | s # _ \<Rightarrow> s) in
     if byte_val digit < byte_val t then -1
     else if byte_val digit > byte_val t then 1
     else compare_padded (tl sig) ts)"

text \<open>The digit loop of the negative scale: the integer digits, then the non-zero tail.\<close>

fun compare_integer_part :: "nat \<Rightarrow> bytes \<Rightarrow> bytes \<Rightarrow> int" where
  "compare_integer_part 0 sig target = 1"
| "compare_integer_part (Suc n) sig target =
    (if byte_val (hd sig) < byte_val (hd target) then -1
     else if byte_val (hd sig) > byte_val (hd target) then 1
     else compare_integer_part n (tl sig) (tl target))"

definition CompareUint64 :: "Decimal \<Rightarrow> uint64 \<Rightarrow> int" where
  "CompareUint64 d val =
    (if zero d then (if val = 0 then 0 else -1)
     else if negative d then -1
     else if significand d = [] \<or> scaleMagnitude d = [] then -1
     else let target = formatUint (unat val) in
       if \<not> scaleNegative d then
         if length (significand d) > length target then 1
         else let neededScale = length target - length (significand d) in
           if compareMagnitudeInt (scaleMagnitude d) neededScale = -1 then -1
           else if compareMagnitudeInt (scaleMagnitude d) neededScale = 1 then 1
           else compare_padded (significand d) target
       else if val = 0 then 1
       else if compareMagnitudeInt (scaleMagnitude d) (length (significand d)) \<ge> 0 then -1
       else let fractionDigits = magnitudeToSmallInt (scaleMagnitude d);
                integerDigits = length (significand d) - fractionDigits in
         if integerDigits < length target then -1
         else if integerDigits > length target then 1
         else compare_integer_part integerDigits (significand d) target)"

definition Uint64 :: "Decimal \<Rightarrow> uint64 option" where
  "Uint64 d =
    (if zero d then Some 0
     else if negative d \<or> \<not> IsInteger d \<or> CompareUint64 d (-1) > 0 then None
     else let zeroCount = magnitudeToSmallInt (scaleMagnitude d)
          in parseUint (significand d @ replicate zeroCount CHR ''0''))"

definition SemanticKey :: "Decimal \<Rightarrow> bytes \<Rightarrow> ValidationError + bytes" where
  "SemanticKey d dst =
    (if zero d then Inr (dst @ [CHR ''n'', byte_of 0])
     else if significand d = [] \<or> scaleMagnitude d = [] then Inl (newValidationError KindMismatch 0)
     else if length (significand d) > 65535 then Inl (newValidationError KindResource 0)
     else let cls = byte_of (if negative d then 2 else 1);
              scaleSign = byte_of (if scaleNegative d then 1 else 0);
              len = length (significand d)
          in Inr (dst @ [CHR ''n'', cls, byte_of (len div 256), byte_of len]
                  @ significand d @ [scaleSign] @ scaleMagnitude d))"

section \<open>Magnitude arithmetic is exact\<close>

lemma magnitudeToSmallInt_eq [simp]: "magnitudeToSmallInt m = dec_val m"
proof -
  have "foldl (\<lambda>v c. v * 10 + digit_val c) a m = dec_acc a m" for a
    by (induction m arbitrary: a) (simp_all add: dec_acc.simps(2))
  then show ?thesis by (simp add: magnitudeToSmallInt_def)
qed

lemma dec_val_drop_zeros: "dec_val (dropWhile (\<lambda>c. c = CHR ''0'') s) = dec_val s"
  by (induction s) simp_all

lemma digits_dropWhile: "digits s \<Longrightarrow> digits (dropWhile P s)"
  by (induction s) simp_all

lemma hd_drop_zeros: "dropWhile (\<lambda>c. c = CHR ''0'') s \<noteq> [] \<Longrightarrow> hd (dropWhile (\<lambda>c. c = CHR ''0'') s) \<noteq> CHR ''0''"
  by (rule hd_dropWhile [of "\<lambda>c. c = CHR ''0''"])

lemma drop_zeros_Nil: "digits s \<Longrightarrow> dropWhile (\<lambda>c. c = CHR ''0'') s = [] \<longleftrightarrow> dec_val s = 0"
proof (induction s)
  case (Cons c cs)
  then show ?case using digit_val_inj [of c "CHR ''0''"] by auto
qed simp

lemma normalizeMagnitude_canonical: "digits s \<Longrightarrow> canonical (normalizeMagnitude s)"
proof -
  assume d: "digits s"
  define t where "t = dropWhile (\<lambda>c. c = CHR ''0'') s"
  have "digits t" using d by (simp add: t_def digits_dropWhile)
  moreover have "t \<noteq> [] \<Longrightarrow> hd t \<noteq> CHR ''0''" unfolding t_def by (rule hd_drop_zeros)
  ultimately show ?thesis
    unfolding normalizeMagnitude_def Let_def t_def [symmetric] by (cases "t = []") (simp_all add: canonical_def)
qed

lemma normalizeMagnitude_val: "dec_val (normalizeMagnitude s) = dec_val s"
proof -
  define t where "t = dropWhile (\<lambda>c. c = CHR ''0'') s"
  have "dec_val t = dec_val s" unfolding t_def by (rule dec_val_drop_zeros)
  then show ?thesis
    unfolding normalizeMagnitude_def Let_def t_def [symmetric] by (cases "t = []") auto
qed

lemma canonical_of_length:
  assumes "digits s" "length s = Suc n" "10 ^ n \<le> dec_val s"
  shows "canonical s"
proof -
  obtain c cs where s: "s = c # cs" using assms(2) by (cases s) auto
  have "c \<noteq> CHR ''0''"
  proof
    assume "c = CHR ''0''"
    then have "dec_val s < 10 ^ n" using s assms(1,2) dec_val_less [of cs] by simp
    then show False using assms(3) by simp
  qed
  then show ?thesis using assms s by (simp add: canonical_def)
qed

lemma canonical_lower:
  assumes "canonical s" "s \<noteq> ''0''"
  shows "10 ^ (length s - 1) \<le> dec_val s"
proof -
  obtain c cs where s: "s = c # cs" using assms(1) by (cases s) (auto simp: canonical_def)
  then have "c \<noteq> CHR ''0''" "digits (c # cs)" using assms by (auto simp: canonical_def)
  then show ?thesis using dec_val_ge [of c cs] unfolding s by (metis length_Cons diff_Suc_1)
qed

lemma compare_bytes_digits:
  "digits s \<Longrightarrow> digits t \<Longrightarrow> length s = length t \<Longrightarrow>
   compare_bytes s t = (if dec_val s < dec_val t then -1 else if dec_val s > dec_val t then 1 else 0)"
proof (induction s t rule: compare_bytes.induct)
  case (4 a as b bs)
  let ?p = "10 ^ length bs :: nat"
  have d: "isDecimalDigit a" "isDecimalDigit b" and l: "length as = length bs"
    and v: "dec_val as < ?p" "dec_val bs < ?p"
    using 4(2-4) dec_val_less [of as] dec_val_less [of bs] by simp_all
  have less: "x * ?p + y < x' * ?p + y'" if "x < x'" "y < ?p" for x x' y y' :: nat
  proof -
    have "(x + 1) * ?p \<le> x' * ?p" using that(1) by (intro mult_right_mono) auto
    then show ?thesis using that(2) by (simp add: algebra_simps)
  qed
  consider "digit_val a < digit_val b" | "digit_val b < digit_val a" | "a = b"
    using digit_val_inj [OF d] by linarith
  then show ?case
  proof cases
    case 1
    then show ?thesis using less [of "digit_val a" "digit_val b" "dec_val as" "dec_val bs"] d l v
      by (simp add: digit_order)
  next
    case 2
    then show ?thesis using less [of "digit_val b" "digit_val a" "dec_val bs" "dec_val as"] d l v
      by (simp add: digit_order)
  next
    case 3
    then show ?thesis using 4 l by simp
  qed
qed simp_all

lemma compareMagnitude_val:
  assumes "canonical l" "canonical r"
  shows "compareMagnitude l r =
    (if dec_val l < dec_val r then -1 else if dec_val l > dec_val r then 1 else 0)"
  using canonical_length_less [OF assms] canonical_length_less [OF assms(2,1)]
    compare_bytes_digits [of l r] assms
  by (auto simp: compareMagnitude_def canonical_def)

lemma compareMagnitudeInt_val:
  "canonical m \<Longrightarrow> compareMagnitudeInt m n =
    (if dec_val m < n then -1 else if dec_val m > n then 1 else 0)"
  by (simp add: compareMagnitudeInt_def magnitudeFromInt_def compareMagnitude_val formatUint_canonical)

lemma carry_step: "(x + s div 10) * 10 + s mod 10 = x * 10 + s" for x s :: nat
  by (simp add: add_mult_distrib)

lemma add_loop_val:
  assumes "digits l" "digits r" "carry \<le> 1" "add_loop l r carry = (ds, c)"
  shows "dec_val (rev ds) + c * 10 ^ length ds = dec_val (rev l) + dec_val (rev r) + carry \<and>
    length ds = max (length l) (length r) \<and> digits ds \<and> c \<le> 1"
  using assms
proof (induction l r carry arbitrary: ds c rule: add_loop.induct)
  case (1 carry)
  then show ?case by simp
next
  case (2 l ls carry)
  let ?s = "carry + digit_val l"
  have s: "?s < 20" using 2(2,4) digit_val_less [of l] by simp
  obtain es c' where e: "add_loop ls [] (?s div 10) = (es, c')" by (cases "add_loop ls [] (?s div 10)")
  have ds: "ds = digit_char (?s mod 10) # es" "c = c'" using 2(5) e by (simp_all add: Let_def)
  have small: "?s div 10 \<le> 1" using s by simp
  have IH: "dec_val (rev es) + c' * 10 ^ length es = dec_val (rev ls) + ?s div 10"
      "length es = length ls" "digits es" "c' \<le> 1"
    using 2(1) [OF refl _ _ small e] 2(2) by auto
  have "dec_val (rev ds) + c * 10 ^ length ds = (dec_val (rev es) + c' * 10 ^ length es) * 10 + ?s mod 10"
    using ds by (simp add: dec_val_append algebra_simps)
  also note IH(1)
  also note carry_step
  finally show ?case using IH(2-) ds by (simp add: dec_val_append)
next
  case (3 r rs carry)
  let ?s = "carry + digit_val r"
  have s: "?s < 20" using 3(3,4) digit_val_less [of r] by simp
  obtain es c' where e: "add_loop [] rs (?s div 10) = (es, c')" by (cases "add_loop [] rs (?s div 10)")
  have ds: "ds = digit_char (?s mod 10) # es" "c = c'" using 3(5) e by (simp_all add: Let_def)
  have small: "?s div 10 \<le> 1" using s by simp
  have IH: "dec_val (rev es) + c' * 10 ^ length es = dec_val (rev rs) + ?s div 10"
      "length es = length rs" "digits es" "c' \<le> 1"
    using 3(1) [OF refl _ _ small e] 3(3) by auto
  have "dec_val (rev ds) + c * 10 ^ length ds = (dec_val (rev es) + c' * 10 ^ length es) * 10 + ?s mod 10"
    using ds by (simp add: dec_val_append algebra_simps)
  also note IH(1)
  also note carry_step
  finally show ?case using IH(2-) ds by (simp add: dec_val_append)
next
  case (4 l ls r rs carry)
  let ?s = "carry + digit_val l + digit_val r"
  have s: "?s < 20" using 4(2,3,4) digit_val_less [of l] digit_val_less [of r] by simp
  obtain es c' where e: "add_loop ls rs (?s div 10) = (es, c')" by (cases "add_loop ls rs (?s div 10)")
  have ds: "ds = digit_char (?s mod 10) # es" "c = c'" using 4(5) e by (simp_all add: Let_def)
  have small: "?s div 10 \<le> 1" using s by simp
  have IH: "dec_val (rev es) + c' * 10 ^ length es = dec_val (rev ls) + dec_val (rev rs) + ?s div 10"
      "length es = max (length ls) (length rs)" "digits es" "c' \<le> 1"
    using 4(1) [OF refl _ _ small e] 4(2,3) by auto
  have "dec_val (rev ds) + c * 10 ^ length ds = (dec_val (rev es) + c' * 10 ^ length es) * 10 + ?s mod 10"
    using ds by (simp add: dec_val_append algebra_simps)
  also note IH(1)
  also note carry_step
  finally show ?case using IH(2-) ds by (simp add: dec_val_append)
qed

lemma addMagnitude_correct:
  assumes "canonical l" "canonical r" "l \<noteq> ''0''" "r \<noteq> ''0''"
  shows "canonical (addMagnitude l r)" "dec_val (addMagnitude l r) = dec_val l + dec_val r"
proof -
  obtain ds c where e: "add_loop (rev l) (rev r) 0 = (ds, c)" by (cases "add_loop (rev l) (rev r) 0")
  have d: "digits l" "digits r" using assms by (simp_all add: canonical_def)
  have v: "dec_val (rev ds) + c * 10 ^ length ds = dec_val l + dec_val r"
      "length ds = max (length l) (length r)" "digits ds" "c \<le> 1"
    using add_loop_val [OF _ _ _ e] d by (simp_all only: list_all_rev rev_rev_ident length_rev) auto
  have ne: "l \<noteq> []" "r \<noteq> []" using assms by (auto simp: canonical_def)
  have low: "10 ^ (length ds - 1) \<le> dec_val l + dec_val r"
    using canonical_lower [OF assms(1,3)] canonical_lower [OF assms(2,4)] v(2)
    by (cases "length l \<le> length r") (simp_all add: max_def)
  show val: "dec_val (addMagnitude l r) = dec_val l + dec_val r"
    using v by (auto simp: addMagnitude_def e)
  show "canonical (addMagnitude l r)"
  proof (cases "c = 0")
    case True
    have "length (rev ds) = Suc (length ds - 1)" using v(2) ne by (cases l) auto
    then show ?thesis using canonical_of_length [of "rev ds" "length ds - 1"] v low True
      by (simp add: addMagnitude_def e)
  next
    case False
    then have "c = 1" using v(4) by simp
    then have "digit_char c \<noteq> CHR ''0''" using digit_val_char [of 1] by (metis digit_0(2) one_less_numeral_iff semiring_norm(76) zero_neq_one)
    then show ?thesis using False v(3) \<open>c = 1\<close> by (simp add: addMagnitude_def e canonical_def)
  qed
qed

lemma sub_loop_val:
  assumes "digits l" "digits r" "length r \<le> length l" "b = 0 \<or> b = 1"
  shows "digits (sub_loop l r b) \<and> length (sub_loop l r b) = length l \<and>
    (\<exists>b'. (b' = 0 \<or> b' = 1) \<and> int (dec_val (rev (sub_loop l r b))) + int (dec_val (rev r)) + b
       = int (dec_val (rev l)) + b' * 10 ^ length l)"
  using assms
proof (induction l arbitrary: r b)
  case Nil
  then show ?case by auto
next
  case (Cons l ls rs borrow)
  define x where "x = (case rs of [] \<Rightarrow> 0 | r # _ \<Rightarrow> digit_val r)"
  define d1 where "d1 = int (digit_val l) - borrow - int x"
  define b where "b = (if d1 < 0 then 1 else 0 :: int)"
  define d where "d = d1 + b * 10"
  have x: "x < 10" using Cons.prems(2) digit_val_less by (cases rs) (auto simp: x_def)
  have l: "digit_val l < 10" using Cons.prems(1) digit_val_less by simp
  have d: "0 \<le> d" "d < 10" using x l Cons.prems(4) by (auto simp: d_def b_def d1_def)
  have step: "sub_loop (l # ls) rs borrow = digit_char (nat d) # sub_loop ls (tl rs) b"
    by (cases rs) (auto simp: Let_def d_def b_def d1_def x_def)
  have val: "dec_val (rev rs) = dec_val (rev (tl rs)) * 10 + x"
    by (cases rs) (simp_all add: x_def dec_val_append)
  have tl: "digits (tl rs)" "length (tl rs) \<le> length ls"
    using Cons.prems(2,3) by (cases rs; simp)+
  have "b = 0 \<or> b = 1" by (simp add: b_def)
  then have IH: "digits (sub_loop ls (tl rs) b)" "length (sub_loop ls (tl rs) b) = length ls"
    "\<exists>b'. (b' = 0 \<or> b' = 1) \<and> int (dec_val (rev (sub_loop ls (tl rs) b))) + int (dec_val (rev (tl rs))) + b
       = int (dec_val (rev ls)) + b' * 10 ^ length ls"
    using Cons.IH [OF _ tl, of b] Cons.prems(1) by auto
  then obtain b' :: int where b': "b' = 0 \<or> b' = 1"
    "int (dec_val (rev (sub_loop ls (tl rs) b))) + int (dec_val (rev (tl rs))) + b
       = int (dec_val (rev ls)) + b' * 10 ^ length ls" by blast
  have "int (dec_val (rev (sub_loop (l # ls) rs borrow))) + int (dec_val (rev rs)) + borrow
     = (int (dec_val (rev (sub_loop ls (tl rs) b))) + int (dec_val (rev (tl rs))) + b) * 10
       + int (digit_val l)"
    unfolding step val using d by (simp add: dec_val_append algebra_simps) (simp add: d_def d1_def)
  also note b'(2)
  finally have "int (dec_val (rev (sub_loop (l # ls) rs borrow))) + int (dec_val (rev rs)) + borrow
     = int (dec_val (rev (l # ls))) + b' * 10 ^ length (l # ls)"
    by (simp add: dec_val_append algebra_simps)
  moreover have "digits (sub_loop (l # ls) rs borrow)" "length (sub_loop (l # ls) rs borrow) = length (l # ls)"
    unfolding step using IH(1,2) d by simp_all
  ultimately show ?case using b'(1) by blast
qed

lemma subtractMagnitude_correct:
  assumes "canonical l" "canonical r" "dec_val r \<le> dec_val l"
  shows "canonical (subtractMagnitude l r)" "dec_val (subtractMagnitude l r) = dec_val l - dec_val r"
proof -
  have len: "length r \<le> length l"
    using canonical_length_less [OF assms(1,2)] assms(3) by (meson leD leI)
  define z where "z = sub_loop (rev l) (rev r) 0"
  have d: "digits l" "digits r" using assms by (simp_all add: canonical_def)
  then obtain b' :: int where z: "digits z" "length z = length l" "b' = 0 \<or> b' = 1"
      "int (dec_val (rev z)) + int (dec_val r) = int (dec_val l) + b' * 10 ^ length l"
    using sub_loop_val [of "rev l" "rev r" 0] len by (auto simp: z_def)
  have "b' = 0"
  proof (rule ccontr)
    assume "b' \<noteq> 0"
    then have "int (dec_val (rev z)) + int (dec_val r) = int (dec_val l) + 10 ^ length l"
      using z(3,4) by simp
    moreover have "dec_val (rev z) < 10 ^ length l" using dec_val_less [of "rev z"] z by simp
    then have "int (dec_val (rev z)) < int (10 ^ length l)" by (simp only: of_nat_less_iff)
    then have "int (dec_val (rev z)) < 10 ^ length l" by simp
    ultimately show False using assms(3) by linarith
  qed
  then have "dec_val (rev z) = dec_val l - dec_val r" using z(4) by simp
  then show "canonical (subtractMagnitude l r)" "dec_val (subtractMagnitude l r) = dec_val l - dec_val r"
    using z(1) by (simp_all add: subtractMagnitude_def normalizeMagnitude_canonical normalizeMagnitude_val
        z_def [symmetric])
qed

definition signed_val :: "bool \<Rightarrow> bytes \<Rightarrow> int" where
  "signed_val neg m = (if neg then - int (dec_val m) else int (dec_val m))"

lemma addSignedMagnitude_correct:
  assumes "canonical l" "canonical r" "addSignedMagnitude lneg l rneg r = (sn, sm)"
  shows "canonical sm" "signed_val sn sm = signed_val lneg l + signed_val rneg r"
    "sn \<longrightarrow> dec_val sm \<noteq> 0"
proof -
  have z: "magnitudeIsZero l \<longleftrightarrow> dec_val l = 0" "magnitudeIsZero r \<longleftrightarrow> dec_val r = 0"
    using assms canonical_zero by (auto simp: magnitudeIsZero_def)
  have c0: "canonical ''0''" by (simp add: canonical_def)
  note cmp = compareMagnitude_val [OF assms(1,2)]
  have add: "canonical (addMagnitude l r)" "dec_val (addMagnitude l r) = dec_val l + dec_val r"
    if "dec_val l \<noteq> 0" "dec_val r \<noteq> 0"
  proof -
    have "l \<noteq> ''0''" "r \<noteq> ''0''"
      using that canonical_zero [OF assms(1)] canonical_zero [OF assms(2)] by simp_all
    then show "canonical (addMagnitude l r)" "dec_val (addMagnitude l r) = dec_val l + dec_val r"
      by (rule addMagnitude_correct [OF assms(1,2)])+
  qed
  note sub = subtractMagnitude_correct [OF assms(1,2)] subtractMagnitude_correct [OF assms(2,1)]
  have "canonical sm \<and> signed_val sn sm = signed_val lneg l + signed_val rneg r \<and>
      (sn \<longrightarrow> dec_val sm \<noteq> 0)"
    using assms(3) z add sub c0 assms(1,2)
    by (auto simp: addSignedMagnitude_def signed_val_def cmp of_nat_diff split: if_splits)
  then show "canonical sm" "signed_val sn sm = signed_val lneg l + signed_val rneg r"
    "sn \<longrightarrow> dec_val sm \<noteq> 0" by blast+
qed

section \<open>The value of a decimal\<close>

definition scale :: "Decimal \<Rightarrow> int" where
  "scale d = signed_val (scaleNegative d) (scaleMagnitude d)"

definition dec_value :: "Decimal \<Rightarrow> rat" where
  "dec_value d =
    (if zero d then 0
     else (if negative d then -1 else 1) * of_nat (dec_val (significand d)) * 10 powi scale d)"

text \<open>The normal form that parsing establishes.\<close>

definition dec_wf :: "Decimal \<Rightarrow> bool" where
  "dec_wf d \<longleftrightarrow>
    (if zero d then d = zeroDecimal
     else significand d \<noteq> [] \<and> digits (significand d) \<and> hd (significand d) \<noteq> CHR ''0'' \<and>
       last (significand d) \<noteq> CHR ''0'' \<and> canonical (scaleMagnitude d) \<and>
       (scaleNegative d \<longrightarrow> dec_val (scaleMagnitude d) \<noteq> 0))"

lemma strip_trailing_zeros:
  fixes s :: bytes
  defines "sig \<equiv> rev (dropWhile (\<lambda>c. c = CHR ''0'') (rev s))"
  shows "dec_val s = dec_val sig * 10 ^ (length s - length sig)" "length sig \<le> length s"
    "digits s \<Longrightarrow> digits sig" "sig \<noteq> [] \<Longrightarrow> last sig \<noteq> CHR ''0''"
    "s \<noteq> [] \<Longrightarrow> hd s \<noteq> CHR ''0'' \<Longrightarrow> sig \<noteq> [] \<and> hd sig = hd s"
proof -
  define zs where "zs = rev (takeWhile (\<lambda>c. c = CHR ''0'') (rev s))"
  have s: "s = sig @ zs"
    unfolding sig_def zs_def rev_append [symmetric] takeWhile_dropWhile_id by simp
  have "zs = replicate (length zs) CHR ''0''"
    unfolding zs_def by (intro replicate_eqI) (auto dest: set_takeWhileD)
  then have vz: "dec_val zs = 0" using dec_val_zeros [of "length zs"] by simp
  then show "dec_val s = dec_val sig * 10 ^ (length s - length sig)" "length sig \<le> length s"
    by (simp_all add: s dec_val_append)
  show "digits s \<Longrightarrow> digits sig" by (simp add: s)
  show "sig \<noteq> [] \<Longrightarrow> last sig \<noteq> CHR ''0''"
    using hd_drop_zeros [of "rev s"] unfolding sig_def last_rev rev_is_Nil_conv .
  show "sig \<noteq> [] \<and> hd sig = hd s" if "s \<noteq> []" "hd s \<noteq> CHR ''0''"
  proof -
    have "sig \<noteq> []"
    proof
      assume "sig = []"
      then have "set (rev s) \<subseteq> {CHR ''0''}" by (auto simp: sig_def dropWhile_eq_Nil_conv)
      then show False using that by (cases s) auto
    qed
    then show ?thesis by (simp add: s)
  qed
qed

lemma normalize_decimal_correct:
  assumes "digits ip" "digits fp" "canonical em"
  shows "dec_wf (normalize_decimal neg ip fp en em)"
    "dec_value (normalize_decimal neg ip fp en em) =
      (if neg then -1 else 1) * of_nat (dec_val (ip @ fp)) * 10 powi (signed_val en em - int (length fp))"
proof -
  define t where "t = dropWhile (\<lambda>c. c = CHR ''0'') (ip @ fp)"
  have dt: "digits t" using assms by (simp add: t_def digits_dropWhile)
  have vt: "dec_val t = dec_val (ip @ fp)" by (simp add: t_def dec_val_drop_zeros del: dropWhile_append1 dropWhile_append2)
  have "dec_wf (normalize_decimal neg ip fp en em) \<and>
    dec_value (normalize_decimal neg ip fp en em) =
      (if neg then -1 else 1) * of_nat (dec_val t) * 10 powi (signed_val en em - int (length fp))"
  proof (cases "t = []")
    case True
    then have "normalize_decimal neg ip fp en em = zeroDecimal"
      by (simp add: normalize_decimal_def t_def)
    then show ?thesis using True by (simp add: dec_wf_def dec_value_def zeroDecimal_def)
  next
    case False
    define sig where "sig = rev (dropWhile (\<lambda>c. c = CHR ''0'') (rev t))"
    define tz where "tz = length t - length sig"
    obtain sn1 sm1 where a1: "addSignedMagnitude en em True (magnitudeFromInt (length fp)) = (sn1, sm1)"
      by (cases "addSignedMagnitude en em True (magnitudeFromInt (length fp))")
    obtain sn sm where a2: "addSignedMagnitude sn1 sm1 False (magnitudeFromInt tz) = (sn, sm)"
      by (cases "addSignedMagnitude sn1 sm1 False (magnitudeFromInt tz)")
    have can: "canonical (magnitudeFromInt n)" and val: "dec_val (magnitudeFromInt n) = n" for n
      by (simp_all add: magnitudeFromInt_def formatUint_canonical)
    note s1 = addSignedMagnitude_correct [OF assms(3) can a1]
    note s2 = addSignedMagnitude_correct [OF s1(1) can a2]
    have sc: "signed_val sn sm = signed_val en em - int (length fp) + int tz"
      using s1(2) s2(2) by (simp add: signed_val_def [of True] signed_val_def [of False] val)
    have nd: "normalize_decimal neg ip fp en em = \<lparr>negative = neg, zero = False, significand = sig,
        scaleNegative = sn, scaleMagnitude = sm\<rparr>"
      unfolding normalize_decimal_def Let_def t_def [symmetric] sig_def [symmetric] tz_def [symmetric]
      using False a1 a2 by simp
    have hd: "hd t \<noteq> CHR ''0''" using False unfolding t_def by (rule hd_drop_zeros)
    note st = strip_trailing_zeros [of t, folded sig_def]
    have "dec_wf (normalize_decimal neg ip fp en em)"
      using st(3,4) st(5) [OF False hd] dt hd s2(1,3) by (simp add: nd dec_wf_def)
    moreover have "(of_nat (dec_val sig) :: rat) * 10 powi signed_val sn sm
        = of_nat (dec_val t) * 10 powi (signed_val en em - int (length fp))"
      unfolding sc st(1) tz_def by (simp add: power_int_add)
    ultimately show ?thesis by (simp add: nd dec_value_def scale_def)
  qed
  then show "dec_wf (normalize_decimal neg ip fp en em)"
    "dec_value (normalize_decimal neg ip fp en em) =
      (if neg then -1 else 1) * of_nat (dec_val (ip @ fp)) * 10 powi (signed_val en em - int (length fp))"
    unfolding vt by blast+
qed

section \<open>The JSON number grammar\<close>

definition fraction_text :: "bytes \<Rightarrow> bytes" where
  "fraction_text fp = (if fp = [] then [] else CHR ''.'' # fp)"

type_synonym exponent_parts = "(char \<times> bytes \<times> bytes) option"

fun exponent_text :: "exponent_parts \<Rightarrow> bytes" where
  "exponent_text None = []"
| "exponent_text (Some (mark, sg, ds)) = mark # sg @ ds"

fun exponent_ok :: "exponent_parts \<Rightarrow> bool" where
  "exponent_ok None = True"
| "exponent_ok (Some (mark, sg, ds)) \<longleftrightarrow> (mark = CHR ''e'' \<or> mark = CHR ''E'') \<and>
     (sg = [] \<or> sg = ''+'' \<or> sg = ''-'') \<and> ds \<noteq> [] \<and> digits ds"

fun exponent_value :: "exponent_parts \<Rightarrow> int" where
  "exponent_value None = 0"
| "exponent_value (Some (mark, sg, ds)) = signed_val (sg = ''-'') ds"

definition json_number_text :: "bool \<Rightarrow> bytes \<Rightarrow> bytes \<Rightarrow> exponent_parts \<Rightarrow> bytes" where
  "json_number_text neg ip fp ex =
    (if neg then ''-'' else []) @ ip @ fraction_text fp @ exponent_text ex"

definition number_parts :: "bytes \<Rightarrow> bytes \<Rightarrow> exponent_parts \<Rightarrow> bool" where
  "number_parts ip fp ex \<longleftrightarrow> canonical ip \<and> digits fp \<and> exponent_ok ex"

definition number_value :: "bool \<Rightarrow> bytes \<Rightarrow> bytes \<Rightarrow> exponent_parts \<Rightarrow> rat" where
  "number_value neg ip fp ex =
    (if neg then -1 else 1) * of_nat (dec_val (ip @ fp)) * 10 powi (exponent_value ex - int (length fp))"

lemma digit_chars:
  "isDecimalDigit c \<Longrightarrow> c \<noteq> CHR ''.'' \<and> c \<noteq> CHR ''e'' \<and> c \<noteq> CHR ''E'' \<and> c \<noteq> CHR ''-'' \<and> c \<noteq> CHR ''+''"
  by (auto simp: isDecimalDigit_def byte_val_def)

lemma span_digits:
  assumes "digits ds" "rest = [] \<or> \<not> isDecimalDigit (hd rest)"
  shows "takeWhile isDecimalDigit (ds @ rest) = ds" "dropWhile isDecimalDigit (ds @ rest) = rest"
  using assms by (cases rest; simp add: list_all_iff takeWhile_append dropWhile_append)+

lemma digits_takeWhile: "digits (takeWhile isDecimalDigit s)"
  by (induction s) simp_all

lemma scan_integer_sound:
  "scan_integer raw rest = Inr (ip, r) \<Longrightarrow> canonical ip \<and> rest = ip @ r"
  by (auto simp: scan_integer_def syntaxAt_def canonical_def digits_takeWhile split: list.splits if_splits)

lemma scan_integer_complete:
  assumes "canonical ip" "r = [] \<or> \<not> isDecimalDigit (hd r)"
  shows "scan_integer raw (ip @ r) = Inr (ip, r)"
proof -
  obtain c cs where ip: "ip = c # cs" using assms(1) by (cases ip) (auto simp: canonical_def)
  show ?thesis
  proof (cases "c = CHR ''0''")
    case True
    then show ?thesis using assms(1) ip by (simp add: scan_integer_def canonical_def)
  next
    case False
    have d: "digits ip" using assms(1) by (simp add: canonical_def)
    then show ?thesis using False ip span_digits [OF d assms(2)]
      by (simp add: scan_integer_def)
  qed
qed

lemma scan_fraction_sound:
  "scan_fraction raw rest = Inr (fp, r) \<Longrightarrow> digits fp \<and> rest = fraction_text fp @ r"
  by (cases rest)
    (auto simp: scan_fraction_def syntaxAt_def fraction_text_def digits_takeWhile Let_def
      takeWhile_eq_Nil_iff split: if_splits)

lemma scan_fraction_complete:
  assumes "digits fp" "r = [] \<or> \<not> isDecimalDigit (hd r) \<and> hd r \<noteq> CHR ''.''"
  shows "scan_fraction raw (fraction_text fp @ r) = Inr (fp, r)"
proof (cases "fp = []")
  case True
  then show ?thesis using assms by (auto simp: scan_fraction_def fraction_text_def)
next
  case False
  then have "isDecimalDigit (hd fp)" using assms(1) by (cases fp) auto
  moreover have "takeWhile isDecimalDigit (fp @ r) = fp" "dropWhile isDecimalDigit (fp @ r) = r"
    using assms by (intro span_digits; auto)+
  ultimately show ?thesis using False by (simp add: scan_fraction_def fraction_text_def)
qed

lemma scan_exponent_sound:
  assumes "scan_exponent raw rest = Inr (en, em, r)"
  shows "canonical em \<and> (\<exists>ex. exponent_ok ex \<and> rest = exponent_text ex @ r \<and>
    signed_val en em = exponent_value ex)"
proof (cases "rest \<noteq> [] \<and> (hd rest = CHR ''e'' \<or> hd rest = CHR ''E'')")
  case True
  define cs where "cs = tl rest"
  define neg where "neg = (cs \<noteq> [] \<and> hd cs = CHR ''-'')"
  define sg where "sg = (if cs \<noteq> [] \<and> (hd cs = CHR ''+'' \<or> hd cs = CHR ''-'') then [hd cs] else [])"
  define ds where "ds = (if cs \<noteq> [] \<and> (hd cs = CHR ''+'' \<or> hd cs = CHR ''-'') then tl cs else cs)"
  have cs: "cs = sg @ ds" by (auto simp: sg_def ds_def)
  have sg: "sg = [] \<or> sg = ''+'' \<or> sg = ''-''" "neg \<longleftrightarrow> sg = ''-''"
    by (auto simp: sg_def neg_def split: if_splits)
  have res: "ds \<noteq> []" "isDecimalDigit (hd ds)" "en = neg"
      "em = normalizeMagnitude (takeWhile isDecimalDigit ds)" "r = dropWhile isDecimalDigit ds"
    using assms True
    by (auto simp: scan_exponent_def syntaxAt_def Let_def cs_def [symmetric] neg_def ds_def split: if_splits)
  let ?x = "takeWhile isDecimalDigit ds"
  have "?x \<noteq> []" using res(1,2) by (cases ds) auto
  then have "exponent_ok (Some (hd rest, sg, ?x))" using True sg digits_takeWhile by auto
  moreover have "rest = exponent_text (Some (hd rest, sg, ?x)) @ r"
    using True cs res(5) unfolding cs_def by (cases rest) auto
  moreover have "signed_val en em = exponent_value (Some (hd rest, sg, ?x))"
    using res sg by (simp add: signed_val_def normalizeMagnitude_val)
  moreover have "canonical em" using res digits_takeWhile by (simp add: normalizeMagnitude_canonical)
  ultimately show ?thesis by blast
next
  case False
  then have "en = False" "em = ''0''" "r = rest" using assms by (auto simp: scan_exponent_def)
  then show ?thesis by (auto simp: canonical_def signed_val_def intro!: exI [of _ None])
qed

lemma scan_exponent_complete:
  assumes "exponent_ok ex"
  shows "\<exists>en em. scan_exponent raw (exponent_text ex) = Inr (en, em, []) \<and> canonical em \<and>
    signed_val en em = exponent_value ex"
proof (cases ex)
  case None
  then show ?thesis by (simp add: scan_exponent_def canonical_def signed_val_def) blast
next
  case (Some p)
  then obtain mark sg ds where ex: "ex = Some (mark, sg, ds)" by (cases p) auto
  have ds: "ds \<noteq> []" "digits ds" using assms ex by auto
  then have d: "isDecimalDigit (hd ds)" by (cases ds) auto
  have "dropWhile isDecimalDigit ds = []" "takeWhile isDecimalDigit ds = ds"
    using span_digits [OF ds(2), of "[]"] by simp_all
  note ds' = this
  have nd: "hd ds \<noteq> CHR ''+''" "hd ds \<noteq> CHR ''-''" using digit_chars [OF d] by auto
  have sg: "sg = [] \<or> sg = ''+'' \<or> sg = ''-''" and mark: "mark = CHR ''e'' \<or> mark = CHR ''E''"
    using assms ex by simp_all
  have "scan_exponent raw (mark # sg @ ds) = Inr (sg = ''-'', normalizeMagnitude ds, [])"
    using sg by (elim disjE) (simp_all add: scan_exponent_def Let_def mark ds' ds(1) d nd)
  then have "scan_exponent raw (exponent_text ex) = Inr (sg = ''-'', normalizeMagnitude ds, [])"
    by (simp only: ex exponent_text.simps)
  then show ?thesis using ex ds
    by (simp add: normalizeMagnitude_canonical normalizeMagnitude_val signed_val_def)
qed

lemma ParseDecimal_sound:
  assumes "ParseDecimal raw = Inr d"
  obtains neg ip fp ex where "number_parts ip fp ex" "raw = json_number_text neg ip fp ex"
    "dec_value d = number_value neg ip fp ex" "dec_wf d"
proof -
  define neg where "neg = (hd raw = CHR ''-'')"
  define body where "body = (if neg then tl raw else raw)"
  have ne: "raw \<noteq> []" using assms by (auto simp: ParseDecimal_def)
  then have raw: "raw = (if neg then ''-'' else []) @ body" by (cases raw) (auto simp: body_def neg_def)
  obtain ip r1 fp r2 en em where sc: "scan_integer raw body = Inr (ip, r1)"
      "scan_fraction raw r1 = Inr (fp, r2)" "scan_exponent raw r2 = Inr (en, em, [])"
      "d = normalize_decimal neg ip fp en em"
    using assms ne
    by (auto simp: ParseDecimal_def bind_sum_Inr neg_def [symmetric] body_def [symmetric] syntaxAt_def
        Let_def split: if_splits)
  note i = scan_integer_sound [OF sc(1)] and f = scan_fraction_sound [OF sc(2)]
    and e = scan_exponent_sound [OF sc(3)]
  obtain ex where ex: "exponent_ok ex" "r2 = exponent_text ex" "signed_val en em = exponent_value ex"
    using e by auto
  have "digits ip" using i by (simp add: canonical_def)
  then have n: "dec_wf d" "dec_value d = number_value neg ip fp ex"
    using normalize_decimal_correct [of ip fp em neg en] f e ex(3) sc(4)
    by (simp_all add: number_value_def)
  have "raw = json_number_text neg ip fp ex"
    using raw i f ex(2) by (simp add: json_number_text_def)
  then show thesis using that n i f ex(1) by (auto simp: number_parts_def)
qed

lemma ParseDecimal_complete:
  assumes "number_parts ip fp ex"
  shows "\<exists>d. ParseDecimal (json_number_text neg ip fp ex) = Inr d \<and> dec_value d = number_value neg ip fp ex"
proof -
  let ?raw = "json_number_text neg ip fp ex" and ?body = "ip @ fraction_text fp @ exponent_text ex"
  have ok: "canonical ip" "digits fp" "exponent_ok ex" using assms by (auto simp: number_parts_def)
  obtain c cs where ip: "ip = c # cs" "isDecimalDigit c"
    using ok(1) by (cases ip) (auto simp: canonical_def)
  have nd: "\<not> isDecimalDigit (CHR ''e'')" "\<not> isDecimalDigit (CHR ''E'')" "\<not> isDecimalDigit (CHR ''.'')"
    using digit_chars by blast+
  have neg: "hd ?raw = CHR ''-'' \<longleftrightarrow> neg" "?raw \<noteq> []" "(if neg then tl ?raw else ?raw) = ?body"
    using digit_chars [OF ip(2)] ip(1) by (auto simp: json_number_text_def)
  have e: "exponent_text ex = [] \<or> \<not> isDecimalDigit (hd (exponent_text ex)) \<and> hd (exponent_text ex) \<noteq> CHR ''.''"
    using ok(3) nd by (cases ex) auto
  have "fraction_text fp @ exponent_text ex = [] \<or> \<not> isDecimalDigit (hd (fraction_text fp @ exponent_text ex))"
    using e nd by (auto simp: fraction_text_def)
  then have si: "scan_integer ?raw ?body = Inr (ip, fraction_text fp @ exponent_text ex)"
    using ok(1) by (intro scan_integer_complete)
  have sf: "scan_fraction ?raw (fraction_text fp @ exponent_text ex) = Inr (fp, exponent_text ex)"
    using ok(2) e by (intro scan_fraction_complete)
  obtain en em where se: "scan_exponent ?raw (exponent_text ex) = Inr (en, em, [])" "canonical em"
      "signed_val en em = exponent_value ex"
    using scan_exponent_complete [OF ok(3)] by blast
  have p: "ParseDecimal ?raw = Inr (normalize_decimal neg ip fp en em)"
    using neg si sf se(1) by (simp add: ParseDecimal_def Let_def)
  have "digits ip" using ok(1) by (simp add: canonical_def)
  then show ?thesis
    using p normalize_decimal_correct(2) [of ip fp em neg en] ok(2) se(2,3) by (simp add: number_value_def)
qed

section \<open>Comparison and conversion are exact\<close>

lemma wf_significand:
  assumes "dec_wf d" "\<not> zero d"
  shows "canonical (significand d)" "significand d \<noteq> []" "digits (significand d)"
    "10 ^ (length (significand d) - 1) \<le> dec_val (significand d)"
    "dec_val (significand d) < 10 ^ length (significand d)" "canonical (scaleMagnitude d)"
    "0 < dec_val (significand d)"
proof -
  let ?s = "significand d"
  have *: "?s \<noteq> []" "digits ?s" "hd ?s \<noteq> CHR ''0''" "canonical (scaleMagnitude d)"
    using assms by (auto simp: dec_wf_def)
  then show "canonical ?s" by (simp add: canonical_def)
  moreover have "?s \<noteq> ''0''" using *(3) by auto
  ultimately show low: "10 ^ (length ?s - 1) \<le> dec_val ?s" by (rule canonical_lower)
  have "(0::nat) < 10 ^ (length ?s - 1)" by simp
  then show "0 < dec_val ?s" using low by (rule less_le_trans)
  show "dec_val ?s < 10 ^ length ?s" using *(2) by (rule dec_val_less)
qed (use assms in \<open>auto simp: dec_wf_def\<close>)

lemma formatUint_bounds:
  "0 < n \<Longrightarrow> 10 ^ (length (formatUint n) - 1) \<le> n" "n < 10 ^ length (formatUint n)"
  using canonical_lower [OF formatUint_canonical, of n] canonical_zero [OF formatUint_canonical, of n]
    dec_val_less [OF formatUint_digits, of n]
  by auto

lemma compare_padded_eq:
  "length sig \<le> length t \<Longrightarrow>
   compare_padded sig t = compare_bytes (sig @ replicate (length t - length sig) CHR ''0'') t"
proof (induction sig t rule: compare_padded.induct)
  case (2 sig t ts)
  show ?case
  proof (cases sig)
    case Nil
    then show ?thesis using 2(1) [OF refl] by simp
  next
    case (Cons c cs)
    then show ?thesis using 2 by simp
  qed
qed simp

lemma compare_integer_part_eq:
  "n \<le> length sig \<Longrightarrow> length t = n \<Longrightarrow>
   compare_integer_part n sig t = (let c = compare_bytes (take n sig) t in if c = 0 then 1 else c)"
proof (induction n sig t rule: compare_integer_part.induct)
  case (2 n sig t)
  then obtain a as b bs where "sig = a # as" "t = b # bs" by (cases sig; cases t) auto
  then show ?case using 2 by (simp add: Let_def)
qed simp

definition sgn_cmp :: "rat \<Rightarrow> nat \<Rightarrow> int" where
  "sgn_cmp q n = (if q < of_nat n then -1 else if q > of_nat n then 1 else 0)"

lemma sgn_cmp_scaled: "sgn_cmp (of_nat (s * 10 ^ k)) n = (if s * 10 ^ k < n then -1 else if s * 10 ^ k > n then 1 else 0)"
  unfolding sgn_cmp_def by (simp only: of_nat_less_iff)

lemma compare_scaled:
  fixes S n k v :: nat
  assumes "10 ^ (n - 1) \<le> S" "S < 10 ^ n" "0 < n"
    and L: "L = length (formatUint v)"
  shows "n + k > L \<Longrightarrow> v < S * 10 ^ k" "n + k < L \<Longrightarrow> S * 10 ^ k < v"
proof -
  assume "n + k > L"
  then have "v < 10 ^ (n - 1 + k)"
    using formatUint_bounds(2) [of v] L assms(3)
    by (auto intro: less_le_trans [OF _ power_increasing])
  also have "\<dots> \<le> S * 10 ^ k" using assms(1) by (simp add: power_add)
  finally show "v < S * 10 ^ k" .
next
  assume l: "n + k < L"
  have "0 < v"
  proof (rule ccontr)
    assume "\<not> 0 < v"
    then show False using l L assms(3) by (simp add: formatUint.simps)
  qed
  have "S * 10 ^ k < 10 ^ (n + k)" using assms(2) by (simp add: power_add)
  also have "\<dots> \<le> 10 ^ (L - 1)" using l by (intro power_increasing) auto
  also have "\<dots> \<le> v" using formatUint_bounds(1) [OF \<open>0 < v\<close>] L by simp
  finally show "S * 10 ^ k < v" .
qed

lemma compare_nonneg_scale:
  assumes wf: "dec_wf d" "\<not> zero d" "\<not> negative d" "\<not> scaleNegative d"
  shows "CompareUint64 d v = sgn_cmp (dec_value d) (unat v)"
proof -
  let ?s = "significand d" and ?m = "scaleMagnitude d" and ?t = "formatUint (unat v)"
  let ?S = "dec_val (significand d)" and ?k = "dec_val (scaleMagnitude d)"
  note w = wf_significand [OF wf(1,2)]
  have pos: "0 < length ?s" "?m \<noteq> []" using w(2,6) by (auto simp: canonical_def)
  have val: "dec_value d = of_nat (?S * 10 ^ ?k)"
    using wf by (simp add: dec_value_def scale_def signed_val_def)
  note big = compare_scaled [where k = ?k and v = "unat v", OF w(4,5) pos(1) refl]
  show ?thesis
    unfolding val sgn_cmp_scaled
  proof (cases "length ?s > length ?t")
    case True
    then show "CompareUint64 d v = (if ?S * 10 ^ ?k < unat v then -1 else if ?S * 10 ^ ?k > unat v then 1 else 0)"
      using big(1) wf pos w(2) by (simp add: CompareUint64_def)
  next
    case False
    let ?need = "length ?t - length ?s"
    have cmp: "compareMagnitudeInt ?m ?need = (if ?k < ?need then -1 else if ?k > ?need then 1 else 0)"
      using w(6) by (rule compareMagnitudeInt_val)
    have code: "CompareUint64 d v = (if ?k < ?need then -1 else if ?k > ?need then 1 else compare_padded ?s ?t)"
      using False wf pos w(2) by (simp add: CompareUint64_def cmp)
    consider "?k < ?need" | "?k > ?need" | "?k = ?need" by linarith
    then show "CompareUint64 d v = (if ?S * 10 ^ ?k < unat v then -1 else if ?S * 10 ^ ?k > unat v then 1 else 0)"
    proof cases
      case 1
      then have "length ?s + ?k < length ?t" by linarith
      then show ?thesis using code big(2) 1 by simp
    next
      case 2
      then have "length ?t < length ?s + ?k" using False by linarith
      then have "unat v < ?S * 10 ^ ?k" by (rule big(1))
      then show ?thesis using code 2 by simp
    next
      case 3
      have pad: "dec_val (?s @ replicate ?k CHR ''0'') = ?S * 10 ^ ?k"
        by (simp add: dec_val_append dec_val_zeros)
      have dig: "digits (?s @ replicate ?k CHR ''0'')" using w(3) by (auto simp: list_all_iff)
      have "compare_padded ?s ?t = compare_bytes (?s @ replicate ?k CHR ''0'') ?t"
        using False 3 by (simp add: compare_padded_eq)
      also have "\<dots> = (if ?S * 10 ^ ?k < unat v then -1 else if ?S * 10 ^ ?k > unat v then 1 else 0)"
        using compare_bytes_digits [OF dig formatUint_digits, of "unat v"] False 3 unfolding pad by simp
      finally show ?thesis using code 3 by simp
    qed
  qed
qed

lemma sgn_cmp_divided:
  "sgn_cmp (of_nat s * 10 powi (- int m)) n =
    (if s < n * 10 ^ m then -1 else if s > n * 10 ^ m then 1 else 0)"
proof -
  have q: "(of_nat s :: rat) * 10 powi (- int m) = of_nat s / of_nat (10 ^ m)"
    by (simp add: power_int_minus divide_inverse)
  have pos: "(0 :: rat) < of_nat (10 ^ m)" by simp
  have "of_nat s / of_nat (10 ^ m) < (of_nat n :: rat) \<longleftrightarrow> (of_nat s :: rat) < of_nat (n * 10 ^ m)"
    using pos by (simp only: pos_divide_less_eq of_nat_mult)
  moreover have "(of_nat n :: rat) < of_nat s / of_nat (10 ^ m) \<longleftrightarrow> (of_nat (n * 10 ^ m) :: rat) < of_nat s"
    using pos by (simp only: pos_less_divide_eq of_nat_mult)
  ultimately show ?thesis unfolding sgn_cmp_def q by (simp only: of_nat_less_iff)
qed

lemma dec_val_last: "digits s \<Longrightarrow> s \<noteq> [] \<Longrightarrow> last s \<noteq> CHR ''0'' \<Longrightarrow> 0 < dec_val s"
proof (induction s)
  case (Cons c cs)
  then show ?case using digit_val_inj [of c "CHR ''0''"] by (cases cs) auto
qed simp

lemma compare_negative_scale:
  assumes wf: "dec_wf d" "\<not> zero d" "\<not> negative d" "scaleNegative d"
  shows "CompareUint64 d v = sgn_cmp (dec_value d) (unat v)"
proof -
  let ?s = "significand d" and ?t = "formatUint (unat v)"
  let ?S = "dec_val (significand d)" and ?m = "dec_val (scaleMagnitude d)"
  let ?r = "if ?S < unat v * 10 ^ ?m then -1 else if ?S > unat v * 10 ^ ?m then 1 else 0 :: int"
  note w = wf_significand [OF wf(1,2)]
  have pos: "0 < length ?s" "scaleMagnitude d \<noteq> []" using w(2,6) by (auto simp: canonical_def)
  have val: "sgn_cmp (dec_value d) (unat v) = ?r"
    using wf sgn_cmp_divided [of ?S ?m "unat v"] by (simp add: dec_value_def scale_def signed_val_def)
  have cmp: "compareMagnitudeInt (scaleMagnitude d) (length ?s) \<ge> 0 \<longleftrightarrow> length ?s \<le> ?m"
    using compareMagnitudeInt_val [OF w(6)] by simp
  let ?n = "length ?s - ?m"
  have code: "CompareUint64 d v = (if v = 0 then 1 else if length ?s \<le> ?m then -1
      else if ?n < length ?t then -1 else if ?n > length ?t then 1
      else compare_integer_part ?n ?s ?t)"
    using wf pos w(2) by (simp add: CompareUint64_def cmp Let_def)
  show ?thesis
  proof (cases "v = 0")
    case True
    then show ?thesis using code val w(7) by simp
  next
    case False
    then have v: "0 < unat v" by (simp add: unat_gt_0)
    show ?thesis
    proof (cases "length ?s \<le> ?m")
      case True
      have "?S < 10 ^ length ?s" by (rule w(5))
      also have "\<dots> \<le> 10 ^ ?m" using True by (intro power_increasing) auto
      also have "\<dots> \<le> unat v * 10 ^ ?m" using v by simp
      finally show ?thesis using True False code val by simp
    next
      case short: False
      define a b where "a = take ?n ?s" and "b = drop ?n ?s"
      have ab: "?s = a @ b" "length a = ?n" "length b = ?m" "digits a" "digits b"
        using short w(3) by (auto simp: a_def b_def list_all_iff dest: in_set_takeD in_set_dropD)
      have mpos: "0 < ?m" using wf(1,2,4) by (auto simp: dec_wf_def)
      have "last b \<noteq> CHR ''0''" using wf(1,2) ab mpos by (auto simp: dec_wf_def last_append split: if_splits)
      moreover have "b \<noteq> []" using ab(3) mpos by auto
      ultimately have b: "0 < dec_val b" "dec_val b < 10 ^ ?m"
        using dec_val_last [OF ab(5)] dec_val_less [OF ab(5)] ab(3) mpos by auto
      have S: "?S = dec_val a * 10 ^ ?m + dec_val b" unfolding ab(1) using ab(3) by (simp add: dec_val_append)
      have can: "canonical a"
        using w(1) ab(1,2) short by (cases a) (auto simp: canonical_def)
      have less: "?S < unat v * 10 ^ ?m" if "dec_val a < unat v"
      proof -
        have "(dec_val a + 1) * 10 ^ ?m \<le> unat v * 10 ^ ?m" using that by (intro mult_right_mono) auto
        then show ?thesis using S b(2) by (simp add: algebra_simps)
      qed
      have more: "unat v * 10 ^ ?m < ?S" if "unat v \<le> dec_val a"
      proof -
        have "unat v * 10 ^ ?m \<le> dec_val a * 10 ^ ?m" using that by (intro mult_right_mono) auto
        then show ?thesis using S b(1) by linarith
      qed
      have r: "?r = (if dec_val a < unat v then -1 else 1)" 
        using less more by (cases "dec_val a < unat v") (simp_all add: not_less)
      have lens: "?n < length ?t \<Longrightarrow> dec_val a < unat v" "?n > length ?t \<Longrightarrow> unat v < dec_val a"
        using canonical_length_less [OF can formatUint_canonical, of "unat v"]
          canonical_length_less [OF formatUint_canonical can, of "unat v"] ab(2) by auto
      have same: "compare_integer_part ?n ?s ?t = (if dec_val a < unat v then -1 else 1)"
        if nt: "?n = length ?t"
      proof -
        have "compare_bytes a ?t = (if dec_val a < unat v then -1 else if dec_val a > unat v then 1 else 0)"
          using compare_bytes_digits [OF ab(4) formatUint_digits] ab(2) nt by simp
        moreover have "compare_integer_part ?n ?s ?t = (let c = compare_bytes a ?t in if c = 0 then 1 else c)"
          using compare_integer_part_eq [OF diff_le_self nt [symmetric]] by (simp only: a_def)
        ultimately show ?thesis by (simp only: Let_def) auto
      qed
      have code': "CompareUint64 d v = (if ?n < length ?t then -1 else if ?n > length ?t then 1
          else compare_integer_part ?n ?s ?t)"
        unfolding code using short False by (simp only: if_False)
      consider "?n < length ?t" | "?n > length ?t" | "?n = length ?t" by linarith
      then show ?thesis
      proof cases
        case 1
        then show ?thesis unfolding val r code' using lens(1) [OF 1] by (simp only: if_True)
      next
        case 2
        then have "\<not> ?n < length ?t" "\<not> dec_val a < unat v" using lens(2) by auto
        then show ?thesis unfolding val r code' using 2 by (simp only: if_True if_False)
      next
        case 3
        have "\<not> ?n < length ?t" "\<not> ?n > length ?t" using 3 by simp_all
        then show ?thesis unfolding val r code' same [OF 3] by (simp only: if_False)
      qed
    qed
  qed
qed

lemma sgn_cmp_0: "sgn_cmp 0 n = (if 0 < n then -1 else 0)"
  by (simp add: sgn_cmp_def)

lemma CompareUint64_wf:
  assumes "dec_wf d"
  shows "CompareUint64 d v = sgn_cmp (dec_value d) (unat v)"
proof (cases "zero d")
  case True
  then show ?thesis by (cases "v = 0") (simp_all add: CompareUint64_def dec_value_def sgn_cmp_0 unat_gt_0)
next
  case False
  show ?thesis
  proof (cases "negative d")
    case True
    have "(0 :: rat) < of_nat (dec_val (significand d)) * 10 powi scale d"
      using wf_significand(7) [OF assms False] by (simp add: zero_less_power_int)
    then have "dec_value d < 0" using True False by (simp add: dec_value_def)
    then have "dec_value d < of_nat (unat v)" by (rule less_le_trans) (simp only: of_nat_0_le_iff)
    then show ?thesis using True False by (simp add: CompareUint64_def sgn_cmp_def)
  next
    case False
    then show ?thesis
      using assms compare_nonneg_scale [OF assms] compare_negative_scale [OF assms] \<open>\<not> zero d\<close>
      by (cases "scaleNegative d") auto
  qed
qed

lemma sgn_cmp_eq_0: "sgn_cmp q n = 0 \<longleftrightarrow> q = of_nat n"
  by (auto simp: sgn_cmp_def)

lemma compare_integer_part_nonzero: "compare_integer_part n s t \<noteq> 0"
  by (induction n s t rule: compare_integer_part.induct) auto

lemma dec_value_sign:
  assumes "dec_wf d" "\<not> zero d"
  shows "negative d \<longleftrightarrow> dec_value d < 0" "dec_value d \<noteq> 0"
proof -
  define x where "x = (of_nat (dec_val (significand d)) :: rat) * 10 powi scale d"
  have "0 < x" using wf_significand(7) [OF assms] by (simp add: x_def zero_less_power_int)
  moreover have "dec_value d = (if negative d then - x else x)"
    using assms(2) by (simp add: dec_value_def x_def)
  ultimately show "negative d \<longleftrightarrow> dec_value d < 0" "dec_value d \<noteq> 0"
    by (auto split: if_splits)
qed

lemma Uint64_wf:
  assumes wf: "dec_wf d"
  shows "Uint64 d = Some v \<longleftrightarrow> dec_value d = of_nat (unat v)"
proof (cases "zero d")
  case True
  have "(0 :: rat) = of_nat (unat v) \<longleftrightarrow> v = 0" by (metis of_nat_0_eq_iff unat_eq_zero)
  then show ?thesis using True by (auto simp: Uint64_def dec_value_def)
next
  case nz: False
  note w = wf_significand [OF wf nz]
  consider "negative d" | "\<not> negative d" "scaleNegative d" | "\<not> negative d" "\<not> scaleNegative d" by blast
  then show ?thesis
  proof cases
    case 1
    then have "dec_value d < 0" using dec_value_sign [OF wf nz] by simp
    then have "dec_value d \<noteq> of_nat (unat v)" by (metis less_le_not_le of_nat_0_le_iff)
    then show ?thesis using 1 nz by (simp add: Uint64_def)
  next
    case 2
    then have "CompareUint64 d v \<noteq> 0"
      using nz by (simp add: CompareUint64_def Let_def compare_integer_part_nonzero)
    then have "dec_value d \<noteq> of_nat (unat v)"
      using CompareUint64_wf [OF wf] sgn_cmp_eq_0 by metis
    then show ?thesis using 2 nz by (simp add: Uint64_def IsInteger_def)
  next
    case 3
    let ?n = "dec_val (significand d) * 10 ^ dec_val (scaleMagnitude d)"
    have val: "dec_value d = of_nat ?n"
      using 3 nz by (simp add: dec_value_def scale_def signed_val_def)
    have "CompareUint64 d (-1) = (if ?n < 2 ^ 64 - 1 then -1 else if ?n > 2 ^ 64 - 1 then 1 else 0)"
      unfolding CompareUint64_wf [OF wf] val sgn_cmp_scaled unat_max64 ..
    then have big: "CompareUint64 d (-1) > 0 \<longleftrightarrow> \<not> ?n < 2 ^ 64" by auto
    have dig: "digits (significand d @ replicate k CHR ''0'')" for k
      using w(3) by (auto simp: list_all_iff)
    have "parseUint (significand d @ replicate (dec_val (scaleMagnitude d)) CHR ''0'') = Some v
        \<longleftrightarrow> ?n = unat v"
      using w(2) dig by (simp only: parseUint_Some) (simp add: dec_val_append dec_val_zeros)
    then have "Uint64 d = Some v \<longleftrightarrow> ?n < 2 ^ 64 \<and> ?n = unat v"
      using 3 nz w(2) big by (simp add: Uint64_def IsInteger_def)
    also have "\<dots> \<longleftrightarrow> ?n = unat v" using unat_less_64 [of v] by auto
    finally show ?thesis unfolding val of_nat_eq_iff .
  qed
qed

lemma last_digit: "digits s \<Longrightarrow> s \<noteq> [] \<Longrightarrow> dec_val s mod 10 = digit_val (last s)"
  using digit_val_less [of "last s"] dec_val_append [of "butlast s" "[last s]"]
  by (auto simp: list_all_iff)

lemma signed_val_inj:
  assumes "canonical a" "canonical b" "m \<longrightarrow> dec_val a \<noteq> 0" "n \<longrightarrow> dec_val b \<noteq> 0"
    "signed_val m a = signed_val n b"
  shows "m = n \<and> a = b"
proof -
  have "m = n \<and> dec_val a = dec_val b"
    using assms(3-5) by (cases m; cases n) (simp_all add: signed_val_def)
  then show ?thesis using canonical_inj [OF assms(1,2)] by blast
qed

lemma same_power_scaled:
  fixes S T :: nat
  assumes "(of_nat S :: rat) * 10 powi e = of_nat T * 10 powi f" "S mod 10 \<noteq> 0" "T mod 10 \<noteq> 0"
  shows "S = T \<and> e = f"
proof -
  have one: "A = B * 10 ^ nat (f - e)" if "(of_nat A :: rat) * 10 powi e = of_nat B * 10 powi f" "e \<le> f"
    for A B :: nat and e f
  proof -
    have "(10 :: rat) powi f = 10 powi (f - e) * 10 powi e" by (simp flip: power_int_add)
    then have "(of_nat A :: rat) * 10 powi e = of_nat B * 10 powi (f - e) * 10 powi e" using that(1) by simp
    then have "(of_nat A :: rat) = of_nat B * 10 powi (f - e)" by (simp add: power_int_eq_0_iff)
    also have "(10 :: rat) powi (f - e) = of_nat (10 ^ nat (f - e))" using that(2) by (simp add: power_int_def)
    finally have "(of_nat A :: rat) = of_nat (B * 10 ^ nat (f - e))" by simp
    then show ?thesis by (simp only: of_nat_eq_iff)
  qed
  have zero: "nat k = 0" if "A = B * 10 ^ nat k" "A mod 10 \<noteq> 0" for A B :: nat and k
  proof (rule ccontr)
    assume "nat k \<noteq> 0"
    then obtain j where "nat k = Suc j" by (cases "nat k") auto
    then show False using that by simp
  qed
  show ?thesis
  proof (cases "e \<le> f")
    case True
    note o = one [OF assms(1) True]
    then have "nat (f - e) = 0" using zero assms(2) by blast
    then show ?thesis using o True by simp
  next
    case False
    then have "f \<le> e" by simp
    note o = one [OF assms(1) [symmetric] this]
    then have "nat (e - f) = 0" using zero assms(3) by blast
    then show ?thesis using o False by simp
  qed
qed

lemma dec_normal_form_unique:
  assumes "dec_wf a" "dec_wf b" "dec_value a = dec_value b"
  shows "a = b"
proof (cases "zero a \<or> zero b")
  case True
  then have "zero a \<and> zero b" using dec_value_sign(2) assms
    by (metis dec_value_def)
  then show ?thesis using assms by (simp add: dec_wf_def)
next
  case False
  then have nz: "\<not> zero a" "\<not> zero b" by auto
  note wa = wf_significand [OF assms(1) nz(1)] and wb = wf_significand [OF assms(2) nz(2)]
  have neg: "negative a = negative b"
    using dec_value_sign(1) [OF assms(1) nz(1)] dec_value_sign(1) [OF assms(2) nz(2)] assms(3) by simp
  then have "(of_nat (dec_val (significand a)) :: rat) * 10 powi scale a
      = of_nat (dec_val (significand b)) * 10 powi scale b"
    using assms(3) nz by (auto simp: dec_value_def split: if_splits)
  moreover have "dec_val (significand a) mod 10 \<noteq> 0" "dec_val (significand b) mod 10 \<noteq> 0"
    using last_digit [OF wa(3,2)] last_digit [OF wb(3,2)] assms(1,2) nz wa(2,3) wb(2,3)
      digit_val_inj [OF _ digit_0(1)]
    by (auto simp: dec_wf_def list_all_iff)
  ultimately have "dec_val (significand a) = dec_val (significand b)" "scale a = scale b"
    using same_power_scaled by blast+
  then have "significand a = significand b"
    "scaleNegative a = scaleNegative b \<and> scaleMagnitude a = scaleMagnitude b"
    using canonical_inj [OF wa(1) wb(1)] signed_val_inj [OF wa(6) wb(6)] assms(1,2) nz
    by (auto simp: scale_def dec_wf_def)
  then show ?thesis using neg nz by (cases a; cases b) auto
qed

section \<open>Properties\<close>

text \<open>C7. \<open>ParseDecimal\<close> accepts exactly the texts of the JSON number grammar (optional minus, an
  integer without leading zero, optional fraction, optional exponent with optional sign) and the
  normalised decimal it returns has exactly the rational value that the text denotes, for exponents
  of any size.\<close>

theorem ParseDecimal_exact:
  "(\<exists>d. ParseDecimal raw = Inr d \<and> dec_value d = q) \<longleftrightarrow>
   (\<exists>neg ip fp ex. number_parts ip fp ex \<and> raw = json_number_text neg ip fp ex \<and>
      q = number_value neg ip fp ex)"
proof
  assume "\<exists>d. ParseDecimal raw = Inr d \<and> dec_value d = q"
  then obtain d where d: "ParseDecimal raw = Inr d" "dec_value d = q" by blast
  show "\<exists>neg ip fp ex. number_parts ip fp ex \<and> raw = json_number_text neg ip fp ex \<and>
      q = number_value neg ip fp ex"
    by (rule ParseDecimal_sound [OF d(1)]) (metis d(2))
qed (use ParseDecimal_complete in blast)

text \<open>C8. Comparing a parsed number with a \<open>uint64\<close> is exact on the mathematical values, for any
  coefficient length and any exponent: the result is -1, 0 or 1 as the value is below, equal to or
  above the integer.\<close>

theorem CompareUint64_exact:
  assumes "ParseDecimal raw = Inr d"
  shows "CompareUint64 d v =
    (if dec_value d < of_nat (unat v) then -1 else if dec_value d = of_nat (unat v) then 0 else 1)"
proof -
  have "dec_wf d" using assms by (elim ParseDecimal_sound)
  then show ?thesis by (auto simp: CompareUint64_wf sgn_cmp_def)
qed

lemma CompareUint64_exact_witness:
  "\<exists>d. ParseDecimal ''1.5e3'' = Inr d \<and> CompareUint64 d 1499 = 1"
proof -
  let ?d = "\<lparr>negative = False, zero = False, significand = ''15'', scaleNegative = False,
     scaleMagnitude = ''2''\<rparr>"
  have p: "ParseDecimal ''1.5e3'' = Inr ?d" by code_simp
  have v: "dec_value ?d = 1500"
    by (simp add: dec_value_def scale_def signed_val_def digit_val_def byte_val_def power_int_def)
  show ?thesis using p CompareUint64_exact [OF p, of 1499] unfolding v by simp
qed

text \<open>C9. A parsed number converts to a \<open>uint64\<close> exactly when its mathematical value is one, and
  then to that value; fractions, negative numbers and values of \<open>2 ^ 64\<close> and more are refused.\<close>

theorem Uint64_exact:
  assumes "ParseDecimal raw = Inr d"
  shows "Uint64 d = Some v \<longleftrightarrow> dec_value d = of_nat (unat v)"
  using assms by (elim ParseDecimal_sound) (rule Uint64_wf)

lemma Uint64_exact_witness:
  "\<exists>d. ParseDecimal ''-0.0'' = Inr d \<and> Uint64 d = Some 0"
proof -
  have p: "ParseDecimal ''-0.0'' = Inr zeroDecimal" by code_simp
  then show ?thesis using Uint64_exact [OF p, of 0] by (simp add: dec_value_def zeroDecimal_def)
qed

lemma byte_of_inj: "byte_of m = byte_of n \<longleftrightarrow> m mod 256 = n mod 256"
proof -
  have "byte_val (byte_of k) = k mod 256" for k by (simp add: byte_val_def byte_of_def)
  then show ?thesis by (metis byte_of_val)
qed

lemma SemanticKey_inj:
  assumes k: "SemanticKey a [] = Inr k" "SemanticKey b [] = Inr k" and wf: "dec_wf a" "dec_wf b"
  shows "a = b"
proof (cases "zero a \<or> zero b")
  case True
  then have "zero a \<and> zero b"
    using k by (auto simp: SemanticKey_def Let_def byte_of_inj split: if_splits)
  then show ?thesis using wf by (simp add: dec_wf_def)
next
  case False
  let ?l = "\<lambda>d. length (significand d)"
  have ne: "negative a = negative b" "byte_of (?l a div 256) = byte_of (?l b div 256)"
      "byte_of (?l a) = byte_of (?l b)" "?l a \<le> 65535" "?l b \<le> 65535"
    and rest: "significand a @ [byte_of (if scaleNegative a then 1 else 0)] @ scaleMagnitude a
      = significand b @ [byte_of (if scaleNegative b then 1 else 0)] @ scaleMagnitude b"
    using k False by (auto simp: SemanticKey_def Let_def byte_of_inj split: if_splits)
  have "?l a div 256 = ?l b div 256" "?l a mod 256 = ?l b mod 256"
    using ne(2-5) by (auto simp: byte_of_inj)
  then have "?l a = ?l b" by (metis div_mult_mod_eq)
  then have "significand a = significand b" "scaleMagnitude a = scaleMagnitude b"
    "scaleNegative a = scaleNegative b"
    using rest by (auto simp: byte_of_inj split: if_splits)
  then show ?thesis using ne(1) False by (cases a; cases b) auto
qed

text \<open>C10. The canonical key of a numeric request id identifies the number and not its spelling: two
  parsed numbers have the same key if and only if they have the same mathematical value.\<close>

theorem SemanticKey_iff_value:
  assumes "ParseDecimal r1 = Inr a" "ParseDecimal r2 = Inr b"
    and "SemanticKey a [] = Inr ka" "SemanticKey b [] = Inr kb"
  shows "ka = kb \<longleftrightarrow> dec_value a = dec_value b"
proof -
  have wf: "dec_wf a" "dec_wf b" using assms(1,2) by (auto elim: ParseDecimal_sound)
  show ?thesis
    using SemanticKey_inj [OF assms(3) _ wf] dec_normal_form_unique [OF wf] assms(3,4) by auto
qed

lemma SemanticKey_iff_value_witness:
  "\<exists>a b ka kb. ParseDecimal ''10'' = Inr a \<and> ParseDecimal ''1E+1'' = Inr b \<and>
     SemanticKey a [] = Inr ka \<and> SemanticKey b [] = Inr kb \<and> ka = kb"
proof -
  let ?d = "\<lparr>negative = False, zero = False, significand = ''1'', scaleNegative = False,
     scaleMagnitude = ''1''\<rparr>"
  have p: "ParseDecimal ''10'' = Inr ?d" "ParseDecimal ''1E+1'' = Inr ?d" by code_simp+
  have k: "\<exists>k. SemanticKey ?d [] = Inr k" by (simp add: SemanticKey_def Let_def)
  then show ?thesis using p SemanticKey_iff_value [OF p] by blast
qed

end
