(* ===== verification/JsonString.thy ===== *)
theory JsonString
  imports JsonDecimal
begin

text \<open>
  JSON strings in both directions: the decoder of \<open>src/internal/jsonwire/string.go\<close>
  (escapes, surrogate pairs, UTF-8 validation, decoded-size limit), the encoder
  \<open>appendJSONString\<close> of \<open>src/internal/mcpstdio/encode.go\<close> and the quoting of scalars
  in tool output, \<open>src/internal/present/scalar.go\<close>.  Both encoders are proved equal on
  valid UTF-8 and the decoder is proved their inverse.  The unread input is passed as
  the remaining bytes with the position they start at; byte counts are \<open>nat\<close>, since no
  count exceeds the input length.
\<close>

section \<open>Decoding\<close>

record Span =
  Start :: nat
  End :: nat

definition verr :: "ErrorKind \<Rightarrow> nat \<Rightarrow> ValidationError + 'a" where
  "verr kind position = Inl (newValidationError kind position)"

definition hexNibble :: "char \<Rightarrow> nat option" where
  "hexNibble c =
    (let v = byte_val c in
     if byte_val CHR ''0'' \<le> v \<and> v \<le> byte_val CHR ''9'' then Some (v - byte_val CHR ''0'')
     else if byte_val CHR ''a'' \<le> v \<and> v \<le> byte_val CHR ''f'' then Some (v - byte_val CHR ''a'' + 10)
     else if byte_val CHR ''A'' \<le> v \<and> v \<le> byte_val CHR ''F'' then Some (v - byte_val CHR ''A'' + 10)
     else None)"

text \<open>The remaining bytes are read four times; the value is shifted in from the right.\<close>

fun hex_loop :: "nat \<Rightarrow> bytes \<Rightarrow> nat \<Rightarrow> nat \<Rightarrow> ValidationError + nat" where
  "hex_loop 0 rest position v = Inr v"
| "hex_loop (Suc n) [] position v = verr KindSyntax position"
| "hex_loop (Suc n) (c # rest) position v =
    (case hexNibble c of
       None \<Rightarrow> verr KindSyntax position
     | Some nibble \<Rightarrow> hex_loop n rest (position + 1) (v * 16 + nibble))"

definition decodeJSONHex4 :: "bytes \<Rightarrow> nat \<Rightarrow> ValidationError + nat" where
  "decodeJSONHex4 rest start =
    (if length rest < 4 then verr KindSyntax (start + length rest)
     else hex_loop 4 rest start 0)"

text \<open>\<open>rest\<close> starts at the backslash.  The result is the rune and the number of bytes of
  the escape.\<close>

definition decodeJSONUnicodeEscape :: "bytes \<Rightarrow> nat \<Rightarrow> bool \<Rightarrow> ValidationError + rune \<times> nat" where
  "decodeJSONUnicodeEscape rest slash validateSurrogates =
    bind_sum (decodeJSONHex4 (drop 2 rest) (slash + 2)) (\<lambda>val.
      if 0xd800 \<le> val \<and> val \<le> 0xdbff then
        let unpaired = (if validateSurrogates then verr KindUnicode slash else Inr (RuneError, 6)) in
        if 8 \<le> length rest \<and> rest ! 6 = CHR 0x5C \<and> rest ! 7 = CHR ''u'' then
          bind_sum (decodeJSONHex4 (drop 8 rest) (slash + 8)) (\<lambda>low.
            if 0xdc00 \<le> low \<and> low \<le> 0xdfff
            then Inr (0x10000 + (val - 0xd800) * 0x400 + (low - 0xdc00), 12)
            else unpaired)
        else unpaired
      else if 0xdc00 \<le> val \<and> val \<le> 0xdfff then
        (if validateSurrogates then verr KindUnicode slash else Inr (RuneError, 6))
      else Inr (val, 6))"

definition decodeJSONEscape :: "bytes \<Rightarrow> nat \<Rightarrow> bool \<Rightarrow> ValidationError + rune \<times> nat" where
  "decodeJSONEscape rest slash validateSurrogates =
    (if length rest < 2 then verr KindSyntax (slash + length rest)
     else let escape = rest ! 1 in
       if escape \<in> {CHR 0x22, CHR 0x5C, CHR ''/''} then Inr (byte_val escape, 2)
       else if escape = CHR ''b'' then Inr (8, 2)
       else if escape = CHR ''f'' then Inr (12, 2)
       else if escape = CHR ''n'' then Inr (10, 2)
       else if escape = CHR ''r'' then Inr (13, 2)
       else if escape = CHR ''t'' then Inr (9, 2)
       else if escape = CHR ''u'' then decodeJSONUnicodeEscape rest slash validateSurrogates
       else verr KindSyntax (slash + 1))"

definition decodedLimitExceeded :: "nat \<Rightarrow> nat \<Rightarrow> nat \<Rightarrow> bool" where
  "decodedLimitExceeded current added limit \<longleftrightarrow> current > limit \<or> added > limit - current"

lemma decodeJSONEscape_width: "decodeJSONEscape rest slash vs = Inr (r, w) \<Longrightarrow> 2 \<le> w"
  by (auto simp: decodeJSONEscape_def decodeJSONUnicodeEscape_def verr_def bind_sum_Inr Let_def
      split: if_splits)

text \<open>\<open>utf8Iterator.next\<close> on remaining bytes that are not empty: rune and width.\<close>

definition utf8_next :: "bytes \<Rightarrow> nat \<Rightarrow> ValidationError + rune \<times> nat" where
  "utf8_next rest position =
    (let (r, width) = DecodeRune rest in
     if r = RuneError \<and> width = 1 then verr KindUnicode position else Inr (r, width))"

lemma utf8_next_width: "rest \<noteq> [] \<Longrightarrow> utf8_next rest p = Inr (r, w) \<Longrightarrow> 1 \<le> w"
  using DecodeRune_cases [of rest r w] EncodeRune_length(1) [of r]
  by (auto simp: utf8_next_def verr_def split: prod.splits if_splits)

text \<open>The loop of \<open>scanJSONStringSemantics\<close>; it stops at the closing quote.\<close>

function scan_string_loop ::
  "bool \<Rightarrow> bool \<Rightarrow> nat \<Rightarrow> nat \<Rightarrow> bytes \<Rightarrow> nat \<Rightarrow> nat \<Rightarrow> bytes \<Rightarrow> ValidationError + bytes \<times> Span" where
  "scan_string_loop capture vs limit start [] position decodedBytes decoded = verr KindSyntax position"
| "scan_string_loop capture vs limit start (c # cs) position decodedBytes decoded =
    (if c = CHR 0x22 then Inr (decoded, \<lparr>Start = start, End = position + 1\<rparr>)
     else if c = CHR 0x5C then
       (case decodeJSONEscape (c # cs) position vs of
          Inl e \<Rightarrow> Inl e
        | Inr (val, consumed) \<Rightarrow>
          let width = nat (RuneLen val) in
          if decodedLimitExceeded decodedBytes width limit then verr KindResource position
          else scan_string_loop capture vs limit start (drop consumed (c # cs)) (position + consumed)
                 (decodedBytes + width) (if capture then decoded @ EncodeRune val else decoded))
     else if byte_val c < 0x20 then verr KindSyntax position
     else if byte_val c < 0x80 then
       (if decodedLimitExceeded decodedBytes 1 limit then verr KindResource position
        else scan_string_loop capture vs limit start cs (position + 1) (decodedBytes + 1)
               (if capture then decoded @ [c] else decoded))
     else
       (case utf8_next (c # cs) position of
          Inl e \<Rightarrow> Inl e
        | Inr (r, width) \<Rightarrow>
          if decodedLimitExceeded decodedBytes width limit then verr KindResource position
          else scan_string_loop capture vs limit start (drop width (c # cs)) (position + width)
                 (decodedBytes + width) (if capture then decoded @ take width (c # cs) else decoded)))"
  by pat_completeness auto
termination
  by (relation "measure (\<lambda>(capture, vs, limit, start, rest, position, n, d). length rest)")
    (auto dest!: decodeJSONEscape_width utf8_next_width [rotated])

declare scan_string_loop.simps(2) [simp del]

definition scanJSONStringSemantics ::
  "bytes \<Rightarrow> nat \<Rightarrow> nat \<Rightarrow> bool \<Rightarrow> bool \<Rightarrow> ValidationError + bytes \<times> Span" where
  "scanJSONStringSemantics raw start maxDecodedBytes capture vs =
    (if start \<ge> length raw \<or> raw ! start \<noteq> CHR 0x22 then verr KindSyntax (min start (length raw))
     else scan_string_loop capture vs maxDecodedBytes start (drop (start + 1) raw) (start + 1) 0 [])"

definition scanJSONString :: "bytes \<Rightarrow> nat \<Rightarrow> nat \<Rightarrow> bool \<Rightarrow> ValidationError + bytes \<times> Span" where
  "scanJSONString raw start maxDecodedBytes capture =
    scanJSONStringSemantics raw start maxDecodedBytes capture True"

definition decodeJSONString :: "bytes \<Rightarrow> nat \<Rightarrow> ValidationError + bytes \<times> Span" where
  "decodeJSONString raw start = scanJSONString raw start (2 ^ 64 - 1) True"

section \<open>Encoding\<close>

definition lowerHex :: bytes where
  "lowerHex = ''0123456789abcdef''"

definition json_escape_byte :: "char \<Rightarrow> bytes" where
  "json_escape_byte c =
    (if byte_val c \<ge> 0x20 \<and> c \<noteq> CHR 0x22 \<and> c \<noteq> CHR 0x5C then [c]
     else if c = CHR 0x22 \<or> c = CHR 0x5C then [CHR 0x5C, c]
     else if byte_val c = 8 then [CHR 0x5C, CHR ''b'']
     else if byte_val c = 12 then [CHR 0x5C, CHR ''f'']
     else if byte_val c = 10 then [CHR 0x5C, CHR ''n'']
     else if byte_val c = 13 then [CHR 0x5C, CHR ''r'']
     else if byte_val c = 9 then [CHR 0x5C, CHR ''t'']
     else CHR 0x5C # ''u00'' @ [lowerHex ! (byte_val c div 16), lowerHex ! (byte_val c mod 16)])"

text \<open>\<open>appendJSONString\<close>: the source copies the runs between escaped bytes as slices.\<close>

fun json_escape_bytes :: "bytes \<Rightarrow> bytes" where
  "json_escape_bytes [] = []"
| "json_escape_bytes (c # cs) = json_escape_byte c @ json_escape_bytes cs"

definition appendJSONString :: "bytes \<Rightarrow> bytes \<Rightarrow> bytes" where
  "appendJSONString dst val = dst @ [CHR 0x22] @ json_escape_bytes val @ [CHR 0x22]"

definition quote_fragment :: "rune \<Rightarrow> bytes \<Rightarrow> bytes" where
  "quote_fragment r tail =
    (if r = byte_val CHR 0x22 then [CHR 0x5C, CHR 0x22]
     else if r = byte_val CHR 0x5C then [CHR 0x5C, CHR 0x5C]
     else if r = 8 then [CHR 0x5C, CHR ''b'']
     else if r = 9 then [CHR 0x5C, CHR ''t'']
     else if r = 10 then [CHR 0x5C, CHR ''n'']
     else if r = 12 then [CHR 0x5C, CHR ''f'']
     else if r = 13 then [CHR 0x5C, CHR ''r'']
     else if r < 0x20 then CHR 0x5C # ''u00'' @ [lowerHex ! (r div 16), lowerHex ! (r mod 16)]
     else take (nat (RuneLen r)) tail)"

text \<open>The \<open>range\<close> loop over the scalars of a string.\<close>

function quote_loop :: "bytes \<Rightarrow> bytes" where
  "quote_loop [] = []"
| "quote_loop (c # cs) =
    (let (r, w) = DecodeRune (c # cs) in quote_fragment r (c # cs) @ quote_loop (drop (max 1 w) (c # cs)))"
  by pat_completeness auto
termination by (relation "measure length") auto

declare quote_loop.simps(2) [simp del]

datatype present_error = InvalidPresentation

definition encodeQuotedScalar :: "bytes \<Rightarrow> present_error + bytes" where
  "encodeQuotedScalar val =
    (if \<not> ValidUTF8 val then Inl InvalidPresentation
     else Inr ([CHR 0x22] @ quote_loop val @ [CHR 0x22]))"

definition QuoteScalar :: "bytes \<Rightarrow> bytes \<Rightarrow> present_error + bytes" where
  "QuoteScalar dst val = bind_sum (encodeQuotedScalar val) (\<lambda>out. Inr (dst @ out))"

section \<open>The two encoders agree\<close>

lemma byte_val_special:
  "byte_val CHR 0x22 = 34" "byte_val CHR 0x5C = 92"
  by (simp_all add: byte_val_def)

lemma char_eq_byte: "c = CHR 0x22 \<longleftrightarrow> byte_val c = 34" "c = CHR 0x5C \<longleftrightarrow> byte_val c = 92"
  using byte_val_special by (metis byte_val_inj)+

lemma json_escape_plain:
  "0x20 \<le> byte_val c \<Longrightarrow> byte_val c \<noteq> 34 \<Longrightarrow> byte_val c \<noteq> 92 \<Longrightarrow> json_escape_byte c = [c]"
  by (simp add: json_escape_byte_def char_eq_byte)

lemma json_escape_bytes_append [simp]:
  "json_escape_bytes (a @ b) = json_escape_bytes a @ json_escape_bytes b"
  by (induction a) simp_all

lemma json_escape_bytes_high:
  "(\<And>c. c \<in> set s \<Longrightarrow> 0x80 \<le> byte_val c) \<Longrightarrow> json_escape_bytes s = s"
proof (induction s)
  case (Cons c cs)
  have "0x80 \<le> byte_val c" using Cons.prems by simp
  then have "json_escape_byte c = [c]" by (intro json_escape_plain) auto
  then show ?case using Cons by simp
qed simp

lemma quote_fragment_eq:
  assumes "scalar r"
  shows "quote_fragment r (EncodeRune r @ rest) = json_escape_bytes (EncodeRune r)"
proof (cases "r < 0x80")
  case True
  then have b: "byte_val (byte_of r) = r" by simp
  show ?thesis
    unfolding EncodeRune_ascii [OF True] quote_fragment_def json_escape_bytes.simps json_escape_byte_def
      b char_eq_byte byte_val_special
    using True by (simp add: char_eq_byte [THEN iffD2] b RuneLen_def byte_val_inj [symmetric] byte_val_special)
next
  case False
  then have "json_escape_bytes (EncodeRune r) = EncodeRune r"
    using EncodeRune_high [OF assms] by (intro json_escape_bytes_high) simp
  then show ?thesis using False assms by (simp add: quote_fragment_def byte_val_special RuneLen_Encode)
qed

lemma quote_loop_Encode:
  assumes "scalar r"
  shows "quote_loop (EncodeRune r @ rest) = json_escape_bytes (EncodeRune r) @ quote_loop rest"
proof -
  obtain c cs where c: "EncodeRune r @ rest = c # cs" by (cases "EncodeRune r @ rest") auto
  have "max 1 (length (EncodeRune r)) = length (EncodeRune r)" using EncodeRune_length(1) by simp
  then show ?thesis
    using DecodeRune_Encode [OF assms, of rest] quote_fragment_eq [OF assms, of rest] c
    by (simp add: quote_loop.simps(2)) (metis append_eq_conv_conj)
qed

lemma quote_loop_eq: "list_all scalar rs \<Longrightarrow> quote_loop (utf8_encode rs) = json_escape_bytes (utf8_encode rs)"
  by (induction rs) (simp_all add: quote_loop_Encode)

text \<open>C11. The scalar quoting of tool output and the JSON string encoder of the transport write the
  same bytes for every valid UTF-8 string; \<open>QuoteScalar\<close> refuses exactly the strings that are not
  valid UTF-8.\<close>

theorem QuoteScalar_is_JSON:
  "QuoteScalar dst val =
    (if ValidUTF8 val then Inr (appendJSONString dst val) else Inl InvalidPresentation)"
  using quote_loop_eq ValidUTF8_iff [of val]
  by (auto simp: QuoteScalar_def encodeQuotedScalar_def appendJSONString_def)

section \<open>Decoding inverts encoding\<close>

lemma hexNibble_lowerHex: "k < 16 \<Longrightarrow> hexNibble (lowerHex ! k) = Some k"
proof -
  have "\<forall>k \<in> set [0..<16]. hexNibble (lowerHex ! k) = Some k" by code_simp
  then show "k < 16 \<Longrightarrow> hexNibble (lowerHex ! k) = Some k" by simp
qed

lemma hex_loop_4:
  assumes "hexNibble a = Some na" "hexNibble b = Some nb" "hexNibble c = Some nc" "hexNibble d = Some nd"
  shows "hex_loop 4 (a # b # c # d # rest) p 0 = Inr (((na * 16 + nb) * 16 + nc) * 16 + nd)"
proof -
  have four: "4 = Suc (Suc (Suc (Suc 0)))" by simp
  show ?thesis unfolding four using assms by simp
qed

lemma decode_short_escape:
  "decodeJSONEscape (CHR 0x5C # CHR 0x22 # rest) slash vs = Inr (34, 2)"
  "decodeJSONEscape (CHR 0x5C # CHR 0x5C # rest) slash vs = Inr (92, 2)"
  "decodeJSONEscape (CHR 0x5C # CHR ''b'' # rest) slash vs = Inr (8, 2)"
  "decodeJSONEscape (CHR 0x5C # CHR ''f'' # rest) slash vs = Inr (12, 2)"
  "decodeJSONEscape (CHR 0x5C # CHR ''n'' # rest) slash vs = Inr (10, 2)"
  "decodeJSONEscape (CHR 0x5C # CHR ''r'' # rest) slash vs = Inr (13, 2)"
  "decodeJSONEscape (CHR 0x5C # CHR ''t'' # rest) slash vs = Inr (9, 2)"
  by (simp_all add: decodeJSONEscape_def Let_def byte_val_special)

lemma decode_escaped_byte:
  assumes "byte_val c < 0x20 \<or> c = CHR 0x22 \<or> c = CHR 0x5C"
  shows "decodeJSONEscape (json_escape_byte c @ rest) slash vs
     = Inr (byte_val c, length (json_escape_byte c)) \<and> hd (json_escape_byte c) = CHR 0x5C \<and>
     json_escape_byte c \<noteq> []"
proof -
  have nib: "hexNibble CHR ''0'' = Some 0" by code_simp
  have h: "hexNibble (lowerHex ! (byte_val c div 16)) = Some (byte_val c div 16)"
    "hexNibble (lowerHex ! (byte_val c mod 16)) = Some (byte_val c mod 16)"
  proof -
    have "byte_val c div 16 < 16" using byte_val_less [of c] by linarith
    then show "hexNibble (lowerHex ! (byte_val c div 16)) = Some (byte_val c div 16)"
      by (rule hexNibble_lowerHex)
  qed (simp add: hexNibble_lowerHex)
  let ?h = "lowerHex ! (byte_val c div 16)" and ?l = "lowerHex ! (byte_val c mod 16)"
  have "hex_loop 4 (CHR ''0'' # CHR ''0'' # ?h # ?l # rest) (slash + 2) 0 = Inr (byte_val c)"
    unfolding hex_loop_4 [OF nib nib h] by simp
  then have H: "decodeJSONHex4 (CHR ''0'' # CHR ''0'' # ?h # ?l # rest) (slash + 2) = Inr (byte_val c)"
    by (simp add: decodeJSONHex4_def)
  have d2: "drop 2 (CHR 0x5C # CHR ''u'' # xs) = xs" for xs by simp
  have small: "\<not> 0xd800 \<le> byte_val c" "\<not> 0xdc00 \<le> byte_val c"
    using byte_val_less [of c] by linarith+
  have "decodeJSONUnicodeEscape (CHR 0x5C # CHR ''u'' # CHR ''0'' # CHR ''0'' # ?h # ?l # rest) slash vs
      = Inr (byte_val c, 6)"
    unfolding decodeJSONUnicodeEscape_def d2 H bind_sum.simps by (simp add: small)
  then have u: "decodeJSONEscape (CHR 0x5C # ''u00'' @ [?h, ?l] @ rest) slash vs = Inr (byte_val c, 6)"
    by (simp add: decodeJSONEscape_def)
  consider "c = CHR 0x22" | "c = CHR 0x5C" | "byte_val c \<in> {8, 9, 10, 12, 13}"
    | "byte_val c < 0x20" "byte_val c \<notin> {8, 9, 10, 12, 13}"
    using assms by blast
  then show ?thesis
  proof cases
    case 1
    then show ?thesis by (simp add: json_escape_byte_def decode_short_escape byte_val_special)
  next
    case 2
    then show ?thesis by (simp add: json_escape_byte_def decode_short_escape byte_val_special)
  next
    case 3
    then have "c \<noteq> CHR 0x22" "c \<noteq> CHR 0x5C" by (auto simp: char_eq_byte)
    then show ?thesis using 3 by (auto simp: json_escape_byte_def decode_short_escape)
  next
    case 4
    then have "c \<noteq> CHR 0x22" "c \<noteq> CHR 0x5C" by (auto simp: char_eq_byte)
    then have e: "json_escape_byte c = CHR 0x5C # ''u00'' @ [?h, ?l]"
      using 4 by (simp add: json_escape_byte_def)
    have len: "length (json_escape_byte c) = 6" by (simp add: e)
    have app: "json_escape_byte c @ rest = CHR 0x5C # ''u00'' @ [?h, ?l] @ rest" by (simp add: e)
    show ?thesis unfolding len app u by (simp add: e)
  qed
qed

lemma not_limit: "n + w \<le> limit \<Longrightarrow> \<not> decodedLimitExceeded n w limit"
  by (auto simp: decodedLimitExceeded_def)

lemma scan_encoded_rune:
  assumes r: "scalar r" and room: "n + length (EncodeRune r) \<le> limit"
  shows "scan_string_loop True vs limit start (json_escape_bytes (EncodeRune r) @ rest) p n d =
    scan_string_loop True vs limit start rest (p + length (json_escape_bytes (EncodeRune r)))
      (n + length (EncodeRune r)) (d @ EncodeRune r)"
proof (cases "r < 0x80")
  case True
  define c where "c = byte_of r"
  have bc: "byte_val c = r" using True by (simp add: c_def)
  have enc: "EncodeRune r = [c]" using EncodeRune_ascii [OF True] by (simp add: c_def)
  have lim: "\<not> decodedLimitExceeded n 1 limit" using room by (intro not_limit) (simp add: enc)
  show ?thesis
  proof (cases "byte_val c < 0x20 \<or> c = CHR 0x22 \<or> c = CHR 0x5C")
    case esc: True
    note e = decode_escaped_byte [OF esc, of rest p vs]
    then obtain t where t: "json_escape_byte c = CHR 0x5C # t" by (cases "json_escape_byte c") auto
    have len: "nat (RuneLen (byte_val c)) = 1" using True by (simp add: bc RuneLen_def)
    have enc2: "EncodeRune (byte_val c) = [c]" by (simp add: bc enc)
    show ?thesis
      using e lim len enc2 by (simp add: enc t scan_string_loop.simps(2))
  next
    case False
    then have "json_escape_byte c = [c]" by (intro json_escape_plain) (auto simp: char_eq_byte)
    then show ?thesis using False True lim bc by (simp add: enc scan_string_loop.simps(2))
  qed
next
  case False
  then have high: "\<And>c. c \<in> set (EncodeRune r) \<Longrightarrow> 0x80 \<le> byte_val c" using EncodeRune_high [OF r] by simp
  obtain c cs where c: "EncodeRune r = c # cs" by (cases "EncodeRune r") auto
  have bc: "0x80 \<le> byte_val c" using high c by simp
  then have nq: "c \<noteq> CHR 0x22" "c \<noteq> CHR 0x5C" by (auto simp: byte_val_special)
  have "DecodeRune (c # (cs @ rest)) = (r, length (EncodeRune r))"
    using DecodeRune_Encode [OF r, of rest] c by simp
  then have nx: "utf8_next (c # (cs @ rest)) p = Inr (r, length (EncodeRune r))"
    using decode_not_error [OF r] by (auto simp: utf8_next_def)
  have "json_escape_bytes (EncodeRune r) = EncodeRune r" using high by (intro json_escape_bytes_high)
  then show ?thesis using bc nq nx not_limit [OF room] by (simp add: c scan_string_loop.simps(2))
qed

lemma scan_encoded:
  "list_all scalar rs \<Longrightarrow> n + length (utf8_encode rs) \<le> limit \<Longrightarrow>
   scan_string_loop True vs limit start (json_escape_bytes (utf8_encode rs) @ CHR 0x22 # rest) p n d =
   Inr (d @ utf8_encode rs, \<lparr>Start = start, End = p + length (json_escape_bytes (utf8_encode rs)) + 1\<rparr>)"
proof (induction rs arbitrary: p n d)
  case Nil
  then show ?case by (simp add: scan_string_loop.simps(2))
next
  case (Cons r rs)
  have "scan_string_loop True vs limit start
      (json_escape_bytes (EncodeRune r) @ (json_escape_bytes (utf8_encode rs) @ CHR 0x22 # rest)) p n d =
    scan_string_loop True vs limit start (json_escape_bytes (utf8_encode rs) @ CHR 0x22 # rest)
      (p + length (json_escape_bytes (EncodeRune r))) (n + length (EncodeRune r)) (d @ EncodeRune r)"
    using Cons.prems by (intro scan_encoded_rune) auto
  then show ?case using Cons by (simp add: add.assoc)
qed

text \<open>C12. Decoding inverts encoding: a valid UTF-8 string written by \<open>appendJSONString\<close> anywhere in
  a buffer is read back by \<open>decodeJSONString\<close> unchanged, and the reported span is exactly what was
  written, whatever precedes and follows.\<close>

theorem decodeJSONString_append:
  assumes "ValidUTF8 val" "length val < 2 ^ 64"
  shows "decodeJSONString (appendJSONString dst val @ rest) (length dst) =
    Inr (val, \<lparr>Start = length dst, End = length (appendJSONString dst val)\<rparr>)"
proof -
  obtain rs where rs: "list_all scalar rs" "val = utf8_encode rs" using assms(1) ValidUTF8_iff by blast
  have "scan_string_loop True True (2 ^ 64 - 1) (length dst)
      (json_escape_bytes (utf8_encode rs) @ CHR 0x22 # rest) (length dst + 1) 0 [] =
    Inr ([] @ utf8_encode rs, \<lparr>Start = length dst,
      End = length dst + 1 + length (json_escape_bytes (utf8_encode rs)) + 1\<rparr>)"
    using assms(2) rs by (intro scan_encoded) simp_all
  then show ?thesis
    by (simp add: decodeJSONString_def scanJSONString_def scanJSONStringSemantics_def
        appendJSONString_def rs(2) nth_append)
qed

lemma decodeJSONString_append_witness:
  "ValidUTF8 ''a'' \<and>
   decodeJSONString (appendJSONString ''{'' ''a'' @ ''}'') 1 = Inr (''a'', \<lparr>Start = 1, End = 4\<rparr>)"
proof -
  have v: "ValidUTF8 ''a''" by (simp add: ValidUTF8.simps(2) DecodeRune.simps RuneError_def byte_val_def)
  have a: "appendJSONString ''{'' ''a'' = CHR ''{'' # CHR 0x22 # CHR ''a'' # [CHR 0x22]"
    by (simp add: appendJSONString_def json_escape_byte_def byte_val_def)
  have "decodeJSONString (appendJSONString ''{'' ''a'' @ ''}'') (length ''{'') =
      Inr (''a'', \<lparr>Start = length ''{'', End = length (appendJSONString ''{'' ''a'')\<rparr>)"
    by (rule decodeJSONString_append [OF v]) simp
  then show ?thesis using v by (simp add: a)
qed

section \<open>What the decoder accepts\<close>

lemma hexNibble_less: "hexNibble c = Some k \<Longrightarrow> k < 16"
  by (auto simp: hexNibble_def Let_def byte_val_def split: if_splits)

lemma hex_loop_less: "hex_loop n rest p v = Inr x \<Longrightarrow> x < (v + 1) * 16 ^ n"
proof (induction n rest p v rule: hex_loop.induct)
  case (3 n c rest p v)
  then obtain k where k: "hexNibble c = Some k" "hex_loop n rest (p + 1) (v * 16 + k) = Inr x"
    by (auto simp: verr_def split: option.splits)
  have "x < (v * 16 + k + 1) * 16 ^ n" using 3(1) [OF k] by simp
  also have "\<dots> \<le> ((v + 1) * 16) * 16 ^ n" using hexNibble_less [OF k(1)] by (intro mult_right_mono) auto
  finally show ?case by (simp add: algebra_simps)
qed (auto simp: verr_def)

lemma decodeJSONHex4_less:
  assumes "decodeJSONHex4 rest p = Inr v"
  shows "v < 0x10000"
proof -
  have "hex_loop 4 rest p 0 = Inr v"
    using assms by (simp add: decodeJSONHex4_def verr_def split: if_splits)
  from hex_loop_less [OF this] show ?thesis by simp
qed

lemma decodeJSONUnicodeEscape_scalar:
  "decodeJSONUnicodeEscape rest slash vs = Inr (r, w) \<Longrightarrow> scalar r"
  by (auto simp: decodeJSONUnicodeEscape_def bind_sum_Inr verr_def Let_def scalar_def RuneError_def
      dest!: decodeJSONHex4_less split: if_splits)

lemma decodeJSONEscape_scalar:
  assumes "decodeJSONEscape rest slash vs = Inr (r, w)"
  shows "scalar r"
proof -
  have "byte_val c < 0xD800" for c using byte_val_less [of c] by linarith
  then show ?thesis using assms decodeJSONUnicodeEscape_scalar
    by (auto simp: decodeJSONEscape_def verr_def Let_def scalar_def split: if_splits)
qed

lemma ValidUTF8_append: "ValidUTF8 a \<Longrightarrow> ValidUTF8 b \<Longrightarrow> ValidUTF8 (a @ b)"
  unfolding ValidUTF8_iff by (metis list_all_append utf8_encode_simps(3))

lemma ValidUTF8_Encode_alone: "scalar r \<Longrightarrow> ValidUTF8 (EncodeRune r)"
  using ValidUTF8_Encode [of r "[]"] by simp

lemma decodeJSONHex4_length: "decodeJSONHex4 rest p = Inr v \<Longrightarrow> 4 \<le> length rest"
  by (auto simp: decodeJSONHex4_def verr_def split: if_splits)

lemma decodeJSONEscape_consumed: "decodeJSONEscape rest slash vs = Inr (r, w) \<Longrightarrow> w \<le> length rest"
  by (auto simp: decodeJSONEscape_def decodeJSONUnicodeEscape_def verr_def bind_sum_Inr Let_def
      dest!: decodeJSONHex4_length split: if_splits)

lemma utf8_next_Inr:
  assumes "utf8_next rest p = Inr (r, w)" "rest \<noteq> []"
  shows "scalar r" "w = length (EncodeRune r)" "take w rest = EncodeRune r" "w \<le> length rest"
proof -
  have "DecodeRune rest = (r, w)" "\<not> (r = RuneError \<and> w = 1)"
    using assms(1) by (auto simp: utf8_next_def verr_def split: prod.splits if_splits)
  then obtain t where "scalar r" "rest = EncodeRune r @ t" "w = length (EncodeRune r)"
    using DecodeRune_cases [OF _ assms(2)] by blast
  then show "scalar r" "w = length (EncodeRune r)" "take w rest = EncodeRune r" "w \<le> length rest"
    by simp_all
qed

lemma scan_string_loop_sound:
  assumes "scan_string_loop True vs limit start rest p n d = Inr (s, sp)"
    "ValidUTF8 d" "length d = n" "n \<le> limit"
  shows "ValidUTF8 s \<and> length s \<le> limit \<and> Start sp = start \<and> p < End sp \<and> End sp \<le> p + length rest"
  using assms
proof (induction "True" vs limit start rest p n d rule: scan_string_loop.induct)
  case (1 vs limit start p n d)
  then show ?case by (simp add: verr_def)
next
  case (2 vs limit start c cs p n d)
  note IH = 2(1-3) and res = 2(4) and d = 2(5-7)
  note def = scan_string_loop.simps(2) [of True vs limit start c cs p n d]
  consider (quote) "c = CHR 0x22" | (esc) "c \<noteq> CHR 0x22" "c = CHR 0x5C"
    | (ascii) "c \<noteq> CHR 0x22" "c \<noteq> CHR 0x5C" "\<not> byte_val c < 0x20" "byte_val c < 0x80"
    | (bad) "c \<noteq> CHR 0x22" "c \<noteq> CHR 0x5C" "byte_val c < 0x20"
    | (high) "c \<noteq> CHR 0x22" "c \<noteq> CHR 0x5C" "\<not> byte_val c < 0x20" "\<not> byte_val c < 0x80"
    by blast
  then show ?case
  proof cases
    case quote
    then show ?thesis using d res def by auto
  next
    case bad
    then show ?thesis using res def by (simp add: verr_def)
  next
    case esc
    obtain v w where e: "decodeJSONEscape (c # cs) p vs = Inr (v, w)"
      using esc res def by (cases "decodeJSONEscape (c # cs) p vs") auto
    define k where "k = nat (RuneLen v)"
    have v: "scalar v" "k = length (EncodeRune v)"
      using decodeJSONEscape_scalar [OF e] by (simp_all add: k_def RuneLen_Encode)
    have lim: "\<not> decodedLimitExceeded n k limit"
      using esc res e unfolding def by (auto simp: k_def [symmetric] verr_def)
    have rec: "scan_string_loop True vs limit start (drop w (c # cs)) (p + w) (n + k) (d @ EncodeRune v)
        = Inr (s, sp)"
      using esc res e lim unfolding def by (simp add: k_def [symmetric] verr_def)
    have "ValidUTF8 (d @ EncodeRune v)" using d(1) v(1) by (simp add: ValidUTF8_append ValidUTF8_Encode_alone)
    moreover have "n + k \<le> limit" using lim by (auto simp: decodedLimitExceeded_def)
    moreover have "length (d @ EncodeRune v) = n + k" using d(2) v(2) by simp
    ultimately have "ValidUTF8 s \<and> length s \<le> limit \<and> Start sp = start \<and> p + w < End sp \<and>
        End sp \<le> p + w + length (drop w (c # cs))"
      using IH(1) [OF esc e refl refl] rec lim unfolding k_def by auto
    then show ?thesis using decodeJSONEscape_consumed [OF e] by auto
  next
    case ascii
    have lim: "\<not> decodedLimitExceeded n 1 limit"
      using ascii res unfolding def by (auto simp: verr_def)
    have rec: "scan_string_loop True vs limit start cs (p + 1) (n + 1) (d @ [c]) = Inr (s, sp)"
      using ascii res lim unfolding def by (simp add: verr_def)
    have "scalar (byte_val c)" "EncodeRune (byte_val c) = [c]"
      using ascii by (simp_all add: scalar_def EncodeRune_ascii)
    then have "ValidUTF8 (d @ [c])" using d(1) ValidUTF8_Encode_alone ValidUTF8_append by metis
    moreover have "n + 1 \<le> limit" using lim by (auto simp: decodedLimitExceeded_def)
    ultimately show ?thesis
      using IH(2) [OF ascii lim] rec d(2) by auto
  next
    case high
    obtain r w where e: "utf8_next (c # cs) p = Inr (r, w)"
      using high res def by (cases "utf8_next (c # cs) p") auto
    note u = utf8_next_Inr [OF e]
    have lim: "\<not> decodedLimitExceeded n w limit"
      using high res e unfolding def by (auto simp: verr_def)
    have rec: "scan_string_loop True vs limit start (drop w (c # cs)) (p + w) (n + w) (d @ take w (c # cs))
        = Inr (s, sp)"
      using high res e lim unfolding def by (simp add: verr_def)
    have "ValidUTF8 (d @ take w (c # cs))"
      using d(1) u by (simp add: ValidUTF8_append ValidUTF8_Encode_alone)
    moreover have "n + w \<le> limit" using lim by (auto simp: decodedLimitExceeded_def)
    moreover have "length (d @ take w (c # cs)) = n + w" using d(2) u by simp
    ultimately have "ValidUTF8 s \<and> length s \<le> limit \<and> Start sp = start \<and> p + w < End sp \<and>
        End sp \<le> p + w + length (drop w (c # cs))"
      using IH(3) [OF high e refl lim] rec by auto
    then show ?thesis using u(4) by auto
  qed
qed



lemma json_escape_bytes_printable: "list_all (\<lambda>c. 0x20 \<le> byte_val c) (json_escape_bytes val)"
proof -
  have hex: "0x20 \<le> byte_val (lowerHex ! k)" if "k < 16" for k
  proof -
    have "\<forall>k \<in> set [0..<16]. 0x20 \<le> byte_val (lowerHex ! k)" by code_simp
    then show ?thesis using that by simp
  qed
  have esc: "list_all (\<lambda>c. 0x20 \<le> byte_val c) (json_escape_byte c)" for c
  proof -
    have "byte_val c div 16 < 16" using byte_val_less [of c] by linarith
    moreover have "byte_val c mod 16 < 16" by simp
    moreover have "0x20 \<le> byte_val CHR 0x5C" "0x20 \<le> byte_val CHR ''b''" "0x20 \<le> byte_val CHR ''f''"
      "0x20 \<le> byte_val CHR ''n''" "0x20 \<le> byte_val CHR ''r''" "0x20 \<le> byte_val CHR ''t''"
      "0x20 \<le> byte_val CHR ''u''" "0x20 \<le> byte_val CHR ''0''" "0x20 \<le> byte_val CHR 0x22"
      by (simp_all add: byte_val_def)
    ultimately show ?thesis using hex unfolding json_escape_byte_def by simp
  qed
  show ?thesis by (induction val) (simp_all add: esc)
qed

text \<open>C14. A string written by the encoder holds no raw control byte, so it never contains the line
  feed that separates frames: the bytes between its quotes are all \<open>0x20\<close> or more.\<close>

theorem appendJSONString_single_line:
  "\<exists>body. appendJSONString dst val = dst @ [CHR 0x22] @ body @ [CHR 0x22] \<and>
     list_all (\<lambda>c. 0x20 \<le> byte_val c) body"
  using json_escape_bytes_printable [of val] by (intro exI conjI) (simp_all add: appendJSONString_def)

end
