(* ===== verification/WorkLease.thy ===== *)
theory WorkLease
  imports Prelude
begin

text \<open>
  The work lease of \<open>src/internal/runtime/work_lease.go\<close>: one charged work slot with a
  transferable resource owner.  Every method is a step on the lease record; what it calls
  outside the lock (\<open>owner.Release\<close>, \<open>owner.MarkNoCommit\<close>, the slot release) is an effect
  of the step.  \<open>MarkNoCommit\<close> gives up the lock while it asks a shared owner, so it is two
  steps, and a step relation interleaves the steps of any number of goroutines.
\<close>

section \<open>The lease\<close>

datatype owner_kind = PlainOwner | NoCommitOwner | SharedNoCommitOwner

datatype lease_error = LeaseNoCommit | LeaseReturned | NilOwner

record 'o work_lease =
  owner :: "'o option"
  ownerGeneration :: uint64
  noCommit :: bool
  returned :: bool
  release :: bool

datatype 'o lease_effect = OwnerRelease 'o | SlotRelease | OwnerMarkNoCommit 'o

definition newWorkLease :: "'o work_lease" where
  "newWorkLease = \<lparr>owner = None, ownerGeneration = 0, noCommit = False, returned = False, release = True\<rparr>"

definition subAcquireAllowed :: "'o work_lease \<Rightarrow> bool" where
  "subAcquireAllowed l \<longleftrightarrow> \<not> noCommit l \<and> \<not> returned l"

definition lease_transfer :: "'o work_lease \<Rightarrow> 'o option \<Rightarrow> lease_error + 'o work_lease" where
  "lease_transfer l new_owner =
    (case new_owner of
       None \<Rightarrow> Inl NilOwner
     | Some o' \<Rightarrow>
         if returned l then Inl LeaseReturned
         else if noCommit l then Inl LeaseNoCommit
         else Inr (l\<lparr>owner := Some o', ownerGeneration := ownerGeneration l + 1\<rparr>))"

text \<open>One round of the \<open>MarkNoCommit\<close> loop up to the point where it is done or asks the
  shared owner; then the part after the answer, which may start another round.\<close>

datatype 'o mark_begin_exit = MarkDone "'o lease_effect list" | AskShared 'o uint64

definition mark_begin :: "('o \<Rightarrow> owner_kind) \<Rightarrow> 'o work_lease \<Rightarrow> 'o work_lease \<times> 'o mark_begin_exit" where
  "mark_begin kind l =
    (if noCommit l \<or> returned l then (l, MarkDone [])
     else case owner l of
       None \<Rightarrow> (l\<lparr>noCommit := True\<rparr>, MarkDone [])
     | Some o' \<Rightarrow>
         (case kind o' of
            SharedNoCommitOwner \<Rightarrow> (l, AskShared o' (ownerGeneration l))
          | NoCommitOwner \<Rightarrow> (l\<lparr>noCommit := True\<rparr>, MarkDone [OwnerMarkNoCommit o'])
          | PlainOwner \<Rightarrow> (l\<lparr>noCommit := True\<rparr>, MarkDone [])))"

definition mark_finish :: "'o work_lease \<Rightarrow> 'o \<Rightarrow> uint64 \<Rightarrow> bool \<Rightarrow> 'o work_lease \<times> bool" where
  "mark_finish l o' generation retain =
    (if noCommit l \<or> returned l then (l, True)
     else if owner l \<noteq> Some o' \<or> ownerGeneration l \<noteq> generation then (l, False)
     else if retain then (l, True)
     else (l\<lparr>noCommit := True\<rparr>, True))"

definition lease_worker_returned :: "'o work_lease \<Rightarrow> 'o work_lease \<times> 'o lease_effect list" where
  "lease_worker_returned l =
    (if returned l then (l, [])
     else (l\<lparr>returned := True, owner := None, release := False\<rparr>,
           (case owner l of None \<Rightarrow> [] | Some o' \<Rightarrow> [OwnerRelease o']) @
           (if release l then [SlotRelease] else [])))"

section \<open>Any interleaving of goroutines\<close>

text \<open>\<open>asking\<close> holds the \<open>MarkNoCommit\<close> calls that are waiting for a shared owner's answer;
  \<open>trace\<close> the effects in order; \<open>moved\<close> the owners a \<open>Transfer\<close> has accepted.\<close>

record 'o lease_system =
  lease :: "'o work_lease"
  asking :: "('o \<times> uint64) list"
  trace :: "'o lease_effect list"
  moved :: "'o list"

definition lease_start :: "'o lease_system" where
  "lease_start = \<lparr>lease = newWorkLease, asking = [], trace = [], moved = []\<rparr>"

inductive lease_step :: "('o \<Rightarrow> owner_kind) \<Rightarrow> 'o lease_system \<Rightarrow> 'o lease_system \<Rightarrow> bool"
  for kind :: "'o \<Rightarrow> owner_kind" where
  Transfer_ok: "lease_transfer (lease s) (Some o') = Inr l \<Longrightarrow>
    lease_step kind s (s\<lparr>lease := l, moved := moved s @ [o']\<rparr>)"
| Transfer_refused: "lease_transfer (lease s) p = Inl e \<Longrightarrow> lease_step kind s s"
| Mark_done: "mark_begin kind (lease s) = (l, MarkDone effects) \<Longrightarrow>
    lease_step kind s (s\<lparr>lease := l, trace := trace s @ effects\<rparr>)"
| Mark_ask: "mark_begin kind (lease s) = (l, AskShared o' gen) \<Longrightarrow>
    lease_step kind s (s\<lparr>lease := l, asking := (o', gen) # asking s\<rparr>)"
| Mark_finish: "asking s = before @ (o', gen) # after \<Longrightarrow>
    mark_finish (lease s) o' gen retain = (l, finished) \<Longrightarrow>
    lease_step kind s (s\<lparr>lease := l, asking := before @ after\<rparr>)"
| Return: "lease_worker_returned (lease s) = (l, effects) \<Longrightarrow>
    lease_step kind s (s\<lparr>lease := l, trace := trace s @ effects\<rparr>)"

inductive lease_reachable :: "('o \<Rightarrow> owner_kind) \<Rightarrow> 'o lease_system \<Rightarrow> bool"
  for kind :: "'o \<Rightarrow> owner_kind" where
  reach_start: "lease_reachable kind lease_start"
| reach_step: "lease_reachable kind s \<Longrightarrow> lease_step kind s s' \<Longrightarrow> lease_reachable kind s'"

definition owner_releases :: "'o lease_effect list \<Rightarrow> 'o list" where
  "owner_releases es = concat (map (\<lambda>e. case e of OwnerRelease o' \<Rightarrow> [o'] | _ \<Rightarrow> []) es)"

definition slot_releases :: "'o lease_effect list \<Rightarrow> nat" where
  "slot_releases es = length (filter (\<lambda>e. e = SlotRelease) es)"

lemma effect_simps [simp]:
  "owner_releases [] = []" "owner_releases (a @ b) = owner_releases a @ owner_releases b"
  "owner_releases (OwnerRelease o' # es) = o' # owner_releases es"
  "owner_releases (SlotRelease # es) = owner_releases es"
  "owner_releases (OwnerMarkNoCommit o' # es) = owner_releases es"
  "slot_releases [] = 0" "slot_releases (a @ b) = slot_releases a + slot_releases b"
  "slot_releases (OwnerRelease o' # es) = slot_releases es"
  "slot_releases (SlotRelease # es) = Suc (slot_releases es)"
  "slot_releases (OwnerMarkNoCommit o' # es) = slot_releases es"
  by (simp_all add: owner_releases_def slot_releases_def)

definition lease_ok :: "'o lease_system \<Rightarrow> bool" where
  "lease_ok s \<longleftrightarrow>
    release (lease s) = (\<not> returned (lease s)) \<and>
    slot_releases (trace s) = (if returned (lease s) then 1 else 0) \<and>
    (if returned (lease s)
     then owner (lease s) = None \<and> owner_releases (trace s) = (if moved s = [] then [] else [last (moved s)])
     else owner_releases (trace s) = [] \<and> owner (lease s) = (if moved s = [] then None else Some (last (moved s))))"

lemma lease_step_ok:
  assumes "lease_step kind s s'" "lease_ok s"
  shows "lease_ok s'"
  using assms
proof (cases rule: lease_step.cases)
  case (Transfer_ok o' l)
  then show ?thesis using assms(2) by (auto simp: lease_transfer_def lease_ok_def split: if_splits)
next
  case (Mark_done l effects)
  then show ?thesis using assms(2)
    by (auto simp: mark_begin_def lease_ok_def split: if_splits option.splits owner_kind.splits)
next
  case (Mark_ask l o' gen)
  then show ?thesis using assms(2)
    by (auto simp: mark_begin_def lease_ok_def split: if_splits option.splits owner_kind.splits)
next
  case (Mark_finish before o' gen after retain l finished)
  then show ?thesis using assms(2) by (auto simp: mark_finish_def lease_ok_def split: if_splits)
next
  case (Return l effects)
  then show ?thesis using assms(2)
    by (auto simp: lease_worker_returned_def lease_ok_def split: if_splits option.splits)
qed simp_all

lemma lease_reachable_ok: "lease_reachable kind s \<Longrightarrow> lease_ok s"
proof (induction rule: lease_reachable.induct)
  case reach_start
  then show ?case by (simp add: lease_ok_def lease_start_def newWorkLease_def)
next
  case (reach_step s s')
  then show ?case by (blast intro: lease_step_ok)
qed

lemma lease_step_monotone:
  assumes "lease_step kind s s'"
  shows "(noCommit (lease s) \<longrightarrow> noCommit (lease s')) \<and> (returned (lease s) \<longrightarrow> returned (lease s')) \<and>
    (noCommit (lease s) \<or> returned (lease s) \<longrightarrow> moved s' = moved s)"
  using assms
  by (cases rule: lease_step.cases)
    (auto simp: lease_transfer_def mark_begin_def mark_finish_def lease_worker_returned_def
      split: if_splits option.splits owner_kind.splits)

section \<open>Properties\<close>

text \<open>C15. Whatever goroutines transfer, cancel and return a work lease in whatever order, the work
  slot is released exactly once, when the worker returns and not before, and of all owners the lease
  ever had exactly the last accepted one is released, also once.\<close>

theorem lease_released_exactly_once:
  assumes "lease_reachable kind s"
  shows "slot_releases (trace s) = (if returned (lease s) then 1 else 0) \<and>
    owner_releases (trace s) =
      (if returned (lease s) \<and> moved s \<noteq> [] then [last (moved s)] else [])"
  using lease_reachable_ok [OF assms] by (auto simp: lease_ok_def split: if_splits)

lemma lease_released_exactly_once_witness:
  "\<exists>s. lease_reachable (\<lambda>_ :: nat. PlainOwner) s \<and> slot_releases (trace s) = 1 \<and>
     owner_releases (trace s) = [5]"
proof -
  let ?k = "\<lambda>_ :: nat. PlainOwner"
  have t: "lease_transfer (lease lease_start) (Some (5::nat)) =
      Inr \<lparr>owner = Some 5, ownerGeneration = 1, noCommit = False, returned = False, release = True\<rparr>"
    by (simp add: lease_transfer_def lease_start_def newWorkLease_def)
  let ?s1 = "lease_start\<lparr>lease := \<lparr>owner = Some (5::nat), ownerGeneration = 1, noCommit = False,
      returned = False, release = True\<rparr>, moved := moved lease_start @ [5]\<rparr>"
  have r1: "lease_reachable ?k ?s1" by (intro reach_step [OF reach_start] Transfer_ok t)
  obtain l es where w: "lease_worker_returned (lease ?s1) = (l, es)"
    by (cases "lease_worker_returned (lease ?s1)")
  have r2: "lease_reachable ?k (?s1\<lparr>lease := l, trace := trace ?s1 @ es\<rparr>)"
    by (intro reach_step [OF r1] Return w)
  have "returned l" using w by (auto simp: lease_worker_returned_def)
  then show ?thesis using r2 lease_released_exactly_once [OF r2]
    by (intro exI [of _ "?s1\<lparr>lease := l, trace := trace ?s1 @ es\<rparr>"]) (simp add: lease_start_def)
qed

text \<open>C16. Cancellation is final: once a lease is marked no-commit (or returned) it stays so, every
  later transfer of a new owner is refused, and so no publication can take the lease over any more.\<close>

theorem no_transfer_after_no_commit:
  assumes "(lease_step kind)\<^sup>*\<^sup>* s s'" "noCommit (lease s) \<or> returned (lease s)"
  shows "(noCommit (lease s') \<or> returned (lease s')) \<and> moved s' = moved s \<and>
    \<not> is_ok (lease_transfer (lease s') new_owner)"
proof -
  have "(noCommit (lease s') \<or> returned (lease s')) \<and> moved s' = moved s"
    using assms by (induction rule: rtranclp_induct) (metis lease_step_monotone)+
  then show ?thesis by (auto simp: lease_transfer_def split: option.split)
qed

lemma no_transfer_after_no_commit_witness:
  "\<exists>s :: nat lease_system. (noCommit (lease s) \<or> returned (lease s)) \<and>
     \<not> is_ok (lease_transfer (lease s) (Some 3))"
proof -
  let ?s = "lease_start\<lparr>lease := newWorkLease\<lparr>noCommit := True\<rparr>\<rparr> :: nat lease_system"
  have "noCommit (lease ?s) \<or> returned (lease ?s)" by simp
  then show ?thesis using no_transfer_after_no_commit [OF rtranclp.rtrancl_refl, of ?s] by blast
qed

end
