(* ===== verification/Admission.thy ===== *)
theory Admission
  imports WorkLease GoStd
begin

text \<open>
  The connection coordinator of \<open>src/internal/runtime/admission.go\<close> and \<open>queue.go\<close>:
  bounded active workers, a bounded FIFO of waiting requests, cancellation, queue
  timeouts and worker return.  Requests are heap cells: \<open>store\<close> lists all requests ever
  admitted and a request is named by its position, so the pointer in the queue, in the
  id map and in a goroutine is one number.  Each method body between \<open>Lock\<close> and \<open>Unlock\<close>
  is one step; a panic is the result \<open>None\<close>.  \<open>active\<close> is a \<open>uint64\<close> that the guards keep
  at most \<open>MaxConcurrent\<close> and is modelled as \<open>nat\<close>.
\<close>

section \<open>State\<close>

datatype RequestState =
  Queued | Running | Cancelled | TimeoutResponseCommitted | ResponseCommitted | Lingering | Returned

datatype AdmitOutcome = AdmitRun | AdmitQueued | AdmitImmediateBudgetExceeded

datatype StartOutcome = StartRun | StartQueueTimeoutBudgetExceeded | StartCancelled

record limits =
  MaxConcurrent :: nat
  QueueMax :: nat

record 'o request =
  idKey :: bytes
  state :: RequestState
  contextCancelled :: bool
  readyClosed :: bool
  queued :: bool
  r_lease :: "'o work_lease option"
  startCalled :: bool
  timer :: bool
  response :: bool

record 'o coordinator =
  c_limits :: limits
  active :: nat
  queue :: "nat list"
  requests :: "bytes \<Rightarrow> nat option"
  store :: "'o request list"

definition newCoordinator :: "limits \<Rightarrow> 'o coordinator option" where
  "newCoordinator l =
    (if MaxConcurrent l = 0 then None
     else Some \<lparr>c_limits = l, active = 0, queue = [], requests = Map.empty, store = []\<rparr>)"

abbreviation upd :: "nat \<Rightarrow> ('o request \<Rightarrow> 'o request) \<Rightarrow> 'o coordinator \<Rightarrow> 'o coordinator" where
  "upd i f c \<equiv> c\<lparr>store := (store c)[i := f (store c ! i)]\<rparr>"

section \<open>Admission\<close>

definition admit :: "'o coordinator \<Rightarrow> bytes \<Rightarrow> ('o coordinator \<times> nat option \<times> AdmitOutcome) option" where
  "admit c key =
    (if key = [] then None
     else if requests c key \<noteq> None then None
     else
       let run = (active c < MaxConcurrent (c_limits c) \<and> length (queue c) = 0) in
       if \<not> run \<and> length (queue c) \<ge> QueueMax (c_limits c)
       then Some (c, None, AdmitImmediateBudgetExceeded)
       else
         let i = length (store c);
             admitted = \<lparr>idKey = key, state = (if run then Running else Queued), contextCancelled = False,
               readyClosed = False, queued = \<not> run, r_lease = None, startCalled = False,
               timer = \<not> run, response = False\<rparr>
         in Some (c\<lparr>active := (if run then active c + 1 else active c),
                    queue := (if run then queue c else queue c @ [i]),
                    requests := (requests c)(key \<mapsto> i),
                    store := store c @ [admitted]\<rparr>,
                  Some i, if run then AdmitRun else AdmitQueued))"

section \<open>The queue\<close>

definition stopQueueTimer :: "'o request \<Rightarrow> 'o request" where
  "stopQueueTimer r = r\<lparr>timer := False\<rparr>"

definition signalReady :: "'o request \<Rightarrow> 'o request" where
  "signalReady r = (if readyClosed r then r else r\<lparr>readyClosed := True\<rparr>)"

definition promoteHead :: "'o coordinator \<Rightarrow> 'o coordinator" where
  "promoteHead c =
    (case queue c of
       [] \<Rightarrow> c
     | i # rest \<Rightarrow>
         if active c \<ge> MaxConcurrent (c_limits c) then c
         else upd i (\<lambda>r. signalReady ((stopQueueTimer (r\<lparr>queued := False\<rparr>))\<lparr>state := Running\<rparr>))
                (c\<lparr>queue := rest, active := active c + 1\<rparr>))"

definition removeFromQueue :: "nat \<Rightarrow> 'o coordinator \<Rightarrow> 'o coordinator" where
  "removeFromQueue i c =
    (if queued (store c ! i)
     then upd i (\<lambda>r. r\<lparr>queued := False\<rparr>) (c\<lparr>queue := filter (\<lambda>j. j \<noteq> i) (queue c)\<rparr>)
     else c)"

definition deleteRequest :: "nat \<Rightarrow> 'o coordinator \<Rightarrow> 'o coordinator" where
  "deleteRequest i c = c\<lparr>requests := (requests c)(idKey (store c ! i) := None)\<rparr>"

definition workerReturned :: "'o coordinator \<Rightarrow> nat \<Rightarrow> 'o coordinator option" where
  "workerReturned c i =
    (if r_lease (store c ! i) = None \<or> active c = 0 then None
     else
       let c1 = upd i (\<lambda>r. r\<lparr>state := Returned, contextCancelled := True\<rparr>) c;
           c2 = deleteRequest i c1
       in Some (promoteHead (c2\<lparr>active := active c2 - 1\<rparr>)))"

text \<open>The second component names the request whose lease \<open>cancel\<close> marks after unlocking.\<close>

definition cancel :: "'o coordinator \<Rightarrow> nat \<Rightarrow> 'o coordinator \<times> nat option" where
  "cancel c i =
    (case state (store c ! i) of
       Queued \<Rightarrow>
         (let c1 = removeFromQueue i c;
              c2 = upd i (\<lambda>r. (stopQueueTimer r)\<lparr>state := Cancelled, contextCancelled := True\<rparr>) c1;
              c3 = deleteRequest i c2
          in (upd i signalReady c3, None))
     | Running \<Rightarrow>
         (let c1 = upd i (\<lambda>r. r\<lparr>contextCancelled := True\<rparr>) c in
          if r_lease (store c ! i) = None then
            let c2 = upd i (\<lambda>r. r\<lparr>state := Cancelled\<rparr>) c1;
                c3 = deleteRequest i c2;
                c4 = c3\<lparr>active := active c3 - 1\<rparr>
            in (promoteHead (upd i signalReady c4), None)
          else (upd i (\<lambda>r. r\<lparr>state := Lingering\<rparr>) c1, Some i))
     | _ \<Rightarrow> (c, None))"

definition queueTimedOut :: "'o coordinator \<Rightarrow> nat \<Rightarrow> 'o coordinator" where
  "queueTimedOut c i =
    (if state (store c ! i) \<noteq> Queued then c
     else
       let c1 = removeFromQueue i c;
           c2 = upd i (\<lambda>r. r\<lparr>timer := False, state := TimeoutResponseCommitted, response := True,
                              contextCancelled := True\<rparr>) c1;
           c3 = deleteRequest i c2
       in upd i signalReady c3)"

text \<open>The branch of \<open>failQueueTimerAfterPanic\<close> for a request that holds an active slot.\<close>

definition fail_active :: "'o coordinator \<Rightarrow> nat \<Rightarrow> 'o coordinator \<times> nat option" where
  "fail_active c i =
    (if r_lease (store c ! i) \<noteq> None then (upd i (\<lambda>r. r\<lparr>state := Lingering\<rparr>) c, Some i)
     else
       let c2 = deleteRequest i (upd i (\<lambda>r. r\<lparr>state := Cancelled\<rparr>) c);
           c3 = c2\<lparr>active := (if active c2 \<noteq> 0 then active c2 - 1 else active c2)\<rparr>
       in (promoteHead (upd i signalReady c3), None))"

definition failQueueTimerAfterPanic :: "'o coordinator \<Rightarrow> nat \<Rightarrow> 'o coordinator \<times> nat option" where
  "failQueueTimerAfterPanic c i =
    (let c1 = upd i (\<lambda>r. r\<lparr>timer := False, response := False, contextCancelled := True\<rparr>)
                (removeFromQueue i c) in
     case state (store c1 ! i) of
       Running \<Rightarrow> fail_active c1 i
     | Lingering \<Rightarrow> fail_active c1 i
     | Returned \<Rightarrow> (upd i signalReady (deleteRequest i c1), None)
     | Cancelled \<Rightarrow> (upd i signalReady (deleteRequest i c1), None)
     | _ \<Rightarrow> (upd i signalReady (deleteRequest i (upd i (\<lambda>r. r\<lparr>state := Cancelled\<rparr>) c1)), None))"

section \<open>Starting\<close>

datatype start_exit = Blocked | Started StartOutcome

text \<open>One round of the loop in \<open>Start\<close>: \<open>Blocked\<close> when it waits for \<open>ready\<close>.\<close>

definition start_poll :: "'o coordinator \<Rightarrow> nat \<Rightarrow> ('o coordinator \<times> start_exit) option" where
  "start_poll c i =
    (case state (store c ! i) of
       Running \<Rightarrow> Some (upd i (\<lambda>r. r\<lparr>r_lease := Some newWorkLease\<rparr>) c, Started StartRun)
     | Queued \<Rightarrow> Some (c, Blocked)
     | Cancelled \<Rightarrow> Some (c, Started StartCancelled)
     | TimeoutResponseCommitted \<Rightarrow>
         if \<not> response (store c ! i) then None
         else Some (upd i (\<lambda>r. r\<lparr>response := False\<rparr>) c, Started StartQueueTimeoutBudgetExceeded)
     | _ \<Rightarrow> None)"

definition start :: "'o coordinator \<Rightarrow> nat \<Rightarrow> ('o coordinator \<times> start_exit) option" where
  "start c i =
    (if startCalled (store c ! i) then None
     else start_poll (upd i (\<lambda>r. r\<lparr>startCalled := True\<rparr>) c) i)"

section \<open>The goroutines of a connection\<close>

text \<open>\<open>waiting\<close>: requests whose \<open>Start\<close> blocks on \<open>ready\<close>; \<open>returning\<close>: requests whose lease
  is marked returned and whose slot release is about to call \<open>workerReturned\<close>; \<open>outcomes\<close>:
  what the \<open>Start\<close> calls returned.\<close>

record 'o session =
  coord :: "'o coordinator"
  waiting :: "nat set"
  returning :: "nat set"
  outcomes :: "(nat \<times> StartOutcome) list"

text \<open>The transport admits every request id once per session (its used-id registry refuses
  the second), which is the first premise of \<open>Admit\<close>.  A queue timer may fire late, a
  cancellation may come at any time, and the recovery of a panicking timer goroutine may run
  for any request.\<close>

inductive session_step :: "'o session \<Rightarrow> 'o session \<Rightarrow> bool" where
  Admit: "key \<notin> idKey ` set (store (coord s)) \<Longrightarrow> key \<noteq> [] \<Longrightarrow> admit (coord s) key = Some (c, i, oc) \<Longrightarrow>
    session_step s (s\<lparr>coord := c\<rparr>)"
| Start_now: "i < length (store (coord s)) \<Longrightarrow> start (coord s) i = Some (c, Started oc) \<Longrightarrow>
    session_step s (s\<lparr>coord := c, outcomes := (i, oc) # outcomes s\<rparr>)"
| Start_wait: "i < length (store (coord s)) \<Longrightarrow> start (coord s) i = Some (c, Blocked) \<Longrightarrow>
    session_step s (s\<lparr>coord := c, waiting := insert i (waiting s)\<rparr>)"
| Resume: "i \<in> waiting s \<Longrightarrow> readyClosed (store (coord s) ! i) \<Longrightarrow>
    start_poll (coord s) i = Some (c, Started oc) \<Longrightarrow>
    session_step s (s\<lparr>coord := c, waiting := waiting s - {i}, outcomes := (i, oc) # outcomes s\<rparr>)"
| Cancel: "i < length (store (coord s)) \<Longrightarrow> session_step s (s\<lparr>coord := fst (cancel (coord s) i)\<rparr>)"
| Timeout: "i < length (store (coord s)) \<Longrightarrow> session_step s (s\<lparr>coord := queueTimedOut (coord s) i\<rparr>)"
| Timer_panic: "i < length (store (coord s)) \<Longrightarrow>
    session_step s (s\<lparr>coord := fst (failQueueTimerAfterPanic (coord s) i)\<rparr>)"
| Lease_return: "i < length (store (coord s)) \<Longrightarrow> r_lease (store (coord s) ! i) = Some l \<Longrightarrow>
    lease_worker_returned l = (l', effects) \<Longrightarrow> SlotRelease \<in> set effects \<Longrightarrow>
    session_step s (s\<lparr>coord := upd i (\<lambda>r. r\<lparr>r_lease := Some l'\<rparr>) (coord s),
      returning := insert i (returning s)\<rparr>)"
| Lease_other: "i < length (store (coord s)) \<Longrightarrow> r_lease (store (coord s) ! i) = Some l \<Longrightarrow>
    returned l' = returned l \<Longrightarrow> release l' = release l \<Longrightarrow>
    session_step s (s\<lparr>coord := upd i (\<lambda>r. r\<lparr>r_lease := Some l'\<rparr>) (coord s)\<rparr>)"
| Worker_returned: "i \<in> returning s \<Longrightarrow> workerReturned (coord s) i = Some c \<Longrightarrow>
    session_step s (s\<lparr>coord := c, returning := returning s - {i}\<rparr>)"

inductive session_reachable :: "limits \<Rightarrow> 'o session \<Rightarrow> bool" for l :: limits where
  session_start: "newCoordinator l = Some c \<Longrightarrow>
    session_reachable l \<lparr>coord = c, waiting = {}, returning = {}, outcomes = []\<rparr>"
| session_next: "session_reachable l s \<Longrightarrow> session_step s s' \<Longrightarrow> session_reachable l s'"

section \<open>The invariant\<close>

abbreviation holds :: "'o request \<Rightarrow> bool" where
  "holds r \<equiv> state r = Running \<or> state r = Lingering"

abbreviation alive :: "'o request \<Rightarrow> bool" where
  "alive r \<equiv> state r = Queued \<or> holds r"

text \<open>\<open>slack\<close> is 1 between giving a slot up and promoting the head of the queue.\<close>

definition coord_ok :: "nat \<Rightarrow> 'o coordinator \<Rightarrow> bool" where
  "coord_ok slack c \<longleftrightarrow>
    active c = length (filter holds (store c)) \<and>
    active c \<le> MaxConcurrent (c_limits c) \<and>
    sorted_wrt (<) (queue c) \<and>
    (\<forall>i. i \<in> set (queue c) \<longleftrightarrow> i < length (store c) \<and> state (store c ! i) = Queued) \<and>
    length (queue c) \<le> QueueMax (c_limits c) \<and>
    (queue c \<noteq> [] \<longrightarrow> MaxConcurrent (c_limits c) \<le> active c + slack) \<and>
    distinct (map idKey (store c)) \<and>
    (\<forall>k i. requests c k = Some i \<longleftrightarrow> i < length (store c) \<and> idKey (store c ! i) = k \<and> alive (store c ! i))"

definition req_ok :: "bool \<Rightarrow> bool \<Rightarrow> 'o request \<Rightarrow> bool" where
  "req_ok w p r \<longleftrightarrow>
    queued r = (state r = Queued) \<and> timer r = (state r = Queued) \<and>
    (state r = Queued \<longrightarrow> \<not> readyClosed r) \<and>
    (w \<longrightarrow> startCalled r \<and> r_lease r = None \<and>
       state r \<in> {Queued, Running, Cancelled, TimeoutResponseCommitted} \<and>
       (state r \<noteq> Queued \<longrightarrow> readyClosed r)) \<and>
    (response r \<longrightarrow> state r = TimeoutResponseCommitted) \<and>
    (state r = TimeoutResponseCommitted \<and> \<not> response r \<longrightarrow> startCalled r \<and> \<not> w) \<and>
    (r_lease r \<noteq> None \<longrightarrow> startCalled r \<and> state r \<in> {Running, Lingering, Returned}) \<and>
    (state r \<in> {Lingering, Returned} \<longrightarrow> r_lease r \<noteq> None) \<and>
    state r \<noteq> ResponseCommitted \<and>
    p = (state r \<noteq> Returned \<and> (\<exists>l. r_lease r = Some l \<and> returned l)) \<and>
    (state r = Returned \<longrightarrow> (\<exists>l. r_lease r = Some l \<and> returned l)) \<and>
    (\<forall>l. r_lease r = Some l \<longrightarrow> release l = (\<not> returned l))"

definition session_ok :: "limits \<Rightarrow> 'o session \<Rightarrow> bool" where
  "session_ok l s \<longleftrightarrow> c_limits (coord s) = l \<and> coord_ok 0 (coord s) \<and>
    (\<forall>i < length (store (coord s)). req_ok (i \<in> waiting s) (i \<in> returning s) (store (coord s) ! i)) \<and>
    waiting s \<subseteq> {..<length (store (coord s))} \<and> returning s \<subseteq> {..<length (store (coord s))}"

lemma length_filter_update:
  assumes "i < length xs"
  shows "length (filter P (xs[i := x])) + (if P (xs ! i) then 1 else 0) =
    length (filter P xs) + (if P x then 1 else 0)"
proof -
  have "xs = take i xs @ xs ! i # drop (Suc i) xs" using assms by (rule id_take_nth_drop)
  then have "length (filter P xs) = length (filter P (take i xs @ xs ! i # drop (Suc i) xs))" by simp
  then show ?thesis using assms by (simp add: upd_conv_take_nth_drop)
qed

lemma sorted_filter: "sorted_wrt R xs \<Longrightarrow> sorted_wrt R (filter P xs)"
  by (induction xs) auto

text \<open>Changes that keep a request's class.\<close>

lemma coord_ok_same:
  assumes "coord_ok k c" "i < length (store c)" "idKey r = idKey (store c ! i)"
    "state r = Queued \<longleftrightarrow> state (store c ! i) = Queued" "holds r \<longleftrightarrow> holds (store c ! i)"
  shows "coord_ok k (c\<lparr>store := (store c)[i := r]\<rparr>)"
proof -
  have cnt: "length (filter holds ((store c)[i := r])) = length (filter holds (store c))"
    using length_filter_update [OF assms(2), of holds r] assms(5) by (auto split: if_splits)
  have keys: "map idKey ((store c)[i := r]) = map idKey (store c)"
    using assms(2,3) by (simp add: map_update map_update_same)
  have q: "state ((store c)[i := r] ! j) = Queued \<longleftrightarrow> state (store c ! j) = Queued" if "j < length (store c)" for j
    using that assms(4) by (cases "j = i") auto
  have a: "holds ((store c)[i := r] ! j) \<longleftrightarrow> holds (store c ! j)" if "j < length (store c)" for j
    using that assms(5) by (cases "j = i") auto
  have ik: "idKey ((store c)[i := r] ! j) = idKey (store c ! j)" if "j < length (store c)" for j
    using that assms(3) by (cases "j = i") auto
  show ?thesis using assms(1) unfolding coord_ok_def by (simp add: cnt keys q a ik cong: conj_cong)
qed

text \<open>A live request leaves: its slot or its queue place becomes free and its id is forgotten.\<close>

lemma coord_ok_leave:
  assumes ok: "coord_ok 0 c" and i: "i < length (store c)" and al: "alive (store c ! i)"
    and r: "idKey r = idKey (store c ! i)" "\<not> alive r"
    and c': "store c' = (store c)[i := r]" "queue c' = filter (\<lambda>j. j \<noteq> i) (queue c)"
      "requests c' = (requests c)(idKey (store c ! i) := None)"
      "active c' = active c - (if holds (store c ! i) then 1 else 0)" "c_limits c' = c_limits c"
  shows "coord_ok (if holds (store c ! i) then 1 else 0) c'"
proof -
  let ?s = "(store c)[i := r]"
  have old: "active c = length (filter holds (store c))" "active c \<le> MaxConcurrent (c_limits c)"
    "sorted_wrt (<) (queue c)"
    "\<And>j. j \<in> set (queue c) \<longleftrightarrow> j < length (store c) \<and> state (store c ! j) = Queued"
    "length (queue c) \<le> QueueMax (c_limits c)" "queue c \<noteq> [] \<Longrightarrow> MaxConcurrent (c_limits c) \<le> active c"
    "distinct (map idKey (store c))"
    "\<And>k j. requests c k = Some j \<longleftrightarrow> j < length (store c) \<and> idKey (store c ! j) = k \<and> alive (store c ! j)"
    using ok by (auto simp: coord_ok_def)
  have cnt: "length (filter holds ?s) = active c - (if holds (store c ! i) then 1 else 0)"
    using length_filter_update [OF i, of holds r] r(2) old(1) by (auto split: if_splits)
  have pos: "holds (store c ! i) \<Longrightarrow> 0 < active c"
    using old(1) i by (auto simp: length_greater_0_conv filter_empty_conv simp del: length_greater_0_conv
        intro!: nth_mem)
  have keys: "map idKey ?s = map idKey (store c)"
    using i r(1) by (simp add: map_update map_update_same)
  have key_inj: "idKey (store c ! j) = idKey (store c ! i) \<Longrightarrow> j < length (store c) \<Longrightarrow> j = i" for j
    using old(7) i by (auto simp: distinct_conv_nth)
  have "length (filter (\<lambda>j. j \<noteq> i) (queue c)) \<le> QueueMax (c_limits c)"
    using old(5) length_filter_le le_trans by blast
  moreover have "j \<in> set (filter (\<lambda>j. j \<noteq> i) (queue c)) \<longleftrightarrow> j < length ?s \<and> state (?s ! j) = Queued" for j
    using old(4) r(2) by (cases "j = i") auto
  moreover have "((requests c)(idKey (store c ! i) := None)) k = Some j \<longleftrightarrow>
      j < length ?s \<and> idKey (?s ! j) = k \<and> alive (?s ! j)" for k j
    using old(8) r key_inj i by (cases "j = i") auto
  moreover have "filter (\<lambda>j. j \<noteq> i) (queue c) \<noteq> [] \<Longrightarrow> queue c \<noteq> []" by auto
  moreover have "sorted_wrt (<) (filter (\<lambda>j. j \<noteq> i) (queue c))" using old(3) by (rule sorted_filter)
  moreover have "distinct (map idKey ?s)" using old(7) keys by simp
  ultimately show ?thesis
    using old(2,6) cnt pos unfolding coord_ok_def c' by (auto split: if_splits)
qed

lemma promoteHead_ok:
  assumes ok: "coord_ok k c" and k: "k \<le> 1"
  shows "coord_ok 0 (promoteHead c)"
proof (cases "queue c")
  case Nil
  then show ?thesis using ok by (simp add: promoteHead_def coord_ok_def)
next
  case (Cons i rest)
  show ?thesis
  proof (cases "active c \<ge> MaxConcurrent (c_limits c)")
    case True
    then show ?thesis using ok Cons by (auto simp: promoteHead_def coord_ok_def)
  next
    case False
    have old: "active c = length (filter holds (store c))"
      "sorted_wrt (<) (i # rest)"
      "\<And>j. j \<in> set (i # rest) \<longleftrightarrow> j < length (store c) \<and> state (store c ! j) = Queued"
      "Suc (length rest) \<le> QueueMax (c_limits c)" "MaxConcurrent (c_limits c) \<le> active c + k"
      "distinct (map idKey (store c))"
      "\<And>k j. requests c k = Some j \<longleftrightarrow> j < length (store c) \<and> idKey (store c ! j) = k \<and> alive (store c ! j)"
      using ok Cons by (auto simp: coord_ok_def)
    define r where "r = signalReady ((stopQueueTimer ((store c ! i)\<lparr>queued := False\<rparr>))\<lparr>state := Running\<rparr>)"
    have r: "idKey r = idKey (store c ! i)" "state r = Running"
      by (simp_all add: r_def signalReady_def stopQueueTimer_def)
    have i: "i < length (store c)" "state (store c ! i) = Queued" using old(3) [of i] by auto
    let ?s = "(store c)[i := r]"
    have p: "promoteHead c = c\<lparr>queue := rest, active := active c + 1, store := ?s\<rparr>"
      using Cons False by (simp add: promoteHead_def r_def)
    have cnt: "length (filter holds ?s) = active c + 1"
      using length_filter_update [OF i(1), of holds r] r(2) i(2) old(1) by simp
    have keys: "map idKey ?s = map idKey (store c)" using i r(1) by (simp add: map_update map_update_same)
    have ni: "i \<notin> set rest" using old(2) by auto
    have "j \<in> set rest \<longleftrightarrow> j < length ?s \<and> state (?s ! j) = Queued" for j
      using old(3) [of j] r(2) ni i(1) by (cases "j = i") auto
    moreover have "requests c k = Some j \<longleftrightarrow> j < length ?s \<and> idKey (?s ! j) = k \<and> alive (?s ! j)" for k j
      using old(7) r i by (cases "j = i") auto
    moreover have "sorted_wrt (<) rest" using old(2) by simp
    moreover have "distinct (map idKey ?s)" using old(6) keys by simp
    ultimately show ?thesis
      using False k old(4,5) cnt unfolding coord_ok_def p by auto
  qed
qed

definition reqs_ok :: "nat set \<Rightarrow> nat set \<Rightarrow> 'o coordinator \<Rightarrow> bool" where
  "reqs_ok W P c \<longleftrightarrow> (\<forall>i < length (store c). req_ok (i \<in> W) (i \<in> P) (store c ! i))"

lemma reqs_okD: "reqs_ok W P c \<Longrightarrow> i < length (store c) \<Longrightarrow> req_ok (i \<in> W) (i \<in> P) (store c ! i)"
  by (simp add: reqs_ok_def)

lemma reqs_ok_update:
  assumes "reqs_ok W P c" "i < length (store c)" "req_ok (i \<in> W') (i \<in> P') r"
    "W' - {i} = W - {i}" "P' - {i} = P - {i}" "store c' = (store c)[i := r]"
  shows "reqs_ok W' P' c'"
  unfolding reqs_ok_def
proof (intro allI impI)
  fix j assume j: "j < length (store c')"
  show "req_ok (j \<in> W') (j \<in> P') (store c' ! j)"
  proof (cases "j = i")
    case True
    then show ?thesis using assms(2,3,6) by simp
  next
    case False
    then have "(j \<in> W') = (j \<in> W)" "(j \<in> P') = (j \<in> P)" using assms(4,5) by blast+
    then show ?thesis using False assms(1,6) j by (simp add: reqs_ok_def)
  qed
qed

lemma promoteHead_reqs:
  assumes ok: "coord_ok k c" and rq: "reqs_ok W P c"
  shows "reqs_ok W P (promoteHead c) \<and> length (store (promoteHead c)) = length (store c) \<and>
    c_limits (promoteHead c) = c_limits c"
proof (cases "queue c = [] \<or> active c \<ge> MaxConcurrent (c_limits c)")
  case True
  then have "promoteHead c = c" by (cases "queue c") (simp_all add: promoteHead_def)
  then show ?thesis using rq by simp
next
  case False
  then obtain i rest where q: "queue c = i # rest" by (cases "queue c") auto
  then have i: "i < length (store c)" "state (store c ! i) = Queued"
    using ok by (auto simp: coord_ok_def)
  let ?r = "signalReady ((stopQueueTimer ((store c ! i)\<lparr>queued := False\<rparr>))\<lparr>state := Running\<rparr>)"
  have p: "promoteHead c = c\<lparr>queue := rest, active := active c + 1, store := (store c)[i := ?r]\<rparr>"
    using False q by (simp add: promoteHead_def)
  have "req_ok (i \<in> W) (i \<in> P) ?r"
    using reqs_okD [OF rq i(1)] i(2) by (auto simp: req_ok_def signalReady_def stopQueueTimer_def)
  then have "reqs_ok W P (promoteHead c)"
    by (intro reqs_ok_update [OF rq i(1)]) (simp_all add: p)
  then show ?thesis by (simp add: p)
qed

lemma signalReady_simps [simp]:
  "idKey (signalReady r) = idKey r" "state (signalReady r) = state r" "queued (signalReady r) = queued r"
  "r_lease (signalReady r) = r_lease r" "startCalled (signalReady r) = startCalled r"
  "timer (signalReady r) = timer r" "response (signalReady r) = response r" "readyClosed (signalReady r)"
  by (simp_all add: signalReady_def)

text \<open>What each coordinator operation must preserve.\<close>

definition op_ok :: "nat set \<Rightarrow> nat set \<Rightarrow> 'o coordinator \<Rightarrow> 'o coordinator \<Rightarrow> bool" where
  "op_ok W P c c' \<longleftrightarrow> coord_ok 0 c' \<and> reqs_ok W P c' \<and> length (store c') = length (store c) \<and>
    c_limits c' = c_limits c"

lemma op_ok_leave:
  assumes ok: "coord_ok 0 c" and rq: "reqs_ok W P c" and i: "i < length (store c)"
    and al: "alive (store c ! i)" and r: "idKey r = idKey (store c ! i)" "\<not> alive r"
    "req_ok (i \<in> W') (i \<in> P') r" "W' - {i} = W - {i}" "P' - {i} = P - {i}"
    and d: "store d = (store c)[i := r]" "queue d = filter (\<lambda>j. j \<noteq> i) (queue c)"
      "requests d = (requests c)(idKey (store c ! i) := None)"
      "active d = active c - (if holds (store c ! i) then 1 else 0)" "c_limits d = c_limits c"
  shows "op_ok W' P' c (promoteHead d)" "\<not> holds (store c ! i) \<Longrightarrow> op_ok W' P' c d"
proof -
  note ok' = coord_ok_leave [OF ok i al r(1,2) d]
  have rq': "reqs_ok W' P' d" using rq i r(3-5) by (rule reqs_ok_update) (simp add: d)
  have "length (store d) = length (store c)" "c_limits d = c_limits c" by (simp_all add: d)
  then show "op_ok W' P' c (promoteHead d)" "\<not> holds (store c ! i) \<Longrightarrow> op_ok W' P' c d"
    using ok' rq' promoteHead_ok [OF ok'] promoteHead_reqs [OF ok' rq'] by (simp_all add: op_ok_def)
qed

lemma op_ok_same:
  assumes ok: "coord_ok 0 c" and rq: "reqs_ok W P c" and i: "i < length (store c)"
    and r: "idKey r = idKey (store c ! i)" "state r = Queued \<longleftrightarrow> state (store c ! i) = Queued"
      "holds r \<longleftrightarrow> holds (store c ! i)"
    "req_ok (i \<in> W') (i \<in> P') r" "W' - {i} = W - {i}" "P' - {i} = P - {i}"
    and d: "d = c\<lparr>store := (store c)[i := r]\<rparr>"
  shows "op_ok W' P' c d"
proof -
  have "reqs_ok W' P' d" using rq i r(4-6) by (rule reqs_ok_update) (simp add: d)
  then show ?thesis using coord_ok_same [OF ok i r(1-3)] by (simp add: op_ok_def d)
qed

lemma not_in_queue:
  assumes "coord_ok k c" "state (store c ! i) \<noteq> Queued"
  shows "filter (\<lambda>j. j \<noteq> i) (queue c) = queue c"
  using assms by (intro filter_True) (auto simp: coord_ok_def)

lemma no_request:
  assumes "coord_ok k c" "i < length (store c)" "\<not> alive (store c ! i)"
  shows "requests c (idKey (store c ! i)) = None"
proof (rule ccontr)
  assume "requests c (idKey (store c ! i)) \<noteq> None"
  then obtain j where "j < length (store c)" "idKey (store c ! j) = idKey (store c ! i)" "alive (store c ! j)"
    using assms(1) by (auto simp: coord_ok_def)
  then show False using assms by (auto simp: coord_ok_def distinct_conv_nth)
qed

lemma cancel_ok:
  assumes ok: "coord_ok 0 c" and rq: "reqs_ok W P c" and i: "i < length (store c)"
  shows "op_ok W P c (fst (cancel c i))"
proof -
  let ?r = "store c ! i"
  note r = reqs_okD [OF rq i]
  consider "state ?r = Queued" | "state ?r = Running" "r_lease ?r = None" | "state ?r = Running" "r_lease ?r \<noteq> None"
    | "\<not> (state ?r = Queued \<or> state ?r = Running)" by blast
  then show ?thesis
  proof cases
    case 1
    let ?x = "signalReady (?r\<lparr>queued := False, timer := False, state := Cancelled, contextCancelled := True\<rparr>)"
    have q: "queued ?r" using r 1 by (simp add: req_ok_def)
    have x: "req_ok (i \<in> W) (i \<in> P) ?x" using r 1 by (auto simp: req_ok_def)
    show ?thesis
      by (rule op_ok_leave(2) [OF ok rq i, where r = ?x])
        (use 1 q i x in \<open>simp_all add: cancel_def removeFromQueue_def deleteRequest_def stopQueueTimer_def Let_def\<close>)
  next
    case 2
    let ?x = "signalReady (?r\<lparr>contextCancelled := True, state := Cancelled\<rparr>)"
    define d where "d = c\<lparr>requests := (requests c)(idKey ?r := None), active := active c - 1,
      store := (store c)[i := ?x]\<rparr>"
    have "fst (cancel c i) = promoteHead d"
      using 2 i by (simp add: cancel_def deleteRequest_def Let_def d_def)
    moreover have x: "req_ok (i \<in> W) (i \<in> P) ?x" using r 2 by (auto simp: req_ok_def)
    moreover have "op_ok W P c (promoteHead d)"
      by (rule op_ok_leave(1) [OF ok rq i, where r = ?x])
        (use 2 i not_in_queue [OF ok, of i] x in \<open>simp_all add: d_def\<close>)
    ultimately show ?thesis by simp
  next
    case 3
    let ?x = "?r\<lparr>contextCancelled := True, state := Lingering\<rparr>"
    have "fst (cancel c i) = c\<lparr>store := (store c)[i := ?x]\<rparr>" using 3 i by (auto simp: cancel_def Let_def)
    moreover have "req_ok (i \<in> W) (i \<in> P) ?x" using r 3 by (auto simp: req_ok_def)
    ultimately show ?thesis using 3 by (intro op_ok_same [OF ok rq i, where r = ?x]) simp_all
  next
    case 4
    then have "fst (cancel c i) = c" by (cases "state ?r") (simp_all add: cancel_def)
    then show ?thesis using ok rq by (simp add: op_ok_def)
  qed
qed

lemma queueTimedOut_ok:
  assumes ok: "coord_ok 0 c" and rq: "reqs_ok W P c" and i: "i < length (store c)"
  shows "op_ok W P c (queueTimedOut c i)"
proof (cases "state (store c ! i) = Queued")
  case False
  then show ?thesis using ok rq by (simp add: queueTimedOut_def op_ok_def)
next
  case True
  let ?r = "store c ! i"
  let ?x = "signalReady (?r\<lparr>queued := False, timer := False, state := TimeoutResponseCommitted,
    response := True, contextCancelled := True\<rparr>)"
  note r = reqs_okD [OF rq i]
  have q: "queued ?r" using r True by (simp add: req_ok_def)
  have x: "req_ok (i \<in> W) (i \<in> P) ?x" using r True by (auto simp: req_ok_def)
  show ?thesis
    by (rule op_ok_leave(2) [OF ok rq i, where r = ?x])
      (use True q i x in \<open>simp_all add: queueTimedOut_def removeFromQueue_def deleteRequest_def Let_def\<close>)
qed

lemma forgotten:
  assumes "coord_ok k c" "i < length (store c)" "\<not> alive (store c ! i)"
  shows "(requests c)(idKey (store c ! i) := None) = requests c"
  using no_request [OF assms] by (simp add: fun_upd_idem_iff)

lemma failQueueTimer_ok:
  assumes ok: "coord_ok 0 c" and rq: "reqs_ok W P c" and i: "i < length (store c)"
  shows "op_ok W P c (fst (failQueueTimerAfterPanic c i))"
proof -
  let ?r = "store c ! i"
  let ?b = "?r\<lparr>timer := False, response := False, contextCancelled := True\<rparr>"
  note r = reqs_okD [OF rq i]
  have nq: "queued ?r = (state ?r = Queued)" using r by (simp add: req_ok_def)
  note defs = failQueueTimerAfterPanic_def removeFromQueue_def deleteRequest_def Let_def nq
  consider "state ?r = Queued" | "holds ?r" "r_lease ?r \<noteq> None" | "state ?r = Running" "r_lease ?r = None"
    | "state ?r = Returned \<or> state ?r = Cancelled" | "state ?r = TimeoutResponseCommitted"
    using r by (cases "state ?r") (auto simp: req_ok_def)
  then show ?thesis
  proof cases
    case 1
    let ?x = "signalReady (?r\<lparr>queued := False, timer := False, response := False, contextCancelled := True,
      state := Cancelled\<rparr>)"
    have x: "req_ok (i \<in> W) (i \<in> P) ?x" using r 1 by (auto simp: req_ok_def)
    show ?thesis
      by (rule op_ok_leave(2) [OF ok rq i, where r = ?x]) (use 1 i x in \<open>simp_all add: defs\<close>)
  next
    case 2
    let ?x = "?b\<lparr>state := Lingering\<rparr>"
    have "fst (failQueueTimerAfterPanic c i) = c\<lparr>store := (store c)[i := ?x]\<rparr>"
      using 2 i by (auto simp: defs fail_active_def)
    moreover have "req_ok (i \<in> W) (i \<in> P) ?x" using r 2 by (auto simp: req_ok_def)
    ultimately show ?thesis using 2 by (intro op_ok_same [OF ok rq i, where r = ?x]) auto
  next
    case 3
    let ?x = "signalReady (?b\<lparr>state := Cancelled\<rparr>)"
    define d where "d = c\<lparr>requests := (requests c)(idKey ?r := None),
      active := (if active c \<noteq> 0 then active c - 1 else active c), store := (store c)[i := ?x]\<rparr>"
    have "fst (failQueueTimerAfterPanic c i) = promoteHead d"
      using 3 i by (simp add: defs fail_active_def d_def)
    moreover have x: "req_ok (i \<in> W) (i \<in> P) ?x" using r 3 by (auto simp: req_ok_def)
    moreover have "op_ok W P c (promoteHead d)"
      by (rule op_ok_leave(1) [OF ok rq i, where r = ?x])
        (use 3 i not_in_queue [OF ok, of i] x in \<open>simp_all add: d_def\<close>)
    ultimately show ?thesis by simp
  next
    case 4
    let ?x = "signalReady ?b"
    have "(requests c)(idKey ?r := None) = requests c" using ok i 4 by (intro forgotten) auto
    then have "fst (failQueueTimerAfterPanic c i) = c\<lparr>store := (store c)[i := ?x]\<rparr>"
      using 4 i by (auto simp: defs)
    moreover have "req_ok (i \<in> W) (i \<in> P) ?x" using r 4 unfolding req_ok_def by (elim disjE) simp_all
    ultimately show ?thesis using 4 by (intro op_ok_same [OF ok rq i, where r = ?x]) auto
  next
    case 5
    let ?x = "signalReady (?b\<lparr>state := Cancelled\<rparr>)"
    have "(requests c)(idKey ?r := None) = requests c" using ok i 5 by (intro forgotten) auto
    then have "fst (failQueueTimerAfterPanic c i) = c\<lparr>store := (store c)[i := ?x]\<rparr>"
      using 5 i by (auto simp: defs)
    moreover have "req_ok (i \<in> W) (i \<in> P) ?x" using r 5 by (auto simp: req_ok_def)
    ultimately show ?thesis using 5 by (intro op_ok_same [OF ok rq i, where r = ?x]) auto
  qed
qed

lemma workerReturned_ok:
  assumes ok: "coord_ok 0 c" and rq: "reqs_ok W P c" and i: "i < length (store c)" and p: "i \<in> P"
  shows "\<exists>c'. workerReturned c i = Some c' \<and> op_ok W (P - {i}) c c'"
proof -
  let ?r = "store c ! i"
  let ?x = "?r\<lparr>state := Returned, contextCancelled := True\<rparr>"
  note r = reqs_okD [OF rq i]
  obtain l where l: "r_lease ?r = Some l" "returned l" using r p by (auto simp: req_ok_def)
  then have h: "holds ?r" "r_lease ?r \<noteq> None" using r p by (auto simp: req_ok_def)
  have a: "active c \<noteq> 0" using ok i h(1) by (auto simp: coord_ok_def filter_empty_conv)
  define d where "d = c\<lparr>store := (store c)[i := ?x], requests := (requests c)(idKey ?r := None),
    active := active c - 1\<rparr>"
  have "workerReturned c i = Some (promoteHead d)"
    using h a i by (auto simp: workerReturned_def deleteRequest_def Let_def d_def)
  moreover have x: "req_ok (i \<in> W) (i \<in> P - {i}) ?x" using r p l h
    by (simp add: req_ok_def) (elim disjE; simp)
  moreover have "op_ok W (P - {i}) c (promoteHead d)"
    by (rule op_ok_leave(1) [OF ok rq i, where r = ?x])
      (use h i not_in_queue [OF ok, of i] x in \<open>auto simp: d_def\<close>)
  ultimately show ?thesis by simp
qed

lemma start_poll_ok:
  assumes ok: "coord_ok 0 c" and rq: "reqs_ok W P c" and i: "i < length (store c)" and w: "i \<in> W"
    and ready: "readyClosed (store c ! i)"
  shows "\<exists>c' oc. start_poll c i = Some (c', Started oc) \<and> op_ok (W - {i}) P c c'"
proof -
  let ?r = "store c ! i"
  note r = reqs_okD [OF rq i]
  have same: "op_ok (W - {i}) P c (c\<lparr>store := (store c)[i := x]\<rparr>)"
    if "idKey x = idKey ?r" "state x = state ?r" "req_ok False (i \<in> P) x" for x
    by (rule op_ok_same [OF ok rq i, where r = x]) (use that in simp_all)
  consider "state ?r = Running" | "state ?r = Cancelled" | "state ?r = TimeoutResponseCommitted" "response ?r"
    using r w ready by (auto simp: req_ok_def)
  then show ?thesis
  proof cases
    case 1
    have "req_ok False (i \<in> P) (?r\<lparr>r_lease := Some newWorkLease\<rparr>)"
      using r w 1 by (auto simp: req_ok_def newWorkLease_def)
    then show ?thesis using same 1 i by (simp add: start_poll_def)
  next
    case 2
    have "req_ok False (i \<in> P) ?r" using r 2 by (auto simp: req_ok_def)
    from same [OF _ _ this] show ?thesis using 2 i by (simp add: start_poll_def)
  next
    case 3
    have "req_ok False (i \<in> P) (?r\<lparr>response := False\<rparr>)" using r w 3 by (auto simp: req_ok_def)
    then show ?thesis using same 3 i by (simp add: start_poll_def)
  qed
qed

text \<open>The first call of \<open>Start\<close> never panics, whatever happened to the request before it.\<close>

lemma start_ok:
  assumes ok: "coord_ok 0 c" and rq: "reqs_ok W P c" and i: "i < length (store c)"
    and first: "\<not> startCalled (store c ! i)"
  shows "\<exists>c' e. start c i = Some (c', e) \<and> op_ok (if e = Blocked then insert i W else W) P c c'"
proof -
  let ?r = "store c ! i"
  let ?s = "?r\<lparr>startCalled := True\<rparr>"
  note r = reqs_okD [OF rq i]
  have niW: "i \<notin> W" and nl: "r_lease ?r = None" using r first by (auto simp: req_ok_def)
  have same: "op_ok W' P c (c\<lparr>store := (store c)[i := x]\<rparr>)"
    if "idKey x = idKey ?r" "state x = state ?r" "req_ok (i \<in> W') (i \<in> P) x" "W' - {i} = W - {i}" for x W'
    by (rule op_ok_same [OF ok rq i, where r = x]) (use that in simp_all)
  consider "state ?r = Queued" | "state ?r = Running" | "state ?r = Cancelled"
    | "state ?r = TimeoutResponseCommitted" "response ?r"
    using r first nl by (cases "state ?r") (auto simp: req_ok_def)
  then show ?thesis
  proof cases
    case 1
    have "req_ok True (i \<in> P) ?s" using r nl 1 by (auto simp: req_ok_def)
    then have "op_ok (insert i W) P c (c\<lparr>store := (store c)[i := ?s]\<rparr>)" by (intro same) auto
    then show ?thesis using 1 first i by (simp add: start_def start_poll_def)
  next
    case 2
    have "req_ok (i \<in> W) (i \<in> P) (?s\<lparr>r_lease := Some newWorkLease\<rparr>)"
      using r niW nl 2 by (auto simp: req_ok_def newWorkLease_def)
    then have "op_ok W P c (c\<lparr>store := (store c)[i := ?s\<lparr>r_lease := Some newWorkLease\<rparr>]\<rparr>)"
      by (intro same) auto
    then show ?thesis using 2 first i by (simp add: start_def start_poll_def)
  next
    case 3
    have "req_ok (i \<in> W) (i \<in> P) ?s" using r niW 3 by (auto simp: req_ok_def)
    then have "op_ok W P c (c\<lparr>store := (store c)[i := ?s]\<rparr>)" by (intro same) auto
    then show ?thesis using 3 first i by (simp add: start_def start_poll_def)
  next
    case 4
    have "req_ok (i \<in> W) (i \<in> P) (?s\<lparr>response := False\<rparr>)" using r niW 4 by (auto simp: req_ok_def)
    then have "op_ok W P c (c\<lparr>store := (store c)[i := ?s\<lparr>response := False\<rparr>]\<rparr>)" by (intro same) auto
    then show ?thesis using 4 first i by (simp add: start_def start_poll_def)
  qed
qed

text \<open>Marking a lease keeps the request's class; the first return makes the request a returning one.\<close>

lemma lease_mark_ok:
  assumes ok: "coord_ok 0 c" and rq: "reqs_ok W P c" and i: "i < length (store c)"
    and l: "r_lease (store c ! i) = Some l"
    and l': "returned l' = returned l \<and> release l' = release l \<and> P' = P \<or>
      \<not> returned l \<and> returned l' \<and> \<not> release l' \<and> P' = insert i P"
  shows "op_ok W P' c (c\<lparr>store := (store c)[i := (store c ! i)\<lparr>r_lease := Some l'\<rparr>]\<rparr>)"
proof -
  let ?x = "(store c ! i)\<lparr>r_lease := Some l'\<rparr>"
  note r = reqs_okD [OF rq i]
  from l' have "req_ok (i \<in> W) (i \<in> P') ?x"
  proof (elim disjE conjE)
    assume "returned l' = returned l" "release l' = release l" "P' = P"
    then show ?thesis using r l by (simp add: req_ok_def)
  next
    assume "\<not> returned l" "returned l'" "\<not> release l'" "P' = insert i P"
    then show ?thesis using r l by (simp add: req_ok_def) (elim conjE disjE; simp)
  qed
  moreover have "P' - {i} = P - {i}" using l' by auto
  ultimately show ?thesis by (intro op_ok_same [OF ok rq i, where r = ?x]) simp_all
qed

lemma admit_ok:
  assumes ok: "coord_ok 0 c" and rq: "reqs_ok W P c" and bounds: "W \<subseteq> {..<length (store c)}" "P \<subseteq> {..<length (store c)}"
    and key: "key \<notin> idKey ` set (store c)" "key \<noteq> []"
  shows "\<exists>c' i oc. admit c key = Some (c', i, oc) \<and> coord_ok 0 c' \<and> reqs_ok W P c' \<and>
    length (store c) \<le> length (store c') \<and> c_limits c' = c_limits c"
proof -
  let ?n = "length (store c)"
  let ?run = "active c < MaxConcurrent (c_limits c) \<and> queue c = []"
  have free: "requests c key = None"
  proof (rule ccontr)
    assume "requests c key \<noteq> None"
    then obtain j where "requests c key = Some j" by blast
    then have "j < ?n" "idKey (store c ! j) = key" using ok unfolding coord_ok_def by blast+
    then show False using key(1) by auto
  qed
  show ?thesis
  proof (cases "\<not> ?run \<and> length (queue c) \<ge> QueueMax (c_limits c)")
    case True
    then have "admit c key = Some (c, None, AdmitImmediateBudgetExceeded)"
      using key free by (simp add: admit_def)
    then show ?thesis using ok rq by simp
  next
    case False
    define x :: "'a request" where "x = \<lparr>idKey = key, state = (if ?run then Running else Queued), contextCancelled = False,
      readyClosed = False, queued = (\<not> ?run), r_lease = None, startCalled = False,
      timer = (\<not> ?run), response = False\<rparr>"
    let ?c = "c\<lparr>active := (if ?run then active c + 1 else active c),
      queue := (if ?run then queue c else queue c @ [?n]), requests := (requests c)(key \<mapsto> ?n),
      store := store c @ [x]\<rparr>"
    have a: "admit c key = Some (?c, Some ?n, if ?run then AdmitRun else AdmitQueued)"
      using False key free by (simp add: admit_def Let_def x_def)
    have old: "active c = length (filter holds (store c))" "active c \<le> MaxConcurrent (c_limits c)"
      "sorted_wrt (<) (queue c)"
      "\<And>j. j \<in> set (queue c) \<longleftrightarrow> j < ?n \<and> state (store c ! j) = Queued"
      "queue c \<noteq> [] \<Longrightarrow> MaxConcurrent (c_limits c) \<le> active c" "distinct (map idKey (store c))"
      "\<And>k j. requests c k = Some j \<longleftrightarrow> j < ?n \<and> idKey (store c ! j) = k \<and> alive (store c ! j)"
      using ok by (auto simp: coord_ok_def)
    have x: "idKey x = key" "state x = (if ?run then Running else Queued)" by (simp_all add: x_def)
    have "sorted_wrt (<) (queue c @ [?n])" using old(3,4) by (auto simp: sorted_wrt_append)
    moreover have "j \<in> set (if ?run then queue c else queue c @ [?n]) \<longleftrightarrow>
        j < length (store c @ [x]) \<and> state ((store c @ [x]) ! j) = Queued" for j
      using old(4) [of j] x(2) by (auto simp: nth_append less_Suc_eq)
    moreover have "((requests c)(key \<mapsto> ?n)) k = Some j \<longleftrightarrow>
        j < length (store c @ [x]) \<and> idKey ((store c @ [x]) ! j) = k \<and> alive ((store c @ [x]) ! j)" for k j
      using old(7) [of k j] x key(1) free by (auto simp: nth_append less_Suc_eq split: if_splits)
    moreover have "distinct (map idKey (store c @ [x]))" using old(6) x(1) key(1) by auto
    moreover have "length (filter holds (store c @ [x])) = (if ?run then active c + 1 else active c)"
      using old(1) x(2) by auto
    moreover have "length (queue c) < QueueMax (c_limits c) \<or> ?run" using False by auto
    ultimately have "coord_ok 0 ?c"
      using old(2,3,5) unfolding coord_ok_def by (auto simp del: append_assoc split: if_splits)
    moreover have "req_ok (?n \<in> W) (?n \<in> P) x"
      using bounds by (auto simp: req_ok_def x_def)
    then have "reqs_ok W P ?c" using rq by (auto simp: reqs_ok_def nth_append less_Suc_eq)
    ultimately show ?thesis using a by auto
  qed
qed

lemma session_ok_op:
  assumes "session_ok l s" "op_ok W P (coord s) c" "W \<subseteq> {..<length (store (coord s))}"
    "P \<subseteq> {..<length (store (coord s))}"
    "coord s' = c" "waiting s' = W" "returning s' = P"
  shows "session_ok l s'"
  using assms by (simp add: session_ok_def op_ok_def reqs_ok_def)

lemma session_okD:
  assumes "session_ok l s"
  shows "c_limits (coord s) = l" "coord_ok 0 (coord s)" "reqs_ok (waiting s) (returning s) (coord s)"
    "waiting s \<subseteq> {..<length (store (coord s))}" "returning s \<subseteq> {..<length (store (coord s))}"
  using assms by (simp_all add: session_ok_def reqs_ok_def)

lemma start_called: "start c i = Some x \<Longrightarrow> \<not> startCalled (store c ! i)"
  by (auto simp: start_def split: if_splits)

lemma session_step_ok: "session_step s s' \<Longrightarrow> session_ok l s \<Longrightarrow> session_ok l s'"
proof (induction rule: session_step.induct)
  case (Admit key s c i oc)
  note D = session_okD [OF Admit.prems]
  have "coord_ok 0 c \<and> reqs_ok (waiting s) (returning s) c \<and> length (store (coord s)) \<le> length (store c) \<and>
      c_limits c = c_limits (coord s)"
    using admit_ok [OF D(2-5) Admit.hyps(1,2)] Admit.hyps(3) by auto
  then show ?case using D(1,4,5) by (auto simp: session_ok_def reqs_ok_def)
next
  case (Start_now i s c oc)
  note D = session_okD [OF Start_now.prems]
  have "op_ok (waiting s) (returning s) (coord s) c"
    using start_ok [OF D(2,3) Start_now.hyps(1) start_called [OF Start_now.hyps(2)]] Start_now.hyps(2) by auto
  then show ?case by (rule session_ok_op [OF Start_now.prems]) (use D in simp_all)
next
  case (Start_wait i s c)
  note D = session_okD [OF Start_wait.prems]
  have "op_ok (insert i (waiting s)) (returning s) (coord s) c"
    using start_ok [OF D(2,3) Start_wait.hyps(1) start_called [OF Start_wait.hyps(2)]] Start_wait.hyps(2) by auto
  then show ?case by (rule session_ok_op [OF Start_wait.prems]) (use D Start_wait.hyps(1) in simp_all)
next
  case (Resume i s c oc)
  note D = session_okD [OF Resume.prems]
  have i: "i < length (store (coord s))" using D(4) Resume.hyps(1) by auto
  have "op_ok (waiting s - {i}) (returning s) (coord s) c"
    using start_poll_ok [OF D(2,3) i Resume.hyps(1,2)] Resume.hyps(3) by auto
  then show ?case by (rule session_ok_op [OF Resume.prems]) (use D in auto)
next
  case (Cancel i s)
  note D = session_okD [OF Cancel.prems]
  show ?case by (rule session_ok_op [OF Cancel.prems cancel_ok [OF D(2,3) Cancel.hyps]]) (use D in simp_all)
next
  case (Timeout i s)
  note D = session_okD [OF Timeout.prems]
  show ?case by (rule session_ok_op [OF Timeout.prems queueTimedOut_ok [OF D(2,3) Timeout.hyps]]) (use D in simp_all)
next
  case (Timer_panic i s)
  note D = session_okD [OF Timer_panic.prems]
  show ?case
    by (rule session_ok_op [OF Timer_panic.prems failQueueTimer_ok [OF D(2,3) Timer_panic.hyps]]) (use D in simp_all)
next
  case (Lease_return i s l0 l' effects)
  note D = session_okD [OF Lease_return.prems]
  have "\<not> returned l0 \<and> returned l' \<and> \<not> release l'"
    using Lease_return.hyps(3,4) by (auto simp: lease_worker_returned_def Let_def split: if_splits)
  then have "op_ok (waiting s) (insert i (returning s)) (coord s)
      (upd i (\<lambda>r. r\<lparr>r_lease := Some l'\<rparr>) (coord s))"
    by (intro lease_mark_ok [OF D(2,3) Lease_return.hyps(1,2)]) simp
  then show ?case by (rule session_ok_op [OF Lease_return.prems]) (use D Lease_return.hyps(1) in simp_all)
next
  case (Lease_other i s l0 l')
  note D = session_okD [OF Lease_other.prems]
  have "op_ok (waiting s) (returning s) (coord s) (upd i (\<lambda>r. r\<lparr>r_lease := Some l'\<rparr>) (coord s))"
    by (intro lease_mark_ok [OF D(2,3) Lease_other.hyps(1,2)]) (simp add: Lease_other.hyps)
  then show ?case by (rule session_ok_op [OF Lease_other.prems]) (use D in simp_all)
next
  case (Worker_returned i s c)
  note D = session_okD [OF Worker_returned.prems]
  have i: "i < length (store (coord s))" using D(5) Worker_returned.hyps(1) by auto
  have "op_ok (waiting s) (returning s - {i}) (coord s) c"
    using workerReturned_ok [OF D(2,3) i Worker_returned.hyps(1)] Worker_returned.hyps(2) by auto
  then show ?case by (rule session_ok_op [OF Worker_returned.prems]) (use D in auto)
qed

lemma session_reachable_ok: "session_reachable l s \<Longrightarrow> session_ok l s"
proof (induction rule: session_reachable.induct)
  case (session_start c)
  then show ?case
    by (auto simp: newCoordinator_def session_ok_def coord_ok_def split: if_splits)
next
  case (session_next s s')
  then show ?case using session_step_ok by blast
qed

section \<open>A concrete session\<close>

text \<open>One slot and one queue place: \<open>a\<close> runs and is about to give its slot back, \<open>b\<close> waits.\<close>

definition demo_limits :: limits where
  "demo_limits = \<lparr>MaxConcurrent = 1, QueueMax = 1\<rparr>"

definition demo_request :: "bytes \<Rightarrow> RequestState \<Rightarrow> nat request" where
  "demo_request key st = \<lparr>idKey = key, state = st, contextCancelled = False, readyClosed = False,
    queued = (st = Queued), r_lease = None, startCalled = False, timer = (st = Queued), response = False\<rparr>"

definition demo_session :: "nat session" where
  "demo_session = \<lparr>coord = \<lparr>c_limits = demo_limits, active = 1, queue = [1],
      requests = [''a'' \<mapsto> 0, ''b'' \<mapsto> 1],
      store = [(demo_request ''a'' Running)\<lparr>startCalled := True,
          r_lease := Some (newWorkLease\<lparr>returned := True, owner := None, release := False\<rparr>)\<rparr>,
        (demo_request ''b'' Queued)\<lparr>startCalled := True\<rparr>]\<rparr>,
    waiting = {1}, returning = {0}, outcomes = [(0, StartRun)]\<rparr>"

lemma demo_reachable: "session_reachable demo_limits demo_session"
proof -
  note defs = demo_limits_def demo_request_def newCoordinator_def admit_def start_def start_poll_def
    lease_worker_returned_def newWorkLease_def Let_def
  let ?c0 = "\<lparr>c_limits = demo_limits, active = 0, queue = [], requests = Map.empty, store = []\<rparr> :: nat coordinator"
  let ?s0 = "\<lparr>coord = ?c0, waiting = {}, returning = {}, outcomes = []\<rparr>"
  let ?c1 = "?c0\<lparr>active := 1, requests := [''a'' \<mapsto> 0], store := [demo_request ''a'' Running]\<rparr>"
  let ?c2 = "?c1\<lparr>queue := [1], requests := [''a'' \<mapsto> 0, ''b'' \<mapsto> 1],
    store := [demo_request ''a'' Running, demo_request ''b'' Queued]\<rparr>"
  let ?a = "(demo_request ''a'' Running)\<lparr>startCalled := True, r_lease := Some newWorkLease\<rparr>"
  let ?b = "(demo_request ''b'' Queued)\<lparr>startCalled := True\<rparr>"
  let ?c3 = "?c2\<lparr>store := [?a, demo_request ''b'' Queued]\<rparr>"
  let ?c4 = "?c2\<lparr>store := [?a, ?b]\<rparr>"
  have r0: "session_reachable demo_limits ?s0"
    by (rule session_start) (simp add: defs)
  have "session_step ?s0 (?s0\<lparr>coord := ?c1\<rparr>)"
    by (rule Admit [where key = "''a''" and i = "Some 0" and oc = AdmitRun]) (simp_all add: defs)
  with r0 have r1: "session_reachable demo_limits (?s0\<lparr>coord := ?c1\<rparr>)" by (rule session_next)
  have "session_step (?s0\<lparr>coord := ?c1\<rparr>) (?s0\<lparr>coord := ?c2\<rparr>)"
    using Admit [where s = "?s0\<lparr>coord := ?c1\<rparr>" and c = ?c2 and key = "''b''" and i = "Some 1" and oc = AdmitQueued]
    by (simp add: defs)
  with r1 have r2: "session_reachable demo_limits (?s0\<lparr>coord := ?c2\<rparr>)" by (rule session_next)
  have "session_step (?s0\<lparr>coord := ?c2\<rparr>) (?s0\<lparr>coord := ?c3, outcomes := [(0, StartRun)]\<rparr>)"
    using Start_now [where s = "?s0\<lparr>coord := ?c2\<rparr>" and c = ?c3 and i = 0 and oc = StartRun] by (simp add: defs)
  with r2 have r3: "session_reachable demo_limits (?s0\<lparr>coord := ?c3, outcomes := [(0, StartRun)]\<rparr>)"
    by (rule session_next)
  have "session_step (?s0\<lparr>coord := ?c3, outcomes := [(0, StartRun)]\<rparr>)
      (?s0\<lparr>coord := ?c4, waiting := {1}, outcomes := [(0, StartRun)]\<rparr>)"
    using Start_wait [where s = "?s0\<lparr>coord := ?c3, outcomes := [(0, StartRun)]\<rparr>" and c = ?c4 and i = 1]
    by (simp add: defs)
  with r3 have r4: "session_reachable demo_limits (?s0\<lparr>coord := ?c4, waiting := {1}, outcomes := [(0, StartRun)]\<rparr>)"
    by (rule session_next)
  have "session_step (?s0\<lparr>coord := ?c4, waiting := {1}, outcomes := [(0, StartRun)]\<rparr>) demo_session"
    using Lease_return [where s = "?s0\<lparr>coord := ?c4, waiting := {1}, outcomes := [(0, StartRun)]\<rparr>" and i = 0
        and l = newWorkLease and l' = "newWorkLease\<lparr>returned := True, owner := None, release := False\<rparr>"
        and effects = "[SlotRelease]"]
    by (simp add: defs demo_session_def)
  with r4 show ?thesis by (rule session_next)
qed

section \<open>Properties\<close>

text \<open>C17. In every state a connection can reach, under any interleaving of admissions, starts,
  cancellations, queue timeouts, timer panics and worker returns, \<open>active\<close> is the number of requests
  that hold a work slot and never exceeds \<open>MaxConcurrent\<close>; the queue holds exactly the waiting
  requests, in arrival order and at most \<open>QueueMax\<close> of them; and the id map knows exactly the live
  requests.\<close>

theorem coordinator_bounds:
  assumes "session_reachable l s"
  shows "active (coord s) = length (filter (\<lambda>r. state r = Running \<or> state r = Lingering) (store (coord s))) \<and>
    active (coord s) \<le> MaxConcurrent l \<and> length (queue (coord s)) \<le> QueueMax l \<and>
    sorted_wrt (<) (queue (coord s)) \<and>
    (\<forall>i. i \<in> set (queue (coord s)) \<longleftrightarrow>
      i < length (store (coord s)) \<and> state (store (coord s) ! i) = Queued) \<and>
    (\<forall>k i. requests (coord s) k = Some i \<longleftrightarrow> i < length (store (coord s)) \<and>
      idKey (store (coord s) ! i) = k \<and> state (store (coord s) ! i) \<in> {Queued, Running, Lingering})"
proof -
  have "session_ok l s" using assms by (rule session_reachable_ok)
  then have "c_limits (coord s) = l" "coord_ok 0 (coord s)" by (simp_all add: session_okD)
  then show ?thesis unfolding coord_ok_def by auto
qed

theorem coordinator_bounds_witness:
  "active (coord demo_session) \<le> 1 \<and> length (queue (coord demo_session)) = 1"
  using coordinator_bounds [OF demo_reachable] by (simp add: demo_session_def demo_limits_def)

text \<open>C18. No slot idles while a request waits: whenever the queue is not empty every slot is taken.
  And no wake-up is lost: a \<open>Start\<close> that blocks on \<open>ready\<close> is for a request that is still queued or
  whose channel has been closed.\<close>

theorem coordinator_work_conserving:
  assumes "session_reachable l s"
  shows "(queue (coord s) \<noteq> [] \<longrightarrow> active (coord s) = MaxConcurrent l) \<and>
    (\<forall>i \<in> waiting s. state (store (coord s) ! i) = Queued \<and> \<not> readyClosed (store (coord s) ! i) \<or>
      state (store (coord s) ! i) \<noteq> Queued \<and> readyClosed (store (coord s) ! i))"
proof -
  have ok: "session_ok l s" using assms by (rule session_reachable_ok)
  note D = session_okD [OF ok]
  have "queue (coord s) \<noteq> [] \<longrightarrow> active (coord s) = MaxConcurrent l"
    using D(1,2) unfolding coord_ok_def by auto
  moreover have "i \<in> waiting s \<Longrightarrow> req_ok True (i \<in> returning s) (store (coord s) ! i)" for i
    using reqs_okD [OF D(3), of i] D(4) by auto
  ultimately show ?thesis unfolding req_ok_def by blast
qed

theorem coordinator_work_conserving_witness:
  "active (coord demo_session) = MaxConcurrent demo_limits"
  using coordinator_work_conserving [OF demo_reachable] by (simp add: demo_session_def)

text \<open>C19. A worker that returns always owns its slot, so \<open>workerReturned\<close> never panics; if requests
  wait, the slot goes to the one that has waited longest, whose \<open>Start\<close> is woken, and no other
  request moves.\<close>

theorem worker_return_promotes_head:
  assumes "session_reachable l s" "i \<in> returning s"
  shows "\<exists>c. workerReturned (coord s) i = Some c \<and> state (store c ! i) = Returned \<and>
    (case queue (coord s) of
       [] \<Rightarrow> active c + 1 = active (coord s) \<and> queue c = []
     | h # rest \<Rightarrow> active c = active (coord s) \<and> queue c = rest \<and> h \<noteq> i \<and>
         state (store c ! h) = Running \<and> readyClosed (store c ! h)) \<and>
    (\<forall>j. j \<noteq> i \<and> j \<notin> set (take 1 (queue (coord s))) \<longrightarrow> store c ! j = store (coord s) ! j)"
proof -
  have ok: "session_ok l s" using assms(1) by (rule session_reachable_ok)
  note D = session_okD [OF ok]
  have i: "i < length (store (coord s))" using D(5) assms(2) by auto
  obtain c where c: "workerReturned (coord s) i = Some c"
    using workerReturned_ok [OF D(2,3) i assms(2)] by blast
  have r: "req_ok (i \<in> waiting s) True (store (coord s) ! i)" using reqs_okD [OF D(3) i] assms(2) by simp
  then have "state (store (coord s) ! i) \<noteq> Queued" by (auto simp: req_ok_def)
  then have niq: "i \<notin> set (queue (coord s))" using D(2) by (auto simp: coord_ok_def)
  have pos: "active (coord s) \<noteq> 0" using c by (auto simp: workerReturned_def split: if_splits)
  have le: "active (coord s) \<le> MaxConcurrent (c_limits (coord s))" using D(2) by (simp add: coord_ok_def)
  have hq: "j \<in> set (queue (coord s)) \<Longrightarrow> j < length (store (coord s))" for j
    using D(2) by (auto simp: coord_ok_def)
  show ?thesis
  proof (cases "queue (coord s)")
    case Nil
    then show ?thesis using c i pos
      by (auto simp: workerReturned_def deleteRequest_def promoteHead_def Let_def split: if_splits)
  next
    case (Cons h rest)
    have h: "h < length (store (coord s))" "h \<noteq> i" using hq niq Cons by auto
    have "active (coord s) - 1 < MaxConcurrent (c_limits (coord s))" using pos le by simp
    then show ?thesis using c i h pos Cons
      by (auto simp: workerReturned_def deleteRequest_def promoteHead_def Let_def split: if_splits)
  qed
qed

theorem worker_return_promotes_head_witness:
  "\<exists>c. workerReturned (coord demo_session) 0 = Some c \<and> active c = 1 \<and> queue c = []"
  using worker_return_promotes_head [OF demo_reachable, of 0] by (auto simp: demo_session_def)

text \<open>C20. The first \<open>Start\<close> of an admitted request never panics, whatever a cancellation or a timeout
  did to the request before; and a blocked \<open>Start\<close> whose channel closes always ends with an
  outcome.\<close>

theorem start_total:
  assumes "session_reachable l s" "i < length (store (coord s))"
  shows "(start (coord s) i = None \<longleftrightarrow> startCalled (store (coord s) ! i)) \<and>
    (i \<in> waiting s \<and> readyClosed (store (coord s) ! i) \<longrightarrow>
      (\<exists>c oc. start_poll (coord s) i = Some (c, Started oc)))"
proof -
  have ok: "session_ok l s" using assms(1) by (rule session_reachable_ok)
  note D = session_okD [OF ok]
  have "start (coord s) i = None \<longleftrightarrow> startCalled (store (coord s) ! i)"
    using start_ok [OF D(2,3) assms(2)] by (auto simp: start_def)
  moreover have "i \<in> waiting s \<Longrightarrow> readyClosed (store (coord s) ! i) \<Longrightarrow>
      \<exists>c oc. start_poll (coord s) i = Some (c, Started oc)"
    using start_poll_ok [OF D(2,3) assms(2)] by blast
  ultimately show ?thesis by blast
qed

theorem start_total_witness: "start (coord demo_session) 0 = None"
  using start_total [OF demo_reachable, of 0] by (simp add: demo_session_def)

end
