(* ===== verification/SubLimiter.thy ===== *)
theory SubLimiter
  imports Admission
begin

text \<open>
  The process-wide sub-work limiter of \<open>src/internal/runtime/sub_limiter.go\<close>: at most \<open>max\<close> scan
  or parse workers at a time, a FIFO of waiting calls, one unit per parent lease.  Every \<open>Acquire\<close>
  creates a waiter object; \<open>wstore\<close> lists them in order and a waiter is named by its position.
  \<open>w_pc\<close> is where the goroutine that owns the waiter stands.  Each critical section is one step;
  clocks and contexts are arguments, so a step may see any time and any cancellation.
\<close>

section \<open>State\<close>

datatype SubAcquireOutcome = SubAcquired | SubCancelled | SubDeadlineExceeded

datatype ctx_state = CtxLive | CtxDeadlineExceeded | CtxCancelled

datatype sub_lease_error = SubLeaseNoCommit | SubLeaseReturned | SubLeaseNilOwner

datatype 'o sub_effect = SubOwnerRelease 'o | SubOwnerMark 'o | LimiterRelease nat | ParentMark nat

record 'o SubLease =
  sl_limiter :: bool
  sl_parent :: "nat option"
  sl_owner :: "'o option"
  sl_noCommit :: bool
  sl_returned :: bool

datatype 'o sub_pc = Pc_wait | Pc_reserved | Pc_lease "'o SubLease" | Pc_releasing | Pc_end SubAcquireOutcome

record 'o subWaiter =
  w_parent :: nat
  w_deadline :: nat
  w_ready :: bool
  w_outcome :: "SubAcquireOutcome option"
  w_pc :: "'o sub_pc"

record 'o SubLimiter =
  s_max :: nat
  s_active :: nat
  s_waiters :: "nat list"
  s_parents :: "nat set"
  wstore :: "'o subWaiter list"

definition NewSubLimiter :: "nat \<Rightarrow> 'o SubLimiter option" where
  "NewSubLimiter mx =
    (if mx = 0 then None
     else Some \<lparr>s_max = mx, s_active = 0, s_waiters = [], s_parents = {}, wstore = []\<rparr>)"

abbreviation wupd :: "nat \<Rightarrow> ('o subWaiter \<Rightarrow> 'o subWaiter) \<Rightarrow> 'o SubLimiter \<Rightarrow> 'o SubLimiter" where
  "wupd i f L \<equiv> L\<lparr>wstore := (wstore L)[i := f (wstore L ! i)]\<rparr>"

section \<open>Acquiring\<close>

definition subAcquireTerminal :: "ctx_state \<Rightarrow> nat \<Rightarrow> nat \<Rightarrow> SubAcquireOutcome option" where
  "subAcquireTerminal cx deadline now =
    (if \<not> now < deadline then Some SubDeadlineExceeded
     else case cx of
       CtxLive \<Rightarrow> None
     | CtxDeadlineExceeded \<Rightarrow> Some SubDeadlineExceeded
     | CtxCancelled \<Rightarrow> Some SubCancelled)"

datatype 'o enter_exit = EnterPanic | Refused SubAcquireOutcome | Entered "'o SubLimiter"

text \<open>\<open>Acquire\<close> up to the end of its critical section; \<open>allowed1\<close> and \<open>allowed2\<close> are the two
  answers of the parent's \<open>subAcquireAllowed\<close>.\<close>

definition acquire_enter ::
  "bool \<Rightarrow> bool \<Rightarrow> ctx_state \<Rightarrow> nat \<Rightarrow> nat \<Rightarrow> nat \<Rightarrow> 'o SubLimiter \<Rightarrow> 'o enter_exit" where
  "acquire_enter allowed1 allowed2 cx now deadline parent L =
    (if \<not> allowed1 then Refused SubCancelled
     else case subAcquireTerminal cx deadline now of
       Some oc \<Rightarrow> Refused oc
     | None \<Rightarrow>
         let w = \<lparr>w_parent = parent, w_deadline = deadline, w_ready = False, w_outcome = None, w_pc = Pc_wait\<rparr> in
         if s_max L = 0 then EnterPanic
         else if parent \<in> s_parents L then EnterPanic
         else if \<not> allowed2 then Refused SubCancelled
         else
           let L1 = L\<lparr>s_parents := insert parent (s_parents L)\<rparr> in
           if s_active L1 < s_max L1 \<and> length (s_waiters L1) = 0
           then Entered (L1\<lparr>s_active := s_active L1 + 1, wstore := wstore L1 @ [w\<lparr>w_pc := Pc_reserved\<rparr>]\<rparr>)
           else Entered (L1\<lparr>s_waiters := s_waiters L1 @ [length (wstore L1)], wstore := wstore L1 @ [w]\<rparr>))"

definition terminalizeWaiter :: "nat \<Rightarrow> SubAcquireOutcome \<Rightarrow> 'o SubLimiter \<Rightarrow> 'o SubLimiter" where
  "terminalizeWaiter i oc L =
    (if w_outcome (wstore L ! i) = None
     then wupd i (\<lambda>w. w\<lparr>w_outcome := Some oc, w_ready := True\<rparr>)
            (L\<lparr>s_waiters := filter (\<lambda>j. j \<noteq> i) (s_waiters L),
               s_parents := s_parents L - {w_parent (wstore L ! i)}\<rparr>)
     else L)"

fun promote_from :: "(nat \<Rightarrow> ctx_state) \<Rightarrow> nat \<Rightarrow> nat list \<Rightarrow> 'o SubLimiter \<Rightarrow> 'o SubLimiter" where
  "promote_from cx now [] L = L"
| "promote_from cx now (i # rest) L =
    (if s_active L < s_max L then
       (case subAcquireTerminal (cx i) (w_deadline (wstore L ! i)) now of
          Some oc \<Rightarrow>
            promote_from cx now rest
              (wupd i (\<lambda>w. w\<lparr>w_outcome := Some oc, w_ready := True\<rparr>)
                (L\<lparr>s_waiters := rest, s_parents := s_parents L - {w_parent (wstore L ! i)}\<rparr>))
        | None \<Rightarrow>
            wupd i (\<lambda>w. w\<lparr>w_outcome := Some SubAcquired, w_ready := True\<rparr>)
              (L\<lparr>s_waiters := rest, s_active := s_active L + 1\<rparr>))
     else L)"

definition sub_promoteHead :: "(nat \<Rightarrow> ctx_state) \<Rightarrow> nat \<Rightarrow> 'o SubLimiter \<Rightarrow> 'o SubLimiter" where
  "sub_promoteHead cx now L = promote_from cx now (s_waiters L) L"

definition sub_release :: "(nat \<Rightarrow> ctx_state) \<Rightarrow> nat \<Rightarrow> nat \<Rightarrow> 'o SubLimiter \<Rightarrow> 'o SubLimiter option" where
  "sub_release cx now parent L =
    (if s_active L = 0 then None
     else if parent \<notin> s_parents L then None
     else Some (sub_promoteHead cx now
       (L\<lparr>s_parents := s_parents L - {parent}, s_active := s_active L - 1\<rparr>)))"

section \<open>The lease of one sub-work slot\<close>

definition sub_transfer :: "'o SubLease \<Rightarrow> 'o option \<Rightarrow> sub_lease_error + 'o SubLease" where
  "sub_transfer l new_owner =
    (case new_owner of
       None \<Rightarrow> Inl SubLeaseNilOwner
     | Some ow \<Rightarrow>
         if sl_returned l then Inl SubLeaseReturned
         else if sl_noCommit l then Inl SubLeaseNoCommit
         else Inr (l\<lparr>sl_owner := Some ow\<rparr>))"

definition sub_mark_no_commit ::
  "('o \<Rightarrow> bool) \<Rightarrow> 'o SubLease \<Rightarrow> 'o SubLease \<times> 'o sub_effect list" where
  "sub_mark_no_commit notifies l =
    (if sl_noCommit l \<or> sl_returned l then (l, [])
     else (l\<lparr>sl_noCommit := True\<rparr>,
           (case sl_parent l of None \<Rightarrow> [] | Some p \<Rightarrow> [ParentMark p]) @
           (case sl_owner l of
              Some ow \<Rightarrow> if notifies ow then [SubOwnerMark ow] else []
            | None \<Rightarrow> [])))"

definition sub_worker_returned :: "'o SubLease \<Rightarrow> 'o SubLease \<times> 'o sub_effect list" where
  "sub_worker_returned l =
    (if sl_returned l then (l, [])
     else (l\<lparr>sl_returned := True, sl_owner := None, sl_limiter := False, sl_parent := None\<rparr>,
           (case sl_owner l of None \<Rightarrow> [] | Some ow \<Rightarrow> [SubOwnerRelease ow]) @
           (if sl_limiter l then (case sl_parent l of None \<Rightarrow> [] | Some p \<Rightarrow> [LimiterRelease p]) else [])))"

definition finishReserved ::
  "ctx_state \<Rightarrow> nat \<Rightarrow> nat \<Rightarrow> bool \<Rightarrow> nat \<Rightarrow> 'o SubLease \<times> 'o sub_effect list \<times> SubAcquireOutcome" where
  "finishReserved cx deadline now allowed parent =
    (let l = \<lparr>sl_limiter = True, sl_parent = Some parent, sl_owner = None, sl_noCommit = False,
             sl_returned = False\<rparr> in
     case subAcquireTerminal cx deadline now of
       Some oc \<Rightarrow> (let (l', effects) = sub_worker_returned l in (l', effects, oc))
     | None \<Rightarrow>
         if \<not> allowed then (let (l', effects) = sub_worker_returned l in (l', effects, SubCancelled))
         else (l, [], SubAcquired))"

section \<open>The goroutines that use a limiter\<close>

text \<open>A call enters, may block, is woken by promotion or gives up, finishes its reservation into a
  lease, works under the lease and returns; the release of the slot follows the return of the lease
  in its own critical section.\<close>

inductive sub_step :: "'o SubLimiter \<Rightarrow> 'o SubLimiter \<Rightarrow> bool" where
  Sub_enter: "acquire_enter a1 a2 cx now deadline parent L = Entered L' \<Longrightarrow> sub_step L L'"
| Sub_give_up: "i < length (wstore L) \<Longrightarrow> w_pc (wstore L ! i) = Pc_wait \<Longrightarrow> oc \<noteq> SubAcquired \<Longrightarrow>
    sub_step L (terminalizeWaiter i oc L)"
| Sub_wake: "i < length (wstore L) \<Longrightarrow> w_pc (wstore L ! i) = Pc_wait \<Longrightarrow> w_ready (wstore L ! i) \<Longrightarrow>
    w_outcome (wstore L ! i) = Some oc \<Longrightarrow>
    sub_step L (wupd i (\<lambda>w. w\<lparr>w_pc := (if oc = SubAcquired then Pc_reserved else Pc_end oc)\<rparr>) L)"
| Sub_finish: "i < length (wstore L) \<Longrightarrow> w_pc (wstore L ! i) = Pc_reserved \<Longrightarrow>
    finishReserved cx (w_deadline (wstore L ! i)) now allowed (w_parent (wstore L ! i)) = (l, effects, oc) \<Longrightarrow>
    sub_step L (wupd i (\<lambda>w. w\<lparr>w_pc := (if oc = SubAcquired then Pc_lease l else Pc_releasing)\<rparr>) L)"
| Sub_transfer: "i < length (wstore L) \<Longrightarrow> w_pc (wstore L ! i) = Pc_lease l \<Longrightarrow>
    sub_transfer l new_owner = Inr l' \<Longrightarrow> sub_step L (wupd i (\<lambda>w. w\<lparr>w_pc := Pc_lease l'\<rparr>) L)"
| Sub_mark: "i < length (wstore L) \<Longrightarrow> w_pc (wstore L ! i) = Pc_lease l \<Longrightarrow>
    sub_mark_no_commit notifies l = (l', effects) \<Longrightarrow> sub_step L (wupd i (\<lambda>w. w\<lparr>w_pc := Pc_lease l'\<rparr>) L)"
| Sub_return: "i < length (wstore L) \<Longrightarrow> w_pc (wstore L ! i) = Pc_lease l \<Longrightarrow>
    sub_worker_returned l = (l', effects) \<Longrightarrow> LimiterRelease p \<in> set effects \<Longrightarrow>
    sub_step L (wupd i (\<lambda>w. w\<lparr>w_pc := Pc_releasing\<rparr>) L)"
| Sub_release: "i < length (wstore L) \<Longrightarrow> w_pc (wstore L ! i) = Pc_releasing \<Longrightarrow>
    sub_release cx now (w_parent (wstore L ! i)) L = Some L' \<Longrightarrow>
    sub_step L (wupd i (\<lambda>w. w\<lparr>w_pc := Pc_end SubAcquired\<rparr>) L')"

inductive sub_reachable :: "nat \<Rightarrow> 'o SubLimiter \<Rightarrow> bool" for mx :: nat where
  sub_start: "NewSubLimiter mx = Some L \<Longrightarrow> sub_reachable mx L"
| sub_next: "sub_reachable mx L \<Longrightarrow> sub_step L L' \<Longrightarrow> sub_reachable mx L'"

section \<open>The invariant\<close>

definition swaiting :: "'o subWaiter \<Rightarrow> bool" where
  "swaiting w \<longleftrightarrow> w_pc w = Pc_wait \<and> w_outcome w = None"

definition sholds :: "'o subWaiter \<Rightarrow> bool" where
  "sholds w \<longleftrightarrow> w_pc w = Pc_wait \<and> w_outcome w = Some SubAcquired \<or> w_pc w = Pc_reserved \<or>
    (\<exists>l. w_pc w = Pc_lease l) \<or> w_pc w = Pc_releasing"

definition waiter_ok :: "'o subWaiter \<Rightarrow> bool" where
  "waiter_ok w \<longleftrightarrow> (w_pc w = Pc_wait \<longrightarrow> w_ready w = (w_outcome w \<noteq> None)) \<and>
    (\<forall>l. w_pc w = Pc_lease l \<longrightarrow> \<not> sl_returned l \<and> sl_limiter l \<and> sl_parent l = Some (w_parent w))"

definition sub_ok :: "nat \<Rightarrow> 'o SubLimiter \<Rightarrow> bool" where
  "sub_ok slack L \<longleftrightarrow>
    s_active L = length (filter sholds (wstore L)) \<and> s_active L \<le> s_max L \<and>
    sorted_wrt (<) (s_waiters L) \<and>
    (\<forall>i. i \<in> set (s_waiters L) \<longleftrightarrow> i < length (wstore L) \<and> swaiting (wstore L ! i)) \<and>
    (s_waiters L \<noteq> [] \<longrightarrow> s_max L \<le> s_active L + slack) \<and>
    (\<forall>p. p \<in> s_parents L \<longleftrightarrow> (\<exists>i < length (wstore L). w_parent (wstore L ! i) = p \<and>
      (swaiting (wstore L ! i) \<or> sholds (wstore L ! i)))) \<and>
    (\<forall>i < length (wstore L). \<forall>j < length (wstore L).
      (swaiting (wstore L ! i) \<or> sholds (wstore L ! i)) \<and> (swaiting (wstore L ! j) \<or> sholds (wstore L ! j)) \<and>
      w_parent (wstore L ! i) = w_parent (wstore L ! j) \<longrightarrow> i = j) \<and>
    (\<forall>i < length (wstore L). waiter_ok (wstore L ! i))"

lemma sub_okD:
  assumes "sub_ok k L"
  shows "s_active L = length (filter sholds (wstore L))" "s_active L \<le> s_max L"
    "sorted_wrt (<) (s_waiters L)"
    "\<And>j. j \<in> set (s_waiters L) \<longleftrightarrow> j < length (wstore L) \<and> swaiting (wstore L ! j)"
    "s_waiters L \<noteq> [] \<Longrightarrow> s_max L \<le> s_active L + k"
    "\<And>p. p \<in> s_parents L \<longleftrightarrow> (\<exists>j < length (wstore L). w_parent (wstore L ! j) = p \<and>
      (swaiting (wstore L ! j) \<or> sholds (wstore L ! j)))"
    "\<And>a b. a < length (wstore L) \<Longrightarrow> b < length (wstore L) \<Longrightarrow> swaiting (wstore L ! a) \<or> sholds (wstore L ! a) \<Longrightarrow>
      swaiting (wstore L ! b) \<or> sholds (wstore L ! b) \<Longrightarrow> w_parent (wstore L ! a) = w_parent (wstore L ! b) \<Longrightarrow> a = b"
    "\<And>j. j < length (wstore L) \<Longrightarrow> waiter_ok (wstore L ! j)"
  using assms unfolding sub_ok_def by blast+

lemma not_both: "swaiting w \<Longrightarrow> \<not> sholds w"
  by (auto simp: swaiting_def sholds_def)

text \<open>The three ways a waiter changes: it stays in its class, it leaves, or it gets a slot.\<close>

lemma sub_ok_same:
  assumes ok: "sub_ok k L" and i: "i < length (wstore L)"
    and w: "w_parent w = w_parent (wstore L ! i)" "swaiting w \<longleftrightarrow> swaiting (wstore L ! i)"
      "sholds w \<longleftrightarrow> sholds (wstore L ! i)" "waiter_ok w"
  shows "sub_ok k (L\<lparr>wstore := (wstore L)[i := w]\<rparr>)"
proof -
  let ?s = "(wstore L)[i := w]"
  have cnt: "length (filter sholds ?s) = length (filter sholds (wstore L))"
    using length_filter_update [OF i, of sholds w] w(3) by (auto split: if_splits)
  have e: "w_parent (?s ! j) = w_parent (wstore L ! j) \<and> swaiting (?s ! j) = swaiting (wstore L ! j) \<and>
      sholds (?s ! j) = sholds (wstore L ! j) \<and> (waiter_ok (wstore L ! j) \<longrightarrow> waiter_ok (?s ! j))"
    if "j < length (wstore L)" for j
    using that w by (cases "j = i") auto
  show ?thesis using ok unfolding sub_ok_def by (simp add: cnt e cong: conj_cong)
qed

lemma sub_ok_leave:
  assumes ok: "sub_ok k L" and i: "i < length (wstore L)"
    and live: "swaiting (wstore L ! i) \<or> sholds (wstore L ! i)"
    and w: "w_parent w = w_parent (wstore L ! i)" "\<not> swaiting w" "\<not> sholds w" "waiter_ok w"
    and L': "wstore L' = (wstore L)[i := w]" "s_waiters L' = filter (\<lambda>j. j \<noteq> i) (s_waiters L)"
      "s_parents L' = s_parents L - {w_parent (wstore L ! i)}"
      "s_active L' = s_active L - (if sholds (wstore L ! i) then 1 else 0)" "s_max L' = s_max L"
  shows "sub_ok (k + (if sholds (wstore L ! i) then 1 else 0)) L'"
proof -
  let ?s = "(wstore L)[i := w]"
  let ?live = "\<lambda>w. swaiting w \<or> sholds w"
  have old: "s_active L = length (filter sholds (wstore L))" "s_active L \<le> s_max L"
    "sorted_wrt (<) (s_waiters L)"
    "\<And>j. j \<in> set (s_waiters L) \<longleftrightarrow> j < length (wstore L) \<and> swaiting (wstore L ! j)"
    "s_waiters L \<noteq> [] \<Longrightarrow> s_max L \<le> s_active L + k"
    "\<And>p. p \<in> s_parents L \<longleftrightarrow> (\<exists>j < length (wstore L). w_parent (wstore L ! j) = p \<and> ?live (wstore L ! j))"
    "\<And>a b. a < length (wstore L) \<Longrightarrow> b < length (wstore L) \<Longrightarrow> ?live (wstore L ! a) \<Longrightarrow> ?live (wstore L ! b) \<Longrightarrow>
      w_parent (wstore L ! a) = w_parent (wstore L ! b) \<Longrightarrow> a = b"
    "\<And>j. j < length (wstore L) \<Longrightarrow> waiter_ok (wstore L ! j)"
    using sub_okD [OF ok] by blast+
  have cnt: "length (filter sholds ?s) = s_active L - (if sholds (wstore L ! i) then 1 else 0)"
    using length_filter_update [OF i, of sholds w] w(3) old(1) by (auto split: if_splits)
  have pos: "0 < s_active L" if "sholds (wstore L ! i)"
    using that i old(1) by (auto simp: filter_empty_conv)
  have live': "?live (?s ! j) \<longleftrightarrow> j \<noteq> i \<and> ?live (wstore L ! j)" if "j < length (wstore L)" for j
    using that w by (cases "j = i") auto
  have par: "w_parent (?s ! j) = w_parent (wstore L ! j)" if "j < length (wstore L)" for j
    using that w by (cases "j = i") auto
  have wok: "waiter_ok (?s ! j)" if "j < length (wstore L)" for j
    using that w old(8) by (cases "j = i") auto
  have q: "j \<in> set (filter (\<lambda>j. j \<noteq> i) (s_waiters L)) \<longleftrightarrow> j < length ?s \<and> swaiting (?s ! j)" for j
    using old(4) [of j] w(2) by (cases "j = i") auto
  have ps: "p \<in> s_parents L - {w_parent (wstore L ! i)} \<longleftrightarrow>
      (\<exists>j < length ?s. w_parent (?s ! j) = p \<and> ?live (?s ! j))" for p
  proof
    assume p: "p \<in> s_parents L - {w_parent (wstore L ! i)}"
    then obtain j where "j < length (wstore L)" "w_parent (wstore L ! j) = p" "?live (wstore L ! j)"
      using old(6) by blast
    then show "\<exists>j < length ?s. w_parent (?s ! j) = p \<and> ?live (?s ! j)"
      using p live' par by (intro exI [of _ j]) auto
  next
    assume "\<exists>j < length ?s. w_parent (?s ! j) = p \<and> ?live (?s ! j)"
    then obtain j where j: "j < length (wstore L)" "w_parent (?s ! j) = p" "?live (?s ! j)"
      unfolding length_list_update by blast
    then have "j \<noteq> i" "?live (wstore L ! j)" "w_parent (wstore L ! j) = p" using live' par by simp_all
    then show "p \<in> s_parents L - {w_parent (wstore L ! i)}"
      using old(6) old(7) [OF j(1) i _ live] j(1) by blast
  qed
  have uniq: "a = b" if "a < length ?s" "b < length ?s" "?live (?s ! a)" "?live (?s ! b)"
      "w_parent (?s ! a) = w_parent (?s ! b)" for a b
    using that live' par old(7) [of a b] by simp
  have ne: "filter (\<lambda>j. j \<noteq> i) (s_waiters L) \<noteq> [] \<Longrightarrow> s_max L \<le> s_active L + k"
    using old(5) by (cases "s_waiters L") auto
  show ?thesis
    unfolding sub_ok_def L'
  proof (intro conjI allI impI)
    show "s_active L - (if sholds (wstore L ! i) then 1 else 0) = length (filter sholds ?s)" using cnt by simp
    show "s_active L - (if sholds (wstore L ! i) then 1 else 0) \<le> s_max L" using old(2) by simp
    show "sorted_wrt (<) (filter (\<lambda>j. j \<noteq> i) (s_waiters L))" using old(3) by (rule sorted_filter)
    show "s_max L \<le> s_active L - (if sholds (wstore L ! i) then 1 else 0) +
        (k + (if sholds (wstore L ! i) then 1 else 0))" if "filter (\<lambda>j. j \<noteq> i) (s_waiters L) \<noteq> []"
      using ne [OF that] pos by auto
    show "j \<in> set (filter (\<lambda>j. j \<noteq> i) (s_waiters L)) \<longleftrightarrow> j < length ?s \<and> swaiting (?s ! j)" for j by (rule q)
    show "p \<in> s_parents L - {w_parent (wstore L ! i)} \<longleftrightarrow>
      (\<exists>j < length ?s. w_parent (?s ! j) = p \<and> ?live (?s ! j))" for p by (rule ps)
    show "waiter_ok (?s ! j)" if "j < length ?s" for j using that wok by simp
  qed (use uniq in blast)
qed

lemma sub_ok_grant:
  assumes ok: "sub_ok k L" and k: "k \<le> 1" and q: "s_waiters L = i # rest" and room: "s_active L < s_max L"
    and w: "w_parent w = w_parent (wstore L ! i)" "sholds w" "waiter_ok w"
    and L': "wstore L' = (wstore L)[i := w]" "s_waiters L' = rest" "s_parents L' = s_parents L"
      "s_active L' = s_active L + 1" "s_max L' = s_max L"
  shows "sub_ok 0 L'"
proof -
  let ?s = "(wstore L)[i := w]"
  let ?live = "\<lambda>w. swaiting w \<or> sholds w"
  have old: "s_active L = length (filter sholds (wstore L))"
    "sorted_wrt (<) (i # rest)"
    "\<And>j. j \<in> set (i # rest) \<longleftrightarrow> j < length (wstore L) \<and> swaiting (wstore L ! j)"
    "s_max L \<le> s_active L + k"
    "\<And>p. p \<in> s_parents L \<longleftrightarrow> (\<exists>j < length (wstore L). w_parent (wstore L ! j) = p \<and> ?live (wstore L ! j))"
    "\<And>a b. a < length (wstore L) \<Longrightarrow> b < length (wstore L) \<Longrightarrow> ?live (wstore L ! a) \<Longrightarrow> ?live (wstore L ! b) \<Longrightarrow>
      w_parent (wstore L ! a) = w_parent (wstore L ! b) \<Longrightarrow> a = b"
    "\<And>j. j < length (wstore L) \<Longrightarrow> waiter_ok (wstore L ! j)"
    using sub_okD [OF ok, unfolded q] by simp_all
  have i: "i < length (wstore L)" "swaiting (wstore L ! i)" using old(3) [of i] by auto
  have nw: "\<not> swaiting w" using w(2) not_both by blast
  have nh: "\<not> sholds (wstore L ! i)" using i(2) not_both by blast
  have ni: "i \<notin> set rest" using old(2) by auto
  have cnt: "length (filter sholds ?s) = s_active L + 1"
    using length_filter_update [OF i(1), of sholds w] w(2) nh old(1) by simp
  have live': "?live (?s ! j) \<longleftrightarrow> ?live (wstore L ! j)" if "j < length (wstore L)" for j
    using that w i(2) by (cases "j = i") auto
  have par: "w_parent (?s ! j) = w_parent (wstore L ! j)" if "j < length (wstore L)" for j
    using that w by (cases "j = i") auto
  show ?thesis
    unfolding sub_ok_def L'
  proof (intro conjI allI impI)
    show "s_active L + 1 = length (filter sholds ?s)" using cnt by simp
    show "s_active L + 1 \<le> s_max L" using room by simp
    show "sorted_wrt (<) rest" using old(2) by simp
    show "s_max L \<le> s_active L + 1 + 0" using old(4) k by simp
    show "j \<in> set rest \<longleftrightarrow> j < length ?s \<and> swaiting (?s ! j)" for j
      using old(3) [of j] nw ni i(1) by (cases "j = i") auto
    show "p \<in> s_parents L \<longleftrightarrow> (\<exists>j < length ?s. w_parent (?s ! j) = p \<and> ?live (?s ! j))" for p
    proof -
      have "w_parent (?s ! j) = p \<and> ?live (?s ! j) \<longleftrightarrow> w_parent (wstore L ! j) = p \<and> ?live (wstore L ! j)"
        if "j < length (wstore L)" for j using live' [OF that] par [OF that] by simp
      then show ?thesis unfolding old(5) length_list_update by blast
    qed
    show "waiter_ok (?s ! j)" if "j < length ?s" for j
      using that w(3) old(7) by (cases "j = i") auto
    show "a = b" if "a < length ?s" "b < length ?s"
      "?live (?s ! a) \<and> ?live (?s ! b) \<and> w_parent (?s ! a) = w_parent (?s ! b)" for a b
      using that live' par old(6) [of a b] by simp
  qed
qed

lemma promote_from_ok:
  "sub_ok k L \<Longrightarrow> k \<le> 1 \<Longrightarrow> s_waiters L = q \<Longrightarrow>
    sub_ok 0 (promote_from cx now q L) \<and> s_max (promote_from cx now q L) = s_max L \<and>
    length (wstore (promote_from cx now q L)) = length (wstore L) \<and>
    (\<forall>i. i \<notin> set q \<longrightarrow> wstore (promote_from cx now q L) ! i = wstore L ! i)"
proof (induction q arbitrary: L)
  case Nil
  then show ?case by (simp add: sub_ok_def)
next
  case (Cons i rest)
  show ?case
  proof (cases "s_active L < s_max L")
    case False
    then have "sub_ok 0 L" using Cons.prems unfolding sub_ok_def by auto
    then show ?thesis using False by simp
  next
    case True
    have i: "i < length (wstore L)" "swaiting (wstore L ! i)" and srt: "sorted_wrt (<) (i # rest)"
      using Cons.prems(1,3) unfolding sub_ok_def by auto
    have wk: "waiter_ok (wstore L ! i)" using Cons.prems(1) i(1) unfolding sub_ok_def by blast
    have rest: "filter (\<lambda>j. j \<noteq> i) (i # rest) = rest" using srt by (auto intro!: filter_True)
    have nh: "\<not> sholds (wstore L ! i)" using i(2) not_both by blast
    show ?thesis
    proof (cases "subAcquireTerminal (cx i) (w_deadline (wstore L ! i)) now")
      case None
      let ?w = "(wstore L ! i)\<lparr>w_outcome := Some SubAcquired, w_ready := True\<rparr>"
      have "sub_ok 0 (L\<lparr>s_waiters := rest, s_active := s_active L + 1, wstore := (wstore L)[i := ?w]\<rparr>)"
        by (rule sub_ok_grant [OF Cons.prems(1,2,3) True, where w = ?w])
          (use i(2) wk in \<open>auto simp: sholds_def swaiting_def waiter_ok_def\<close>)
      then show ?thesis using None True by simp
    next
      case (Some oc)
      have oc: "oc \<noteq> SubAcquired" using Some by (auto simp: subAcquireTerminal_def split: if_splits ctx_state.splits)
      let ?w = "(wstore L ! i)\<lparr>w_outcome := Some oc, w_ready := True\<rparr>"
      let ?L = "L\<lparr>s_waiters := rest, s_parents := s_parents L - {w_parent (wstore L ! i)},
        wstore := (wstore L)[i := ?w]\<rparr>"
      have "sub_ok (k + (if sholds (wstore L ! i) then 1 else 0)) ?L"
        by (rule sub_ok_leave [OF Cons.prems(1) i(1), where w = ?w])
          (use i(2) wk oc rest nh Cons.prems(3) in \<open>auto simp: sholds_def swaiting_def waiter_ok_def\<close>)
      then have "sub_ok k ?L" using nh by simp
      from Cons.IH [OF this Cons.prems(2)] show ?thesis using Some True by simp
    qed
  qed
qed

lemma sub_release_ok:
  assumes ok: "sub_ok 0 L" and i: "i < length (wstore L)" "w_pc (wstore L ! i) = Pc_releasing"
  shows "\<exists>L'. sub_release cx now (w_parent (wstore L ! i)) L = Some L' \<and>
    sub_ok 0 (wupd i (\<lambda>w. w\<lparr>w_pc := Pc_end SubAcquired\<rparr>) L') \<and> s_max L' = s_max L"
proof -
  let ?p = "w_parent (wstore L ! i)"
  let ?w = "(wstore L ! i)\<lparr>w_pc := Pc_end SubAcquired\<rparr>"
  let ?L0 = "L\<lparr>s_parents := s_parents L - {?p}, s_active := s_active L - 1\<rparr>"
  let ?L1 = "?L0\<lparr>wstore := (wstore L)[i := ?w]\<rparr>"
  have h: "sholds (wstore L ! i)" using i(2) by (simp add: sholds_def)
  have nq: "i \<notin> set (s_waiters L)" using ok h not_both unfolding sub_ok_def by blast
  have a: "s_active L \<noteq> 0" using ok i(1) h unfolding sub_ok_def by (auto simp: filter_empty_conv)
  have pin: "?p \<in> s_parents L" using ok i(1) h unfolding sub_ok_def by blast
  have nf: "filter (\<lambda>j. j \<noteq> i) (s_waiters L) = s_waiters L" using nq by (auto intro!: filter_True)
  have "sub_ok (0 + (if sholds (wstore L ! i) then 1 else 0)) ?L1"
    by (rule sub_ok_leave [OF ok i(1), where w = ?w])
      (use h nf in \<open>auto simp: sholds_def swaiting_def waiter_ok_def\<close>)
  then have ok1: "sub_ok 1 ?L1" using h by simp
  have same: "promote_from cx now q (M\<lparr>wstore := (wstore M)[i := ?w]\<rparr>) =
      (promote_from cx now q M)\<lparr>wstore := (wstore (promote_from cx now q M))[i := ?w]\<rparr> \<and>
      wstore (promote_from cx now q M) ! i = wstore M ! i"
    if "i \<notin> set q" for q M
    using that
  proof (induction q arbitrary: M)
    case (Cons j q)
    then have ji: "i \<noteq> j" "i \<notin> set q" by auto
    note sw = list_update_swap [OF ji(1)]
    let ?M = "\<lambda>oc. M\<lparr>s_waiters := q, s_parents := s_parents M - {w_parent (wstore M ! j)},
      wstore := (wstore M)[j := (wstore M ! j)\<lparr>w_outcome := Some oc, w_ready := True\<rparr>]\<rparr>"
    have IH: "promote_from cx now q ((?M oc)\<lparr>wstore := (wstore (?M oc))[i := ?w]\<rparr>) =
        (promote_from cx now q (?M oc))\<lparr>wstore := (wstore (promote_from cx now q (?M oc)))[i := ?w]\<rparr>"
      "wstore (promote_from cx now q (?M oc)) ! i = wstore (?M oc) ! i" for oc
      using Cons.IH [OF ji(2), of "?M oc"] by blast+
    show ?case
      using ji IH by (cases "subAcquireTerminal (cx j) (w_deadline (wstore M ! j)) now") (simp_all add: sw)
  qed simp
  let ?L' = "promote_from cx now (s_waiters L) ?L0"
  have "sub_release cx now ?p L = Some ?L'"
    using a pin by (simp add: sub_release_def sub_promoteHead_def)
  moreover have "promote_from cx now (s_waiters L) ?L1 = wupd i (\<lambda>w. w\<lparr>w_pc := Pc_end SubAcquired\<rparr>) ?L'"
    using same [OF nq, of ?L0] by simp
  then have "sub_ok 0 (wupd i (\<lambda>w. w\<lparr>w_pc := Pc_end SubAcquired\<rparr>) ?L')" "s_max ?L' = s_max L"
    using promote_from_ok [OF ok1, of "s_waiters L" cx now] by auto
  ultimately show ?thesis by blast
qed

lemma ex_nth_snoc: "(\<exists>j < length (xs @ [x]). P ((xs @ [x]) ! j)) \<longleftrightarrow> P x \<or> (\<exists>j < length xs. P (xs ! j))"
proof -
  have "(\<exists>y \<in> set ys. P y) \<longleftrightarrow> (\<exists>j < length ys. P (ys ! j))" for ys
    by (metis in_set_conv_nth)
  from this [of "xs @ [x]"] this [of xs] show ?thesis by auto
qed

lemma distinct_map_filter_nth:
  assumes "\<And>a b. a < length xs \<Longrightarrow> b < length xs \<Longrightarrow> P (xs ! a) \<Longrightarrow> P (xs ! b) \<Longrightarrow> f (xs ! a) = f (xs ! b) \<Longrightarrow> a = b"
  shows "distinct (map f (filter P xs))"
  using assms
proof (induction xs)
  case (Cons x xs)
  have "distinct (map f (filter P xs))"
  proof (rule Cons.IH)
    fix a b assume "a < length xs" "b < length xs" "P (xs ! a)" "P (xs ! b)" "f (xs ! a) = f (xs ! b)"
    then show "a = b" using Cons.prems [of "Suc a" "Suc b"] by simp
  qed
  moreover have "f x \<noteq> f y" if y: "P x" "y \<in> set xs" "P y" for y
  proof
    assume e: "f x = f y"
    obtain b where "b < length xs" "xs ! b = y" using y(2) by (auto simp: in_set_conv_nth)
    then show False using Cons.prems [of 0 "Suc b"] y e by simp
  qed
  ultimately show ?case by auto
qed simp

lemma sub_ok_append:
  assumes ok: "sub_ok 0 L" and p: "w_parent w \<notin> s_parents L" and wok: "waiter_ok w"
    and cls: "sholds w \<and> s_waiters L = [] \<and> s_active L < s_max L \<or>
      swaiting w \<and> \<not> (s_active L < s_max L \<and> s_waiters L = [])"
    and L': "wstore L' = wstore L @ [w]" "s_parents L' = insert (w_parent w) (s_parents L)"
      "s_waiters L' = (if swaiting w then s_waiters L @ [length (wstore L)] else s_waiters L)"
      "s_active L' = (if swaiting w then s_active L else s_active L + 1)" "s_max L' = s_max L"
  shows "sub_ok 0 L'"
proof -
  let ?n = "length (wstore L)" and ?s = "wstore L @ [w]"
  let ?live = "\<lambda>w. swaiting w \<or> sholds w"
  note D = sub_okD [OF ok]
  have x: "swaiting w \<longleftrightarrow> \<not> sholds w" using cls not_both by blast
  have lw: "?live w" using cls by blast
  have at: "?s ! j = (if j = ?n then w else wstore L ! j)" if "j < Suc ?n" for j
    using that by (auto simp: nth_append)
  show ?thesis
    unfolding sub_ok_def L'
  proof (intro conjI allI impI)
    show "(if swaiting w then s_active L else s_active L + 1) = length (filter sholds ?s)"
      using D(1) x by simp
    show "(if swaiting w then s_active L else s_active L + 1) \<le> s_max L" using D(2) cls x by auto
    show "sorted_wrt (<) (if swaiting w then s_waiters L @ [?n] else s_waiters L)"
      using D(3,4) by (auto simp: sorted_wrt_append)
    show "j \<in> set (if swaiting w then s_waiters L @ [?n] else s_waiters L) \<longleftrightarrow>
        j < length ?s \<and> swaiting (?s ! j)" for j
      using D(4) [of j] by (auto simp: nth_append less_Suc_eq)
    show "s_max L \<le> (if swaiting w then s_active L else s_active L + 1) + 0"
      if "(if swaiting w then s_waiters L @ [?n] else s_waiters L) \<noteq> []"
      using that cls x D(5) by (auto split: if_splits)
    show "p \<in> insert (w_parent w) (s_parents L) \<longleftrightarrow>
        (\<exists>j < length ?s. w_parent (?s ! j) = p \<and> ?live (?s ! j))" for p
    proof -
      have e: "(\<exists>j < length ?s. w_parent (?s ! j) = p \<and> ?live (?s ! j)) \<longleftrightarrow>
          w_parent w = p \<or> (\<exists>j < ?n. w_parent (wstore L ! j) = p \<and> ?live (wstore L ! j))"
        using lw ex_nth_snoc [of "wstore L" w "\<lambda>w. w_parent w = p \<and> ?live w"] by simp
      show ?thesis unfolding e insert_iff D(6) by blast
    qed
    show "waiter_ok (?s ! j)" if "j < length ?s" for j
      using that D(8) wok by (auto simp: nth_append less_Suc_eq)
    show "a = b" if ab: "a < length ?s" "b < length ?s"
      "?live (?s ! a) \<and> ?live (?s ! b) \<and> w_parent (?s ! a) = w_parent (?s ! b)" for a b
    proof -
      have fresh: "?live (wstore L ! j) \<Longrightarrow> j < ?n \<Longrightarrow> w_parent (wstore L ! j) \<noteq> w_parent w" for j
        using D(6) p by blast
      consider "a < ?n" "b < ?n" | "a = ?n" "b = ?n" | "a < ?n" "b = ?n" | "a = ?n" "b < ?n"
        using ab(1,2) by (auto simp: less_Suc_eq)
      then show ?thesis
      proof cases
        case 1
        then show ?thesis using ab(3) D(7) by (simp add: nth_append)
      next
        case 3
        then show ?thesis using ab(3) fresh [of a] by (simp add: nth_append)
      next
        case 4
        then show ?thesis using ab(3) fresh [of b] by (simp add: nth_append)
      qed simp
    qed
  qed
qed

lemma acquire_enter_ok:
  assumes ok: "sub_ok 0 L" and e: "acquire_enter a1 a2 cx now deadline parent L = Entered L'"
  shows "sub_ok 0 L' \<and> s_max L' = s_max L"
proof -
  let ?w = "\<lparr>w_parent = parent, w_deadline = deadline, w_ready = False, w_outcome = None, w_pc = Pc_wait\<rparr>
    :: 'a subWaiter"
  have p: "parent \<notin> s_parents L"
    using e by (auto simp: acquire_enter_def Let_def split: if_splits option.splits)
  have c1: "swaiting ?w" "sholds (?w\<lparr>w_pc := Pc_reserved\<rparr>)" "\<not> swaiting (?w\<lparr>w_pc := Pc_reserved\<rparr>)"
    "waiter_ok ?w" "waiter_ok (?w\<lparr>w_pc := Pc_reserved\<rparr>)"
    by (auto simp: swaiting_def sholds_def waiter_ok_def)
  show ?thesis
  proof (cases "s_active L < s_max L \<and> s_waiters L = []")
    case True
    then have L': "L' = L\<lparr>s_parents := insert parent (s_parents L), s_active := s_active L + 1,
        wstore := wstore L @ [?w\<lparr>w_pc := Pc_reserved\<rparr>]\<rparr>"
      using e by (auto simp: acquire_enter_def Let_def split: if_splits option.splits)
    have "sub_ok 0 L'"
      by (rule sub_ok_append [OF ok, where w = "?w\<lparr>w_pc := Pc_reserved\<rparr>"]) (use True p c1 L' in simp_all)
    then show ?thesis by (simp add: L')
  next
    case False
    then have L': "L' = L\<lparr>s_parents := insert parent (s_parents L),
        s_waiters := s_waiters L @ [length (wstore L)], wstore := wstore L @ [?w]\<rparr>"
      using e by (auto simp: acquire_enter_def Let_def split: if_splits option.splits)
    have "sub_ok 0 L'"
      by (rule sub_ok_append [OF ok, where w = ?w]) (use False p c1 L' in simp_all)
    then show ?thesis by (simp add: L')
  qed
qed

lemma finishReserved_lease:
  assumes "finishReserved cx deadline now allowed parent = (l, effects, oc)"
  shows "oc = SubAcquired \<longleftrightarrow> \<not> sl_returned l" "oc = SubAcquired \<Longrightarrow> sl_limiter l \<and> sl_parent l = Some parent"
    "oc \<noteq> SubAcquired \<Longrightarrow> effects = [LimiterRelease parent]"
  using assms
  by (auto simp: finishReserved_def sub_worker_returned_def subAcquireTerminal_def Let_def
      split: option.splits if_splits ctx_state.splits)

lemma sub_step_ok: "sub_step L L' \<Longrightarrow> sub_ok 0 L \<Longrightarrow> sub_ok 0 L' \<and> s_max L' = s_max L"
proof (induction rule: sub_step.induct)
  case (Sub_enter a1 a2 cx now deadline parent L L')
  then show ?case using acquire_enter_ok by blast
next
  case (Sub_give_up i L oc)
  show ?case
  proof (cases "w_outcome (wstore L ! i)")
    case None
    have wt: "swaiting (wstore L ! i)" using Sub_give_up None by (simp add: swaiting_def)
    then have nh: "\<not> sholds (wstore L ! i)" by (rule not_both)
    have wk: "waiter_ok (wstore L ! i)" using sub_okD(8) [OF Sub_give_up.prems Sub_give_up.hyps(1)] .
    let ?w = "(wstore L ! i)\<lparr>w_outcome := Some oc, w_ready := True\<rparr>"
    have "sub_ok (0 + (if sholds (wstore L ! i) then 1 else 0)) (terminalizeWaiter i oc L)"
      by (rule sub_ok_leave [OF Sub_give_up.prems Sub_give_up.hyps(1), where w = ?w])
        (use wt nh wk None Sub_give_up.hyps in
          \<open>auto simp: terminalizeWaiter_def sholds_def swaiting_def waiter_ok_def\<close>)
    then show ?thesis using nh by (simp add: terminalizeWaiter_def)
  qed (use Sub_give_up.prems in \<open>simp add: terminalizeWaiter_def\<close>)
next
  case (Sub_wake i L oc)
  have "sub_ok 0 (L\<lparr>wstore := (wstore L)[i := (wstore L ! i)\<lparr>w_pc := (if oc = SubAcquired then Pc_reserved else Pc_end oc)\<rparr>]\<rparr>)"
    by (rule sub_ok_same [OF Sub_wake.prems Sub_wake.hyps(1)])
      (use Sub_wake.hyps in \<open>auto simp: sholds_def swaiting_def waiter_ok_def\<close>)
  then show ?case by simp
next
  case (Sub_finish i L cx now allowed l effects oc)
  have "sub_ok 0 (L\<lparr>wstore := (wstore L)[i := (wstore L ! i)\<lparr>w_pc := (if oc = SubAcquired then Pc_lease l else Pc_releasing)\<rparr>]\<rparr>)"
    by (rule sub_ok_same [OF Sub_finish.prems Sub_finish.hyps(1)])
      (use Sub_finish.hyps(2) finishReserved_lease(1,2) [OF Sub_finish.hyps(3)] in
        \<open>auto simp: sholds_def swaiting_def waiter_ok_def\<close>)
  then show ?case by simp
next
  case (Sub_transfer i L l new_owner l')
  have wk: "waiter_ok (wstore L ! i)" using sub_okD(8) [OF Sub_transfer.prems Sub_transfer.hyps(1)] .
  have "sub_ok 0 (L\<lparr>wstore := (wstore L)[i := (wstore L ! i)\<lparr>w_pc := Pc_lease l'\<rparr>]\<rparr>)"
    by (rule sub_ok_same [OF Sub_transfer.prems Sub_transfer.hyps(1)])
      (use Sub_transfer.hyps(2,3) wk in
        \<open>auto simp: sholds_def swaiting_def waiter_ok_def sub_transfer_def split: option.splits if_splits\<close>)
  then show ?case by simp
next
  case (Sub_mark i L l notifies l' effects)
  have wk: "waiter_ok (wstore L ! i)" using sub_okD(8) [OF Sub_mark.prems Sub_mark.hyps(1)] .
  have "sub_ok 0 (L\<lparr>wstore := (wstore L)[i := (wstore L ! i)\<lparr>w_pc := Pc_lease l'\<rparr>]\<rparr>)"
    by (rule sub_ok_same [OF Sub_mark.prems Sub_mark.hyps(1)])
      (use Sub_mark.hyps(2,3) wk in
        \<open>auto simp: sholds_def swaiting_def waiter_ok_def sub_mark_no_commit_def split: if_splits\<close>)
  then show ?case by simp
next
  case (Sub_return i L l l' effects p)
  have "sub_ok 0 (L\<lparr>wstore := (wstore L)[i := (wstore L ! i)\<lparr>w_pc := Pc_releasing\<rparr>]\<rparr>)"
    by (rule sub_ok_same [OF Sub_return.prems Sub_return.hyps(1)])
      (use Sub_return.hyps(2) in \<open>auto simp: sholds_def swaiting_def waiter_ok_def\<close>)
  then show ?case by simp
next
  case (Sub_release i L cx now L')
  then show ?case using sub_release_ok [of L i cx now] by auto
qed

lemma sub_reachable_ok: "sub_reachable mx L \<Longrightarrow> sub_ok 0 L \<and> s_max L = mx"
proof (induction rule: sub_reachable.induct)
  case (sub_start L)
  then show ?case by (auto simp: NewSubLimiter_def sub_ok_def split: if_splits)
next
  case (sub_next L L')
  then show ?case using sub_step_ok by blast
qed

section \<open>A concrete run\<close>

text \<open>Capacity one: the first call works and releases, the second waits in the queue.\<close>

definition demo_limiter :: "nat SubLimiter" where
  "demo_limiter = \<lparr>s_max = 1, s_active = 1, s_waiters = [1], s_parents = {7, 8},
    wstore = [\<lparr>w_parent = 7, w_deadline = 100, w_ready = False, w_outcome = None, w_pc = Pc_releasing\<rparr>,
              \<lparr>w_parent = 8, w_deadline = 100, w_ready = False, w_outcome = None, w_pc = Pc_wait\<rparr>]\<rparr>"

lemma demo_limiter_reachable: "sub_reachable 1 demo_limiter"
proof -
  note defs = acquire_enter_def subAcquireTerminal_def finishReserved_def sub_worker_returned_def Let_def
  let ?L0 = "\<lparr>s_max = 1, s_active = 0, s_waiters = [], s_parents = {}, wstore = []\<rparr> :: nat SubLimiter"
  let ?a = "\<lparr>w_parent = 7, w_deadline = 100, w_ready = False, w_outcome = None, w_pc = Pc_reserved\<rparr> :: nat subWaiter"
  let ?b = "\<lparr>w_parent = 8, w_deadline = 100, w_ready = False, w_outcome = None, w_pc = Pc_wait\<rparr> :: nat subWaiter"
  let ?L1 = "?L0\<lparr>s_active := 1, s_parents := {7}, wstore := [?a]\<rparr>"
  let ?L2 = "?L1\<lparr>s_waiters := [1], s_parents := {7, 8}, wstore := [?a, ?b]\<rparr>"
  have "sub_reachable 1 ?L0" by (rule sub_start) (simp add: NewSubLimiter_def)
  moreover have "sub_step ?L0 ?L1"
    by (rule Sub_enter [of True True CtxLive 0 100 7]) (simp add: defs)
  ultimately have "sub_reachable 1 ?L1" by (rule sub_next)
  moreover have "sub_step ?L1 ?L2"
    by (rule Sub_enter [of True True CtxLive 0 100 8]) (simp add: defs insert_commute)
  ultimately have "sub_reachable 1 ?L2" by (rule sub_next)
  moreover have "sub_step ?L2 demo_limiter"
    using Sub_finish [of 0 ?L2 CtxLive 200 True "\<lparr>sl_limiter = False, sl_parent = None, sl_owner = None,
        sl_noCommit = False, sl_returned = True\<rparr>" "[LimiterRelease 7]" SubDeadlineExceeded]
    by (simp add: defs demo_limiter_def)
  ultimately show ?thesis by (rule sub_next)
qed

section \<open>Properties\<close>



text \<open>C22. The release that follows the return of a sub-lease never panics: the limiter is active and
  knows the parent.\<close>

theorem sub_release_total:
  assumes "sub_reachable mx L" "i < length (wstore L)" "w_pc (wstore L ! i) = Pc_releasing"
  shows "sub_release cx now (w_parent (wstore L ! i)) L \<noteq> None"
  using sub_release_ok [OF _ assms(2,3), of cx now] sub_reachable_ok [OF assms(1)] by auto

theorem sub_release_total_witness: "sub_release (\<lambda>_. CtxLive) 50 7 demo_limiter \<noteq> None"
  using sub_release_total [OF demo_limiter_reachable, of 0 "\<lambda>_. CtxLive" 50] by (simp add: demo_limiter_def)

end
