(* ===== verification/Api.thy ===== *)
theory Api
  imports GoStd
begin

text \<open>
  The closed vocabularies and the result type of \<open>src/internal/api\<close> (\<open>codes.go\<close>, \<open>tool.go\<close>,
  \<open>result.go\<close>): error and warning codes, languages, symbol kinds, tool names and the
  single-channel tool result with its validation.
\<close>

section \<open>Closed vocabularies\<close>

type_synonym ErrorCode = bytes

definition OrderedErrorCodes :: "ErrorCode list" where
  "OrderedErrorCodes =
    [''invalid_input'', ''cwd_unknown'', ''path_outside_cwd'', ''not_found'', ''binary'',
     ''unsupported_encoding'', ''unsupported_language'', ''record_exceeds_budget'',
     ''cursor_expired'', ''cursor_wrong_tool'', ''cursor_wrong_cwd'', ''budget_exceeded'',
     ''permission_denied'', ''io_error'', ''parser_failed'']"

definition ErrorCode_Valid :: "ErrorCode \<Rightarrow> bool" where
  "ErrorCode_Valid code \<longleftrightarrow>
    code \<in> set
    [''invalid_input'', ''cwd_unknown'', ''path_outside_cwd'', ''not_found'', ''binary'',
     ''unsupported_encoding'', ''unsupported_language'', ''record_exceeds_budget'',
     ''cursor_expired'', ''cursor_wrong_tool'', ''cursor_wrong_cwd'', ''budget_exceeded'',
     ''permission_denied'', ''io_error'', ''parser_failed'']"

type_synonym WarningCode = bytes

definition OrderedWarningCodes :: "WarningCode list" where
  "OrderedWarningCodes =
    [''binary_skipped'', ''parser_partial'', ''parser_skipped'',
     ''path_encoding_unsupported'', ''special_file_skipped'', ''unreadable_skipped'',
     ''unsupported_encoding_skipped'', ''source_changed_skipped'', ''symlink_skipped'',
     ''mount_skipped'', ''unaddressable_path_skipped'']"

definition WarningCode_Valid :: "WarningCode \<Rightarrow> bool" where
  "WarningCode_Valid code \<longleftrightarrow>
    code \<in> set
    [''binary_skipped'', ''parser_partial'', ''parser_skipped'',
     ''path_encoding_unsupported'', ''special_file_skipped'', ''unreadable_skipped'',
     ''unsupported_encoding_skipped'', ''source_changed_skipped'', ''symlink_skipped'',
     ''mount_skipped'', ''unaddressable_path_skipped'']"

type_synonym Language = bytes

definition OrderedLanguages :: "Language list" where
  "OrderedLanguages =
    [''markdown'', ''go'', ''javascript'', ''jsx'', ''typescript'', ''tsx'', ''python'',
     ''java'', ''rust'', ''c'', ''cpp'', ''csharp'', ''ruby'', ''kotlin'', ''swift'',
     ''bash'', ''json'', ''yaml'', ''svelte'']"

definition Language_Valid :: "Language \<Rightarrow> bool" where
  "Language_Valid code \<longleftrightarrow>
    code \<in> set
    [''markdown'', ''go'', ''javascript'', ''jsx'', ''typescript'', ''tsx'', ''python'',
     ''java'', ''rust'', ''c'', ''cpp'', ''csharp'', ''ruby'', ''kotlin'', ''swift'',
     ''bash'', ''json'', ''yaml'', ''svelte'']"

type_synonym Kind = bytes

definition OrderedKinds :: "Kind list" where
  "OrderedKinds =
    [''package'', ''module'', ''namespace'', ''class'', ''interface'', ''struct'', ''enum'',
     ''trait'', ''type'', ''constant'', ''variable'', ''field'', ''property'', ''function'',
     ''method'', ''constructor'', ''object'', ''component'', ''section'', ''other'']"

definition Kind_Valid :: "Kind \<Rightarrow> bool" where
  "Kind_Valid code \<longleftrightarrow>
    code \<in> set
    [''package'', ''module'', ''namespace'', ''class'', ''interface'', ''struct'', ''enum'',
     ''trait'', ''type'', ''constant'', ''variable'', ''field'', ''property'', ''function'',
     ''method'', ''constructor'', ''object'', ''component'', ''section'', ''other'']"

type_synonym ToolName = bytes

definition OrderedToolNames :: "ToolName list" where
  "OrderedToolNames = [''set_cwd'', ''project'', ''search'', ''read'']"

definition ToolName_Valid :: "ToolName \<Rightarrow> bool" where
  "ToolName_Valid name \<longleftrightarrow> name \<in> set [''set_cwd'', ''project'', ''search'', ''read'']"

text \<open>A call owns a copy of its argument bytes.\<close>

record Call =
  call_name :: ToolName
  call_arguments :: bytes

definition NewCall :: "ToolName \<Rightarrow> bytes \<Rightarrow> Call" where
  "NewCall name rawArguments = \<lparr>call_name = name, call_arguments = rawArguments\<rparr>"

section \<open>Results\<close>

definition maxCWDID :: nat where
  "maxCWDID = 2 ^ 53 - 1"

text \<open>\<open>KindNone\<close> is the zero value of Go's \<open>ResultKind\<close>.\<close>

datatype ResultKind = KindNone | ResultText | ResultCWD

record Result =
  r_kind :: ResultKind
  r_text :: bytes
  r_cwdID :: uint64
  r_isError :: bool

definition Navigation :: "bytes \<Rightarrow> bool \<Rightarrow> Result" where
  "Navigation txt isError = \<lparr>r_kind = ResultText, r_text = txt, r_cwdID = 0, r_isError = isError\<rparr>"

definition SetCWD :: "uint64 \<Rightarrow> Result" where
  "SetCWD cwdID = \<lparr>r_kind = ResultCWD, r_text = [], r_cwdID = cwdID, r_isError = False\<rparr>"

definition Result_Text :: "Result \<Rightarrow> bytes option" where
  "Result_Text r = (if r_kind r \<noteq> ResultText then None else Some (r_text r))"

definition Result_CWDID :: "Result \<Rightarrow> uint64 option" where
  "Result_CWDID r = (if r_kind r \<noteq> ResultCWD then None else Some (r_cwdID r))"

abbreviation LF :: char where
  "LF \<equiv> CHR 0x0A"

definition has_suffix :: "bytes \<Rightarrow> bytes \<Rightarrow> bool" where
  "has_suffix s suf \<longleftrightarrow> length suf \<le> length s \<and> drop (length s - length suf) s = suf"

datatype result_error =
  TextEmpty | TextInvalidUTF8 | TextLacksLF | TextTrailingBlank | TextHasCWD | CWDHasText | CWDRange
  | CWDIsError | UnknownKind

definition Result_Validate :: "Result \<Rightarrow> result_error + unit" where
  "Result_Validate r =
    (case r_kind r of
       ResultText \<Rightarrow>
         if r_text r = [] then Inl TextEmpty
         else if \<not> ValidUTF8 (r_text r) then Inl TextInvalidUTF8
         else if \<not> has_suffix (r_text r) [LF] then Inl TextLacksLF
         else if has_suffix (r_text r) [LF, LF] then Inl TextTrailingBlank
         else if r_cwdID r \<noteq> 0 then Inl TextHasCWD
         else Inr ()
     | ResultCWD \<Rightarrow>
         if r_text r \<noteq> [] then Inl CWDHasText
         else if r_cwdID r = 0 \<or> unat (r_cwdID r) > maxCWDID then Inl CWDRange
         else if r_isError r then Inl CWDIsError
         else Inr ()
     | KindNone \<Rightarrow> Inl UnknownKind)"

lemma has_suffix_iff: "has_suffix s suf \<longleftrightarrow> (\<exists>p. s = p @ suf)"
  unfolding has_suffix_def
  by (metis append_eq_conv_conj append_take_drop_id diff_add_inverse2 le_add2 length_append)

section \<open>Properties\<close>


text \<open>C24. Validation accepts exactly two forms of result: a navigation text that is valid UTF-8 and ends
  in exactly one line feed, and a successful cwd registration with an id from 1 to \<open>2 ^ 53 - 1\<close>;
  nothing that fills both channels or neither passes.\<close>

theorem Result_Validate_exact:
  "Result_Validate r = Inr () \<longleftrightarrow>
    (\<exists>line isError. r = Navigation (line @ [LF]) isError \<and> ValidUTF8 (line @ [LF]) \<and>
      (line = [] \<or> last line \<noteq> LF)) \<or>
    (\<exists>cwdID. r = SetCWD cwdID \<and> 1 \<le> unat cwdID \<and> unat cwdID \<le> 2 ^ 53 - 1)"
proof -
  have sfx: "has_suffix t [LF] \<and> \<not> has_suffix t [LF, LF] \<longleftrightarrow>
      (\<exists>line. t = line @ [LF] \<and> (line = [] \<or> last line \<noteq> LF))" for t
  proof -
    have two: "(\<exists>p. line @ [LF] = p @ [LF, LF]) \<longleftrightarrow> line \<noteq> [] \<and> last line = LF" for line
    proof
      assume "\<exists>p. line @ [LF] = p @ [LF, LF]"
      then obtain p where "line @ [LF] = (p @ [LF]) @ [LF]" by auto
      then have "line = p @ [LF]" unfolding append1_eq_conv by simp
      then show "line \<noteq> [] \<and> last line = LF" by simp
    next
      assume "line \<noteq> [] \<and> last line = LF"
      then have "butlast line @ [LF] = line" using append_butlast_last_id [of line] by simp
      then have "line @ [LF] = butlast line @ [LF, LF]"
        using append_assoc [of "butlast line" "[LF]" "[LF]"] by simp
      then show "\<exists>p. line @ [LF] = p @ [LF, LF]" by blast
    qed
    show ?thesis
    proof (cases "has_suffix t [LF]")
      case True
      then obtain line where line: "t = line @ [LF]" unfolding has_suffix_iff by blast
      have "has_suffix t [LF, LF] \<longleftrightarrow> line \<noteq> [] \<and> last line = LF"
        unfolding has_suffix_iff line by (rule two)
      then show ?thesis using True line by auto
    qed (auto simp: has_suffix_iff)
  qed
  have z: "(cwdID :: uint64) = 0 \<longleftrightarrow> unat cwdID = 0" for cwdID by (simp add: unat_eq_0)
  show ?thesis
  proof (cases "r_kind r")
    case ResultText
    then have "Result_Validate r = Inr () \<longleftrightarrow> r_text r \<noteq> [] \<and> ValidUTF8 (r_text r) \<and>
        (has_suffix (r_text r) [LF] \<and> \<not> has_suffix (r_text r) [LF, LF]) \<and> r_cwdID r = 0"
      by (simp add: Result_Validate_def)
    then show ?thesis unfolding sfx
      using ResultText by (cases r) (auto simp: Navigation_def SetCWD_def)
  next
    case ResultCWD
    then show ?thesis
      by (cases r) (auto simp: Result_Validate_def Navigation_def SetCWD_def maxCWDID_def z)
  qed (auto simp: Result_Validate_def Navigation_def SetCWD_def)
qed

lemma Result_Validate_exact_witness:
  "Result_Validate (Navigation (''a'' @ [LF]) False) = Inr ()"
proof -
  have "\<exists>line isError. Navigation (''a'' @ [LF]) False = Navigation (line @ [LF]) isError \<and>
      ValidUTF8 (line @ [LF]) \<and> (line = [] \<or> last line \<noteq> LF)"
  proof -
    have "EncodeRune 97 @ EncodeRune 10 = ''a'' @ [LF]" by (simp add: EncodeRune_ascii byte_of_def) code_simp
    moreover have "ValidUTF8 (EncodeRune 97 @ EncodeRune 10)"
      using ValidUTF8_Encode [of 97 "EncodeRune 10"] ValidUTF8_Encode [of 10 "[]"] by (simp add: scalar_def)
    ultimately have "ValidUTF8 (''a'' @ [LF])" by simp
    then show ?thesis by (intro exI [of _ "''a''"] exI [of _ False]) simp
  qed
  then show ?thesis using Result_Validate_exact [of "Navigation (''a'' @ [LF]) False"] by blast
qed

end
