(* ===== verification/Transport.thy ===== *)
theory Transport
  imports JsonString Api
begin

text \<open>
  The line transport of \<open>src/internal/mcpstdio\<close>: response encoding (\<open>encode.go\<close>) and the frame reader
  (\<open>frame.go\<close>).  A frame is a line; the reader bounds its length.  The buffered reader of the Go
  library is modelled by \<open>ReadSlice\<close> over the bytes that are still to come, which end in end-of-file
  or in a read error.
\<close>

section \<open>Request ids and responses\<close>

record RequestID =
  rawJSON :: bytes
  semanticKey :: bytes

record protocolError =
  pe_code :: int
  pe_message :: bytes

definition protocolParseError :: protocolError where
  "protocolParseError = \<lparr>pe_code = -32700, pe_message = ''parse error''\<rparr>"

definition protocolInvalidRequest :: protocolError where
  "protocolInvalidRequest = \<lparr>pe_code = -32600, pe_message = ''invalid request''\<rparr>"

definition protocolMethodNotFound :: protocolError where
  "protocolMethodNotFound = \<lparr>pe_code = -32601, pe_message = ''method not found''\<rparr>"

definition protocolInvalidParams :: protocolError where
  "protocolInvalidParams = \<lparr>pe_code = -32602, pe_message = ''invalid params''\<rparr>"

definition protocolServerBusy :: protocolError where
  "protocolServerBusy = \<lparr>pe_code = -32000, pe_message = ''server busy''\<rparr>"

definition protocolSessionRequestLimit :: protocolError where
  "protocolSessionRequestLimit = \<lparr>pe_code = -32000, pe_message = ''session request limit exceeded''\<rparr>"

text \<open>Decimal text of a signed integer, as \<open>strconv.AppendInt\<close> writes it.\<close>

definition formatInt :: "int \<Rightarrow> bytes" where
  "formatInt n = (if n < 0 then ''-'' @ formatUint (nat (- n)) else formatUint (nat n))"

definition appendProtocolError :: "bytes \<Rightarrow> bytes \<Rightarrow> protocolError \<Rightarrow> bytes" where
  \<open>appendProtocolError dst rawID e =
    dst @ ''{"jsonrpc":"2.0","id":'' @ rawID @ '',"error":{"code":'' @ formatInt (pe_code e) @
    '',"message":'' @ appendJSONString [] (pe_message e) @ ''}}'' @ [LF]\<close>

definition encodeProtocolErrorNull :: "protocolError \<Rightarrow> bytes" where
  "encodeProtocolErrorNull e = appendProtocolError [] ''null'' e"

definition encodeProtocolError :: "RequestID \<Rightarrow> protocolError \<Rightarrow> bytes" where
  "encodeProtocolError i e = appendProtocolError [] (rawJSON i) e"

definition appendResultPrefix :: "bytes \<Rightarrow> RequestID \<Rightarrow> bytes" where
  \<open>appendResultPrefix dst i = dst @ ''{"jsonrpc":"2.0","id":'' @ rawJSON i @ '',"result":''\<close>

datatype encode_error =
  InvalidToolResult result_error | InaccessibleText | InaccessibleCWD | ResultKindUnknown | LacksRequestID
  | InvalidInitialize | CatalogError | LacksOutput | NoImmediateResponse

definition encodeToolResultPayload :: "Result \<Rightarrow> encode_error + bytes" where
  \<open>encodeToolResultPayload r =
    (case Result_Validate r of
       Inl e \<Rightarrow> Inl (InvalidToolResult e)
     | Inr _ \<Rightarrow>
         (case r_kind r of
            ResultText \<Rightarrow>
              (case Result_Text r of
                 None \<Rightarrow> Inl InaccessibleText
               | Some txt \<Rightarrow>
                   Inr (''{"content":[{"type":"text","text":'' @ appendJSONString [] txt @ ''}]'' @
                     (if r_isError r then '',"isError":true'' else []) @ ''}''))
          | ResultCWD \<Rightarrow>
              (case Result_CWDID r of
                 None \<Rightarrow> Inl InaccessibleCWD
               | Some cwdID \<Rightarrow>
                   Inr (''{"content":[{"type":"text","text":"cwd_id='' @ formatUint (unat cwdID) @
                     [CHR 0x5C] @ ''n"}],"structuredContent":{"cwd_id":'' @ formatUint (unat cwdID) @ ''}}''))
          | KindNone \<Rightarrow> Inl ResultKindUnknown))\<close>

definition encodeToolResult :: "RequestID \<Rightarrow> Result \<Rightarrow> encode_error + bytes" where
  "encodeToolResult i r =
    (if rawJSON i = [] then Inl LacksRequestID
     else case encodeToolResultPayload r of
       Inl e \<Rightarrow> Inl e
     | Inr payload \<Rightarrow> Inr (appendResultPrefix [] i @ payload @ ''}'' @ [LF]))"

section \<open>Reading frames\<close>

definition StdioFrameMaxBytes :: nat where
  "StdioFrameMaxBytes = 1048576"

definition frameReadBufferBytes :: nat where
  "frameReadBufferBytes = 4096"

datatype read_error = ErrNone | ErrBufferFull | ErrEOF | ErrOther

datatype frame_error = FrameTooLarge | UnterminatedFrame | ReadFailed

record frameReader =
  fr_input :: bytes
  fr_fails :: bool
  fr_done :: bool

definition ReadSlice :: "bool \<Rightarrow> bytes \<Rightarrow> bytes \<times> read_error \<times> bytes" where
  "ReadSlice fails input =
    (let buffered = take frameReadBufferBytes input in
     if LF \<in> set buffered
     then (takeWhile (\<lambda>c. c \<noteq> LF) input @ [LF], ErrNone, tl (dropWhile (\<lambda>c. c \<noteq> LF) input))
     else if frameReadBufferBytes \<le> length input
     then (buffered, ErrBufferFull, drop frameReadBufferBytes input)
     else (input, if fails then ErrOther else ErrEOF, []))"

datatype frame_exit = GotFrame bytes | NoFrame | FrameErr frame_error

text \<open>The loop of \<open>next\<close>: \<open>frame\<close> is what has been collected.\<close>

function frame_loop :: "bool \<Rightarrow> bytes \<Rightarrow> bytes \<Rightarrow> frame_exit \<times> bytes \<times> bool" where
  "frame_loop fails frame input =
    (let (fragment, err, rest) = ReadSlice fails input;
         delimited = (fragment \<noteq> [] \<and> last fragment = LF);
         fragment' = (if delimited then butlast fragment else fragment) in
     if length fragment' > StdioFrameMaxBytes - length frame then (FrameErr FrameTooLarge, rest, True)
     else
       let frame' = frame @ fragment' in
       if delimited then (GotFrame frame', rest, False)
       else case err of
         ErrNone \<Rightarrow> frame_loop fails frame' rest
       | ErrBufferFull \<Rightarrow> frame_loop fails frame' rest
       | ErrEOF \<Rightarrow> (if frame' = [] then NoFrame else FrameErr UnterminatedFrame, rest, True)
       | ErrOther \<Rightarrow> (FrameErr ReadFailed, rest, True))"
  by pat_completeness auto

lemma ReadSlice_full:
  "ReadSlice fails input = (fragment, ErrBufferFull, rest) \<Longrightarrow> length rest < length input"
  by (auto simp: ReadSlice_def frameReadBufferBytes_def Let_def split: if_splits)

lemma ReadSlice_none:
  "ReadSlice fails input = (fragment, ErrNone, rest) \<Longrightarrow> fragment \<noteq> [] \<and> last fragment = LF"
  by (auto simp: ReadSlice_def Let_def split: if_splits)

termination frame_loop
  by (relation "measure (\<lambda>(fails, frame, input). length input)")
    (auto dest!: sym [of _ "ReadSlice _ _"] dest: ReadSlice_full ReadSlice_none)

declare frame_loop.simps [simp del]

definition frame_next :: "frameReader \<Rightarrow> frame_exit \<times> frameReader" where
  "frame_next r =
    (if fr_done r then (NoFrame, r)
     else case frame_loop (fr_fails r) [] (fr_input r) of
       (result, rest, stop) \<Rightarrow> (result, r\<lparr>fr_input := rest, fr_done := stop\<rparr>))"

section \<open>What the reader returns\<close>

definition frame_spec :: "bool \<Rightarrow> bytes \<Rightarrow> frame_exit" where
  "frame_spec fails input =
    (let line = takeWhile (\<lambda>c. c \<noteq> LF) input in
     if length line > StdioFrameMaxBytes then FrameErr FrameTooLarge
     else if LF \<in> set input then GotFrame line
     else if fails then FrameErr ReadFailed
     else if line = [] then NoFrame else FrameErr UnterminatedFrame)"

lemma not_last: "c \<notin> set xs \<Longrightarrow> \<not> (xs \<noteq> [] \<and> last xs = c)"
  using last_in_set [of xs] by auto

lemma split_line:
  assumes "LF \<notin> set (take n xs)"
  shows "takeWhile (\<lambda>c. c \<noteq> LF) xs = take n xs @ takeWhile (\<lambda>c. c \<noteq> LF) (drop n xs)"
    "dropWhile (\<lambda>c. c \<noteq> LF) xs = dropWhile (\<lambda>c. c \<noteq> LF) (drop n xs)"
    "LF \<in> set xs \<longleftrightarrow> LF \<in> set (drop n xs)"
proof -
  have a: "\<And>c. c \<in> set (take n xs) \<Longrightarrow> c \<noteq> LF" using assms by blast
  show "takeWhile (\<lambda>c. c \<noteq> LF) xs = take n xs @ takeWhile (\<lambda>c. c \<noteq> LF) (drop n xs)"
    using takeWhile_append2 [of "take n xs" "\<lambda>c. c \<noteq> LF" "drop n xs", OF a] by simp
  show "dropWhile (\<lambda>c. c \<noteq> LF) xs = dropWhile (\<lambda>c. c \<noteq> LF) (drop n xs)"
    using dropWhile_append2 [of "take n xs" "\<lambda>c. c \<noteq> LF" "drop n xs", OF a] by simp
  have "set xs = set (take n xs) \<union> set (drop n xs)" by (metis append_take_drop_id set_append)
  then show "LF \<in> set xs \<longleftrightarrow> LF \<in> set (drop n xs)" using assms by blast
qed

definition loop_spec :: "bool \<Rightarrow> bytes \<Rightarrow> bytes \<Rightarrow> frame_exit" where
  "loop_spec fails frame input =
    (let line = frame @ takeWhile (\<lambda>c. c \<noteq> LF) input in
     if length line > StdioFrameMaxBytes then FrameErr FrameTooLarge
     else if LF \<in> set input then GotFrame line
     else if fails then FrameErr ReadFailed
     else if line = [] then NoFrame else FrameErr UnterminatedFrame)"

lemma frame_loop_exact:
  "length frame \<le> StdioFrameMaxBytes \<Longrightarrow>
    (\<exists>rest stop. frame_loop fails frame input = (loop_spec fails frame input, rest, stop) \<and>
      (if \<exists>f. loop_spec fails frame input = GotFrame f
       then \<not> stop \<and> rest = tl (dropWhile (\<lambda>c. c \<noteq> LF) input) else stop))"
proof (induction fails frame input rule: frame_loop.induct)
  case (1 fails frame input)
  let ?B = frameReadBufferBytes and ?line = "takeWhile (\<lambda>c. c \<noteq> LF) input"
  consider (delim) "LF \<in> set (take ?B input)" | (full) "LF \<notin> set (take ?B input)" "?B \<le> length input"
    | (final) "LF \<notin> set (take ?B input)" "length input < ?B" by linarith
  then show ?case
  proof cases
    case delim
    then have lf: "LF \<in> set input" by (meson in_set_takeD)
    have rs: "ReadSlice fails input = (?line @ [LF], ErrNone, tl (dropWhile (\<lambda>c. c \<noteq> LF) input))"
      using delim by (simp add: ReadSlice_def Let_def)
    have "frame_loop fails frame input =
        (if length ?line > StdioFrameMaxBytes - length frame
         then (FrameErr FrameTooLarge, tl (dropWhile (\<lambda>c. c \<noteq> LF) input), True)
         else (GotFrame (frame @ ?line), tl (dropWhile (\<lambda>c. c \<noteq> LF) input), False))"
      by (subst frame_loop.simps) (simp add: rs Let_def)
    moreover have "loop_spec fails frame input =
        (if length ?line > StdioFrameMaxBytes - length frame then FrameErr FrameTooLarge
         else GotFrame (frame @ ?line))"
      using lf "1.prems" by (simp add: loop_spec_def Let_def) linarith
    ultimately show ?thesis by (cases "length ?line > StdioFrameMaxBytes - length frame") auto
  next
    case full
    define frag where "frag = take ?B input"
    have rs: "ReadSlice fails input = (frag, ErrBufferFull, drop ?B input)"
      using full by (simp add: ReadSlice_def Let_def frag_def)
    have nl: "\<not> (frag \<noteq> [] \<and> last frag = LF)" using full(1) unfolding frag_def by (rule not_last)
    note sp = split_line [OF full(1), folded frag_def]
    have lt: "length frag = ?B" using full(2) by (simp add: frag_def)
    show ?thesis
    proof (cases "?B > StdioFrameMaxBytes - length frame")
      case True
      have "frame_loop fails frame input = (FrameErr FrameTooLarge, drop ?B input, True)"
        using True lt by (subst frame_loop.simps) (simp add: rs Let_def nl)
      moreover have "loop_spec fails frame input = FrameErr FrameTooLarge"
      proof -
        have "StdioFrameMaxBytes < length frame + ?B" using True "1.prems" by linarith
        then show ?thesis using lt by (simp add: loop_spec_def Let_def sp(1))
      qed
      ultimately show ?thesis by auto
    next
      case False
      have step: "frame_loop fails frame input = frame_loop fails (frame @ frag) (drop ?B input)"
        using False lt by (subst frame_loop.simps) (simp add: rs Let_def nl)
      have len: "length (frame @ frag) \<le> StdioFrameMaxBytes" using False lt "1.prems" by simp
      have spec: "loop_spec fails frame input = loop_spec fails (frame @ frag) (drop ?B input)"
        unfolding loop_spec_def sp(1) sp(3) by simp
      have "\<exists>rest stop. frame_loop fails (frame @ frag) (drop ?B input) =
          (loop_spec fails (frame @ frag) (drop ?B input), rest, stop) \<and>
          (if \<exists>f. loop_spec fails (frame @ frag) (drop ?B input) = GotFrame f
           then \<not> stop \<and> rest = tl (dropWhile (\<lambda>c. c \<noteq> LF) (drop ?B input)) else stop)"
        by (rule "1.IH"(2) [where xc = False and xd = frag, OF rs [symmetric] refl refl _ _ _ refl _ refl len])
          (use nl False lt in simp_all)
      then show ?thesis unfolding step spec sp(2) .
    qed
  next
    case final
    then have rs: "ReadSlice fails input = (input, if fails then ErrOther else ErrEOF, [])"
      by (simp add: ReadSlice_def Let_def)
    have nlf: "LF \<notin> set input" using final by simp
    then have tw: "?line = input" by (auto simp: takeWhile_eq_all_conv)
    have nl: "\<not> (input \<noteq> [] \<and> last input = LF)" using nlf by (rule not_last)
    have ls: "loop_spec fails frame input =
        (if length input > StdioFrameMaxBytes - length frame then FrameErr FrameTooLarge
         else if fails then FrameErr ReadFailed
         else if frame @ input = [] then NoFrame else FrameErr UnterminatedFrame)"
      using "1.prems" unfolding loop_spec_def Let_def tw by (simp add: nlf) linarith
    have "frame_loop fails frame input = (loop_spec fails frame input, [], True)"
      unfolding ls by (subst frame_loop.simps) (simp add: rs Let_def nl)
    moreover have "\<not> (\<exists>f. loop_spec fails frame input = GotFrame f)"
      using nlf by (simp add: loop_spec_def Let_def)
    ultimately show ?thesis by auto
  qed
qed

lemma formatInt_no_LF: "LF \<notin> set (formatInt n)"
proof -
  have "LF \<notin> set (formatUint m)" for m
    using formatUint_digits [of m] by (auto simp: list_all_iff isDecimalDigit_def byte_val_def)
  then show ?thesis by (simp add: formatInt_def)
qed

lemma appendJSONString_no_LF: "LF \<notin> set (appendJSONString [] v)"
  using json_escape_bytes_printable [of v] by (auto simp: appendJSONString_def list_all_iff byte_val_def)

lemma payload_no_LF: "encodeToolResultPayload r = Inr payload \<Longrightarrow> LF \<notin> set payload"
  using appendJSONString_no_LF formatInt_no_LF [of "int (unat (r_cwdID r))"]
  by (auto simp: encodeToolResultPayload_def Result_CWDID_def formatInt_def
      split: sum.splits ResultKind.splits option.splits if_splits)

text \<open>C25. \<open>next\<close> returns exactly the line up to the next line feed and leaves the reader right behind
  it; a line longer than the limit, an unterminated last line and a read error are reported and stop
  the reader for good, and the end of input between lines is no error.  The 4096-byte buffering of
  the underlying reader is invisible.\<close>

theorem frame_next_exact:
  assumes "\<not> fr_done r"
  shows "fst (frame_next r) = frame_spec (fr_fails r) (fr_input r) \<and>
    (case frame_spec (fr_fails r) (fr_input r) of
       GotFrame line \<Rightarrow> fr_input r = line @ [LF] @ fr_input (snd (frame_next r)) \<and>
         LF \<notin> set line \<and> length line \<le> StdioFrameMaxBytes \<and> \<not> fr_done (snd (frame_next r))
     | _ \<Rightarrow> fr_done (snd (frame_next r)))"
proof -
  have eq: "loop_spec (fr_fails r) [] (fr_input r) = frame_spec (fr_fails r) (fr_input r)"
    by (simp add: loop_spec_def frame_spec_def Let_def)
  obtain rest stop where l: "frame_loop (fr_fails r) [] (fr_input r) =
      (frame_spec (fr_fails r) (fr_input r), rest, stop)"
    "if \<exists>f. frame_spec (fr_fails r) (fr_input r) = GotFrame f
     then \<not> stop \<and> rest = tl (dropWhile (\<lambda>c. c \<noteq> LF) (fr_input r)) else stop"
    using frame_loop_exact [of "[]" "fr_fails r" "fr_input r"] eq by auto
  have "fr_input r = line @ [LF] @ tl (dropWhile (\<lambda>c. c \<noteq> LF) (fr_input r)) \<and> LF \<notin> set line \<and>
      length line \<le> StdioFrameMaxBytes"
    if "frame_spec (fr_fails r) (fr_input r) = GotFrame line" for line
  proof -
    have line: "line = takeWhile (\<lambda>c. c \<noteq> LF) (fr_input r)" "LF \<in> set (fr_input r)"
        "length line \<le> StdioFrameMaxBytes"
      using that by (auto simp: frame_spec_def Let_def split: if_splits)
    have "dropWhile (\<lambda>c. c \<noteq> LF) (fr_input r) \<noteq> []" using line(2) by auto
    then have "dropWhile (\<lambda>c. c \<noteq> LF) (fr_input r) = LF # tl (dropWhile (\<lambda>c. c \<noteq> LF) (fr_input r))"
      using hd_dropWhile [of "\<lambda>c. c \<noteq> LF" "fr_input r"] by (metis list.collapse)
    then show ?thesis
      using line takeWhile_dropWhile_id [of "\<lambda>c. c \<noteq> LF" "fr_input r"] set_takeWhileD
      by (metis (mono_tags, lifting) append_Cons append_Nil)
  qed
  then show ?thesis
    using assms l by (simp add: frame_next_def split: frame_exit.splits)
qed

theorem frame_next_exact_witness:
  "fst (frame_next \<lparr>fr_input = [CHR ''a'', LF, CHR ''b''], fr_fails = False, fr_done = False\<rparr>) = GotFrame ''a''"
  using frame_next_exact [of "\<lparr>fr_input = [CHR ''a'', LF, CHR ''b''], fr_fails = False, fr_done = False\<rparr>"]
  by (simp add: frame_spec_def StdioFrameMaxBytes_def)



end
