(* ===== verification/IdRegistry.thy ===== *)
theory IdRegistry
  imports Transport
begin

text \<open>
  The registry of request ids used in a session (\<open>src/internal/mcpstdio/id_registry.go\<close>): a fixed
  table of slots probed linearly from a digest, whose keys lie one after the other in a byte arena.
  Ids are never deleted.  The digest (SHA-256 in production) is a parameter.
\<close>

section \<open>State and operations\<close>

record usedIDSlot =
  us_digest :: bytes
  us_offset :: uint32
  us_length :: uint16
  us_occupied :: bool

record usedIDRegistry =
  ur_slots :: "usedIDSlot list"
  ur_arena :: bytes
  ur_maxRequests :: nat
  ur_arenaMaxBytes :: nat
  ur_count :: nat

datatype idRegistration = RegistrationNew | RegistrationDuplicate | RegistrationExhausted

definition emptyIDSlot :: usedIDSlot where
  "emptyIDSlot = \<lparr>us_digest = replicate 32 (byte_of 0), us_offset = 0, us_length = 0, us_occupied = False\<rparr>"

definition newUsedIDRegistryWithConfig :: "nat \<Rightarrow> nat \<Rightarrow> nat \<Rightarrow> usedIDRegistry" where
  "newUsedIDRegistryWithConfig maxRequests tableSlots arenaMaxBytes =
    \<lparr>ur_slots = replicate tableSlots emptyIDSlot, ur_arena = [], ur_maxRequests = maxRequests,
     ur_arenaMaxBytes = arenaMaxBytes, ur_count = 0\<rparr>"

text \<open>Little-endian value of the first eight bytes.\<close>

definition le64 :: "bytes \<Rightarrow> nat" where
  "le64 d = foldr (\<lambda>c v. byte_val c + 256 * v) (take 8 d) 0"

definition slotKeyEquals :: "bytes \<Rightarrow> usedIDSlot \<Rightarrow> bytes \<Rightarrow> bool" where
  "slotKeyEquals arena slot key =
    (if unat (us_length slot) \<noteq> length key then False
     else list_all (\<lambda>i. arena ! (unat (us_offset slot) + i) = key ! i) [0..<length key])"

datatype id_probe_exit = IdVacant nat | IdFound | IdFull

fun id_probe :: "(usedIDSlot \<Rightarrow> bool) \<Rightarrow> usedIDSlot list \<Rightarrow> nat \<Rightarrow> nat \<Rightarrow> id_probe_exit" where
  "id_probe matches slots index 0 = IdFull"
| "id_probe matches slots index (Suc n) =
    (if \<not> us_occupied (slots ! index) then IdVacant index
     else if matches (slots ! index) then IdFound
     else id_probe matches slots (if index + 1 = length slots then 0 else index + 1) n)"

text \<open>\<open>register\<close>: \<open>None\<close> is the division by zero of an empty table.\<close>

definition id_register ::
  "(bytes \<Rightarrow> bytes) \<Rightarrow> usedIDRegistry \<Rightarrow> bytes \<Rightarrow> (usedIDRegistry \<times> idRegistration) option" where
  "id_register digest reg key =
    (if ur_slots reg = [] then None
     else
       let d = digest key;
           index = le64 d mod length (ur_slots reg) in
       Some (case id_probe (\<lambda>slot. us_digest slot = d \<and> slotKeyEquals (ur_arena reg) slot key)
               (ur_slots reg) index (length (ur_slots reg)) of
         IdFound \<Rightarrow> (reg, RegistrationDuplicate)
       | IdFull \<Rightarrow> (reg, RegistrationExhausted)
       | IdVacant i \<Rightarrow>
           if ur_count reg \<ge> ur_maxRequests reg \<or>
              int (length key) > int (ur_arenaMaxBytes reg) - int (length (ur_arena reg))
           then (reg, RegistrationExhausted)
           else (reg\<lparr>ur_arena := ur_arena reg @ key,
                     ur_slots := (ur_slots reg)[i :=
                       \<lparr>us_digest = d, us_offset = of_nat (length (ur_arena reg)),
                        us_length = of_nat (length key), us_occupied = True\<rparr>],
                     ur_count := ur_count reg + 1\<rparr>,
                 RegistrationNew)))"

section \<open>Admitting a request id\<close>

datatype requestIDAdmissionKind = RequestIDIgnored | RequestIDAccepted | RequestIDDuplicate | RequestIDExhausted

record requestIDAdmission =
  adm_kind :: requestIDAdmissionKind
  adm_output :: bytes
  adm_close :: bool

definition invalidRequestForID :: "RequestID \<Rightarrow> bytes" where
  "invalidRequestForID i = encodeProtocolError i protocolInvalidRequest"

definition sessionRequestLimitForID :: "RequestID \<Rightarrow> bytes" where
  "sessionRequestLimitForID i = encodeProtocolError i protocolSessionRequestLimit"

text \<open>\<open>is_request\<close>: the inbound message is a request, not a notification.\<close>

definition registry_admit ::
  "(bytes \<Rightarrow> bytes) \<Rightarrow> usedIDRegistry \<Rightarrow> bool \<Rightarrow> RequestID \<Rightarrow> (usedIDRegistry \<times> requestIDAdmission) option" where
  "registry_admit digest reg is_request i =
    (if \<not> is_request then Some (reg, \<lparr>adm_kind = RequestIDIgnored, adm_output = [], adm_close = False\<rparr>)
     else case id_register digest reg (semanticKey i) of
       None \<Rightarrow> None
     | Some (reg', registration) \<Rightarrow> Some (reg',
         case registration of
           RegistrationNew \<Rightarrow> \<lparr>adm_kind = RequestIDAccepted, adm_output = [], adm_close = False\<rparr>
         | RegistrationDuplicate \<Rightarrow>
             \<lparr>adm_kind = RequestIDDuplicate, adm_output = invalidRequestForID i, adm_close = False\<rparr>
         | RegistrationExhausted \<Rightarrow>
             \<lparr>adm_kind = RequestIDExhausted, adm_output = sessionRequestLimitForID i, adm_close = True\<rparr>))"

section \<open>The specification: a bounded set of ids\<close>

fun spec_register :: "nat \<Rightarrow> nat \<Rightarrow> nat \<Rightarrow> bytes list \<Rightarrow> bytes \<Rightarrow> bytes list \<times> idRegistration" where
  "spec_register maxRequests tableSlots arenaMaxBytes used key =
    (if key \<in> set used then (used, RegistrationDuplicate)
     else if length used < maxRequests \<and> length used < tableSlots \<and>
       length (concat used) + length key \<le> arenaMaxBytes
     then (used @ [key], RegistrationNew)
     else (used, RegistrationExhausted))"

definition slot_key :: "bytes \<Rightarrow> usedIDSlot \<Rightarrow> bytes" where
  "slot_key arena slot = take (unat (us_length slot)) (drop (unat (us_offset slot)) arena)"

definition slot_in :: "bytes \<Rightarrow> usedIDSlot \<Rightarrow> bool" where
  "slot_in arena slot \<longleftrightarrow> unat (us_offset slot) + unat (us_length slot) \<le> length arena"

text \<open>Every occupied slot is reached from its home over occupied slots only.\<close>

definition path_ok :: "(bytes \<Rightarrow> bytes) \<Rightarrow> bytes \<Rightarrow> usedIDSlot list \<Rightarrow> bool" where
  "path_ok digest arena ss \<longleftrightarrow> (\<forall>i < length ss. us_occupied (ss ! i) \<longrightarrow>
    (\<exists>e < length ss. i = (le64 (digest (slot_key arena (ss ! i))) mod length ss + e) mod length ss \<and>
      (\<forall>f < e. us_occupied (ss ! ((le64 (digest (slot_key arena (ss ! i))) mod length ss + f) mod length ss)))))"

definition reg_ok :: "(bytes \<Rightarrow> bytes) \<Rightarrow> usedIDRegistry \<Rightarrow> bytes list \<Rightarrow> bool" where
  "reg_ok digest reg used \<longleftrightarrow>
    ur_arena reg = concat used \<and> distinct used \<and> ur_count reg = length used \<and>
    length (ur_arena reg) \<le> ur_arenaMaxBytes reg \<and>
    mset (map (slot_key (ur_arena reg)) (filter us_occupied (ur_slots reg))) = mset used \<and>
    (\<forall>slot \<in> set (ur_slots reg). us_occupied slot \<longrightarrow>
      slot_in (ur_arena reg) slot \<and> us_digest slot = digest (slot_key (ur_arena reg) slot)) \<and>
    path_ok digest (ur_arena reg) (ur_slots reg)"

lemma slotKeyEquals_iff:
  "slot_in arena slot \<Longrightarrow> slotKeyEquals arena slot key \<longleftrightarrow> slot_key arena slot = key"
proof -
  assume i: "slot_in arena slot"
  let ?l = "unat (us_length slot)" and ?f = "unat (us_offset slot)"
  have len: "length (slot_key arena slot) = ?l" using i by (simp add: slot_key_def slot_in_def)
  show ?thesis
  proof (cases "?l = length key")
    case True
    have "slot_key arena slot = key \<longleftrightarrow> (\<forall>j < length key. slot_key arena slot ! j = key ! j)"
      using len True by (auto simp: list_eq_iff_nth_eq)
    also have "\<dots> \<longleftrightarrow> slotKeyEquals arena slot key"
      using True i by (auto simp: slotKeyEquals_def slot_key_def slot_in_def list_all_iff)
    finally show ?thesis by simp
  next
    case False
    then show ?thesis using len by (auto simp: slotKeyEquals_def)
  qed
qed

lemma slot_key_append: "slot_in arena slot \<Longrightarrow> slot_key (arena @ t) slot = slot_key arena slot"
  by (simp add: slot_key_def slot_in_def)

lemma slot_in_append: "slot_in arena slot \<Longrightarrow> slot_in (arena @ t) slot"
  by (simp add: slot_in_def)

text \<open>What the probe finds from distance \<open>d\<close> on, in terms of the distance from the home slot \<open>h\<close>.\<close>

definition home_slot :: "usedIDSlot list \<Rightarrow> nat \<Rightarrow> nat \<Rightarrow> usedIDSlot" where
  "home_slot ss h f = ss ! ((h + f) mod length ss)"

definition probe_post :: "(usedIDSlot \<Rightarrow> bool) \<Rightarrow> usedIDSlot list \<Rightarrow> nat \<Rightarrow> nat \<Rightarrow> id_probe_exit \<Rightarrow> bool" where
  "probe_post m ss h d exit =
    (case exit of
      IdVacant j \<Rightarrow> \<exists>e < length ss. d \<le> e \<and> j = (h + e) mod length ss \<and> \<not> us_occupied (ss ! j) \<and>
        (\<forall>f < e. d \<le> f \<longrightarrow> us_occupied (home_slot ss h f) \<and> \<not> m (home_slot ss h f))
    | IdFound \<Rightarrow> \<exists>e < length ss. us_occupied (home_slot ss h e) \<and> m (home_slot ss h e)
    | IdFull \<Rightarrow> \<forall>f < length ss. d \<le> f \<longrightarrow> us_occupied (home_slot ss h f) \<and> \<not> m (home_slot ss h f))"

lemma probe_post_step:
  assumes "probe_post m ss h (Suc d) exit" "us_occupied (home_slot ss h d)" "\<not> m (home_slot ss h d)"
  shows "probe_post m ss h d exit"
proof (cases exit)
  case (IdVacant j)
  then obtain e where e: "e < length ss" "Suc d \<le> e" "j = (h + e) mod length ss" "\<not> us_occupied (ss ! j)"
      "\<And>f. f < e \<Longrightarrow> Suc d \<le> f \<Longrightarrow> us_occupied (home_slot ss h f) \<and> \<not> m (home_slot ss h f)"
    using assms(1) by (auto simp: probe_post_def)
  have "us_occupied (home_slot ss h f) \<and> \<not> m (home_slot ss h f)" if "f < e" "d \<le> f" for f
    using that assms(2,3) e(5) [of f] by (cases "f = d") auto
  then show ?thesis using e IdVacant by (auto simp: probe_post_def intro!: exI [of _ e])
next
  case IdFull
  then have e: "\<And>f. f < length ss \<Longrightarrow> Suc d \<le> f \<Longrightarrow> us_occupied (home_slot ss h f) \<and> \<not> m (home_slot ss h f)"
    using assms(1) by (auto simp: probe_post_def)
  have "us_occupied (home_slot ss h f) \<and> \<not> m (home_slot ss h f)" if "f < length ss" "d \<le> f" for f
    using that assms(2,3) e [of f] by (cases "f = d") auto
  then show ?thesis using IdFull by (auto simp: probe_post_def)
qed (use assms(1) in \<open>auto simp: probe_post_def\<close>)

lemma id_probe_post:
  "0 < length ss \<Longrightarrow> d + n = length ss \<Longrightarrow> probe_post m ss h d (id_probe m ss ((h + d) mod length ss) n)"
proof (induction n arbitrary: d)
  case 0
  then show ?case by (simp add: probe_post_def)
next
  case (Suc n)
  let ?i = "(h + d) mod length ss"
  have next_i: "(if ?i + 1 = length ss then 0 else ?i + 1) = (h + Suc d) mod length ss"
    using Suc.prems by (simp add: mod_Suc)
  consider "\<not> us_occupied (ss ! ?i)" | "us_occupied (ss ! ?i)" "m (ss ! ?i)"
    | "us_occupied (ss ! ?i)" "\<not> m (ss ! ?i)" by blast
  then show ?case
  proof cases
    case 1
    then show ?thesis using Suc.prems by (auto simp: probe_post_def intro!: exI [of _ d])
  next
    case 2
    then show ?thesis using Suc.prems by (auto simp: probe_post_def home_slot_def intro!: exI [of _ d])
  next
    case 3
    have "probe_post m ss h (Suc d) (id_probe m ss ((h + Suc d) mod length ss) n)"
      using Suc.IH [of "Suc d"] Suc.prems by simp
    then have "probe_post m ss h d (id_probe m ss ((h + Suc d) mod length ss) n)"
      by (rule probe_post_step) (use 3 in \<open>simp_all add: home_slot_def\<close>)
    then show ?thesis using 3 next_i by simp
  qed
qed

lemma mset_map_filter_set:
  "j < length xs \<Longrightarrow> \<not> P (xs ! j) \<Longrightarrow> P x \<Longrightarrow>
    mset (map f (filter P (xs[j := x]))) = add_mset (f x) (mset (map f (filter P xs)))"
proof (induction xs arbitrary: j)
  case (Cons y ys)
  then show ?case by (cases j) auto
qed simp

lemma mset_map_filter_cong:
  "(\<And>x. x \<in> set xs \<Longrightarrow> P x \<Longrightarrow> f x = g x) \<Longrightarrow> mset (map f (filter P xs)) = mset (map g (filter P xs))"
  by (intro arg_cong [of _ _ mset] map_cong) auto

lemma home_slot_cover: "i < length ss \<Longrightarrow> \<exists>f < length ss. i = (h mod length ss + f) mod length ss"
proof -
  assume i: "i < length ss"
  let ?n = "length ss" and ?h = "h mod length ss"
  have "?h < ?n" using i by (intro mod_less_divisor) linarith
  then have "(?h + cyc ?n ?h i) mod ?n = i" using i by (intro cyc_add)
  moreover have "cyc ?n ?h i < ?n" using i by (rule cyc_less_of)
  ultimately show ?thesis by (intro exI [of _ "cyc ?n ?h i"]) simp
qed

lemma reg_ok_register:
  assumes ok: "reg_ok digest reg used" and ne: "ur_slots reg \<noteq> []"
    and bound: "ur_arenaMaxBytes reg < 2 ^ 32" and key: "length key < 2 ^ 16"
  shows "\<exists>reg' res. id_register digest reg key = Some (reg', res) \<and>
    spec_register (ur_maxRequests reg) (length (ur_slots reg)) (ur_arenaMaxBytes reg) used key =
      (fst (spec_register (ur_maxRequests reg) (length (ur_slots reg)) (ur_arenaMaxBytes reg) used key), res) \<and>
    reg_ok digest reg'
      (fst (spec_register (ur_maxRequests reg) (length (ur_slots reg)) (ur_arenaMaxBytes reg) used key)) \<and>
    length (ur_slots reg') = length (ur_slots reg) \<and> ur_maxRequests reg' = ur_maxRequests reg \<and>
    ur_arenaMaxBytes reg' = ur_arenaMaxBytes reg"
proof -
  let ?ss = "ur_slots reg" and ?A = "ur_arena reg" and ?d = "digest key"
  let ?n = "length (ur_slots reg)" and ?h = "le64 ?d mod length (ur_slots reg)"
  let ?m = "\<lambda>slot. us_digest slot = ?d \<and> slotKeyEquals ?A slot key"
  have n: "0 < ?n" using ne by simp
  have inv: "?A = concat used" "distinct used" "ur_count reg = length used" "length ?A \<le> ur_arenaMaxBytes reg"
    "mset (map (slot_key ?A) (filter us_occupied ?ss)) = mset used"
    "\<And>slot. slot \<in> set ?ss \<Longrightarrow> us_occupied slot \<Longrightarrow>
      slot_in ?A slot \<and> us_digest slot = digest (slot_key ?A slot)"
    "path_ok digest ?A ?ss"
    using ok by (auto simp: reg_ok_def)
  have m: "?m slot \<longleftrightarrow> slot_key ?A slot = key" if "slot \<in> set ?ss" "us_occupied slot" for slot
    using inv(6) [OF that] slotKeyEquals_iff by metis
  have hs: "home_slot ?ss ?h f \<in> set ?ss" for f using n by (simp add: home_slot_def)
  have keys: "set used = slot_key ?A ` {slot \<in> set ?ss. us_occupied slot}"
    using arg_cong [OF inv(5), of set_mset] by auto
  define exit where "exit = id_probe ?m ?ss ?h ?n"
  have post: "probe_post ?m ?ss ?h 0 exit"
    using id_probe_post [OF n, of 0 ?n ?m ?h] by (simp add: exit_def)
  have known: "exit = IdFound" if k: "key \<in> set used"
  proof -
    obtain i where i: "i < ?n" "us_occupied (?ss ! i)" "slot_key ?A (?ss ! i) = key"
      using k keys by (auto simp: in_set_conv_nth)
    obtain e where e: "e < ?n" "i = (?h + e) mod ?n" "\<And>f. f < e \<Longrightarrow> us_occupied (home_slot ?ss ?h f)"
      using inv(7) i unfolding path_ok_def home_slot_def by blast
    have me: "us_occupied (home_slot ?ss ?h e)" "?m (home_slot ?ss ?h e)"
      using i e(2) m [OF hs, of e] by (simp_all add: home_slot_def)
    show ?thesis
    proof (cases exit)
      case (IdVacant j)
      then obtain e' where e': "e' < ?n" "\<not> us_occupied (home_slot ?ss ?h e')"
          "\<And>f. f < e' \<Longrightarrow> \<not> ?m (home_slot ?ss ?h f)"
        using post by (auto simp: probe_post_def home_slot_def)
      have "e' \<noteq> e" "\<not> e < e'" "\<not> e' < e" using e' me e(3) by blast+
      then show ?thesis by linarith
    next
      case IdFull
      then show ?thesis using post me e(1) by (auto simp: probe_post_def)
    qed simp
  qed
  have found: "key \<in> set used" if f: "exit = IdFound"
  proof -
    obtain e where "us_occupied (home_slot ?ss ?h e)" "?m (home_slot ?ss ?h e)"
      using post f by (auto simp: probe_post_def)
    then have "us_occupied (home_slot ?ss ?h e)" "slot_key ?A (home_slot ?ss ?h e) = key"
      using m [OF hs] by simp_all
    then show ?thesis unfolding keys using hs [of e]
      by (intro image_eqI [where x = "home_slot ?ss ?h e"]) simp_all
  qed
  show ?thesis
  proof (cases exit)
    case IdFound
    then have "id_register digest reg key = Some (reg, RegistrationDuplicate)"
      using ne by (simp add: id_register_def exit_def [symmetric] Let_def)
    then show ?thesis using found [OF IdFound] ok by simp
  next
    case IdFull
    then have r: "id_register digest reg key = Some (reg, RegistrationExhausted)"
      using ne by (simp add: id_register_def exit_def [symmetric] Let_def)
    have "us_occupied slot" if slot: "slot \<in> set ?ss" for slot
    proof -
      obtain i where i: "i < ?n" "slot = ?ss ! i" using slot by (auto simp: in_set_conv_nth)
      obtain f where "f < ?n" "i = (?h + f) mod ?n" using home_slot_cover [OF i(1), of ?h] by auto
      then show ?thesis using post IdFull i by (auto simp: probe_post_def home_slot_def)
    qed
    then have "filter us_occupied ?ss = ?ss" by (simp add: filter_id_conv)
    then have "length used = ?n" using arg_cong [OF inv(5), of size] by simp
    moreover have "key \<notin> set used" using known IdFull by auto
    ultimately show ?thesis using r ok by simp
  next
    case (IdVacant j)
    then obtain e where e: "e < ?n" "j = (?h + e) mod ?n" "\<not> us_occupied (?ss ! j)"
        "\<And>f. f < e \<Longrightarrow> us_occupied (home_slot ?ss ?h f)"
      using post by (auto simp: probe_post_def)
    have j: "j < ?n" using e(2) n by simp
    have new: "key \<notin> set used" using known IdVacant by auto
    have "length (filter us_occupied ?ss) < ?n" using j e(3) by (intro length_filter_less) auto
    moreover have "length (filter us_occupied ?ss) = length used"
      using mset_eq_length [OF inv(5)] by simp
    ultimately have room: "length used < ?n" by simp
    show ?thesis
    proof (cases "ur_count reg \<ge> ur_maxRequests reg \<or>
        int (length key) > int (ur_arenaMaxBytes reg) - int (length ?A)")
      case True
      then have r: "id_register digest reg key = Some (reg, RegistrationExhausted)"
        using ne IdVacant by (simp add: id_register_def exit_def [symmetric] Let_def)
      have "\<not> (length used < ur_maxRequests reg \<and> length (concat used) + length key \<le> ur_arenaMaxBytes reg)"
        using True inv(1,3) by auto
      then show ?thesis using r ok new by auto
    next
      case False
      let ?slot = "\<lparr>us_digest = ?d, us_offset = of_nat (length ?A), us_length = of_nat (length key),
        us_occupied = True\<rparr>"
      let ?reg = "reg\<lparr>ur_arena := ?A @ key, ur_slots := ?ss[j := ?slot], ur_count := ur_count reg + 1\<rparr>"
      have r: "id_register digest reg key = Some (?reg, RegistrationNew)"
        using False ne IdVacant by (simp add: id_register_def exit_def [symmetric] Let_def)
      have sp: "spec_register (ur_maxRequests reg) ?n (ur_arenaMaxBytes reg) used key =
          (used @ [key], RegistrationNew)"
        using False new room inv(1,3) by auto
      have off: "unat (us_offset ?slot) = length ?A" "unat (us_length ?slot) = length key"
        using inv(4) bound key by (simp_all add: unat_of_nat_small)
      have sk: "slot_key (?A @ key) ?slot = key" "slot_in (?A @ key) ?slot"
        using off by (simp_all add: slot_key_def slot_in_def)
      have old: "slot_key (?A @ key) slot = slot_key ?A slot" if "slot \<in> set ?ss" "us_occupied slot" for slot
        using inv(6) [OF that] slot_key_append by blast
      have ms: "mset (map (slot_key (?A @ key)) (filter us_occupied (?ss[j := ?slot]))) = mset (used @ [key])"
        using mset_map_filter_set [of j ?ss us_occupied ?slot "slot_key (?A @ key)", OF j e(3)] sk(1)
          mset_map_filter_cong [of ?ss us_occupied "slot_key (?A @ key)" "slot_key ?A", OF old] inv(5)
        by simp
      have path: "path_ok digest (?A @ key) (?ss[j := ?slot])"
        unfolding path_ok_def length_list_update
      proof (intro allI impI)
        fix i assume i: "i < ?n" "us_occupied (?ss[j := ?slot] ! i)"
        let ?hi = "le64 (digest (slot_key (?A @ key) (?ss[j := ?slot] ! i))) mod ?n"
        have occ: "us_occupied (?ss[j := ?slot] ! x)" if "us_occupied (?ss ! x)" "x < ?n" for x
          using that by (cases "x = j") auto
        show "\<exists>e < ?n. i = (?hi + e) mod ?n \<and> (\<forall>f < e. us_occupied (?ss[j := ?slot] ! ((?hi + f) mod ?n)))"
        proof (cases "i = j")
          case True
          then have "?hi = ?h" using sk(1) j by simp
          then show ?thesis using True e occ n by (auto simp: home_slot_def intro!: exI [of _ e])
        next
          case False
          then have hi: "?hi = le64 (digest (slot_key ?A (?ss ! i))) mod ?n"
            using old [of "?ss ! i"] i by simp
          have "us_occupied (?ss ! i)" using False i by simp
          then obtain e' where "e' < ?n" "i = (?hi + e') mod ?n"
              "\<forall>f < e'. us_occupied (?ss ! ((?hi + f) mod ?n))"
            using inv(7) i(1) unfolding path_ok_def hi by blast
          then show ?thesis using occ n by (intro exI [of _ e']) auto
        qed
      qed
      have slots: "slot_in (?A @ key) slot \<and> us_digest slot = digest (slot_key (?A @ key) slot)"
        if "slot \<in> set (?ss[j := ?slot])" "us_occupied slot" for slot
      proof (cases "slot = ?slot")
        case True
        then show ?thesis using sk by simp
      next
        case False
        then have "slot \<in> set ?ss" using that(1) set_update_subset_insert [of ?ss j ?slot] by blast
        then show ?thesis using inv(6) old that(2) slot_in_append by metis
      qed
      have "reg_ok digest ?reg (used @ [key])"
        unfolding reg_ok_def using ms path slots inv(1,2,3) new False by auto
      then show ?thesis using r sp by simp
    qed
  qed
qed

section \<open>Sessions\<close>

text \<open>The answers to a sequence of registrations, in the code and in the specification.\<close>

fun id_results :: "(bytes \<Rightarrow> bytes) \<Rightarrow> usedIDRegistry \<Rightarrow> bytes list \<Rightarrow> idRegistration list option" where
  "id_results digest reg [] = Some []"
| "id_results digest reg (key # keys) =
    (case id_register digest reg key of
       None \<Rightarrow> None
     | Some (reg', res) \<Rightarrow> map_option (\<lambda>rs. res # rs) (id_results digest reg' keys))"

fun spec_results :: "nat \<Rightarrow> nat \<Rightarrow> nat \<Rightarrow> bytes list \<Rightarrow> bytes list \<Rightarrow> idRegistration list" where
  "spec_results mr ts am used [] = []"
| "spec_results mr ts am used (key # keys) =
    (let (used', res) = spec_register mr ts am used key in res # spec_results mr ts am used' keys)"

lemma results_refine:
  assumes "reg_ok digest reg used" "ur_slots reg \<noteq> []" "ur_arenaMaxBytes reg < 2 ^ 32"
    "\<forall>key \<in> set keys. length key < 2 ^ 16"
  shows "id_results digest reg keys =
    Some (spec_results (ur_maxRequests reg) (length (ur_slots reg)) (ur_arenaMaxBytes reg) used keys)"
  using assms
proof (induction keys arbitrary: reg used)
  case (Cons key keys)
  let ?sp = "spec_register (ur_maxRequests reg) (length (ur_slots reg)) (ur_arenaMaxBytes reg) used key"
  obtain reg' res where r: "id_register digest reg key = Some (reg', res)" "?sp = (fst ?sp, res)"
    "reg_ok digest reg' (fst ?sp)" "length (ur_slots reg') = length (ur_slots reg)"
    "ur_maxRequests reg' = ur_maxRequests reg" "ur_arenaMaxBytes reg' = ur_arenaMaxBytes reg"
    using reg_ok_register [OF Cons.prems(1-3), of key] Cons.prems(4) by auto
  have "id_results digest reg' keys =
    Some (spec_results (ur_maxRequests reg') (length (ur_slots reg')) (ur_arenaMaxBytes reg') (fst ?sp) keys)"
    using Cons.IH [OF r(3)] r Cons.prems by fastforce
  moreover have "snd ?sp = res" using r(2) by (metis snd_conv)
  ultimately show ?case using r by (simp add: case_prod_beta Let_def del: spec_register.simps)
qed simp

lemma new_reg_ok: "reg_ok digest (newUsedIDRegistryWithConfig mr ts am) []"
  by (simp add: reg_ok_def newUsedIDRegistryWithConfig_def emptyIDSlot_def path_ok_def)

text \<open>C27. For every digest function, even one that maps all ids to the same value, a session's registry
  answers any sequence of ids exactly as a bounded set would: an id is new the first time, a
  duplicate ever after, and exhaustion is reported exactly when the request limit, the table or the
  byte arena is full.\<close>

theorem used_ids_refine_set:
  assumes "0 < tableSlots" "arenaMaxBytes < 2 ^ 32" "\<forall>key \<in> set keys. length key < 2 ^ 16"
  shows "id_results digest (newUsedIDRegistryWithConfig maxRequests tableSlots arenaMaxBytes) keys =
    Some (spec_results maxRequests tableSlots arenaMaxBytes [] keys)"
proof -
  let ?reg = "newUsedIDRegistryWithConfig maxRequests tableSlots arenaMaxBytes"
  have f: "ur_slots ?reg \<noteq> []" "length (ur_slots ?reg) = tableSlots" "ur_maxRequests ?reg = maxRequests"
    "ur_arenaMaxBytes ?reg = arenaMaxBytes"
    using assms(1) by (simp_all add: newUsedIDRegistryWithConfig_def)
  show ?thesis
    using results_refine [OF new_reg_ok f(1), of keys digest] assms(2,3) by (simp add: f)
qed

theorem used_ids_refine_set_witness:
  "id_results (\<lambda>_. []) (newUsedIDRegistryWithConfig 2 4 100) [''sa'', ''sb'', ''sa'', ''sc''] =
    Some [RegistrationNew, RegistrationNew, RegistrationDuplicate, RegistrationExhausted]"
  using used_ids_refine_set [of 4 100 "[''sa'', ''sb'', ''sa'', ''sc'']" "\<lambda>_. []" 2] by simp

definition SessionMaxRequests :: nat where "SessionMaxRequests = 65536"

definition UsedIDKeyMaxBytes :: nat where "UsedIDKeyMaxBytes = 272"

definition UsedIDTableSlots :: nat where "UsedIDTableSlots = 131072"

definition UsedIDArenaMaxBytes :: nat where "UsedIDArenaMaxBytes = 17825792"

definition newUsedIDRegistry :: usedIDRegistry where
  "newUsedIDRegistry = newUsedIDRegistryWithConfig SessionMaxRequests UsedIDTableSlots UsedIDArenaMaxBytes"

lemma concat_bound: "\<forall>k \<in> set ks. length k \<le> b \<Longrightarrow> length (concat ks) \<le> b * length ks"
  by (induction ks) auto

lemma spec_never_exhausted:
  assumes "length used + length keys \<le> mr" "mr \<le> ts" "b * mr \<le> am"
    "\<forall>k \<in> set used \<union> set keys. length k \<le> b"
  shows "RegistrationExhausted \<notin> set (spec_results mr ts am used keys)"
  using assms
proof (induction keys arbitrary: used)
  case (Cons key keys)
  show ?case
  proof (cases "key \<in> set used")
    case True
    then show ?thesis using Cons.IH [of used] Cons.prems by simp
  next
    case False
    have "length (concat used) + length key \<le> b * length used + b"
      using concat_bound [of used b] Cons.prems(4) by (intro add_mono) auto
    also have "\<dots> = b * Suc (length used)" by simp
    also have "\<dots> \<le> b * mr" using Cons.prems(1) by (intro mult_le_mono2) simp
    finally have fit: "length (concat used) + length key \<le> am" using Cons.prems(3) by simp
    have "RegistrationExhausted \<notin> set (spec_results mr ts am (used @ [key]) keys)"
      using Cons.prems by (intro Cons.IH) auto
    then show ?thesis using False fit Cons.prems(1,2) by simp
  qed
qed simp

text \<open>C28. The production sizes fit together: in a session of at most \<open>SessionMaxRequests\<close> requests with
  keys of at most \<open>UsedIDKeyMaxBytes\<close> bytes, neither the table nor the arena ever runs out.\<close>

theorem used_ids_capacity:
  assumes "length keys \<le> SessionMaxRequests" "\<forall>key \<in> set keys. length key \<le> UsedIDKeyMaxBytes"
  shows "\<exists>rs. id_results digest newUsedIDRegistry keys = Some rs \<and> RegistrationExhausted \<notin> set rs"
proof -
  have "id_results digest newUsedIDRegistry keys =
      Some (spec_results SessionMaxRequests UsedIDTableSlots UsedIDArenaMaxBytes [] keys)"
  proof -
    have k: "\<forall>key \<in> set keys. length key < 2 ^ 16"
    proof
      fix key assume "key \<in> set keys"
      then have "length key \<le> 272" using assms(2) by (simp add: UsedIDKeyMaxBytes_def)
      then show "length key < 2 ^ 16" by simp
    qed
    have f: "ur_slots newUsedIDRegistry \<noteq> []" "length (ur_slots newUsedIDRegistry) = UsedIDTableSlots"
      "ur_maxRequests newUsedIDRegistry = SessionMaxRequests"
      "ur_arenaMaxBytes newUsedIDRegistry = UsedIDArenaMaxBytes"
      by (simp_all add: newUsedIDRegistry_def newUsedIDRegistryWithConfig_def UsedIDTableSlots_def)
    have "ur_arenaMaxBytes newUsedIDRegistry < 2 ^ 32" by (simp add: f UsedIDArenaMaxBytes_def)
    moreover have "reg_ok digest newUsedIDRegistry []" unfolding newUsedIDRegistry_def by (rule new_reg_ok)
    ultimately show ?thesis using results_refine [OF _ f(1) _ k, of digest "[]"] by (simp add: f)
  qed
  moreover have "RegistrationExhausted \<notin>
      set (spec_results SessionMaxRequests UsedIDTableSlots UsedIDArenaMaxBytes [] keys)"
    by (rule spec_never_exhausted [where b = UsedIDKeyMaxBytes])
      (use assms in \<open>simp_all add: SessionMaxRequests_def UsedIDTableSlots_def UsedIDArenaMaxBytes_def
        UsedIDKeyMaxBytes_def\<close>)
  ultimately show ?thesis by blast
qed

theorem used_ids_capacity_witness:
  "\<exists>rs. id_results (\<lambda>_. []) newUsedIDRegistry [''n'', ''sa''] = Some rs \<and> RegistrationExhausted \<notin> set rs"
  by (rule used_ids_capacity) (simp_all add: SessionMaxRequests_def UsedIDKeyMaxBytes_def)

end
