(* ===== verification/JsonScanner.thy ===== *)
theory JsonScanner
  imports JsonString
begin

text \<open>
  The structural JSON scanner of \<open>src/internal/jsonwire/scanner.go\<close>: an explicit stack of container
  frames instead of recursion, limits on depth, members, items, strings and numbers, and, for
  protocol objects, the recovery that records a semantic or resource error of one layer and goes on
  with the structure.  Stacks have their top at the head.  Every error of the code is a
  \<open>ValidationError\<close>, so type assertions to it always succeed.
\<close>

section \<open>State\<close>

datatype ValueKind = JObject | JArray | JString | JNumber | JTrue | JFalse | JNull

datatype Mode = InvalidMode | ValidateAll | ProtocolWithRawArguments | ToolArguments

definition mode_valid :: "Mode \<Rightarrow> bool" where
  "mode_valid mode \<longleftrightarrow> mode \<in> {ValidateAll, ProtocolWithRawArguments, ToolArguments}"

record Limits =
  MaxDepth :: nat
  MaxObjectMembers :: nat
  MaxContainerItems :: nat
  MaxKeyBytes :: nat
  MaxStringBytes :: nat
  MaxNumberRawBytes :: nat

datatype containerState =
  ObjectFirstKeyOrEnd | ObjectKey | ObjectColon | ObjectValue | ObjectCommaOrEnd
| ArrayFirstValueOrEnd | ArrayValue | ArrayCommaOrEnd

datatype containerRole = RoleGeneric | RoleRoot | RoleParams | RoleRawArguments

record containerFrame =
  cf_kind :: ValueKind
  cf_state :: containerState
  cf_role :: containerRole
  cf_scope :: ValidationScope
  cf_deferred :: bool
  cf_compactChildren :: bool
  cf_start :: nat
  cf_members :: nat
  cf_membersExhausted :: bool
  cf_pendingKey :: bytes
  cf_pendingKeySpan :: Span
  cf_rootMemberIndex :: "nat option"
  cf_paramsMemberIndex :: "nat option"
  cf_rootElementIndex :: "nat option"
  cf_seenKeys :: "bytes set"

record Member =
  m_Key :: bytes
  m_KeySpan :: Span
  m_Value :: Span
  m_Kind :: ValueKind

record scannedElement =
  el_Span :: Span
  el_Kind :: ValueKind

record documentScanResult =
  dr_Kind :: ValueKind
  dr_Span :: Span
  dr_Members :: "Member list"
  dr_ParamsMembers :: "Member list"
  dr_Elements :: "scannedElement list"
  dr_RawArguments :: Span
  dr_HasRawArguments :: bool

datatype protocolRootHeader = HeaderJSONRPC | HeaderID | HeaderMethod | HeaderParams | HeaderResult | HeaderError

record structuralScanner =
  raw :: bytes
  sc_limits :: Limits
  sc_mode :: Mode
  position :: nat
  totalItems :: nat
  protocolEnvelopeItems :: nat
  protocolParamsItems :: nat
  protocolEnvelopeFirst :: "nat option"
  protocolParamsFirst :: "nat option"
  stack :: "containerFrame list"
  overflow :: "containerState list"
  sc_method :: bytes
  methodIsString :: bool
  rawArguments :: Span
  rawArgumentsKind :: ValueKind
  hasRawArguments :: bool
  captureRootMembers :: bool
  captureParamsMembers :: bool
  captureRootElements :: bool
  rootMembers :: "Member list"
  paramsMembers :: "Member list"
  rootElements :: "scannedElement list"
  rootHeaders :: "protocolRootHeader set"
  collectProtocolErrors :: bool
  containerItemsExhausted :: bool
  envelopeError :: "ValidationError option"
  paramsError :: "ValidationError option"
  deferredError :: "ValidationError option"

definition max_uint64 :: nat where
  "max_uint64 = 2 ^ 64 - 1"

definition zeroSpan :: Span where
  "zeroSpan = \<lparr>Start = 0, End = 0\<rparr>"

abbreviation map_top :: "(containerFrame \<Rightarrow> containerFrame) \<Rightarrow> structuralScanner \<Rightarrow> structuralScanner" where
  "map_top f sc \<equiv> sc\<lparr>stack := (case stack sc of [] \<Rightarrow> [] | frame # rest \<Rightarrow> f frame # rest)\<rparr>"

section \<open>Bytes, literals and numbers\<close>

definition ws :: "char \<Rightarrow> bool" where
  "ws c \<longleftrightarrow> c \<in> {CHR '' '', CHR 0x09, CHR 0x0A, CHR 0x0D}"

definition skipWhitespace :: "structuralScanner \<Rightarrow> structuralScanner" where
  "skipWhitespace sc = sc\<lparr>position := position sc + length (takeWhile ws (drop (position sc) (raw sc)))\<rparr>"

definition byte_at :: "bytes \<Rightarrow> nat \<Rightarrow> char \<Rightarrow> bool" where
  "byte_at r p want \<longleftrightarrow> p < length r \<and> r ! p = want"

definition digit_at :: "bytes \<Rightarrow> nat \<Rightarrow> bool" where
  "digit_at r p \<longleftrightarrow> p < length r \<and> isDecimalDigit (r ! p)"

definition invalidAt :: "bytes \<Rightarrow> nat \<Rightarrow> ValidationError" where
  "invalidAt r p =
    (if p \<ge> length r then newValidationError KindSyntax (length r)
     else if byte_val (r ! p) < 0x80 then newValidationError KindSyntax p
     else case utf8_next (drop p r) p of
       Inl e \<Rightarrow> e
     | Inr _ \<Rightarrow> newValidationError KindSyntax p)"

fun literal_loop :: "bytes \<Rightarrow> nat \<Rightarrow> bytes \<Rightarrow> ValidationError + unit" where
  "literal_loop r p [] = Inr ()"
| "literal_loop r p (w # want) =
    (if p \<ge> length r then Inl (newValidationError KindSyntax (length r))
     else if r ! p \<noteq> w then Inl (invalidAt r p)
     else literal_loop r (p + 1) want)"

definition consumeLiteral :: "bytes \<Rightarrow> structuralScanner \<Rightarrow> ValidationError + structuralScanner" where
  "consumeLiteral want sc =
    bind_sum (literal_loop (raw sc) (position sc) want) (\<lambda>_. Inr (sc\<lparr>position := position sc + length want\<rparr>))"

definition checkNumberLimit :: "nat \<Rightarrow> nat \<Rightarrow> nat \<Rightarrow> ValidationError + unit" where
  "checkNumberLimit start maxRawBytes p =
    (if p - start > maxRawBytes then Inl (newValidationError KindResource (p - 1)) else Inr ())"

text \<open>The digit loops of \<open>scanNumber\<close>: the limit is checked after every digit.\<close>

function digit_loop :: "bytes \<Rightarrow> nat \<Rightarrow> nat \<Rightarrow> nat \<Rightarrow> ValidationError + nat" where
  "digit_loop r start maxRawBytes p =
    (if digit_at r p
     then bind_sum (checkNumberLimit start maxRawBytes (p + 1)) (\<lambda>_. digit_loop r start maxRawBytes (p + 1))
     else Inr p)"
  by pat_completeness auto
termination
  by (relation "measure (\<lambda>(r, start, mx, p). length r - p)") (auto simp: digit_at_def)

declare digit_loop.simps [simp del]

text \<open>One optional byte, with the limit check behind it.\<close>

definition number_byte :: "bytes \<Rightarrow> nat \<Rightarrow> nat \<Rightarrow> nat \<Rightarrow> char list \<Rightarrow> ValidationError + bool \<times> nat" where
  "number_byte r start maxRawBytes p wants =
    (if p < length r \<and> r ! p \<in> set wants
     then bind_sum (checkNumberLimit start maxRawBytes (p + 1)) (\<lambda>_. Inr (True, p + 1))
     else Inr (False, p))"

definition number_digits :: "bytes \<Rightarrow> nat \<Rightarrow> nat \<Rightarrow> nat \<Rightarrow> ValidationError + nat" where
  "number_digits r start maxRawBytes p =
    (if \<not> digit_at r p then Inl (invalidAt r p) else digit_loop r start maxRawBytes p)"

definition number_integer :: "bytes \<Rightarrow> nat \<Rightarrow> nat \<Rightarrow> nat \<Rightarrow> ValidationError + nat" where
  "number_integer r start maxRawBytes p =
    (if p \<ge> length r then Inl (newValidationError KindSyntax (length r))
     else bind_sum (number_byte r start maxRawBytes p ''0'') (\<lambda>(is_zero, p').
       if is_zero then Inr p' else number_digits r start maxRawBytes p'))"

definition number_fraction :: "bytes \<Rightarrow> nat \<Rightarrow> nat \<Rightarrow> nat \<Rightarrow> ValidationError + nat" where
  "number_fraction r start maxRawBytes p =
    bind_sum (number_byte r start maxRawBytes p ''.'') (\<lambda>(dot, p').
      if dot then number_digits r start maxRawBytes p' else Inr p')"

definition number_exponent :: "bytes \<Rightarrow> nat \<Rightarrow> nat \<Rightarrow> nat \<Rightarrow> ValidationError + nat" where
  "number_exponent r start maxRawBytes p =
    bind_sum (number_byte r start maxRawBytes p ''eE'') (\<lambda>(ex, p').
      if \<not> ex then Inr p'
      else bind_sum (number_byte r start maxRawBytes p' ''+-'') (\<lambda>(_, p'').
        number_digits r start maxRawBytes p''))"

definition scanNumber :: "bytes \<Rightarrow> nat \<Rightarrow> nat \<Rightarrow> ValidationError + nat" where
  "scanNumber r start maxRawBytes =
    bind_sum (number_byte r start maxRawBytes start ''-'') (\<lambda>(_, p).
    bind_sum (number_integer r start maxRawBytes p) (\<lambda>p.
    bind_sum (number_fraction r start maxRawBytes p) (\<lambda>p.
    number_exponent r start maxRawBytes p)))"

section \<open>Errors that a layer owns\<close>

definition scopeHasError :: "structuralScanner \<Rightarrow> ValidationScope \<Rightarrow> bool" where
  "scopeHasError sc scope =
    (if \<not> collectProtocolErrors sc then False
     else case scope of
       ScopeProtocolEnvelope \<Rightarrow> envelopeError sc \<noteq> None
     | ScopeProtocolParams \<Rightarrow> envelopeError sc \<noteq> None \<or> paramsError sc \<noteq> None
     | _ \<Rightarrow> False)"

definition recordRecoverable ::
  "ValidationError \<Rightarrow> ValidationScope \<Rightarrow> bool \<Rightarrow> structuralScanner \<Rightarrow> bool \<times> structuralScanner" where
  "recordRecoverable e scope deferred sc =
    (if ve_kind e = KindSyntax \<or>
        ve_kind e = KindUnicode \<and> \<not> byte_at (raw sc) (ve_position e) (CHR 0x5C)
     then (False, sc)
     else
       let result = e\<lparr>ve_scope := scope\<rparr> in
       if deferred \<and> sc_mode sc = ProtocolWithRawArguments \<and> ve_kind e \<in> {KindDuplicate, KindUnicode}
       then
         let result = (if collectProtocolErrors sc then result else result\<lparr>ve_scope := ScopeValue\<rparr>) in
         (True, if deferredError sc = None then sc\<lparr>deferredError := Some result\<rparr> else sc)
       else if \<not> collectProtocolErrors sc then (False, sc)
       else case scope of
         ScopeProtocolEnvelope \<Rightarrow>
           (True, if envelopeError sc = None then sc\<lparr>envelopeError := Some result\<rparr> else sc)
       | ScopeProtocolParams \<Rightarrow>
           (True, if paramsError sc = None then sc\<lparr>paramsError := Some result\<rparr> else sc)
       | _ \<Rightarrow> (False, sc))"

text \<open>\<open>if !recordRecoverable(err, ...) { return err }\<close>.\<close>

definition record_or_fail ::
  "ValidationError \<Rightarrow> ValidationScope \<Rightarrow> bool \<Rightarrow> structuralScanner \<Rightarrow> ValidationError + structuralScanner" where
  "record_or_fail e scope deferred sc =
    (case recordRecoverable e scope deferred sc of (True, sc') \<Rightarrow> Inr sc' | (False, _) \<Rightarrow> Inl e)"

definition documentError :: "structuralScanner \<Rightarrow> ValidationError \<Rightarrow> ValidationError" where
  "documentError sc e = (if \<not> collectProtocolErrors sc then e else e\<lparr>ve_scope := ScopeDocument\<rparr>)"

definition incrementSaturating :: "nat \<Rightarrow> nat" where
  "incrementSaturating v = (if v \<noteq> max_uint64 then v + 1 else v)"

definition chargeProtocolItem :: "nat \<Rightarrow> ValidationScope \<Rightarrow> structuralScanner \<Rightarrow> structuralScanner" where
  "chargeProtocolItem p scope sc0 =
    (let sc = sc0\<lparr>totalItems := incrementSaturating (totalItems sc0)\<rparr>;
         sc = (case scope of
           ScopeProtocolEnvelope \<Rightarrow>
             sc\<lparr>protocolEnvelopeFirst := (case protocolEnvelopeFirst sc of None \<Rightarrow> Some p | Some q \<Rightarrow> Some q),
                protocolEnvelopeItems := incrementSaturating (protocolEnvelopeItems sc)\<rparr>
         | ScopeProtocolParams \<Rightarrow>
             sc\<lparr>protocolParamsFirst := (case protocolParamsFirst sc of None \<Rightarrow> Some p | Some q \<Rightarrow> Some q),
                protocolParamsItems := incrementSaturating (protocolParamsItems sc)\<rparr>
         | _ \<Rightarrow> sc)
     in if totalItems sc > MaxContainerItems (sc_limits sc) then sc\<lparr>containerItemsExhausted := True\<rparr> else sc)"

definition chargeItem ::
  "nat \<Rightarrow> ValidationScope \<Rightarrow> bool \<Rightarrow> structuralScanner \<Rightarrow> ValidationError + structuralScanner" where
  "chargeItem p scope deferred sc =
    (if collectProtocolErrors sc then Inr (chargeProtocolItem p scope sc)
     else if totalItems sc \<ge> MaxContainerItems (sc_limits sc)
     then record_or_fail (newValidationError KindResource p) scope deferred sc
     else Inr (sc\<lparr>totalItems := totalItems sc + 1\<rparr>))"

definition exhaust_members :: "structuralScanner \<Rightarrow> ValidationError + structuralScanner" where
  "exhaust_members sc =
    (let frame = hd (stack sc) in
     if \<not> cf_membersExhausted frame \<and> cf_members frame \<ge> MaxObjectMembers (sc_limits sc) then
       (let sc1 = map_top (\<lambda>f. f\<lparr>cf_membersExhausted := True\<rparr>) sc in
        if scopeHasError sc1 (cf_scope frame) then Inr sc1
        else record_or_fail (newValidationError KindResource (position sc1)) (cf_scope frame) (cf_deferred frame) sc1)
     else Inr sc)"

definition chargeObjectMember :: "structuralScanner \<Rightarrow> ValidationError + structuralScanner" where
  "chargeObjectMember sc =
    (let frame = hd (stack sc) in
     bind_sum (exhaust_members sc)
       (\<lambda>sc2. bind_sum (chargeItem (position sc2) (cf_scope frame) (cf_deferred frame) sc2)
       (\<lambda>sc3. Inr (map_top (\<lambda>f. if \<not> cf_membersExhausted f then f\<lparr>cf_members := cf_members f + 1\<rparr> else f) sc3))))"

definition finishContainerItemLimit :: "structuralScanner \<Rightarrow> structuralScanner" where
  "finishContainerItemLimit sc =
    (if \<not> collectProtocolErrors sc \<or> \<not> containerItemsExhausted sc then sc
     else
       let (scope, first) =
             (if protocolEnvelopeItems sc > MaxContainerItems (sc_limits sc)
              then (ScopeProtocolEnvelope, protocolEnvelopeFirst sc)
              else (ScopeProtocolParams, protocolParamsFirst sc));
           p = (case first of None \<Rightarrow> 0 | Some q \<Rightarrow> q)
       in snd (recordRecoverable (newValidationError KindResource p) scope False sc))"

section \<open>Values\<close>

definition scanString ::
  "nat \<Rightarrow> nat \<Rightarrow> bool \<Rightarrow> ValidationScope \<Rightarrow> bool \<Rightarrow> structuralScanner \<Rightarrow>
    ValidationError + bytes \<times> Span \<times> structuralScanner" where
  "scanString start maxDecodedBytes capture scope deferred sc =
    (let semanticValidation = (\<not> deferred \<or> sc_mode sc = ProtocolWithRawArguments);
         semanticRecovery = (scopeHasError sc scope \<or> deferred \<and> deferredError sc \<noteq> None);
         limit = (if scopeHasError sc scope then max_uint64 else maxDecodedBytes) in
     case scanJSONStringSemantics (raw sc) start limit (capture \<and> semanticValidation \<and> \<not> semanticRecovery)
            (semanticValidation \<and> \<not> semanticRecovery) of
       Inr (val, sp) \<Rightarrow> Inr (val, sp, sc)
     | Inl e1 \<Rightarrow>
       bind_sum (record_or_fail e1 scope deferred sc) (\<lambda>sc1.
         let limit = (if scopeHasError sc1 scope then max_uint64 else maxDecodedBytes) in
         case scanJSONStringSemantics (raw sc1) start limit False False of
           Inr (_, sp) \<Rightarrow> Inr ([], sp, sc1)
         | Inl e2 \<Rightarrow>
           bind_sum (record_or_fail e2 scope deferred sc1) (\<lambda>sc2.
             bind_sum (scanJSONStringSemantics (raw sc2) start max_uint64 False False) (\<lambda>(_, sp).
               Inr ([], sp, sc2)))))"

definition scanNumberRecovering ::
  "ValidationScope \<Rightarrow> bool \<Rightarrow> structuralScanner \<Rightarrow> ValidationError + structuralScanner" where
  "scanNumberRecovering scope deferred sc =
    (let start = position sc;
         limit = (if scopeHasError sc scope then max_uint64 else MaxNumberRawBytes (sc_limits sc)) in
     case scanNumber (raw sc) start limit of
       Inr p \<Rightarrow> Inr (sc\<lparr>position := p\<rparr>)
     | Inl e \<Rightarrow>
       bind_sum (record_or_fail e scope deferred sc) (\<lambda>sc1.
         bind_sum (scanNumber (raw sc1) start max_uint64) (\<lambda>p. Inr (sc1\<lparr>position := p\<rparr>))))"

definition pushContainer ::
  "ValueKind \<Rightarrow> containerState \<Rightarrow> containerRole \<Rightarrow> ValidationScope \<Rightarrow> bool \<Rightarrow> structuralScanner \<Rightarrow>
    ValidationError + structuralScanner" where
  "pushContainer kind state role scope deferred sc =
    (if overflow sc \<noteq> [] \<or> stack sc \<noteq> [] \<and> cf_compactChildren (hd (stack sc))
     then Inr (sc\<lparr>position := position sc + 1, overflow := state # overflow sc\<rparr>)
     else
       let tooDeep = (length (stack sc) \<ge> MaxDepth (sc_limits sc)) in
       bind_sum
         (if tooDeep \<and> \<not> scopeHasError sc scope
          then record_or_fail (newValidationError KindResource (position sc)) scope deferred sc
          else Inr sc)
         (\<lambda>sc1. Inr (sc1\<lparr>position := position sc1 + 1,
            stack := \<lparr>cf_kind = kind, cf_state = state, cf_role = role, cf_scope = scope, cf_deferred = deferred,
              cf_compactChildren = tooDeep, cf_start = position sc1, cf_members = 0,
              cf_membersExhausted = False, cf_pendingKey = [], cf_pendingKeySpan = zeroSpan,
              cf_rootMemberIndex = None, cf_paramsMemberIndex = None, cf_rootElementIndex = None,
              cf_seenKeys = {}\<rparr> # stack sc1\<rparr>)))"

definition scanValue ::
  "containerRole \<Rightarrow> ValidationScope \<Rightarrow> bool \<Rightarrow> structuralScanner \<Rightarrow>
    ValidationError + ValueKind \<times> structuralScanner" where
  "scanValue role scope deferred sc =
    (if position sc \<ge> length (raw sc) then Inl (newValidationError KindSyntax (length (raw sc)))
     else let c = raw sc ! position sc in
       if c = CHR ''{'' then
         bind_sum (pushContainer JObject ObjectFirstKeyOrEnd role scope deferred sc) (\<lambda>sc1. Inr (JObject, sc1))
       else if c = CHR ''['' then
         bind_sum (pushContainer JArray ArrayFirstValueOrEnd role scope deferred sc) (\<lambda>sc1. Inr (JArray, sc1))
       else if c = CHR 0x22 then
         bind_sum (scanString (position sc) (MaxStringBytes (sc_limits sc)) False scope deferred sc)
           (\<lambda>(_, sp, sc1). Inr (JString, sc1\<lparr>position := End sp\<rparr>))
       else if c = CHR ''t'' then bind_sum (consumeLiteral ''true'' sc) (\<lambda>sc1. Inr (JTrue, sc1))
       else if c = CHR ''f'' then bind_sum (consumeLiteral ''false'' sc) (\<lambda>sc1. Inr (JFalse, sc1))
       else if c = CHR ''n'' then bind_sum (consumeLiteral ''null'' sc) (\<lambda>sc1. Inr (JNull, sc1))
       else if c = CHR ''-'' \<or> isDecimalDigit c then
         bind_sum (scanNumberRecovering scope deferred sc) (\<lambda>sc1. Inr (JNumber, sc1))
       else Inl (invalidAt (raw sc) (position sc)))"

section \<open>The protocol keys\<close>

text \<open>\<open>jsonStringEquals\<close>: the raw string \<open>body\<close> between the quotes denotes the ASCII text \<open>want\<close>.\<close>

function json_text_equals :: "bytes \<Rightarrow> bytes \<Rightarrow> nat \<Rightarrow> nat \<Rightarrow> bytes \<Rightarrow> bool" where
  "json_text_equals r want p stop left =
    (if p < stop \<and> p < length r then
       (let decoded =
          (if r ! p = CHR 0x5C then
             (case decodeJSONEscape (drop p r) p False of Inl _ \<Rightarrow> None | Inr (v, w) \<Rightarrow> Some (v, p + w))
           else if byte_val (r ! p) \<ge> 0x80 then None
           else Some (byte_val (r ! p), p + 1))
        in case decoded of
          None \<Rightarrow> False
        | Some (v, p') \<Rightarrow>
            (case left of
               [] \<Rightarrow> False
             | c # left' \<Rightarrow>
                 if v > 0x7f \<or> v \<noteq> byte_val c then False else json_text_equals r want p' stop left'))
     else left = [])"
  by pat_completeness auto
termination
  by (relation "measure (\<lambda>(r, want, p, stop, left). length left)") auto

definition jsonStringEquals :: "bytes \<Rightarrow> Span \<Rightarrow> bytes \<Rightarrow> bool" where
  "jsonStringEquals r sp want =
    (if End sp > length r \<or> End sp < Start sp + 2 \<or> r ! Start sp \<noteq> CHR 0x22 \<or> r ! (End sp - 1) \<noteq> CHR 0x22
     then False
     else json_text_equals r want (Start sp + 1) (End sp - 1) want)"

definition knownProtocolKey :: "bytes \<Rightarrow> containerRole \<Rightarrow> Span \<Rightarrow> bytes" where
  "knownProtocolKey r role sp =
    (let names = (case role of
         RoleRoot \<Rightarrow> [''jsonrpc'', ''id'', ''method'', ''params'', ''result'', ''error'']
       | RoleParams \<Rightarrow> [''arguments'']
       | _ \<Rightarrow> []) in
     case find (jsonStringEquals r sp) names of None \<Rightarrow> [] | Some name \<Rightarrow> name)"

definition protocolRootHeaderFor :: "bytes \<Rightarrow> protocolRootHeader option" where
  "protocolRootHeaderFor key =
    (if key = ''jsonrpc'' then Some HeaderJSONRPC
     else if key = ''id'' then Some HeaderID
     else if key = ''method'' then Some HeaderMethod
     else if key = ''params'' then Some HeaderParams
     else if key = ''result'' then Some HeaderResult
     else if key = ''error'' then Some HeaderError
     else None)"

definition shouldCaptureRootMember :: "structuralScanner \<Rightarrow> bytes \<Rightarrow> bool" where
  "shouldCaptureRootMember sc key =
    (if \<not> collectProtocolErrors sc then True
     else if \<not> scopeHasError sc ScopeProtocolEnvelope \<and> \<not> containerItemsExhausted sc then True
     else case protocolRootHeaderFor key of None \<Rightarrow> False | Some h \<Rightarrow> h \<notin> rootHeaders sc)"

section \<open>Objects, arrays and compacted containers\<close>

definition recordRawArguments :: "ValueKind \<Rightarrow> Span \<Rightarrow> structuralScanner \<Rightarrow> structuralScanner" where
  "recordRawArguments kind sp sc =
    sc\<lparr>rawArguments := sp, rawArgumentsKind := kind, hasRawArguments := True\<rparr>"

definition close_value :: "nat \<Rightarrow> nat option \<Rightarrow> Member list \<Rightarrow> Member list" where
  "close_value p idx ms =
    (case idx of None \<Rightarrow> ms | Some i \<Rightarrow> ms[i := (ms ! i)\<lparr>m_Value := (m_Value (ms ! i))\<lparr>End := p\<rparr>\<rparr>])"

definition closeContainer :: "structuralScanner \<Rightarrow> structuralScanner" where
  "closeContainer sc =
    (let frame = hd (stack sc);
         sc1 = sc\<lparr>rootMembers := close_value (position sc) (cf_rootMemberIndex frame) (rootMembers sc),
                  paramsMembers := close_value (position sc) (cf_paramsMemberIndex frame) (paramsMembers sc),
                  rootElements := (case cf_rootElementIndex frame of
                      None \<Rightarrow> rootElements sc
                    | Some i \<Rightarrow> (rootElements sc)[i := (rootElements sc ! i)\<lparr>
                        el_Span := (el_Span (rootElements sc ! i))\<lparr>End := position sc\<rparr>\<rparr>])\<rparr>;
         sc2 = (if cf_role frame = RoleRawArguments
                then recordRawArguments (cf_kind frame) \<lparr>Start = cf_start frame, End = position sc1\<rparr> sc1
                else sc1)
     in sc2\<lparr>stack := tl (stack sc2)\<rparr>)"

text \<open>The duplicate check of \<open>scanObjectKey\<close>.\<close>

definition note_key :: "bytes \<Rightarrow> Span \<Rightarrow> structuralScanner \<Rightarrow> ValidationError + structuralScanner" where
  "note_key key sp sc =
    (let frame = hd (stack sc);
         semanticValidation = (\<not> cf_deferred frame \<or> sc_mode sc = ProtocolWithRawArguments);
         semanticRecovery = (scopeHasError sc (cf_scope frame) \<or> cf_deferred frame \<and> deferredError sc \<noteq> None) in
     if semanticValidation \<and> \<not> semanticRecovery then
       (if key \<in> cf_seenKeys frame
        then record_or_fail (newValidationError KindDuplicate (Start sp)) (cf_scope frame) (cf_deferred frame) sc
        else Inr (map_top (\<lambda>f. f\<lparr>cf_seenKeys := insert key (cf_seenKeys f)\<rparr>) sc))
     else Inr sc)"

definition scanObjectKey :: "structuralScanner \<Rightarrow> ValidationError + structuralScanner" where
  "scanObjectKey sc =
    (if \<not> byte_at (raw sc) (position sc) (CHR 0x22) then Inl (invalidAt (raw sc) (position sc))
     else bind_sum (chargeObjectMember sc) (\<lambda>sc1.
       let frame = hd (stack sc1);
           capture = ((\<not> cf_deferred frame \<or> sc_mode sc1 = ProtocolWithRawArguments) \<and>
             \<not> scopeHasError sc1 (cf_scope frame) \<and> \<not> (cf_deferred frame \<and> deferredError sc1 \<noteq> None)) in
       bind_sum (scanString (position sc1) (MaxKeyBytes (sc_limits sc1)) capture (cf_scope frame) (cf_deferred frame) sc1)
       (\<lambda>(key0, sp, sc2).
         let key = (if key0 = [] \<and> collectProtocolErrors sc2
                    then knownProtocolKey (raw sc2) (cf_role frame) sp else key0) in
         bind_sum (note_key key sp sc2)
         (\<lambda>sc3. Inr (map_top (\<lambda>f. f\<lparr>cf_pendingKey := key, cf_pendingKeySpan := sp, cf_state := ObjectColon\<rparr>)
           (sc3\<lparr>position := End sp\<rparr>))))))"

definition protocolHeaders :: "bytes \<Rightarrow> protocolRootHeader set" where
  "protocolHeaders key = set_option (protocolRootHeaderFor key)"

text \<open>\<open>pushed\<close>: the value opened a container frame, whose end is not known yet.\<close>

definition capture_member ::
  "bytes \<Rightarrow> Span \<Rightarrow> nat \<Rightarrow> bool \<Rightarrow> ValueKind \<Rightarrow> structuralScanner \<Rightarrow> Member" where
  "capture_member key keySpan start pushed kind sc =
    \<lparr>m_Key = key, m_KeySpan = keySpan, m_Value = \<lparr>Start = start, End = (if pushed then 0 else position sc)\<rparr>,
     m_Kind = kind\<rparr>"

text \<open>The layer a member's value belongs to: \<open>params\<close> of the root object, \<open>arguments\<close> of params.\<close>

definition value_layer :: "Mode \<Rightarrow> containerFrame \<Rightarrow> containerRole \<times> ValidationScope \<times> bool" where
  "value_layer mode frame =
    (if \<not> cf_deferred frame \<and> mode = ProtocolWithRawArguments then
       (if cf_role frame = RoleRoot \<and> cf_pendingKey frame = ''params''
        then (RoleParams, ScopeProtocolParams, cf_deferred frame)
        else if cf_role frame = RoleParams \<and> cf_pendingKey frame = ''arguments''
        then (RoleRawArguments, cf_scope frame, True)
        else (RoleGeneric, cf_scope frame, cf_deferred frame))
     else (RoleGeneric, cf_scope frame, cf_deferred frame))"

definition record_method ::
  "containerFrame \<Rightarrow> ValueKind \<Rightarrow> nat \<Rightarrow> structuralScanner \<Rightarrow> ValidationError + structuralScanner" where
  "record_method frame kind start sc =
    (if cf_role frame = RoleRoot \<and> cf_pendingKey frame = ''method'' then
       (let sc1 = sc\<lparr>methodIsString := (kind = JString)\<rparr> in
        if kind = JString \<and> \<not> scopeHasError sc1 ScopeProtocolEnvelope then
          (case decodeJSONString (raw sc1) start of
             Inl e \<Rightarrow> record_or_fail e ScopeProtocolEnvelope False sc1
           | Inr (meth, _) \<Rightarrow> Inr (sc1\<lparr>sc_method := meth\<rparr>))
        else Inr sc1)
     else Inr sc)"

definition capture_root ::
  "containerFrame \<Rightarrow> ValueKind \<Rightarrow> nat \<Rightarrow> bool \<Rightarrow> bool \<Rightarrow> structuralScanner \<Rightarrow> structuralScanner" where
  "capture_root frame kind start pushed compacted sc =
    (if cf_role frame = RoleRoot \<and> captureRootMembers sc \<and>
        shouldCaptureRootMember sc (cf_pendingKey frame) \<and> \<not> compacted then
       (let sc1 = (if pushed then map_top (\<lambda>f. f\<lparr>cf_rootMemberIndex := Some (length (rootMembers sc))\<rparr>) sc else sc)
        in sc1\<lparr>rootMembers := rootMembers sc1 @
                 [capture_member (cf_pendingKey frame) (cf_pendingKeySpan frame) start pushed kind sc1],
               rootHeaders := rootHeaders sc1 \<union> protocolHeaders (cf_pendingKey frame)\<rparr>)
     else sc)"

definition capture_params ::
  "containerFrame \<Rightarrow> ValueKind \<Rightarrow> nat \<Rightarrow> bool \<Rightarrow> bool \<Rightarrow> structuralScanner \<Rightarrow> structuralScanner" where
  "capture_params frame kind start pushed compacted sc =
    (if cf_role frame = RoleParams \<and> captureParamsMembers sc \<and> \<not> scopeHasError sc ScopeProtocolParams \<and>
        \<not> containerItemsExhausted sc \<and> \<not> compacted then
       (let sc1 = (if pushed then map_top (\<lambda>f. f\<lparr>cf_paramsMemberIndex := Some (length (paramsMembers sc))\<rparr>) sc else sc)
        in sc1\<lparr>paramsMembers := paramsMembers sc1 @
                 [capture_member (cf_pendingKey frame) (cf_pendingKeySpan frame) start pushed kind sc1]\<rparr>)
     else sc)"

definition scanObjectValue :: "structuralScanner \<Rightarrow> ValidationError + structuralScanner" where
  "scanObjectValue sc =
    (let frame = hd (stack sc);
         (role, scope, deferred) = value_layer (sc_mode sc) frame;
         start = position sc;
         stackDepth = length (stack sc) in
     bind_sum (scanValue role scope deferred (map_top (\<lambda>f. f\<lparr>cf_state := ObjectCommaOrEnd\<rparr>) sc)) (\<lambda>(kind, sc1).
     bind_sum (record_method frame kind start sc1) (\<lambda>sc2.
       let container = (kind = JObject \<or> kind = JArray);
           compacted = (container \<and> length (stack sc2) = stackDepth);
           pushed = (container \<and> length (stack sc2) > stackDepth);
           sc3 = capture_params frame kind start pushed compacted
                   (capture_root frame kind start pushed compacted sc2)
       in Inr (if role = RoleRawArguments \<and> \<not> container
               then recordRawArguments kind \<lparr>Start = start, End = position sc3\<rparr> sc3 else sc3))))"

definition scanArrayValue :: "structuralScanner \<Rightarrow> ValidationError + structuralScanner" where
  "scanArrayValue sc =
    (let frame = hd (stack sc) in
     bind_sum (chargeItem (position sc) (cf_scope frame) (cf_deferred frame) sc) (\<lambda>sc1.
     let start = position sc1;
         stackDepth = length (stack sc1) in
     bind_sum (scanValue RoleGeneric (cf_scope frame) (cf_deferred frame)
         (map_top (\<lambda>f. f\<lparr>cf_state := ArrayCommaOrEnd\<rparr>) sc1)) (\<lambda>(kind, sc2).
       Inr (if cf_role frame = RoleRoot \<and> captureRootElements sc2 then
         (let pushed = ((kind = JObject \<or> kind = JArray) \<and> length (stack sc2) > stackDepth);
              idx = length (rootElements sc2);
              sc' = (if pushed then map_top (\<lambda>f. f\<lparr>cf_rootElementIndex := Some idx\<rparr>) sc2 else sc2)
          in sc'\<lparr>rootElements := rootElements sc' @
               [\<lparr>el_Span = \<lparr>Start = start, End = (if pushed then 0 else position sc')\<rparr>, el_Kind = kind\<rparr>]\<rparr>)
         else sc2))))"

text \<open>\<open>take\<close> at the current position: the scanner behind the byte.\<close>

definition advance :: "structuralScanner \<Rightarrow> structuralScanner" where
  "advance sc = sc\<lparr>position := position sc + 1\<rparr>"

definition take_byte :: "char \<Rightarrow> structuralScanner \<Rightarrow> bool" where
  "take_byte want sc \<longleftrightarrow> byte_at (raw sc) (position sc) want"

abbreviation set_state :: "containerState \<Rightarrow> structuralScanner \<Rightarrow> structuralScanner" where
  "set_state st \<equiv> map_top (\<lambda>f. f\<lparr>cf_state := st\<rparr>)"

definition stepObject :: "containerState \<Rightarrow> structuralScanner \<Rightarrow> ValidationError + structuralScanner" where
  "stepObject state sc0 =
    (let sc = skipWhitespace sc0 in
     case state of
       ObjectFirstKeyOrEnd \<Rightarrow>
         if take_byte (CHR ''}'') sc then Inr (closeContainer (advance sc)) else scanObjectKey sc
     | ObjectKey \<Rightarrow> scanObjectKey sc
     | ObjectColon \<Rightarrow>
         if take_byte (CHR '':'') sc then Inr (set_state ObjectValue (advance sc))
         else Inl (invalidAt (raw sc) (position sc))
     | ObjectValue \<Rightarrow> scanObjectValue sc
     | ObjectCommaOrEnd \<Rightarrow>
         if take_byte (CHR '','') sc then Inr (set_state ObjectKey (advance sc))
         else if take_byte (CHR ''}'') sc then Inr (closeContainer (advance sc))
         else Inl (invalidAt (raw sc) (position sc))
     | _ \<Rightarrow> Inl (newValidationError KindSyntax (position sc)))"

definition stepArray :: "containerState \<Rightarrow> structuralScanner \<Rightarrow> ValidationError + structuralScanner" where
  "stepArray state sc0 =
    (let sc = skipWhitespace sc0 in
     case state of
       ArrayFirstValueOrEnd \<Rightarrow>
         if take_byte (CHR '']'') sc then Inr (closeContainer (advance sc)) else scanArrayValue sc
     | ArrayValue \<Rightarrow> scanArrayValue sc
     | ArrayCommaOrEnd \<Rightarrow>
         if take_byte (CHR '','') sc then Inr (set_state ArrayValue (advance sc))
         else if take_byte (CHR '']'') sc then Inr (closeContainer (advance sc))
         else Inl (invalidAt (raw sc) (position sc))
     | _ \<Rightarrow> Inl (newValidationError KindSyntax (position sc)))"

definition scanOverflowObjectKey :: "structuralScanner \<Rightarrow> ValidationError + structuralScanner" where
  "scanOverflowObjectKey sc =
    bind_sum (scanJSONStringSemantics (raw sc) (position sc) max_uint64 False False) (\<lambda>(_, sp).
      Inr (sc\<lparr>position := End sp, overflow := ObjectColon # tl (overflow sc)\<rparr>))"

definition scanOverflowValue :: "structuralScanner \<Rightarrow> ValidationError + structuralScanner" where
  "scanOverflowValue sc =
    (case stack sc of
       [] \<Rightarrow> Inl (newValidationError KindSyntax (position sc))
     | frame # _ \<Rightarrow>
         bind_sum (scanValue RoleGeneric (cf_scope frame) (cf_deferred frame) sc) (\<lambda>(_, sc1). Inr sc1))"

abbreviation set_overflow :: "containerState \<Rightarrow> structuralScanner \<Rightarrow> structuralScanner" where
  "set_overflow st sc \<equiv> sc\<lparr>overflow := st # tl (overflow sc)\<rparr>"

abbreviation pop_overflow :: "structuralScanner \<Rightarrow> structuralScanner" where
  "pop_overflow sc \<equiv> sc\<lparr>overflow := tl (overflow sc)\<rparr>"

definition stepOverflow :: "structuralScanner \<Rightarrow> ValidationError + structuralScanner" where
  "stepOverflow sc0 =
    (let sc = skipWhitespace sc0 in
     case hd (overflow sc) of
       ObjectFirstKeyOrEnd \<Rightarrow>
         if take_byte (CHR ''}'') sc then Inr (pop_overflow (advance sc)) else scanOverflowObjectKey sc
     | ObjectKey \<Rightarrow> scanOverflowObjectKey sc
     | ObjectColon \<Rightarrow>
         if take_byte (CHR '':'') sc then Inr (set_overflow ObjectValue (advance sc))
         else Inl (invalidAt (raw sc) (position sc))
     | ObjectValue \<Rightarrow> scanOverflowValue (set_overflow ObjectCommaOrEnd sc)
     | ObjectCommaOrEnd \<Rightarrow>
         if take_byte (CHR '','') sc then Inr (set_overflow ObjectKey (advance sc))
         else if take_byte (CHR ''}'') sc then Inr (pop_overflow (advance sc))
         else Inl (invalidAt (raw sc) (position sc))
     | ArrayFirstValueOrEnd \<Rightarrow>
         if take_byte (CHR '']'') sc then Inr (pop_overflow (advance sc))
         else scanOverflowValue (set_overflow ArrayCommaOrEnd sc)
     | ArrayValue \<Rightarrow> scanOverflowValue (set_overflow ArrayCommaOrEnd sc)
     | ArrayCommaOrEnd \<Rightarrow>
         if take_byte (CHR '','') sc then Inr (set_overflow ArrayValue (advance sc))
         else if take_byte (CHR '']'') sc then Inr (pop_overflow (advance sc))
         else Inl (invalidAt (raw sc) (position sc)))"

definition stepContainer :: "structuralScanner \<Rightarrow> ValidationError + structuralScanner" where
  "stepContainer sc =
    (if overflow sc \<noteq> [] then stepOverflow sc
     else let frame = hd (stack sc) in
       if cf_kind frame = JObject then stepObject (cf_state frame) sc
       else stepArray (cf_state frame) sc)"

section \<open>Progress\<close>

text \<open>\<open>kept\<close>: the operation does not move and changes no configuration; \<open>moved\<close>: it consumes at least
  one byte and stays inside the input.\<close>

definition config_same :: "structuralScanner \<Rightarrow> structuralScanner \<Rightarrow> bool" where
  "config_same sc sc' \<longleftrightarrow> raw sc' = raw sc \<and> sc_limits sc' = sc_limits sc \<and> sc_mode sc' = sc_mode sc \<and>
    collectProtocolErrors sc' = collectProtocolErrors sc"

definition kept :: "structuralScanner \<Rightarrow> structuralScanner \<Rightarrow> bool" where
  "kept sc sc' \<longleftrightarrow> config_same sc sc' \<and> position sc' = position sc"

definition moved :: "structuralScanner \<Rightarrow> structuralScanner \<Rightarrow> bool" where
  "moved sc sc' \<longleftrightarrow> config_same sc sc' \<and> position sc < position sc' \<and> position sc' \<le> length (raw sc)"

lemma config_refl [simp]: "config_same sc sc" by (simp add: config_same_def)

lemma config_trans [trans]: "config_same a b \<Longrightarrow> config_same b c \<Longrightarrow> config_same a c"
  by (simp add: config_same_def)

lemma kept_refl [simp]: "kept sc sc" by (simp add: kept_def)

lemma kept_trans: "kept a b \<Longrightarrow> kept b c \<Longrightarrow> kept a c"
  by (auto simp: kept_def intro: config_trans)

lemma kept_moved: "kept a b \<Longrightarrow> moved b c \<Longrightarrow> moved a c"
  by (auto simp: kept_def moved_def config_same_def)

lemma moved_kept: "moved a b \<Longrightarrow> kept b c \<Longrightarrow> moved a c"
  by (auto simp: kept_def moved_def config_same_def)

lemma scan_string_loop_span:
  "scan_string_loop capture vs limit start rest p n d = Inr (s, sp) \<Longrightarrow>
    Start sp = start \<and> p < End sp \<and> End sp \<le> p + length rest"
proof (induction capture vs limit start rest p n d rule: scan_string_loop.induct)
  case (1 capture vs limit start p n d)
  then show ?case by (simp add: verr_def)
next
  case (2 capture vs limit start c cs p n d)
  note def = scan_string_loop.simps(2) [of capture vs limit start c cs p n d]
  consider (quote) "c = CHR 0x22" | (esc) "c \<noteq> CHR 0x22" "c = CHR 0x5C"
    | (ascii) "c \<noteq> CHR 0x22" "c \<noteq> CHR 0x5C" "\<not> byte_val c < 0x20" "byte_val c < 0x80"
    | (bad) "c \<noteq> CHR 0x22" "c \<noteq> CHR 0x5C" "byte_val c < 0x20"
    | (high) "c \<noteq> CHR 0x22" "c \<noteq> CHR 0x5C" "\<not> byte_val c < 0x20" "\<not> byte_val c < 0x80"
    by blast
  then show ?case
  proof cases
    case quote
    then show ?thesis using "2.prems" def by auto
  next
    case bad
    then show ?thesis using "2.prems" def by (simp add: verr_def)
  next
    case esc
    obtain v w where e: "decodeJSONEscape (c # cs) p vs = Inr (v, w)"
      using esc "2.prems" def by (cases "decodeJSONEscape (c # cs) p vs") auto
    have lim: "\<not> decodedLimitExceeded n (nat (RuneLen v)) limit"
      using esc "2.prems" e unfolding def by (auto simp: verr_def)
    have rec: "scan_string_loop capture vs limit start (drop w (c # cs)) (p + w) (n + nat (RuneLen v))
        (if capture then d @ EncodeRune v else d) = Inr (s, sp)"
      using esc "2.prems" e lim unfolding def by (simp add: verr_def)
    have "Start sp = start \<and> p + w < End sp \<and> End sp \<le> p + w + length (drop w (c # cs))"
      using "2.IH"(1) [OF esc e refl refl lim rec] by blast
    then show ?thesis using decodeJSONEscape_consumed [OF e] by auto
  next
    case ascii
    have lim: "\<not> decodedLimitExceeded n 1 limit"
      using ascii "2.prems" unfolding def by (auto simp: verr_def)
    have rec: "scan_string_loop capture vs limit start cs (p + 1) (n + 1) (if capture then d @ [c] else d) = Inr (s, sp)"
      using ascii "2.prems" lim unfolding def by (simp add: verr_def)
    show ?thesis using "2.IH"(2) [OF ascii lim rec] by auto
  next
    case high
    obtain r w where e: "utf8_next (c # cs) p = Inr (r, w)"
      using high "2.prems" def by (cases "utf8_next (c # cs) p") auto
    have lim: "\<not> decodedLimitExceeded n w limit"
      using high "2.prems" e unfolding def by (auto simp: verr_def)
    have rec: "scan_string_loop capture vs limit start (drop w (c # cs)) (p + w) (n + w)
        (if capture then d @ take w (c # cs) else d) = Inr (s, sp)"
      using high "2.prems" e lim unfolding def by (simp add: verr_def)
    have "Start sp = start \<and> p + w < End sp \<and> End sp \<le> p + w + length (drop w (c # cs))"
      using "2.IH"(3) [OF high e refl lim rec] by blast
    then show ?thesis using utf8_next_Inr(4) [OF e] by auto
  qed
qed

lemma scanSemantics_span:
  assumes "scanJSONStringSemantics r start limit capture vs = Inr (s, sp)"
  shows "Start sp = start \<and> start < End sp \<and> End sp \<le> length r"
proof -
  have st: "start < length r" and
    l: "scan_string_loop capture vs limit start (drop (start + 1) r) (start + 1) 0 [] = Inr (s, sp)"
    using assms by (auto simp: scanJSONStringSemantics_def verr_def split: if_splits)
  show ?thesis using scan_string_loop_span [OF l] st by auto
qed

lemma record_kept: "record_or_fail e scope deferred sc = Inr sc' \<Longrightarrow> kept sc sc'"
  by (auto simp: record_or_fail_def recordRecoverable_def kept_def config_same_def Let_def
      split: if_splits bool.splits prod.splits ValidationScope.splits)

lemma scanString_kept:
  assumes "scanString start limit capture scope deferred sc = Inr (val, sp, sc')"
  shows "kept sc sc' \<and> Start sp = start \<and> start < End sp \<and> End sp \<le> length (raw sc)"
proof -
  let ?c = "capture \<and> (\<not> deferred \<or> sc_mode sc = ProtocolWithRawArguments) \<and>
    \<not> (scopeHasError sc scope \<or> deferred \<and> deferredError sc \<noteq> None)"
  let ?v = "(\<not> deferred \<or> sc_mode sc = ProtocolWithRawArguments) \<and>
    \<not> (scopeHasError sc scope \<or> deferred \<and> deferredError sc \<noteq> None)"
  let ?l = "if scopeHasError sc scope then max_uint64 else limit"
  show ?thesis
  proof (cases "scanJSONStringSemantics (raw sc) start ?l ?c ?v")
    case (Inr x)
    then show ?thesis using assms scanSemantics_span [of "raw sc" start ?l ?c ?v]
      by (cases x) (auto simp: scanString_def Let_def)
  next
    case (Inl e1)
    then obtain sc1 where sc1: "record_or_fail e1 scope deferred sc = Inr sc1"
      using assms by (auto simp: scanString_def Let_def bind_sum_Inr)
    let ?l1 = "if scopeHasError sc1 scope then max_uint64 else limit"
    have k1: "kept sc sc1" using record_kept [OF sc1] .
    show ?thesis
    proof (cases "scanJSONStringSemantics (raw sc1) start ?l1 False False")
      case r: (Inr x)
      then show ?thesis using assms Inl sc1 k1 scanSemantics_span [of "raw sc1" start ?l1 False False]
        by (cases x) (auto simp: scanString_def Let_def kept_def config_same_def)
    next
      case r: (Inl e2)
      then obtain sc2 where sc2: "record_or_fail e2 scope deferred sc1 = Inr sc2"
        using assms Inl sc1 by (auto simp: scanString_def Let_def bind_sum_Inr)
      have k2: "kept sc sc2" using kept_trans [OF k1 record_kept [OF sc2]] .
      show ?thesis using assms Inl sc1 r sc2 k2
        by (auto simp: scanString_def Let_def bind_sum_Inr kept_def config_same_def dest!: scanSemantics_span)
    qed
  qed
qed

lemma digit_loop_bounds: "digit_loop r start mx p = Inr q \<Longrightarrow> p \<le> length r \<Longrightarrow> p \<le> q \<and> q \<le> length r"
proof (induction r start mx p rule: digit_loop.induct)
  case (1 r start mx p)
  show ?case
  proof (cases "digit_at r p")
    case True
    then have "digit_loop r start mx (p + 1) = Inr q" "p + 1 \<le> length r"
      using "1.prems" by (auto simp: digit_loop.simps [of r start mx p] bind_sum_Inr digit_at_def)
    from "1.IH" [OF True this] show ?thesis by simp
  next
    case False
    then show ?thesis using "1.prems" by (simp add: digit_loop.simps)
  qed
qed

lemma number_byte_bounds: "number_byte r start mx p wants = Inr (b, q) \<Longrightarrow> p \<le> length r \<Longrightarrow>
    p \<le> q \<and> q \<le> length r \<and> (b \<longrightarrow> p < q)"
  by (auto simp: number_byte_def bind_sum_Inr split: if_splits)

lemma number_digits_bounds:
  assumes "number_digits r start mx p = Inr q"
  shows "p < q \<and> q \<le> length r"
proof -
  have d: "digit_at r p" "digit_loop r start mx p = Inr q"
    using assms by (auto simp: number_digits_def split: if_splits)
  then have "digit_loop r start mx (p + 1) = Inr q" "p + 1 \<le> length r"
    by (auto simp: digit_loop.simps [of r start mx p] bind_sum_Inr digit_at_def)
  from digit_loop_bounds [OF this] show ?thesis by simp
qed

lemma number_parts_bounds:
  "number_integer r start mx p = Inr q \<Longrightarrow> p < q \<and> q \<le> length r"
  "number_fraction r start mx p = Inr q \<Longrightarrow> p \<le> length r \<Longrightarrow> p \<le> q \<and> q \<le> length r"
  "number_exponent r start mx p = Inr q \<Longrightarrow> p \<le> length r \<Longrightarrow> p \<le> q \<and> q \<le> length r"
    apply (auto simp: number_integer_def bind_sum_Inr split: if_splits
      dest!: number_byte_bounds number_digits_bounds)[1]
   apply (auto simp: number_fraction_def bind_sum_Inr split: if_splits
      dest!: number_byte_bounds number_digits_bounds)[1]
  apply (auto simp: number_exponent_def bind_sum_Inr split: if_splits
      dest!: number_byte_bounds number_digits_bounds)[1]
  done

lemma scanNumber_bounds:
  assumes "scanNumber r start mx = Inr q" "start \<le> length r"
  shows "start < q \<and> q \<le> length r"
proof -
  obtain b p1 p2 p3 where n: "number_byte r start mx start ''-'' = Inr (b, p1)"
    "number_integer r start mx p1 = Inr p2" "number_fraction r start mx p2 = Inr p3"
    "number_exponent r start mx p3 = Inr q"
    using assms(1) by (auto simp: scanNumber_def bind_sum_Inr)
  show ?thesis
    using number_byte_bounds [OF n(1) assms(2)] number_parts_bounds(1) [OF n(2)]
      number_parts_bounds(2) [OF n(3)] number_parts_bounds(3) [OF n(4)] by linarith
qed

lemma kept_simps [simp]:
  "kept sc (sc\<lparr>stack := st\<rparr>)" "kept sc (sc\<lparr>totalItems := n\<rparr>)"
  by (simp_all add: kept_def config_same_def)

lemma chargeItem_kept: "chargeItem p scope deferred sc = Inr sc' \<Longrightarrow> kept sc sc'"
  by (auto simp: chargeItem_def chargeProtocolItem_def Let_def kept_def config_same_def
      dest!: record_kept split: if_splits ValidationScope.splits)

lemma exhaust_members_kept: "exhaust_members sc = Inr sc' \<Longrightarrow> kept sc sc'"
  by (auto simp: exhaust_members_def Let_def kept_def config_same_def dest!: record_kept split: if_splits)

lemma note_key_kept: "note_key key sp sc = Inr sc' \<Longrightarrow> kept sc sc'"
  by (auto simp: note_key_def Let_def kept_def config_same_def dest!: record_kept split: if_splits)

lemma chargeObjectMember_kept:
  assumes "chargeObjectMember sc = Inr sc'"
  shows "kept sc sc'"
proof -
  obtain sc2 sc3 where "exhaust_members sc = Inr sc2"
    "chargeItem (position sc2) (cf_scope (hd (stack sc))) (cf_deferred (hd (stack sc))) sc2 = Inr sc3"
    "kept sc3 sc'"
    using assms unfolding chargeObjectMember_def Let_def by (auto simp: bind_sum_Inr)
  then show ?thesis using exhaust_members_kept chargeItem_kept kept_trans by blast
qed

lemma pushContainer_moved:
  assumes "pushContainer kind state role scope deferred sc = Inr sc'" "position sc < length (raw sc)"
  shows "moved sc sc'"
  using assms
  by (auto simp: pushContainer_def Let_def bind_sum_Inr moved_def config_same_def kept_def
      dest!: record_kept split: if_splits)

lemma literal_loop_bounds: "literal_loop r p want = Inr () \<Longrightarrow> p \<le> length r \<Longrightarrow> p + length want \<le> length r"
  by (induction r p want rule: literal_loop.induct) (auto split: if_splits)

lemma consumeLiteral_moved:
  "consumeLiteral want sc = Inr sc' \<Longrightarrow> position sc < length (raw sc) \<Longrightarrow> want \<noteq> [] \<Longrightarrow> moved sc sc'"
  using literal_loop_bounds [of "raw sc" "position sc" want]
  by (auto simp: consumeLiteral_def bind_sum_Inr moved_def config_same_def)

lemma scanNumberRecovering_moved:
  assumes "scanNumberRecovering scope deferred sc = Inr sc'" "position sc < length (raw sc)"
  shows "moved sc sc'"
proof -
  let ?l = "if scopeHasError sc scope then max_uint64 else MaxNumberRawBytes (sc_limits sc)"
  show ?thesis
  proof (cases "scanNumber (raw sc) (position sc) ?l")
    case (Inr q)
    then show ?thesis using assms scanNumber_bounds [OF Inr]
      by (auto simp: scanNumberRecovering_def Let_def moved_def config_same_def)
  next
    case (Inl e)
    then obtain sc1 q where sc1: "record_or_fail e scope deferred sc = Inr sc1"
      "scanNumber (raw sc1) (position sc) max_uint64 = Inr q" "sc' = sc1\<lparr>position := q\<rparr>"
      using assms by (auto simp: scanNumberRecovering_def Let_def bind_sum_Inr)
    then show ?thesis using record_kept [OF sc1(1)] scanNumber_bounds [OF sc1(2)] assms(2)
      by (auto simp: moved_def kept_def config_same_def)
  qed
qed

lemma scanValue_moved:
  assumes "scanValue role scope deferred sc = Inr (kind, sc')"
  shows "moved sc sc'"
proof -
  have p: "position sc < length (raw sc)" using assms by (auto simp: scanValue_def split: if_splits)
  have str: "moved sc (sc1\<lparr>position := End sp\<rparr>)"
    if "scanString (position sc) limit False scope deferred sc = Inr (v, sp, sc1)" for limit v sp sc1
    using scanString_kept [OF that] by (auto simp: moved_def kept_def config_same_def)
  show ?thesis
    using assms p unfolding scanValue_def Let_def
    by (auto simp: bind_sum_Inr intro: pushContainer_moved consumeLiteral_moved scanNumberRecovering_moved str
        split: if_splits)
qed

lemma closeContainer_kept: "kept sc (closeContainer sc)"
  by (simp add: closeContainer_def Let_def recordRawArguments_def kept_def config_same_def)

lemma skipWhitespace_bounds:
  "position sc \<le> length (raw sc) \<Longrightarrow> position (skipWhitespace sc) \<le> length (raw sc)"
  "position sc \<le> position (skipWhitespace sc)" "config_same sc (skipWhitespace sc)"
  "raw (skipWhitespace sc) = raw sc"
  using length_takeWhile_le [of ws "drop (position sc) (raw sc)"]
  by (auto simp: skipWhitespace_def config_same_def)

lemma skip_moved: "moved (skipWhitespace sc) sc' \<Longrightarrow> moved sc sc'"
  using skipWhitespace_bounds(2,3) [of sc] by (auto simp: moved_def config_same_def)

lemma advance_moved: "take_byte want sc \<Longrightarrow> moved sc (advance sc)"
  by (auto simp: take_byte_def byte_at_def advance_def moved_def config_same_def)

lemma scanObjectKey_moved:
  assumes "scanObjectKey sc = Inr sc'"
  shows "moved sc sc'"
proof -
  obtain sc1 where 1: "chargeObjectMember sc = Inr sc1"
    using assms unfolding scanObjectKey_def by (auto simp: bind_sum_Inr split: if_splits)
  let ?frame = "hd (stack sc1)"
  let ?cap = "(\<not> cf_deferred ?frame \<or> sc_mode sc1 = ProtocolWithRawArguments) \<and>
    \<not> scopeHasError sc1 (cf_scope ?frame) \<and> \<not> (cf_deferred ?frame \<and> deferredError sc1 \<noteq> None)"
  obtain key0 sp sc2 where 2: "scanString (position sc1) (MaxKeyBytes (sc_limits sc1)) ?cap (cf_scope ?frame)
      (cf_deferred ?frame) sc1 = Inr (key0, sp, sc2)"
    using assms 1 unfolding scanObjectKey_def Let_def by (auto simp: bind_sum_Inr split: if_splits)
  then obtain key sc3 where 3: "note_key key sp sc2 = Inr sc3"
    and 4: "kept (sc3\<lparr>position := End sp\<rparr>) sc'"
    using assms 1 unfolding scanObjectKey_def Let_def by (auto simp: bind_sum_Inr split: if_splits)
  show ?thesis
    using chargeObjectMember_kept [OF 1] scanString_kept [OF 2] note_key_kept [OF 3] 4
    by (auto simp: moved_def kept_def config_same_def)
qed

lemma record_method_kept: "record_method frame kind start sc = Inr sc' \<Longrightarrow> kept sc sc'"
  by (auto simp: record_method_def Let_def kept_def config_same_def dest!: record_kept
      split: if_splits sum.splits prod.splits)

lemma capture_kept:
  "kept sc (capture_root frame kind start pushed compacted sc)"
  "kept sc (capture_params frame kind start pushed compacted sc)"
  "kept sc (recordRawArguments kind sp sc)"
  by (simp_all add: capture_root_def capture_params_def recordRawArguments_def Let_def kept_def config_same_def)

lemma scanObjectValue_moved:
  assumes "scanObjectValue sc = Inr sc'"
  shows "moved sc sc'"
proof -
  obtain role scope deferred where l: "value_layer (sc_mode sc) (hd (stack sc)) = (role, scope, deferred)"
    by (cases "value_layer (sc_mode sc) (hd (stack sc))")
  let ?sc0 = "map_top (\<lambda>f. f\<lparr>cf_state := ObjectCommaOrEnd\<rparr>) sc"
  obtain kind sc1 where 1: "scanValue role scope deferred ?sc0 = Inr (kind, sc1)"
    using assms by (auto simp: scanObjectValue_def l Let_def bind_sum_Inr)
  obtain sc2 where 2: "record_method (hd (stack sc)) kind (position sc) sc1 = Inr sc2"
    using assms 1 by (auto simp: scanObjectValue_def l Let_def bind_sum_Inr)
  have 3: "kept sc2 sc'"
    using assms 1 2 unfolding scanObjectValue_def Let_def l
    by (auto intro!: kept_trans [OF capture_kept(1) kept_trans [OF capture_kept(2) capture_kept(3)]]
        kept_trans [OF capture_kept(1) capture_kept(2)] split: if_splits)
  have "moved ?sc0 sc1" using scanValue_moved [OF 1] .
  then have "moved sc sc1" by (rule kept_moved [OF kept_simps(1)])
  then show ?thesis using record_method_kept [OF 2] 3 moved_kept by blast
qed

lemma scanArrayValue_moved:
  assumes "scanArrayValue sc = Inr sc'"
  shows "moved sc sc'"
proof -
  let ?scope = "cf_scope (hd (stack sc))" and ?def = "cf_deferred (hd (stack sc))"
  obtain sc1 where 1: "chargeItem (position sc) ?scope ?def sc = Inr sc1"
    using assms by (auto simp: scanArrayValue_def Let_def bind_sum_Inr)
  let ?sc1 = "map_top (\<lambda>f. f\<lparr>cf_state := ArrayCommaOrEnd\<rparr>) sc1"
  obtain kind sc2 where 2: "scanValue RoleGeneric ?scope ?def ?sc1 = Inr (kind, sc2)"
    using assms 1 by (auto simp: scanArrayValue_def Let_def bind_sum_Inr)
  have 3: "kept sc2 sc'"
    using assms 1 2 unfolding scanArrayValue_def Let_def
    by (auto simp: kept_def config_same_def split: if_splits)
  have "moved sc1 sc2" using scanValue_moved [OF 2] by (rule kept_moved [OF kept_simps(1)])
  then show ?thesis using chargeItem_kept [OF 1] 3 kept_moved moved_kept by blast
qed

lemma take_moved:
  "take_byte want sc \<Longrightarrow> kept (advance sc) sc' \<Longrightarrow> moved sc sc'"
  using advance_moved moved_kept by blast

lemma stepObject_moved: "stepObject state sc = Inr sc' \<Longrightarrow> moved sc sc'"
  unfolding stepObject_def Let_def
  by (rule skip_moved)
    (auto split: containerState.splits if_splits intro: take_moved closeContainer_kept
      scanObjectKey_moved scanObjectValue_moved)

lemma stepArray_moved: "stepArray state sc = Inr sc' \<Longrightarrow> moved sc sc'"
  unfolding stepArray_def Let_def
  by (rule skip_moved)
    (auto split: containerState.splits if_splits intro: take_moved closeContainer_kept scanArrayValue_moved)

lemma kept_overflow [simp]: "kept sc (sc\<lparr>overflow := v\<rparr>)" by (simp add: kept_def config_same_def)

lemma scanOverflowValue_moved: "scanOverflowValue sc = Inr sc' \<Longrightarrow> moved sc sc'"
  by (auto simp: scanOverflowValue_def bind_sum_Inr intro: scanValue_moved split: list.splits)

lemma scanOverflowObjectKey_moved: "scanOverflowObjectKey sc = Inr sc' \<Longrightarrow> moved sc sc'"
  by (auto simp: scanOverflowObjectKey_def bind_sum_Inr moved_def config_same_def dest!: scanSemantics_span)

lemma stepOverflow_moved: "stepOverflow sc = Inr sc' \<Longrightarrow> moved sc sc'"
  unfolding stepOverflow_def Let_def
  by (rule skip_moved)
    (auto split: containerState.splits if_splits intro: take_moved scanOverflowObjectKey_moved
      kept_moved [OF kept_overflow scanOverflowValue_moved])

lemma stepContainer_moved: "stepContainer sc = Inr sc' \<Longrightarrow> moved sc sc'"
  by (auto simp: stepContainer_def Let_def intro: stepOverflow_moved stepObject_moved stepArray_moved
      split: if_splits)

section \<open>Whole documents\<close>

text \<open>The driver loop; every step consumes input, so it ends.\<close>

function scan_loop :: "structuralScanner \<Rightarrow> ValidationError + structuralScanner" where
  "scan_loop sc =
    (if stack sc = [] then Inr sc
     else case stepContainer sc of
       Inl e \<Rightarrow> Inl (documentError sc e)
     | Inr sc' \<Rightarrow> scan_loop sc')"
  by pat_completeness auto
termination
  by (relation "measure (\<lambda>sc. length (raw sc) - position sc)")
    (auto dest!: stepContainer_moved simp: moved_def config_same_def)

declare scan_loop.simps [simp del]

definition finishProtocolSemantics :: "structuralScanner \<Rightarrow> ValidationError + structuralScanner" where
  "finishProtocolSemantics sc =
    (if sc_mode sc \<noteq> ProtocolWithRawArguments \<or> \<not> hasRawArguments sc then Inr sc
     else if methodIsString sc \<and> sc_method sc = ''tools/call'' then
       (if rawArgumentsKind sc \<noteq> JObject
        then record_or_fail (newValidationError KindMismatch (Start (rawArguments sc))) ScopeProtocolParams False sc
        else Inr sc)
     else case deferredError sc of
       None \<Rightarrow> Inr sc
     | Some d \<Rightarrow>
         if paramsError sc \<noteq> None then Inr sc
         else if \<not> collectProtocolErrors sc then Inl d
         else Inr (sc\<lparr>paramsError := Some (d\<lparr>ve_scope := ScopeProtocolParams\<rparr>)\<rparr>))"

definition newScanner :: "bytes \<Rightarrow> Limits \<Rightarrow> Mode \<Rightarrow> bool \<Rightarrow> bool \<Rightarrow> bool \<Rightarrow> bool \<Rightarrow> structuralScanner" where
  "newScanner r limits mode captureMembers captureElements captureParams collect =
    \<lparr>raw = r, sc_limits = limits, sc_mode = mode, position = 0, totalItems = 0, protocolEnvelopeItems = 0,
     protocolParamsItems = 0, protocolEnvelopeFirst = None, protocolParamsFirst = None, stack = [],
     overflow = [], sc_method = [], methodIsString = False, rawArguments = zeroSpan,
     rawArgumentsKind = JNull, hasRawArguments = False, captureRootMembers = captureMembers,
     captureParamsMembers = captureParams, captureRootElements = captureElements, rootMembers = [],
     paramsMembers = [], rootElements = [], rootHeaders = {}, collectProtocolErrors = collect,
     containerItemsExhausted = False, envelopeError = None, paramsError = None, deferredError = None\<rparr>"

text \<open>The result of a scan is a document result, an error, or, for protocol objects, both.\<close>

type_synonym scan_outcome = "documentScanResult option \<times> ValidationError option"

definition scanDocumentConfigured ::
  "bytes \<Rightarrow> Limits \<Rightarrow> Mode \<Rightarrow> bool \<Rightarrow> bool \<Rightarrow> bool \<Rightarrow> bool \<Rightarrow> scan_outcome" where
  "scanDocumentConfigured r limits mode captureMembers captureElements captureParams collect =
    (if \<not> mode_valid mode then (None, Some (newValidationError KindMismatch 0))
     else
       let sc0 = skipWhitespace (newScanner r limits mode captureMembers captureElements captureParams collect);
           start = position sc0;
           scope = (if collect then ScopeProtocolEnvelope else ScopeValue) in
       case scanValue RoleRoot scope False sc0 of
         Inl e \<Rightarrow> (None, Some (documentError sc0 e))
       | Inr (kind, sc1) \<Rightarrow>
         (case scan_loop sc1 of
            Inl e \<Rightarrow> (None, Some e)
          | Inr sc2 \<Rightarrow>
            let stop = position sc2;
                sc3 = skipWhitespace sc2 in
            if position sc3 \<noteq> length r then (None, Some (documentError sc3 (invalidAt r (position sc3))))
            else
              let sc4 = finishContainerItemLimit sc3 in
              case finishProtocolSemantics sc4 of
                Inl e \<Rightarrow> (None, Some (documentError sc4 e))
              | Inr sc5 \<Rightarrow>
                let sc6 = (if collect \<and> kind \<noteq> JObject
                      then snd (recordRecoverable (newValidationError KindMismatch start) ScopeProtocolEnvelope False sc5)
                      else sc5);
                    result = \<lparr>dr_Kind = kind, dr_Span = \<lparr>Start = start, End = stop\<rparr>,
                      dr_Members = rootMembers sc6, dr_ParamsMembers = paramsMembers sc6,
                      dr_Elements = rootElements sc6, dr_RawArguments = rawArguments sc6,
                      dr_HasRawArguments =
                        (hasRawArguments sc6 \<and> methodIsString sc6 \<and> sc_method sc6 = ''tools/call'')\<rparr>
                in (Some result,
                    if collect then (case envelopeError sc6 of Some e \<Rightarrow> Some e | None \<Rightarrow> paramsError sc6)
                    else None)))"

definition scanDocument :: "bytes \<Rightarrow> Limits \<Rightarrow> Mode \<Rightarrow> ValidationError + ValueKind \<times> Span" where
  "scanDocument r limits mode =
    (case scanDocumentConfigured r limits mode False False False False of
       (_, Some e) \<Rightarrow> Inl e
     | (Some res, None) \<Rightarrow> Inr (dr_Kind res, dr_Span res)
     | (None, None) \<Rightarrow> Inl (newValidationError KindSyntax 0))"

definition scanDocumentDetailed :: "bytes \<Rightarrow> Limits \<Rightarrow> Mode \<Rightarrow> scan_outcome" where
  "scanDocumentDetailed r limits mode = scanDocumentConfigured r limits mode True False False False"

definition scanArrayDocumentDetailed :: "bytes \<Rightarrow> Limits \<Rightarrow> Mode \<Rightarrow> scan_outcome" where
  "scanArrayDocumentDetailed r limits mode = scanDocumentConfigured r limits mode False True False False"

definition scanProtocolDocumentDetailed :: "bytes \<Rightarrow> Limits \<Rightarrow> scan_outcome" where
  "scanProtocolDocumentDetailed r limits =
    scanDocumentConfigured r limits ProtocolWithRawArguments True False True True"

end
