(* ===== verification/JsonGrammar.thy ===== *)
theory JsonGrammar
  imports JsonScanner
begin

text \<open>
  The JSON grammar as an inductive reference specification, and the soundness of the scanner of
  \<open>src/internal/jsonwire/scanner.go\<close> against it: whatever document the scanner returns, with any
  limits, mode and recovery, is one value of the grammar between optional white space.
\<close>

section \<open>The grammar\<close>

definition blank :: "bytes \<Rightarrow> bool" where
  "blank w \<longleftrightarrow> list_all ws w"

definition hex_digits4 :: "bytes \<Rightarrow> bool" where
  "hex_digits4 h \<longleftrightarrow> length h = 4 \<and> list_all (\<lambda>c. hexNibble c \<noteq> None) h"

inductive json_chars :: "bytes \<Rightarrow> bool" where
  chars_Nil: "json_chars []"
| chars_ascii: "0x20 \<le> byte_val c \<Longrightarrow> byte_val c < 0x80 \<Longrightarrow> c \<noteq> CHR 0x22 \<Longrightarrow> c \<noteq> CHR 0x5C \<Longrightarrow>
    json_chars cs \<Longrightarrow> json_chars (c # cs)"
| chars_utf8: "scalar r \<Longrightarrow> 0x80 \<le> r \<Longrightarrow> json_chars cs \<Longrightarrow> json_chars (EncodeRune r @ cs)"
| chars_escape: "c \<in> {CHR 0x22, CHR 0x5C, CHR ''/'', CHR ''b'', CHR ''f'', CHR ''n'', CHR ''r'', CHR ''t''} \<Longrightarrow>
    json_chars cs \<Longrightarrow> json_chars (CHR 0x5C # c # cs)"
| chars_unicode: "hex_digits4 h \<Longrightarrow> json_chars cs \<Longrightarrow> json_chars (CHR 0x5C # CHR ''u'' # h @ cs)"

definition json_string :: "bytes \<Rightarrow> bool" where
  "json_string s \<longleftrightarrow> (\<exists>body. json_chars body \<and> s = CHR 0x22 # body @ [CHR 0x22])"

definition json_number :: "bytes \<Rightarrow> bool" where
  "json_number s \<longleftrightarrow> (\<exists>neg ip fp ex. number_parts ip fp ex \<and> s = json_number_text neg ip fp ex)"

inductive json_value :: "ValueKind \<Rightarrow> bytes \<Rightarrow> bool"
  and json_members :: "bytes \<Rightarrow> bool"
  and json_elements :: "bytes \<Rightarrow> bool"
where
  value_true: "json_value JTrue ''true''"
| value_false: "json_value JFalse ''false''"
| value_null: "json_value JNull ''null''"
| value_string: "json_string s \<Longrightarrow> json_value JString s"
| value_number: "json_number s \<Longrightarrow> json_value JNumber s"
| value_object_empty: "blank w \<Longrightarrow> json_value JObject (''{'' @ w @ ''}'')"
| value_object: "json_members m \<Longrightarrow> json_value JObject (''{'' @ m @ ''}'')"
| value_array_empty: "blank w \<Longrightarrow> json_value JArray (''['' @ w @ '']'')"
| value_array: "json_elements e \<Longrightarrow> json_value JArray (''['' @ e @ '']'')"
| members_first: "blank a \<Longrightarrow> json_string s \<Longrightarrow> blank b \<Longrightarrow> blank c \<Longrightarrow> json_value k v \<Longrightarrow> blank d \<Longrightarrow>
    json_members (a @ s @ b @ '':'' @ c @ v @ d)"
| members_more: "json_members m \<Longrightarrow> blank a \<Longrightarrow> json_string s \<Longrightarrow> blank b \<Longrightarrow> blank c \<Longrightarrow> json_value k v \<Longrightarrow>
    blank d \<Longrightarrow> json_members (m @ '','' @ a @ s @ b @ '':'' @ c @ v @ d)"
| elements_first: "blank a \<Longrightarrow> json_value k v \<Longrightarrow> blank b \<Longrightarrow> json_elements (a @ v @ b)"
| elements_more: "json_elements e \<Longrightarrow> blank a \<Longrightarrow> json_value k v \<Longrightarrow> blank b \<Longrightarrow>
    json_elements (e @ '','' @ a @ v @ b)"

lemma blank_simps [simp]: "blank []" "blank (c # w) \<longleftrightarrow> ws c \<and> blank w" "blank (u @ w) \<longleftrightarrow> blank u \<and> blank w"
  by (simp_all add: blank_def)

section \<open>Text at a position\<close>

definition sits :: "bytes \<Rightarrow> nat \<Rightarrow> bytes \<Rightarrow> bool" where
  "sits r p v \<longleftrightarrow> take (length v) (drop p r) = v"

lemma sits_Nil [simp]: "sits r p []" by (simp add: sits_def)

lemma sits_append: "sits r p (u @ v) \<longleftrightarrow> sits r p u \<and> sits r (p + length u) v"
proof (cases "length u \<le> length (drop p r)")
  case True
  then have "length (take (length u) (drop p r)) = length u" by simp
  then show ?thesis by (simp add: sits_def take_add add.commute append_eq_append_conv)
next
  case False
  then have "take (length u) (drop p r) \<noteq> u" "take (length (u @ v)) (drop p r) \<noteq> u @ v"
    by (auto dest!: arg_cong [of _ _ length])
  then show ?thesis by (simp add: sits_def)
qed

lemma sits_single: "sits r p [c] \<longleftrightarrow> byte_at r p c"
  by (cases "p < length r") (auto simp: sits_def byte_at_def take_Suc hd_drop_conv_nth)

lemma sits_Cons: "sits r p (c # v) \<longleftrightarrow> byte_at r p c \<and> sits r (p + 1) v"
  using sits_append [of r p "[c]" v] by (simp add: sits_single)

lemma sits_take: "sits r p v \<Longrightarrow> take (p + length v) r = take p r @ v"
  by (simp add: sits_def take_add)

section \<open>Strings\<close>

lemma hex_loop_digits: "hex_loop n rest p v = Inr x \<Longrightarrow> list_all (\<lambda>c. hexNibble c \<noteq> None) (take n rest)"
  by (induction n rest p v rule: hex_loop.induct) (auto simp: verr_def split: option.splits)

lemma decodeJSONHex4_digits: "decodeJSONHex4 rest p = Inr v \<Longrightarrow> hex_digits4 (take 4 rest)"
  by (auto simp: decodeJSONHex4_def verr_def hex_digits4_def dest: hex_loop_digits split: if_splits)

lemma json_chars_unicode_at:
  assumes "hex_digits4 (take 4 (drop 2 rest))" "rest ! 0 = CHR 0x5C" "rest ! 1 = CHR ''u''" "2 \<le> length rest"
    "json_chars cs"
  shows "json_chars (take 6 rest @ cs)"
proof -
  obtain a b r where r: "rest = a # b # r" using assms(4)
    by (metis Suc_le_length_iff numeral_2_eq_2)
  have "take 6 rest = CHR 0x5C # CHR ''u'' # take 4 (drop 2 rest)"
    using assms(2,3) by (simp add: r)
  then show ?thesis using chars_unicode [OF assms(1,5)] by simp
qed

lemma decodeJSONEscape_grammar:
  assumes "decodeJSONEscape rest p vs = Inr (r, w)" "rest \<noteq> []" "hd rest = CHR 0x5C" "json_chars cs"
  shows "json_chars (take w rest @ cs)"
proof -
  have len: "2 \<le> length rest" using assms(1) by (auto simp: decodeJSONEscape_def verr_def split: if_splits)
  then obtain a b t where rest: "rest = a # b # t" by (metis Suc_le_length_iff numeral_2_eq_2)
  have a: "a = CHR 0x5C" using assms(3) rest by simp
  show ?thesis
  proof (cases "b = CHR ''u''")
    case False
    then have "w = 2 \<and> b \<in> {CHR 0x22, CHR 0x5C, CHR ''/'', CHR ''b'', CHR ''f'', CHR ''n'', CHR ''r'', CHR ''t''}"
      using assms(1) rest by (auto simp: decodeJSONEscape_def verr_def Let_def split: if_splits)
    then show ?thesis using chars_escape assms(4) rest a by (simp add: numeral_2_eq_2)
  next
    case True
    then have u: "decodeJSONUnicodeEscape rest p vs = Inr (r, w)"
      using assms(1) rest by (simp add: decodeJSONEscape_def Let_def)
    then obtain v where h: "decodeJSONHex4 (drop 2 rest) (p + 2) = Inr v"
      by (auto simp: decodeJSONUnicodeEscape_def bind_sum_Inr)
    note d1 = decodeJSONHex4_digits [OF h]
    have one: "json_chars (take 6 rest @ cs')" if "json_chars cs'" for cs'
      by (rule json_chars_unicode_at [OF d1]) (use that True rest a in auto)
    consider (single) "w = 6"
      | (pair) low where "w = 12" "8 \<le> length rest" "rest ! 6 = CHR 0x5C" "rest ! 7 = CHR ''u''"
          "decodeJSONHex4 (drop 8 rest) (p + 8) = Inr low"
      using u h by (auto simp: decodeJSONUnicodeEscape_def verr_def Let_def bind_sum_Inr split: if_splits)
    then show ?thesis
    proof cases
      case single
      then show ?thesis using one [OF assms(4)] by simp
    next
      case pair
      note d2 = decodeJSONHex4_digits [OF pair(5)]
      have "json_chars (take 6 (drop 6 rest) @ cs)"
        by (rule json_chars_unicode_at) (use d2 pair assms(4) in \<open>auto\<close>)
      then have "json_chars (take 6 rest @ take 6 (drop 6 rest) @ cs)" by (rule one)
      moreover have "take 12 rest = take 6 rest @ take 6 (drop 6 rest)"
        using take_add [of 6 6 rest] by simp
      ultimately show ?thesis using pair(1) by simp
    qed
  qed
qed

lemma scan_string_loop_grammar:
  "scan_string_loop capture vs limit start rest p n d = Inr (s, sp) \<Longrightarrow>
    \<exists>body tail. json_chars body \<and> rest = body @ CHR 0x22 # tail \<and> Start sp = start \<and>
      End sp = p + length body + 1"
proof (induction capture vs limit start rest p n d rule: scan_string_loop.induct)
  case (1 capture vs limit start p n d)
  then show ?case by (simp add: verr_def)
next
  case (2 capture vs limit start c cs p n d)
  note def = scan_string_loop.simps(2) [of capture vs limit start c cs p n d]
  have step: "\<exists>body tail. json_chars body \<and> c # cs = body @ CHR 0x22 # tail \<and> Start sp = start \<and>
      End sp = p + length body + 1"
    if ih: "\<exists>body tail. json_chars body \<and> drop w (c # cs) = body @ CHR 0x22 # tail \<and> Start sp = start \<and>
        End sp = p + w + length body + 1"
      and w: "w \<le> length (c # cs)" and g: "\<And>b. json_chars b \<Longrightarrow> json_chars (take w (c # cs) @ b)" for w
  proof -
    obtain body tail where b: "json_chars body" "drop w (c # cs) = body @ CHR 0x22 # tail"
      "Start sp = start" "End sp = p + w + length body + 1" using ih by blast
    have "c # cs = (take w (c # cs) @ body) @ CHR 0x22 # tail"
      using b(2) append_take_drop_id [of w "c # cs"] by simp
    moreover have "length (take w (c # cs) @ body) = w + length body" using w by simp
    ultimately show ?thesis using b g [OF b(1)] by (intro exI [of _ "take w (c # cs) @ body"] exI [of _ tail]) simp
  qed
  consider (quote) "c = CHR 0x22" | (esc) "c \<noteq> CHR 0x22" "c = CHR 0x5C"
    | (ascii) "c \<noteq> CHR 0x22" "c \<noteq> CHR 0x5C" "\<not> byte_val c < 0x20" "byte_val c < 0x80"
    | (bad) "c \<noteq> CHR 0x22" "c \<noteq> CHR 0x5C" "byte_val c < 0x20"
    | (high) "c \<noteq> CHR 0x22" "c \<noteq> CHR 0x5C" "\<not> byte_val c < 0x20" "\<not> byte_val c < 0x80"
    by blast
  then show ?case
  proof cases
    case quote
    then show ?thesis using "2.prems" def chars_Nil by (intro exI [of _ "[]"] exI [of _ cs]) auto
  next
    case bad
    then show ?thesis using "2.prems" def by (simp add: verr_def)
  next
    case esc
    obtain v w where e: "decodeJSONEscape (c # cs) p vs = Inr (v, w)"
      using esc "2.prems" def by (cases "decodeJSONEscape (c # cs) p vs") auto
    have lim: "\<not> decodedLimitExceeded n (nat (RuneLen v)) limit"
      using esc "2.prems" e unfolding def by (auto simp: verr_def)
    have rec: "scan_string_loop capture vs limit start (drop w (c # cs)) (p + w) (n + nat (RuneLen v))
        (if capture then d @ EncodeRune v else d) = Inr (s, sp)"
      using esc "2.prems" e lim unfolding def by (simp add: verr_def)
    show ?thesis
      using "2.IH"(1) [OF esc e refl refl lim rec] decodeJSONEscape_consumed [OF e]
        decodeJSONEscape_grammar [OF e] esc(2) by (intro step) auto
  next
    case ascii
    have lim: "\<not> decodedLimitExceeded n 1 limit"
      using ascii "2.prems" unfolding def by (auto simp: verr_def)
    have rec: "scan_string_loop capture vs limit start cs (p + 1) (n + 1) (if capture then d @ [c] else d) = Inr (s, sp)"
      using ascii "2.prems" lim unfolding def by (simp add: verr_def)
    show ?thesis
      using "2.IH"(2) [OF ascii lim rec] chars_ascii ascii by (intro step [of 1]) auto
  next
    case high
    obtain r w where e: "utf8_next (c # cs) p = Inr (r, w)"
      using high "2.prems" def by (cases "utf8_next (c # cs) p") auto
    have lim: "\<not> decodedLimitExceeded n w limit"
      using high "2.prems" e unfolding def by (auto simp: verr_def)
    have rec: "scan_string_loop capture vs limit start (drop w (c # cs)) (p + w) (n + w)
        (if capture then d @ take w (c # cs) else d) = Inr (s, sp)"
      using high "2.prems" e lim unfolding def by (simp add: verr_def)
    note u = utf8_next_Inr [OF e]
    have "0x80 \<le> r"
    proof (rule ccontr)
      assume "\<not> 0x80 \<le> r"
      then have "EncodeRune r = [byte_of r]" "byte_val (byte_of r) < 0x80" by (simp_all add: EncodeRune_ascii)
      then show False using u(2,3) high(4) by simp
    qed
    then show ?thesis
      using "2.IH"(3) [OF high e refl lim rec] u chars_utf8 by (intro step [of w]) auto
  qed
qed

lemma scanSemantics_grammar:
  assumes "scanJSONStringSemantics r start limit capture vs = Inr (s, sp)"
  shows "Start sp = start \<and> (\<exists>v. json_string v \<and> sits r start v \<and> End sp = start + length v)"
proof -
  have st: "start < length r" "r ! start = CHR 0x22" and
    l: "scan_string_loop capture vs limit start (drop (start + 1) r) (start + 1) 0 [] = Inr (s, sp)"
    using assms by (auto simp: scanJSONStringSemantics_def verr_def split: if_splits)
  obtain body tail where b: "json_chars body" "drop (start + 1) r = body @ CHR 0x22 # tail" "Start sp = start"
    "End sp = start + 1 + length body + 1" using scan_string_loop_grammar [OF l] by blast
  have "drop start r = CHR 0x22 # body @ [CHR 0x22] @ tail"
    using st b(2) by (simp add: Cons_nth_drop_Suc [symmetric])
  then have "sits r start (CHR 0x22 # body @ [CHR 0x22])" by (simp add: sits_def)
  then show ?thesis using b by (auto simp: json_string_def)
qed

section \<open>Numbers and literals\<close>

lemma digit_loop_grammar:
  "digit_loop r start mx p = Inr q \<Longrightarrow> \<exists>ds. digits ds \<and> sits r p ds \<and> q = p + length ds"
proof (induction r start mx p rule: digit_loop.induct)
  case (1 r start mx p)
  show ?case
  proof (cases "digit_at r p")
    case True
    then have "digit_loop r start mx (p + 1) = Inr q"
      using "1.prems" by (auto simp: digit_loop.simps [of r start mx p] bind_sum_Inr)
    from "1.IH" [OF True this] obtain ds where "digits ds" "sits r (p + 1) ds" "q = p + 1 + length ds" by blast
    then show ?thesis using True
      by (intro exI [of _ "r ! p # ds"]) (auto simp: digit_at_def sits_Cons byte_at_def)
  next
    case False
    then show ?thesis using "1.prems" by (intro exI [of _ "[]"]) (simp add: digit_loop.simps)
  qed
qed

lemma number_digits_grammar:
  assumes "number_digits r start mx p = Inr q"
  shows "\<exists>ds. digits ds \<and> ds \<noteq> [] \<and> sits r p ds \<and> q = p + length ds"
proof -
  have d: "digit_at r p" "digit_loop r start mx p = Inr q"
    using assms by (auto simp: number_digits_def split: if_splits)
  obtain ds where "digits ds" "sits r p ds" "q = p + length ds" using digit_loop_grammar [OF d(2)] by blast
  moreover have "p < q" using number_digits_bounds [OF assms] by simp
  ultimately show ?thesis by (intro exI [of _ ds]) auto
qed

lemma number_byte_grammar:
  "number_byte r start mx p wants = Inr (b, q) \<Longrightarrow>
    (b \<and> (\<exists>c\<in>set wants. sits r p [c]) \<and> q = p + 1) \<or> (\<not> b \<and> q = p \<and> \<not> (p < length r \<and> r ! p \<in> set wants))"
  by (auto simp: number_byte_def bind_sum_Inr sits_single byte_at_def split: if_splits)

lemma number_integer_grammar:
  assumes "number_integer r start mx p = Inr q"
  shows "\<exists>ip. canonical ip \<and> sits r p ip \<and> q = p + length ip"
proof -
  obtain b p1 where b: "number_byte r start mx p ''0'' = Inr (b, p1)" "p < length r"
    "if b then q = p1 else number_digits r start mx p1 = Inr q"
    using assms by (auto simp: number_integer_def bind_sum_Inr split: if_splits)
  show ?thesis
  proof (cases b)
    case True
    then show ?thesis using b number_byte_grammar [OF b(1)]
      by (intro exI [of _ "''0''"]) (auto simp: canonical_def)
  next
    case False
    then have p: "p1 = p" "r ! p \<noteq> CHR ''0''" using number_byte_grammar [OF b(1)] b(2) by auto
    obtain ds where ds: "digits ds" "ds \<noteq> []" "sits r p1 ds" "q = p1 + length ds"
      using False b number_digits_grammar [of r start mx p1 q] by auto
    then have "hd ds \<noteq> CHR ''0''" using p by (cases ds) (auto simp: sits_Cons byte_at_def)
    then show ?thesis using ds p by (intro exI [of _ ds]) (auto simp: canonical_def)
  qed
qed

lemma number_fraction_grammar:
  assumes "number_fraction r start mx p = Inr q"
  shows "\<exists>fp. digits fp \<and> sits r p (fraction_text fp) \<and> q = p + length (fraction_text fp)"
proof -
  obtain b p1 where b: "number_byte r start mx p ''.'' = Inr (b, p1)"
    "if b then number_digits r start mx p1 = Inr q else q = p1"
    using assms by (auto simp: number_fraction_def bind_sum_Inr split: if_splits)
  show ?thesis
  proof (cases b)
    case True
    then obtain ds where ds: "digits ds" "ds \<noteq> []" "sits r p1 ds" "q = p1 + length ds"
      using True b number_digits_grammar [of r start mx p1 q] by auto
    then show ?thesis using True number_byte_grammar [OF b(1)]
      by (intro exI [of _ ds]) (auto simp: fraction_text_def sits_Cons sits_single)
  next
    case False
    then show ?thesis using b number_byte_grammar [OF b(1)]
      by (intro exI [of _ "[]"]) (auto simp: fraction_text_def)
  qed
qed

lemma number_exponent_grammar:
  assumes "number_exponent r start mx p = Inr q"
  shows "\<exists>ex. exponent_ok ex \<and> sits r p (exponent_text ex) \<and> q = p + length (exponent_text ex)"
proof -
  obtain b p1 where b: "number_byte r start mx p ''eE'' = Inr (b, p1)"
    "if b then bind_sum (number_byte r start mx p1 ''+-'') (\<lambda>(_, p''). number_digits r start mx p'') = Inr q else q = p1"
    using assms by (auto simp: number_exponent_def bind_sum_Inr split: if_splits)
  show ?thesis
  proof (cases b)
    case True
    then obtain s p2 where s: "number_byte r start mx p1 ''+-'' = Inr (s, p2)" "number_digits r start mx p2 = Inr q"
      using b by (auto simp: bind_sum_Inr)
    obtain ds where ds: "digits ds" "ds \<noteq> []" "sits r p2 ds" "q = p2 + length ds"
      using number_digits_grammar [OF s(2)] by blast
    obtain c where c: "c = CHR ''e'' \<or> c = CHR ''E''" "sits r p [c]" "p1 = p + 1"
      using True number_byte_grammar [OF b(1)] by auto
    obtain sg where sg: "sg = [] \<or> sg = ''+'' \<or> sg = ''-''" "sits r p1 sg" "p2 = p1 + length sg"
      using number_byte_grammar [OF s(1)] that [of "''+''"] that [of "''-''"] that [of "[]"] by auto
    have "sits r p ([c] @ sg @ ds)" using ds(3) c(2,3) sg(2,3) by (simp only: sits_append) simp
    then show ?thesis using ds(1,2,4) c(1,3) sg(1,3)
      by (intro exI [of _ "Some (c, sg, ds)"]) auto
  next
    case False
    then show ?thesis using b number_byte_grammar [OF b(1)]
      by (intro exI [of _ None]) auto
  qed
qed

lemma scanNumber_grammar:
  assumes "scanNumber r start mx = Inr q"
  shows "\<exists>v. json_number v \<and> sits r start v \<and> q = start + length v"
proof -
  obtain b p1 p2 p3 where n: "number_byte r start mx start ''-'' = Inr (b, p1)"
    "number_integer r start mx p1 = Inr p2" "number_fraction r start mx p2 = Inr p3"
    "number_exponent r start mx p3 = Inr q"
    using assms(1) by (auto simp: scanNumber_def bind_sum_Inr)
  obtain ip where ip: "canonical ip" "sits r p1 ip" "p2 = p1 + length ip"
    using number_integer_grammar [OF n(2)] by blast
  obtain fp where fp: "digits fp" "sits r p2 (fraction_text fp)" "p3 = p2 + length (fraction_text fp)"
    using number_fraction_grammar [OF n(3)] by blast
  obtain ex where ex: "exponent_ok ex" "sits r p3 (exponent_text ex)" "q = p3 + length (exponent_text ex)"
    using number_exponent_grammar [OF n(4)] by blast
  have sg: "sits r start (if b then ''-'' else [])" "p1 = start + length (if b then ''-'' else [])"
    using number_byte_grammar [OF n(1)] by auto
  have "sits r start (json_number_text b ip fp ex)" "q = start + length (json_number_text b ip fp ex)"
    using sg ip fp ex by (auto simp: json_number_text_def sits_append add.assoc)
  moreover have "json_number (json_number_text b ip fp ex)"
    using ip fp ex by (auto simp: json_number_def number_parts_def)
  ultimately show ?thesis by blast
qed

lemma literal_grammar: "literal_loop r p want = Inr () \<Longrightarrow> sits r p want"
  by (induction r p want rule: literal_loop.induct) (auto simp: sits_Cons byte_at_def split: if_splits)

section \<open>What an open container has read\<close>

definition open_key :: "containerState \<Rightarrow> bytes \<Rightarrow> bool" where
  "open_key st t \<longleftrightarrow>
    (case st of
       ObjectFirstKeyOrEnd \<Rightarrow> (\<exists>w. blank w \<and> t = ''{'' @ w)
     | ObjectKey \<Rightarrow> (\<exists>m w. json_members m \<and> blank w \<and> t = ''{'' @ m @ '','' @ w)
     | _ \<Rightarrow> False)"

definition open_colon :: "bytes \<Rightarrow> bool" where
  "open_colon t \<longleftrightarrow> (\<exists>st u s w. open_key st u \<and> json_string s \<and> blank w \<and> t = u @ s @ w)"

definition open_text :: "containerState \<Rightarrow> bytes \<Rightarrow> bool" where
  "open_text st t \<longleftrightarrow>
    (case st of
       ObjectFirstKeyOrEnd \<Rightarrow> open_key st t
     | ObjectKey \<Rightarrow> open_key st t
     | ObjectColon \<Rightarrow> open_colon t
     | ObjectValue \<Rightarrow> (\<exists>u w. open_colon u \<and> blank w \<and> t = u @ '':'' @ w)
     | ObjectCommaOrEnd \<Rightarrow> (\<exists>m. json_members m \<and> t = ''{'' @ m)
     | ArrayFirstValueOrEnd \<Rightarrow> (\<exists>w. blank w \<and> t = ''['' @ w)
     | ArrayValue \<Rightarrow> (\<exists>e w. json_elements e \<and> blank w \<and> t = ''['' @ e @ '','' @ w)
     | ArrayCommaOrEnd \<Rightarrow> (\<exists>e. json_elements e \<and> t = ''['' @ e))"

definition is_object_state :: "containerState \<Rightarrow> bool" where
  "is_object_state st \<longleftrightarrow> st \<in> {ObjectFirstKeyOrEnd, ObjectKey, ObjectColon, ObjectValue, ObjectCommaOrEnd}"

definition kind_of :: "containerState \<Rightarrow> ValueKind" where
  "kind_of st = (if is_object_state st then JObject else JArray)"

text \<open>The value states, and the state that follows a value.\<close>

definition after_value :: "containerState \<Rightarrow> containerState option" where
  "after_value st =
    (case st of ObjectValue \<Rightarrow> Some ObjectCommaOrEnd
     | ArrayFirstValueOrEnd \<Rightarrow> Some ArrayCommaOrEnd
     | ArrayValue \<Rightarrow> Some ArrayCommaOrEnd
     | _ \<Rightarrow> None)"

lemma members_blank:
  assumes "json_members m" "blank w"
  shows "json_members (m @ w)"
  using assms(1)
proof (cases rule: json_members.cases)
  case (members_first a s b c k v d)
  then show ?thesis using assms(2) json_value_json_members_json_elements.members_first [of a s b c k v "d @ w"] by simp
next
  case (members_more m' a s b c k v d)
  then show ?thesis using assms(2) json_value_json_members_json_elements.members_more [of m' a s b c k v "d @ w"] by simp
qed

lemma elements_blank:
  assumes "json_elements e" "blank w"
  shows "json_elements (e @ w)"
  using assms(1)
proof (cases rule: json_elements.cases)
  case (elements_first a k v b)
  then show ?thesis using assms(2) json_value_json_members_json_elements.elements_first [of a k v "b @ w"] by simp
next
  case (elements_more e' a k v b)
  then show ?thesis using assms(2) json_value_json_members_json_elements.elements_more [of e' a k v "b @ w"] by simp
qed

lemma open_colon_blank: "open_colon t \<Longrightarrow> blank w \<Longrightarrow> open_colon (t @ w)"
  unfolding open_colon_def by (metis append_assoc blank_simps(3))

lemma open_text_blank:
  assumes "open_text st t" "blank w"
  shows "open_text st (t @ w)"
proof (cases st)
  case ObjectColon
  then show ?thesis using assms open_colon_blank by (simp add: open_text_def)
next
  case ObjectCommaOrEnd
  then show ?thesis using assms members_blank by (auto simp: open_text_def)
next
  case ArrayCommaOrEnd
  then show ?thesis using assms elements_blank by (auto simp: open_text_def)
qed (use assms in \<open>(fastforce simp: open_text_def open_key_def)+\<close>)

lemma open_after_value:
  assumes "open_text st t" "after_value st = Some st'" "json_value k v"
  shows "open_text st' (t @ v)"
proof (cases st)
  case ObjectValue
  then obtain st0 u s w c where t: "t = u @ s @ w @ '':'' @ c" "open_key st0 u" "json_string s" "blank w" "blank c"
    using assms(1) by (auto simp: open_text_def open_colon_def)
  have st': "st' = ObjectCommaOrEnd" using ObjectValue assms(2) by (simp add: after_value_def)
  consider a where "blank a" "u = ''{'' @ a" | m a where "json_members m" "blank a" "u = ''{'' @ m @ '','' @ a"
    using t(2) by (cases st0) (auto simp: open_key_def)
  then show ?thesis
  proof cases
    case 1
    then show ?thesis using members_first [OF 1(1) t(3-5) assms(3), of "[]"] t(1) st'
      by (simp add: open_text_def)
  next
    case 2
    then show ?thesis using members_more [OF 2(1,2) t(3-5) assms(3), of "[]"] t(1) st'
      by (simp add: open_text_def)
  qed
next
  case ArrayFirstValueOrEnd
  then obtain a where "blank a" "t = ''['' @ a" "st' = ArrayCommaOrEnd"
    using assms(1,2) by (auto simp: open_text_def after_value_def)
  then show ?thesis using elements_first [OF _ assms(3), of a "[]"] by (simp add: open_text_def)
next
  case ArrayValue
  then obtain e a where "json_elements e" "blank a" "t = ''['' @ e @ '','' @ a" "st' = ArrayCommaOrEnd"
    using assms(1,2) by (auto simp: open_text_def after_value_def)
  then show ?thesis using elements_more [OF _ _ assms(3), of e a "[]"] by (simp add: open_text_def)
qed (use assms(2) in \<open>auto simp: after_value_def\<close>)

lemma open_close:
  "open_text st t \<Longrightarrow> st \<in> {ObjectFirstKeyOrEnd, ObjectCommaOrEnd} \<Longrightarrow> json_value JObject (t @ ''}'')"
  "open_text st t \<Longrightarrow> st \<in> {ArrayFirstValueOrEnd, ArrayCommaOrEnd} \<Longrightarrow> json_value JArray (t @ '']'')"
  using value_object_empty value_object value_array_empty value_array
  by (auto simp: open_text_def open_key_def)

section \<open>The stack of open containers\<close>

text \<open>\<open>stacked b K sts t\<close>: after the prefix \<open>b\<close> the text \<open>t\<close> has opened containers with the states
  \<open>sts\<close>, innermost first; every container below the top already has the state that follows the
  value being read.  Without an open container \<open>t\<close> is \<open>b\<close> and one complete value of kind \<open>K\<close>.\<close>

fun stacked :: "bytes \<Rightarrow> ValueKind \<Rightarrow> containerState list \<Rightarrow> bytes \<Rightarrow> bool" where
  "stacked b K [] t \<longleftrightarrow> (\<exists>v. json_value K v \<and> t = b @ v)"
| "stacked b K (st # sts) t \<longleftrightarrow>
    (\<exists>u cur. t = u @ cur \<and> open_text st cur \<and>
      (\<forall>v. json_value (kind_of st) v \<longrightarrow> stacked b K sts (u @ v)))"

declare stacked.simps(2) [simp del]

lemma stacked_text:
  assumes "stacked b K (st # sts) t" "kind_of st' = kind_of st"
    "\<And>cur. open_text st cur \<Longrightarrow> open_text st' (cur @ x)"
  shows "stacked b K (st' # sts) (t @ x)"
proof -
  obtain u cur where u: "t = u @ cur" "open_text st cur"
    "\<forall>v. json_value (kind_of st) v \<longrightarrow> stacked b K sts (u @ v)"
    using assms(1) by (auto simp: stacked.simps(2))
  then show ?thesis unfolding stacked.simps(2)
    by (intro exI [of _ u] exI [of _ "cur @ x"]) (simp add: assms(2,3))
qed

lemma stacked_blank: "stacked b K (st # sts) t \<Longrightarrow> blank w \<Longrightarrow> stacked b K (st # sts) (t @ w)"
  by (rule stacked_text) (auto intro: open_text_blank)

lemma after_value_kind: "after_value st = Some st' \<Longrightarrow> kind_of st' = kind_of st"
  by (auto simp: after_value_def kind_of_def is_object_state_def split: containerState.splits)

lemma stacked_value:
  "stacked b K (st # sts) t \<Longrightarrow> after_value st = Some st' \<Longrightarrow> json_value k v \<Longrightarrow> stacked b K (st' # sts) (t @ v)"
  by (rule stacked_text) (auto simp: after_value_kind intro: open_after_value)

lemma open_first: "open_text ObjectFirstKeyOrEnd ''{''" "open_text ArrayFirstValueOrEnd ''[''"
  by (simp_all add: open_text_def open_key_def)

lemma stacked_push:
  assumes "stacked b K (st # sts) t" "after_value st = Some st'"
    "c = ''{'' \<and> new = ObjectFirstKeyOrEnd \<or> c = ''['' \<and> new = ArrayFirstValueOrEnd"
  shows "stacked b K (new # st' # sts) (t @ c)"
proof -
  have "open_text new c" using assms(3) open_first by auto
  moreover have "stacked b K (st' # sts) (t @ v)" if "json_value (kind_of new) v" for v
    using stacked_value [OF assms(1,2) that] .
  ultimately show ?thesis unfolding stacked.simps(2) [of b K new] by blast
qed

lemma stacked_close:
  assumes "stacked b K (st # sts) t"
    "c = ''}'' \<and> st \<in> {ObjectFirstKeyOrEnd, ObjectCommaOrEnd} \<or> c = '']'' \<and> st \<in> {ArrayFirstValueOrEnd, ArrayCommaOrEnd}"
  shows "stacked b K sts (t @ c)"
proof -
  obtain u cur where u: "t = u @ cur" "open_text st cur"
    "\<forall>v. json_value (kind_of st) v \<longrightarrow> stacked b K sts (u @ v)"
    using assms(1) by (auto simp: stacked.simps(2))
  have "json_value (kind_of st) (cur @ c)"
    using open_close [OF u(2)] assms(2) by (auto simp: kind_of_def is_object_state_def)
  then show ?thesis using u(1,3) by simp
qed

lemma stacked_key:
  assumes "stacked b K (st # sts) t" "st \<in> {ObjectFirstKeyOrEnd, ObjectKey}" "json_string s"
  shows "stacked b K (ObjectColon # sts) (t @ s)"
proof (rule stacked_text [OF assms(1)])
  show "kind_of ObjectColon = kind_of st" using assms(2) by (auto simp: kind_of_def is_object_state_def)
  show "open_text ObjectColon (cur @ s)" if "open_text st cur" for cur
  proof -
    have "open_key st cur" using that assms(2) by (auto simp: open_text_def)
    then have "open_colon (cur @ s)" unfolding open_colon_def using assms(3)
      by (intro exI [of _ st] exI [of _ cur] exI [of _ s] exI [of _ "[]"]) simp
    then show ?thesis by (simp add: open_text_def)
  qed
qed

lemma stacked_colon: "stacked b K (ObjectColon # sts) t \<Longrightarrow> stacked b K (ObjectValue # sts) (t @ '':'')"
  by (rule stacked_text) (auto simp: kind_of_def is_object_state_def open_text_def intro: exI [of _ "[]"])

lemma stacked_object_comma: "stacked b K (ObjectCommaOrEnd # sts) t \<Longrightarrow> stacked b K (ObjectKey # sts) (t @ '','')"
  by (rule stacked_text) (force simp: kind_of_def is_object_state_def open_text_def open_key_def)+

lemma stacked_array_comma: "stacked b K (ArrayCommaOrEnd # sts) t \<Longrightarrow> stacked b K (ArrayValue # sts) (t @ '','')"
  by (rule stacked_text) (force simp: kind_of_def is_object_state_def open_text_def)+

section \<open>The scanner follows the grammar\<close>

definition shape :: "structuralScanner \<Rightarrow> containerState list \<times> (ValueKind \<times> containerState) list" where
  "shape sc = (overflow sc, map (\<lambda>f. (cf_kind f, cf_state f)) (stack sc))"

definition states :: "structuralScanner \<Rightarrow> containerState list" where
  "states sc = overflow sc @ map cf_state (stack sc)"

definition kinds_ok :: "structuralScanner \<Rightarrow> bool" where
  "kinds_ok sc \<longleftrightarrow> list_all (\<lambda>f. cf_kind f = kind_of (cf_state f)) (stack sc)"

definition read_text :: "structuralScanner \<Rightarrow> bytes" where
  "read_text sc = take (position sc) (raw sc)"

lemma states_of_shape: "states sc = fst (shape sc) @ map snd (snd (shape sc))"
  by (simp add: states_def shape_def)

lemma kinds_of_shape: "kinds_ok sc \<longleftrightarrow> list_all (\<lambda>(k, st). k = kind_of st) (snd (shape sc))"
  by (simp add: kinds_ok_def shape_def list_all_iff)

lemma shape_states: "shape sc' = shape sc \<Longrightarrow> states sc' = states sc"
  by (simp add: states_of_shape)

lemma shape_kinds: "shape sc' = shape sc \<Longrightarrow> kinds_ok sc' = kinds_ok sc"
  by (simp add: kinds_of_shape)

lemma shape_map_top:
  "(\<And>f. cf_kind (g f) = cf_kind f \<and> cf_state (g f) = cf_state f) \<Longrightarrow> shape (map_top g sc) = shape sc"
  by (simp add: shape_def split: list.splits)

lemma record_shape: "record_or_fail e scope deferred sc = Inr sc' \<Longrightarrow> shape sc' = shape sc"
  by (auto simp: record_or_fail_def recordRecoverable_def shape_def Let_def
      split: if_splits bool.splits prod.splits ValidationScope.splits)

lemma record_same: "record_or_fail e scope deferred sc = Inr sc' \<Longrightarrow> kept sc sc' \<and> shape sc' = shape sc"
  using record_kept record_shape by blast

text \<open>Any number of recorded errors of one layer.\<close>

inductive recordings :: "ValidationScope \<Rightarrow> bool \<Rightarrow> structuralScanner \<Rightarrow> structuralScanner \<Rightarrow> bool"
  for scope deferred
where
  recordings_none: "recordings scope deferred sc sc"
| recordings_more: "recordings scope deferred sc sc1 \<Longrightarrow> record_or_fail e scope deferred sc1 = Inr sc2 \<Longrightarrow>
    recordings scope deferred sc sc2"

lemma recordings_same: "recordings scope deferred sc sc' \<Longrightarrow> kept sc sc' \<and> shape sc' = shape sc"
  by (induction rule: recordings.induct) (auto dest!: record_same intro: kept_trans)

lemma scanString_read:
  assumes "scanString start limit capture scope deferred sc = Inr (val, sp, sc')"
  shows "recordings scope deferred sc sc' \<and> (\<exists>l c vs s. scanJSONStringSemantics (raw sc) start l c vs = Inr (s, sp))"
proof -
  let ?v = "(\<not> deferred \<or> sc_mode sc = ProtocolWithRawArguments) \<and>
    \<not> (scopeHasError sc scope \<or> deferred \<and> deferredError sc \<noteq> None)"
  let ?c = "capture \<and> ?v"
  let ?l = "if scopeHasError sc scope then max_uint64 else limit"
  note none = recordings_none [of scope deferred sc]
  show ?thesis
  proof (cases "scanJSONStringSemantics (raw sc) start ?l ?c ?v")
    case (Inr x)
    then have "sc' = sc \<and> x = (val, sp)" using assms by (cases x) (simp add: scanString_def Let_def)
    then show ?thesis using Inr none by blast
  next
    case (Inl e1)
    then obtain sc1 where sc1: "record_or_fail e1 scope deferred sc = Inr sc1"
      using assms by (auto simp: scanString_def Let_def bind_sum_Inr)
    let ?l1 = "if scopeHasError sc1 scope then max_uint64 else limit"
    have r1: "recordings scope deferred sc sc1" by (rule recordings_more [OF none sc1])
    have k1: "raw sc1 = raw sc" using recordings_same [OF r1] by (simp add: kept_def config_same_def)
    show ?thesis
    proof (cases "scanJSONStringSemantics (raw sc1) start ?l1 False False")
      case r: (Inr x)
      then have "sc' = sc1 \<and> sp = snd x"
        using assms Inl sc1 by (cases x) (simp add: scanString_def Let_def)
      then show ?thesis using r k1 r1 by (cases x) auto
    next
      case r: (Inl e2)
      then obtain sc2 where sc2: "record_or_fail e2 scope deferred sc1 = Inr sc2"
        using assms Inl sc1 by (auto simp: scanString_def Let_def bind_sum_Inr)
      have r2: "recordings scope deferred sc sc2" by (rule recordings_more [OF r1 sc2])
      have "bind_sum (scanJSONStringSemantics (raw sc2) start max_uint64 False False) (\<lambda>(_, sp). Inr ([], sp, sc2))
          = Inr (val, sp, sc')"
        using assms Inl sc1 r sc2 by (simp add: scanString_def Let_def)
      then obtain x where x: "scanJSONStringSemantics (raw sc2) start max_uint64 False False = Inr x"
        "(case x of (_, sp1) \<Rightarrow> Inr ([], sp1, sc2)) = (Inr (val, sp, sc') :: ValidationError + bytes \<times> Span \<times> structuralScanner)"
        unfolding bind_sum_Inr by blast
      from x(2) have "x = (fst x, sp)" "sc' = sc2" by (cases x; simp)+
      moreover have "raw sc2 = raw sc" using recordings_same [OF r2] by (simp add: kept_def config_same_def)
      ultimately have "scanJSONStringSemantics (raw sc) start max_uint64 False False = Inr (fst x, sp)"
        "recordings scope deferred sc sc'" using x(1) r2 by simp_all
      then show ?thesis by blast
    qed
  qed
qed

lemma scanString_shape: "scanString start limit capture scope deferred sc = Inr (val, sp, sc') \<Longrightarrow> shape sc' = shape sc"
  using scanString_read recordings_same by blast

lemma scanString_grammar:
  assumes "scanString start limit capture scope deferred sc = Inr (val, sp, sc')"
  shows "\<exists>v. json_string v \<and> sits (raw sc) start v \<and> End sp = start + length v"
  using scanString_read [OF assms] scanSemantics_grammar by blast

lemma scanNumberRecovering_grammar:
  assumes "scanNumberRecovering scope deferred sc = Inr sc'"
  shows "shape sc' = shape sc \<and> (\<exists>v. json_number v \<and> sits (raw sc) (position sc) v \<and> position sc' = position sc + length v)"
proof -
  let ?l = "if scopeHasError sc scope then max_uint64 else MaxNumberRawBytes (sc_limits sc)"
  show ?thesis
  proof (cases "scanNumber (raw sc) (position sc) ?l")
    case (Inr q)
    then show ?thesis using assms scanNumber_grammar [OF Inr]
      by (auto simp: scanNumberRecovering_def Let_def shape_def)
  next
    case (Inl e)
    then obtain sc1 q where sc1: "record_or_fail e scope deferred sc = Inr sc1"
      "scanNumber (raw sc1) (position sc) max_uint64 = Inr q" "sc' = sc1\<lparr>position := q\<rparr>"
      using assms by (auto simp: scanNumberRecovering_def Let_def bind_sum_Inr)
    then show ?thesis using record_kept [OF sc1(1)] record_shape [OF sc1(1)] scanNumber_grammar [OF sc1(2)]
      by (auto simp: kept_def config_same_def shape_def)
  qed
qed

text \<open>What \<open>scanValue\<close> reads: a complete scalar, or the opening bracket of a container.\<close>

definition read_scalar :: "structuralScanner \<Rightarrow> ValueKind \<Rightarrow> structuralScanner \<Rightarrow> bool" where
  "read_scalar sc kind sc' \<longleftrightarrow> shape sc' = shape sc \<and>
    (\<exists>v. json_value kind v \<and> sits (raw sc) (position sc) v \<and> position sc' = position sc + length v)"

definition opener :: "ValueKind \<Rightarrow> bytes \<Rightarrow> containerState \<Rightarrow> bool" where
  "opener kind c new \<longleftrightarrow> kind = JObject \<and> c = ''{'' \<and> new = ObjectFirstKeyOrEnd \<or>
    kind = JArray \<and> c = ''['' \<and> new = ArrayFirstValueOrEnd"

lemma opener_kind: "opener kind c new \<Longrightarrow> kind_of new = kind"
  by (auto simp: opener_def kind_of_def is_object_state_def)

definition read_open :: "structuralScanner \<Rightarrow> ValueKind \<Rightarrow> structuralScanner \<Rightarrow> bool" where
  "read_open sc kind sc' \<longleftrightarrow> (\<exists>c new. opener kind c new \<and> sits (raw sc) (position sc) c \<and>
    position sc' = position sc + 1 \<and>
    shape sc' = (if overflow sc \<noteq> [] \<or> stack sc \<noteq> [] \<and> cf_compactChildren (hd (stack sc))
      then (new # fst (shape sc), snd (shape sc)) else (fst (shape sc), (kind, new) # snd (shape sc))))"

lemma pushContainer_open:
  assumes "pushContainer kind new role scope deferred sc = Inr sc'"
    "opener kind [raw sc ! position sc] new" "position sc < length (raw sc)"
  shows "read_open sc kind sc'"
proof -
  have "position sc' = position sc + 1 \<and>
    shape sc' = (if overflow sc \<noteq> [] \<or> stack sc \<noteq> [] \<and> cf_compactChildren (hd (stack sc))
      then (new # fst (shape sc), snd (shape sc)) else (fst (shape sc), (kind, new) # snd (shape sc)))"
  proof (cases "overflow sc \<noteq> [] \<or> stack sc \<noteq> [] \<and> cf_compactChildren (hd (stack sc))")
    case True
    then show ?thesis using assms(1) by (auto simp: pushContainer_def shape_def)
  next
    case False
    then show ?thesis using assms(1)
      by (auto simp: pushContainer_def Let_def bind_sum_Inr shape_def kept_def
          dest!: record_same split: if_splits)
  qed
  moreover have "sits (raw sc) (position sc) [raw sc ! position sc]"
    using assms(3) by (simp add: sits_single byte_at_def)
  ultimately show ?thesis using assms(2) unfolding read_open_def by blast
qed

lemma scanValue_text:
  assumes "scanValue role scope deferred sc = Inr (kind, sc')"
  shows "read_scalar sc kind sc' \<or> read_open sc kind sc'"
proof -
  have p: "position sc < length (raw sc)" using assms by (auto simp: scanValue_def split: if_splits)
  have str: "read_scalar sc JString (sc1\<lparr>position := End sp\<rparr>)"
    if "scanString (position sc) limit False scope deferred sc = Inr (v, sp, sc1)" for limit v sp sc1
    using scanString_shape [OF that] scanString_grammar [OF that] value_string
    by (auto simp: read_scalar_def shape_def)
  have lit: "read_scalar sc k sc1" if "consumeLiteral want sc = Inr sc1" "json_value k want" for want k sc1
    using that literal_grammar by (auto simp: consumeLiteral_def bind_sum_Inr read_scalar_def shape_def)
  have num: "read_scalar sc JNumber sc1" if "scanNumberRecovering scope deferred sc = Inr sc1" for sc1
    using scanNumberRecovering_grammar [OF that] value_number by (auto simp: read_scalar_def)
  let ?c = "raw sc ! position sc"
  consider (obj) "?c = CHR ''{''" | (arr) "?c = CHR ''[''" | (other) "?c \<noteq> CHR ''{''" "?c \<noteq> CHR ''[''" by blast
  then show ?thesis
  proof cases
    case obj
    then show ?thesis using assms p pushContainer_open [of JObject ObjectFirstKeyOrEnd role scope deferred sc sc']
      by (auto simp: scanValue_def Let_def bind_sum_Inr opener_def)
  next
    case arr
    then show ?thesis using assms p pushContainer_open [of JArray ArrayFirstValueOrEnd role scope deferred sc sc']
      by (auto simp: scanValue_def Let_def bind_sum_Inr opener_def)
  next
    case other
    have "read_scalar sc kind sc'"
      using assms p other unfolding scanValue_def Let_def
      by (auto simp: bind_sum_Inr intro: str num lit [OF _ value_true] lit [OF _ value_false] lit [OF _ value_null]
          split: if_splits)
    then show ?thesis ..
  qed
qed

text \<open>The invariant of the scan: what was read so far is a prefix of a document with these open
  containers.\<close>

definition follows :: "bytes \<Rightarrow> ValueKind \<Rightarrow> structuralScanner \<Rightarrow> bool" where
  "follows b K sc \<longleftrightarrow> kinds_ok sc \<and> (overflow sc = [] \<or> stack sc \<noteq> []) \<and> stacked b K (states sc) (read_text sc)"

lemma read_sits:
  "sits (raw sc) (position sc) v \<Longrightarrow> raw sc' = raw sc \<Longrightarrow> position sc' = position sc + length v \<Longrightarrow>
    read_text sc' = read_text sc @ v"
  by (simp add: read_text_def sits_take)

lemma read_skip: "\<exists>w. blank w \<and> read_text (skipWhitespace sc) = read_text sc @ w"
proof -
  let ?w = "takeWhile ws (drop (position sc) (raw sc))"
  have "sits (raw sc) (position sc) ?w" by (simp add: sits_def takeWhile_eq_take [symmetric])
  then have "read_text (skipWhitespace sc) = read_text sc @ ?w"
    by (rule read_sits) (simp_all add: skipWhitespace_def)
  moreover have "blank ?w" by (auto simp: blank_def list_all_iff dest: set_takeWhileD)
  ultimately show ?thesis by blast
qed

lemma shape_skip [simp]: "shape (skipWhitespace sc) = shape sc"
  by (simp add: skipWhitespace_def shape_def)

lemma stack_skip [simp]: "stack (skipWhitespace sc) = stack sc" "overflow (skipWhitespace sc) = overflow sc"
  by (simp_all add: skipWhitespace_def)

lemma follows_skip:
  assumes "follows b K sc" "stack sc \<noteq> []"
  shows "follows b K (skipWhitespace sc)"
proof -
  obtain st sts where s: "states sc = st # sts" using assms(2) by (cases "states sc") (auto simp: states_def)
  obtain w where "blank w" "read_text (skipWhitespace sc) = read_text sc @ w" using read_skip by blast
  then have "stacked b K (states (skipWhitespace sc)) (read_text (skipWhitespace sc))"
    using stacked_blank [of b K st sts] assms(1) s shape_states [OF shape_skip, of sc] by (simp add: follows_def)
  then show ?thesis using assms shape_kinds [OF shape_skip, of sc] by (simp add: follows_def)
qed

lemma read_advance: "take_byte c sc \<Longrightarrow> read_text (advance sc) = read_text sc @ [c]"
  by (rule read_sits) (simp_all add: take_byte_def sits_single advance_def)

lemma advance_simps [simp]: "stack (advance sc) = stack sc" "overflow (advance sc) = overflow sc"
  by (simp_all add: advance_def)

lemma states_no_overflow: "overflow sc = [] \<Longrightarrow> stack sc = f # fs \<Longrightarrow> states sc = cf_state f # map cf_state fs"
  by (simp add: states_def)

lemma read_text_kept: "kept sc sc' \<Longrightarrow> read_text sc' = read_text sc"
  by (simp add: read_text_def kept_def config_same_def)

lemma value_step:
  assumes "scanValue role scope deferred sc0 = Inr (kind, sc1)" "stacked b K (st # sts) (read_text sc0)"
    "after_value st = Some st'" "states sc0 = st' # sts" "kinds_ok sc0" "stack sc0 \<noteq> []"
  shows "follows b K sc1 \<and> stack sc1 \<noteq> []"
proof -
  have raw: "raw sc1 = raw sc0" using scanValue_moved [OF assms(1)] by (simp add: moved_def config_same_def)
  from scanValue_text [OF assms(1)] show ?thesis
  proof
    assume "read_scalar sc0 kind sc1"
    then obtain v where v: "shape sc1 = shape sc0" "json_value kind v" "sits (raw sc0) (position sc0) v"
      "position sc1 = position sc0 + length v" by (auto simp: read_scalar_def)
    have "stacked b K (states sc1) (read_text sc1)"
      using stacked_value [OF assms(2,3) v(2)] shape_states [OF v(1)] assms(4) read_sits [OF v(3) raw v(4)] by simp
    moreover have "stack sc1 \<noteq> []" using v(1) assms(6) by (auto simp: shape_def)
    ultimately show ?thesis using shape_kinds [OF v(1)] assms(5) by (simp add: follows_def)
  next
    assume "read_open sc0 kind sc1"
    then obtain c new where c: "opener kind c new" "sits (raw sc0) (position sc0) c" "position sc1 = position sc0 + 1"
      "shape sc1 = (new # fst (shape sc0), snd (shape sc0)) \<or>
       overflow sc0 = [] \<and> shape sc1 = (fst (shape sc0), (kind, new) # snd (shape sc0))"
      by (auto simp: read_open_def split: if_splits)
    have len: "position sc1 = position sc0 + length c" using c(1,3) by (auto simp: opener_def)
    have "fst (shape sc0) = []" if "overflow sc0 = []" using that by (simp add: shape_def)
    then have "states sc1 = new # states sc0"
      using c(4) by (elim disjE conjE) (simp_all add: states_of_shape)
    moreover have "stacked b K (new # st' # sts) (read_text sc0 @ c)"
      using stacked_push [OF assms(2,3)] c(1) by (auto simp: opener_def)
    ultimately have "stacked b K (states sc1) (read_text sc1)"
      using assms(4) read_sits [OF c(2) raw len] by simp
    moreover have "kinds_ok sc1"
      using assms(5) c(1,4) by (elim disjE conjE) (simp_all add: kinds_of_shape opener_kind)
    moreover have "stack sc1 \<noteq> []" using c(4) assms(6) by (auto simp: shape_def)
    ultimately show ?thesis by (simp add: follows_def)
  qed
qed

lemma close_step:
  assumes "follows b K sc" "overflow sc = []" "stack sc = f # fs" "take_byte c sc"
    "c = CHR ''}'' \<and> cf_state f \<in> {ObjectFirstKeyOrEnd, ObjectCommaOrEnd} \<or>
     c = CHR '']'' \<and> cf_state f \<in> {ArrayFirstValueOrEnd, ArrayCommaOrEnd}"
  shows "follows b K (closeContainer (advance sc))"
proof -
  let ?sc = "closeContainer (advance sc)"
  have sh: "stack ?sc = fs" "overflow ?sc = []"
    using assms(2,3) by (simp_all add: closeContainer_def Let_def recordRawArguments_def)
  have "read_text ?sc = read_text sc @ [c]"
    using read_text_kept [OF closeContainer_kept] read_advance [OF assms(4)] by simp
  moreover have "stacked b K (map cf_state fs) (read_text sc @ [c])"
    using stacked_close [of b K "cf_state f" "map cf_state fs" "read_text sc" "[c]"] assms
    by (simp add: follows_def states_no_overflow)
  ultimately show ?thesis using assms sh by (simp add: follows_def kinds_ok_def states_def)
qed

text \<open>A punctuation byte that only changes the state of the innermost container.\<close>

lemma punct_step:
  assumes "follows b K sc" "overflow sc = []" "stack sc = f # fs" "take_byte c sc" "kind_of st' = kind_of (cf_state f)"
    "\<And>t. stacked b K (cf_state f # map cf_state fs) t \<Longrightarrow> stacked b K (st' # map cf_state fs) (t @ [c])"
  shows "follows b K (set_state st' (advance sc))"
proof -
  have "read_text (set_state st' (advance sc)) = read_text sc @ [c]"
    using read_advance [OF assms(4)] by (simp add: read_text_def)
  then show ?thesis using assms by (simp add: follows_def states_def kinds_ok_def)
qed

lemma shape_preserved:
  "exhaust_members sc = Inr sc' \<Longrightarrow> shape sc' = shape sc"
  "chargeItem p scope deferred sc = Inr sc' \<Longrightarrow> shape sc' = shape sc"
  "note_key key sp sc = Inr sc' \<Longrightarrow> shape sc' = shape sc"
  "record_method frame kind start sc = Inr sc' \<Longrightarrow> shape sc' = shape sc"
  "shape (capture_root frame kind start pushed compacted sc) = shape sc"
  "shape (capture_params frame kind start pushed compacted sc) = shape sc"
  "shape (recordRawArguments kind sp sc) = shape sc"
  subgoal by (auto simp: exhaust_members_def Let_def dest!: record_same split: if_splits)
      (auto simp: shape_def split: list.splits)
  subgoal by (auto simp: chargeItem_def chargeProtocolItem_def Let_def dest!: record_same
        split: if_splits ValidationScope.splits) (auto simp: shape_def split: list.splits)
  subgoal by (auto simp: note_key_def Let_def dest!: record_same split: if_splits)
      (auto simp: shape_def split: list.splits)
  subgoal by (auto simp: record_method_def Let_def dest!: record_same split: if_splits sum.splits)
      (auto simp: shape_def)
  by (auto simp: capture_root_def capture_params_def recordRawArguments_def Let_def shape_def split: list.splits)

lemma chargeObjectMember_shape:
  assumes "chargeObjectMember sc = Inr sc'"
  shows "shape sc' = shape sc"
proof -
  obtain sc2 sc3 where "exhaust_members sc = Inr sc2"
    "chargeItem (position sc2) (cf_scope (hd (stack sc))) (cf_deferred (hd (stack sc))) sc2 = Inr sc3"
    "sc' = map_top (\<lambda>f. if \<not> cf_membersExhausted f then f\<lparr>cf_members := cf_members f + 1\<rparr> else f) sc3"
    using assms unfolding chargeObjectMember_def Let_def by (auto simp: bind_sum_Inr)
  moreover from this(3) have "shape sc' = shape sc3" by (simp only:) (rule shape_map_top, simp)
  ultimately show ?thesis using shape_preserved(1,2) by metis
qed


section \<open>Every step keeps the invariant\<close>

lemma key_step:
  assumes "scanObjectKey sc = Inr sc'" "follows b K sc" "overflow sc = []" "stack sc = f # fs"
    "cf_state f \<in> {ObjectFirstKeyOrEnd, ObjectKey}"
  shows "follows b K sc'"
proof -
  obtain sc1 where 1: "chargeObjectMember sc = Inr sc1"
    using assms unfolding scanObjectKey_def by (auto simp: bind_sum_Inr split: if_splits)
  let ?frame = "hd (stack sc1)"
  let ?cap = "(\<not> cf_deferred ?frame \<or> sc_mode sc1 = ProtocolWithRawArguments) \<and>
    \<not> scopeHasError sc1 (cf_scope ?frame) \<and> \<not> (cf_deferred ?frame \<and> deferredError sc1 \<noteq> None)"
  obtain key0 sp sc2 where 2: "scanString (position sc1) (MaxKeyBytes (sc_limits sc1)) ?cap (cf_scope ?frame)
      (cf_deferred ?frame) sc1 = Inr (key0, sp, sc2)"
    using assms(1) 1 unfolding scanObjectKey_def Let_def by (auto simp: bind_sum_Inr split: if_splits)
  then obtain key sc3 where 3: "note_key key sp sc2 = Inr sc3"
    and 4: "sc' = map_top (\<lambda>f. f\<lparr>cf_pendingKey := key, cf_pendingKeySpan := sp, cf_state := ObjectColon\<rparr>)
           (sc3\<lparr>position := End sp\<rparr>)"
    using assms(1) 1 unfolding scanObjectKey_def Let_def by (auto simp: bind_sum_Inr split: if_splits)
  have sh: "shape sc3 = shape sc"
    using chargeObjectMember_shape [OF 1] scanString_shape [OF 2] shape_preserved(3) [OF 3] by simp
  have raw: "raw sc3 = raw sc" "raw sc1 = raw sc" "position sc1 = position sc"
    using chargeObjectMember_kept [OF 1] scanString_kept [OF 2] note_key_kept [OF 3]
    by (auto simp: kept_def config_same_def)
  obtain v where v: "json_string v" "sits (raw sc) (position sc) v" "End sp = position sc + length v"
    using scanString_grammar [OF 2] raw by auto
  have st: "overflow sc3 = []" "map (\<lambda>f. (cf_kind f, cf_state f)) (stack sc3) = map (\<lambda>f. (cf_kind f, cf_state f)) (f # fs)"
    using sh assms(3,4) by (simp_all add: shape_def)
  then obtain g gs where g: "stack sc3 = g # gs" "cf_kind g = cf_kind f"
    "map (\<lambda>f. (cf_kind f, cf_state f)) gs = map (\<lambda>f. (cf_kind f, cf_state f)) fs" by auto
  have sh': "shape sc' = ([], (cf_kind f, ObjectColon) # map (\<lambda>f. (cf_kind f, cf_state f)) fs)"
    using 4 st g by (simp add: shape_def)
  have "states sc = cf_state f # map cf_state fs" using assms(3,4) by (simp add: states_def)
  then have "stacked b K (ObjectColon # map cf_state fs) (read_text sc @ v)"
    using stacked_key [OF _ assms(5) v(1), of b K "map cf_state fs" "read_text sc"] assms(2) by (simp add: follows_def)
  moreover have "read_text sc' = read_text sc @ v"
    by (rule read_sits [OF v(2)]) (use 4 raw v(3) in simp_all)
  moreover have "states sc' = ObjectColon # map cf_state fs" by (simp add: states_of_shape sh' comp_def)
  moreover have "kinds_ok sc'"
    using assms(2,4,5) unfolding kinds_of_shape sh'
    by (auto simp: follows_def kinds_ok_def kind_of_def is_object_state_def list_all_iff)
  moreover have "overflow sc' = []" using sh' by (simp add: shape_def)
  ultimately show ?thesis by (simp add: follows_def)
qed

lemma follows_shape:
  "follows b K sc \<Longrightarrow> stack sc \<noteq> [] \<Longrightarrow> shape sc' = shape sc \<Longrightarrow> kept sc sc' \<Longrightarrow> follows b K sc'"
  using shape_states [of sc' sc] shape_kinds [of sc' sc] read_text_kept [of sc sc']
  by (auto simp: follows_def shape_def)

lemma set_state_shape:
  assumes "stack sc = f # fs" "overflow sc = []" "kinds_ok sc" "after_value (cf_state f) = Some st'"
  shows "states (set_state st' sc) = st' # map cf_state fs" "kinds_ok (set_state st' sc)"
    "read_text (set_state st' sc) = read_text sc" "stack (set_state st' sc) \<noteq> []"
  using assms after_value_kind [OF assms(4)] by (simp_all add: states_def kinds_ok_def read_text_def)

lemma object_value_step:
  assumes "scanObjectValue sc = Inr sc'" "follows b K sc" "overflow sc = []" "stack sc = f # fs"
    "cf_state f = ObjectValue"
  shows "follows b K sc'"
proof -
  obtain role scope deferred where l: "value_layer (sc_mode sc) (hd (stack sc)) = (role, scope, deferred)"
    by (cases "value_layer (sc_mode sc) (hd (stack sc))")
  let ?sc0 = "set_state ObjectCommaOrEnd sc"
  obtain kind sc1 where 1: "scanValue role scope deferred ?sc0 = Inr (kind, sc1)"
    using assms(1) by (auto simp: scanObjectValue_def l Let_def bind_sum_Inr)
  obtain sc2 where 2: "record_method (hd (stack sc)) kind (position sc) sc1 = Inr sc2"
    using assms(1) 1 by (auto simp: scanObjectValue_def l Let_def bind_sum_Inr)
  have 3: "kept sc2 sc' \<and> shape sc' = shape sc2"
    using assms(1) 1 2 unfolding scanObjectValue_def Let_def l
    by (auto simp: shape_preserved(5-7) intro!: kept_trans [OF capture_kept(1) kept_trans [OF capture_kept(2) capture_kept(3)]]
        kept_trans [OF capture_kept(1) capture_kept(2)] split: if_splits)
  have av: "after_value (cf_state f) = Some ObjectCommaOrEnd" using assms(5) by (simp add: after_value_def)
  have kinds: "kinds_ok sc" and st: "stacked b K (cf_state f # map cf_state fs) (read_text sc)"
    using assms(2-4) by (simp_all add: follows_def states_def)
  note s = set_state_shape [OF assms(4,3) kinds av]
  have "follows b K sc1 \<and> stack sc1 \<noteq> []"
    by (rule value_step [OF 1 _ av s(1,2,4)]) (use st s(3) in simp)
  then show ?thesis
    using follows_shape [of b K sc1 sc'] 3 shape_preserved(4) [OF 2] kept_trans [OF record_method_kept [OF 2]] by metis
qed

lemma array_value_step:
  assumes "scanArrayValue sc = Inr sc'" "follows b K sc" "overflow sc = []" "stack sc = f # fs"
    "cf_state f \<in> {ArrayFirstValueOrEnd, ArrayValue}"
  shows "follows b K sc'"
proof -
  let ?scope = "cf_scope (hd (stack sc))" and ?def = "cf_deferred (hd (stack sc))"
  obtain sc1 where 1: "chargeItem (position sc) ?scope ?def sc = Inr sc1"
    using assms(1) by (auto simp: scanArrayValue_def Let_def bind_sum_Inr)
  let ?sc1 = "set_state ArrayCommaOrEnd sc1"
  obtain kind sc2 where 2: "scanValue RoleGeneric ?scope ?def ?sc1 = Inr (kind, sc2)"
    using assms(1) 1 by (auto simp: scanArrayValue_def Let_def bind_sum_Inr)
  have 3: "kept sc2 sc' \<and> shape sc' = shape sc2"
    using assms(1) 1 2 unfolding scanArrayValue_def Let_def
    by (auto simp: kept_def config_same_def shape_def split: if_splits list.splits)
  have f1: "follows b K sc1"
    using follows_shape [OF assms(2) _ shape_preserved(2) [OF 1] chargeItem_kept [OF 1]] assms(4) by simp
  have sh1: "shape sc1 = shape sc" by (rule shape_preserved(2) [OF 1])
  then obtain g gs where g: "stack sc1 = g # gs" "cf_state g = cf_state f" "overflow sc1 = []"
    using assms(3,4) by (auto simp: shape_def)
  have av: "after_value (cf_state g) = Some ArrayCommaOrEnd" using assms(5) g(2) by (auto simp: after_value_def)
  have kinds: "kinds_ok sc1" and st: "stacked b K (cf_state g # map cf_state gs) (read_text sc1)"
    using f1 g by (simp_all add: follows_def states_def)
  note s = set_state_shape [OF g(1,3) kinds av]
  have "follows b K sc2 \<and> stack sc2 \<noteq> []"
    by (rule value_step [OF 2 _ av s(1,2,4)]) (use st s(3) in simp)
  then show ?thesis using follows_shape [of b K sc2 sc'] 3 by blast
qed

lemma stepObject_follows:
  assumes "stepObject (cf_state f) sc0 = Inr sc'" "follows b K sc0" "overflow sc0 = []" "stack sc0 = f # fs"
  shows "follows b K sc'"
proof -
  let ?sc = "skipWhitespace sc0"
  have f: "follows b K ?sc" using follows_skip [OF assms(2)] assms(4) by simp
  have s: "overflow ?sc = []" "stack ?sc = f # fs" using assms(3,4) by simp_all
  note [simp] = kind_of_def is_object_state_def
  show ?thesis
  proof (cases "cf_state f")
    case ObjectFirstKeyOrEnd
    then show ?thesis using assms(1) close_step [OF f s] key_step [OF _ f s]
      by (auto simp: stepObject_def Let_def split: if_splits)
  next
    case ObjectKey
    then show ?thesis using assms(1) key_step [OF _ f s] by (auto simp: stepObject_def Let_def)
  next
    case ObjectColon
    then show ?thesis using assms(1) punct_step [OF f s, of "CHR '':''" ObjectValue] stacked_colon
      by (auto simp: stepObject_def Let_def split: if_splits)
  next
    case ObjectValue
    then show ?thesis using assms(1) object_value_step [OF _ f s] by (auto simp: stepObject_def Let_def)
  next
    case ObjectCommaOrEnd
    then show ?thesis using assms(1) close_step [OF f s] punct_step [OF f s, of "CHR '',''" ObjectKey] stacked_object_comma
      by (auto simp: stepObject_def Let_def split: if_splits)
  qed (use assms(1) in \<open>simp_all add: stepObject_def Let_def\<close>)
qed

lemma stepArray_follows:
  assumes "stepArray (cf_state f) sc0 = Inr sc'" "follows b K sc0" "overflow sc0 = []" "stack sc0 = f # fs"
  shows "follows b K sc'"
proof -
  let ?sc = "skipWhitespace sc0"
  have f: "follows b K ?sc" using follows_skip [OF assms(2)] assms(4) by simp
  have s: "overflow ?sc = []" "stack ?sc = f # fs" using assms(3,4) by simp_all
  note [simp] = kind_of_def is_object_state_def
  show ?thesis
  proof (cases "cf_state f")
    case ArrayFirstValueOrEnd
    then show ?thesis using assms(1) close_step [OF f s] array_value_step [OF _ f s]
      by (auto simp: stepArray_def Let_def split: if_splits)
  next
    case ArrayValue
    then show ?thesis using assms(1) array_value_step [OF _ f s] by (auto simp: stepArray_def Let_def)
  next
    case ArrayCommaOrEnd
    then show ?thesis using assms(1) close_step [OF f s] punct_step [OF f s, of "CHR '',''" ArrayValue] stacked_array_comma
      by (auto simp: stepArray_def Let_def split: if_splits)
  qed (use assms(1) in \<open>simp_all add: stepArray_def Let_def\<close>)
qed


lemma overflow_punct:
  assumes "follows b K sc" "overflow sc = st # ov" "stack sc \<noteq> []" "take_byte c sc"
    "stacked b K (st # ov @ map cf_state (stack sc)) (read_text sc) \<Longrightarrow>
     stacked b K (st' # ov @ map cf_state (stack sc)) (read_text sc @ [c])"
  shows "follows b K (set_overflow st' (advance sc))"
proof -
  have "read_text (set_overflow st' (advance sc)) = read_text sc @ [c]"
    using read_advance [OF assms(4)] by (simp add: read_text_def)
  then show ?thesis using assms by (simp add: follows_def states_def kinds_ok_def)
qed

lemma overflow_close:
  assumes "follows b K sc" "overflow sc = st # ov" "stack sc \<noteq> []" "take_byte c sc"
    "c = CHR ''}'' \<and> st \<in> {ObjectFirstKeyOrEnd, ObjectCommaOrEnd} \<or>
     c = CHR '']'' \<and> st \<in> {ArrayFirstValueOrEnd, ArrayCommaOrEnd}"
  shows "follows b K (pop_overflow (advance sc))"
proof -
  have "read_text (pop_overflow (advance sc)) = read_text sc @ [c]"
    using read_advance [OF assms(4)] by (simp add: read_text_def)
  moreover have "stacked b K (ov @ map cf_state (stack sc)) (read_text sc @ [c])"
    using stacked_close [of b K st "ov @ map cf_state (stack sc)" "read_text sc" "[c]"] assms
    by (simp add: follows_def states_def)
  ultimately show ?thesis using assms by (simp add: follows_def states_def kinds_ok_def)
qed

lemma overflow_key:
  assumes "scanOverflowObjectKey sc = Inr sc'" "follows b K sc" "overflow sc = st # ov" "stack sc \<noteq> []"
    "st \<in> {ObjectFirstKeyOrEnd, ObjectKey}"
  shows "follows b K sc'"
proof -
  obtain s sp where s: "scanJSONStringSemantics (raw sc) (position sc) max_uint64 False False = Inr (s, sp)"
    "sc' = sc\<lparr>position := End sp, overflow := ObjectColon # tl (overflow sc)\<rparr>"
    using assms(1) by (auto simp: scanOverflowObjectKey_def bind_sum_Inr)
  obtain v where v: "json_string v" "sits (raw sc) (position sc) v" "End sp = position sc + length v"
    using scanSemantics_grammar [OF s(1)] by blast
  have "read_text sc' = read_text sc @ v" by (rule read_sits [OF v(2)]) (use s v in simp_all)
  moreover have "stacked b K (ObjectColon # ov @ map cf_state (stack sc)) (read_text sc @ v)"
    using stacked_key [OF _ assms(5) v(1), of b K "ov @ map cf_state (stack sc)" "read_text sc"] assms(2,3)
    by (simp add: follows_def states_def)
  ultimately show ?thesis using assms s(2) by (simp add: follows_def states_def kinds_ok_def)
qed

lemma overflow_value:
  assumes "scanOverflowValue (set_overflow st' sc) = Inr sc'" "follows b K sc" "overflow sc = st # ov" "stack sc \<noteq> []"
    "after_value st = Some st'"
  shows "follows b K sc'"
proof -
  let ?sc0 = "set_overflow st' sc"
  obtain scope deferred kind where 1: "scanValue RoleGeneric scope deferred ?sc0 = Inr (kind, sc')"
    using assms(1,4) by (cases "stack sc") (auto simp: scanOverflowValue_def bind_sum_Inr)
  have "follows b K sc' \<and> stack sc' \<noteq> []"
  proof (rule value_step [OF 1 _ assms(5)])
    show "stacked b K (st # ov @ map cf_state (stack sc)) (read_text ?sc0)"
      using assms(2,3) by (simp add: follows_def states_def read_text_def)
    show "states ?sc0 = st' # ov @ map cf_state (stack sc)" using assms(3) by (simp add: states_def)
    show "kinds_ok ?sc0" using assms(2) by (simp add: follows_def kinds_ok_def)
  qed (use assms(4) in simp)
  then show ?thesis ..
qed

lemma stepOverflow_follows:
  assumes "stepOverflow sc0 = Inr sc'" "follows b K sc0" "overflow sc0 = st # ov" "stack sc0 \<noteq> []"
  shows "follows b K sc'"
proof -
  let ?sc = "skipWhitespace sc0"
  have f: "follows b K ?sc" using follows_skip [OF assms(2,4)] .
  have s: "overflow ?sc = st # ov" "stack ?sc \<noteq> []" using assms(3,4) by simp_all
  note step = assms(1) [unfolded stepOverflow_def Let_def s(1) list.sel]
  note close = overflow_close [OF f s] and val_step = overflow_value [OF _ f s] and key = overflow_key [OF _ f s]
  show ?thesis
  proof (cases st)
    case ObjectColon
    then show ?thesis using step overflow_punct [OF f s, of "CHR '':''" ObjectValue] stacked_colon
      by (auto split: if_splits)
  next
    case ObjectCommaOrEnd
    then show ?thesis using step close overflow_punct [OF f s, of "CHR '',''" ObjectKey] stacked_object_comma
      by (auto split: if_splits)
  next
    case ArrayCommaOrEnd
    then show ?thesis using step close overflow_punct [OF f s, of "CHR '',''" ArrayValue] stacked_array_comma
      by (auto split: if_splits)
  next
    case ObjectFirstKeyOrEnd
    then show ?thesis using step close key by (auto split: if_splits)
  next
    case ObjectKey
    then show ?thesis using step key by auto
  next
    case ObjectValue
    then show ?thesis using step val_step [of ObjectCommaOrEnd] s by (simp add: after_value_def)
  next
    case ArrayFirstValueOrEnd
    then show ?thesis using step close val_step [of ArrayCommaOrEnd] s by (auto simp: after_value_def split: if_splits)
  next
    case ArrayValue
    then show ?thesis using step val_step [of ArrayCommaOrEnd] s by (simp add: after_value_def)
  qed
qed

lemma stepContainer_follows:
  assumes "stepContainer sc = Inr sc'" "follows b K sc" "stack sc \<noteq> []"
  shows "follows b K sc'"
proof (cases "overflow sc")
  case (Cons st ov)
  then show ?thesis using assms stepOverflow_follows by (simp add: stepContainer_def)
next
  case Nil
  obtain f fs where f: "stack sc = f # fs" using assms(3) by (cases "stack sc") auto
  show ?thesis using assms(1,2) Nil f stepObject_follows [of f sc sc' b K fs] stepArray_follows [of f sc sc' b K fs]
    by (simp add: stepContainer_def split: if_splits)
qed

lemma scan_loop_follows:
  "scan_loop sc = Inr sc' \<Longrightarrow> follows b K sc \<Longrightarrow> follows b K sc' \<and> stack sc' = []"
proof (induction sc rule: scan_loop.induct)
  case (1 sc)
  show ?case
  proof (cases "stack sc = []")
    case True
    then show ?thesis using "1.prems" by (simp add: scan_loop.simps)
  next
    case False
    then obtain sc1 where s: "stepContainer sc = Inr sc1" "scan_loop sc1 = Inr sc'"
      using "1.prems"(1) by (simp add: scan_loop.simps [of sc] split: sum.splits)
    then show ?thesis using "1.IH" [OF False s] stepContainer_follows [OF s(1) "1.prems"(2) False] by blast
  qed
qed

lemma scan_loop_config:
  "scan_loop sc = Inr sc' \<Longrightarrow> config_same sc sc' \<and> position sc \<le> position sc' \<and>
    (position sc \<le> length (raw sc) \<longrightarrow> position sc' \<le> length (raw sc))"
proof (induction sc rule: scan_loop.induct)
  case (1 sc)
  show ?case
  proof (cases "stack sc = []")
    case True
    then show ?thesis using "1.prems" by (simp add: scan_loop.simps)
  next
    case False
    then obtain sc1 where s: "stepContainer sc = Inr sc1" "scan_loop sc1 = Inr sc'"
      using "1.prems"(1) by (simp add: scan_loop.simps [of sc] split: sum.splits)
    then show ?thesis using "1.IH" [OF False s] stepContainer_moved [OF s(1)]
      by (auto simp: moved_def config_same_def)
  qed
qed

text \<open>The first value starts behind the leading white space.\<close>

lemma first_value_follows:
  assumes "scanValue RoleRoot scope False sc0 = Inr (kind, sc1)" "stack sc0 = []" "overflow sc0 = []"
  shows "follows (read_text sc0) kind sc1"
proof -
  have raw: "raw sc1 = raw sc0" using scanValue_moved [OF assms(1)] by (simp add: moved_def config_same_def)
  have sh0: "shape sc0 = ([], [])" using assms(2,3) by (simp add: shape_def)
  from scanValue_text [OF assms(1)] show ?thesis
  proof
    assume "read_scalar sc0 kind sc1"
    then obtain v where v: "shape sc1 = ([], [])" "json_value kind v" "sits (raw sc0) (position sc0) v"
      "position sc1 = position sc0 + length v" using sh0 by (auto simp: read_scalar_def)
    then show ?thesis using read_sits [OF v(3) raw v(4)]
      by (auto simp: follows_def states_of_shape kinds_of_shape) (auto simp: shape_def)
  next
    assume "read_open sc0 kind sc1"
    then obtain c new where c: "opener kind c new" "sits (raw sc0) (position sc0) c" "position sc1 = position sc0 + 1"
      "shape sc1 = ([], [(kind, new)])"
      using assms(2,3) sh0 by (auto simp: read_open_def)
    have len: "position sc1 = position sc0 + length c" using c(1,3) by (auto simp: opener_def)
    have "stacked (read_text sc0) kind [new] (read_text sc0 @ c)"
      unfolding stacked.simps using c(1) opener_kind [OF c(1)] open_first by (auto simp: opener_def)
    then show ?thesis using read_sits [OF c(2) raw len] c(4) opener_kind [OF c(1)]
      by (simp add: follows_def states_of_shape kinds_of_shape) (simp add: shape_def)
  qed
qed

definition document_of :: "bytes \<Rightarrow> ValueKind \<Rightarrow> Span \<Rightarrow> bool" where
  "document_of r kind sp \<longleftrightarrow> (\<exists>w1 v w2. r = w1 @ v @ w2 \<and> blank w1 \<and> blank w2 \<and> json_value kind v \<and>
    sp = \<lparr>Start = length w1, End = length w1 + length v\<rparr>)"

lemma scanned_document:
  assumes "scanDocumentConfigured r limits mode cm ce cp collect = (Some res, e)"
  shows "document_of r (dr_Kind res) (dr_Span res)"
proof -
  let ?new = "newScanner r limits mode cm ce cp collect"
  let ?sc0 = "skipWhitespace ?new"
  let ?scope = "if collect then ScopeProtocolEnvelope else ScopeValue"
  obtain kind sc1 where 1: "scanValue RoleRoot ?scope False ?sc0 = Inr (kind, sc1)"
    using assms by (auto simp: scanDocumentConfigured_def Let_def split: if_splits sum.splits)
  obtain sc2 where 2: "scan_loop sc1 = Inr sc2"
    using assms 1 by (auto simp: scanDocumentConfigured_def Let_def split: if_splits sum.splits)
  have 3: "position (skipWhitespace sc2) = length r"
    "dr_Kind res = kind" "dr_Span res = \<lparr>Start = position ?sc0, End = position sc2\<rparr>"
    using assms 1 2 by (auto simp: scanDocumentConfigured_def Let_def split: if_splits sum.splits)
  have "follows (read_text ?sc0) kind sc1"
    by (rule first_value_follows [OF 1]) (simp_all add: newScanner_def)
  from scan_loop_follows [OF 2 this] have "follows (read_text ?sc0) kind sc2" "stack sc2 = []" by blast+
  then obtain v where v: "json_value kind v" "read_text sc2 = read_text ?sc0 @ v"
    by (auto simp: follows_def states_def)
  have raw: "raw sc1 = r" "raw sc2 = r" "position sc2 \<le> length r"
    using scanValue_moved [OF 1] scan_loop_config [OF 2] by (auto simp: moved_def config_same_def skipWhitespace_def newScanner_def)
  obtain w where w: "blank w" "read_text (skipWhitespace sc2) = read_text sc2 @ w" using read_skip by blast
  obtain w0 where w0: "blank w0" "read_text ?sc0 = read_text ?new @ w0" using read_skip by blast
  define pre where "pre = read_text ?sc0"
  have "r = pre @ v @ w"
    using v w 3(1) raw(2) unfolding pre_def by (simp add: read_text_def skipWhitespace_def)
  moreover have "blank pre" using w0 unfolding pre_def by (simp add: read_text_def newScanner_def)
  moreover have "position ?sc0 = length pre"
    unfolding pre_def using skipWhitespace_bounds(1) [of ?new]
    by (simp add: read_text_def skipWhitespace_bounds(4)) (simp add: newScanner_def)
  moreover from this have "position sc2 = length pre + length v"
    using arg_cong [OF v(2), of length] raw unfolding pre_def [symmetric] by (simp add: read_text_def)
  ultimately show ?thesis unfolding document_of_def 3
    by (intro exI [of _ pre] exI [of _ v] exI [of _ w] conjI) (simp_all only: w(1) v(1) 3)
qed

text \<open>C29. Soundness of the scanner: whatever limits, mode and recovery a caller chooses, a document result
  is only returned for a text that is exactly one value of the JSON grammar between optional white space;
  the reported kind is the kind of that value and the reported span is exactly its text.\<close>

theorem scan_follows_grammar:
  assumes "scanDocumentConfigured r limits mode cm ce cp collect = (Some res, e)"
  shows "document_of r (dr_Kind res) (dr_Span res)"
  using assms by (rule scanned_document)

lemma scan_follows_grammar_witness:
  "document_of '' [{},1] '' JArray \<lparr>Start = 1, End = 7\<rparr>"
proof -
  let ?lim = "\<lparr>MaxDepth = 2, MaxObjectMembers = 2, MaxContainerItems = 3, MaxKeyBytes = 4, MaxStringBytes = 4,
    MaxNumberRawBytes = 4\<rparr>"
  let ?res = "\<lparr>dr_Kind = JArray, dr_Span = \<lparr>Start = 1, End = 7\<rparr>, dr_Members = [], dr_ParamsMembers = [],
    dr_Elements = [], dr_RawArguments = \<lparr>Start = 0, End = 0\<rparr>, dr_HasRawArguments = False\<rparr>"
  have "scanDocumentConfigured '' [{},1] '' ?lim ValidateAll False False False False = (Some ?res, None)"
    by code_simp
  from scan_follows_grammar [OF this] show ?thesis by simp
qed

end
