(* ===== verification/JsonLimits.thy ===== *)
theory JsonLimits
  imports JsonGrammar
begin

text \<open>
  The resource bounds of the scanner of \<open>src/internal/jsonwire/scanner.go\<close>: an invariant of all states
  the driver loop of \<open>scanDocumentConfigured\<close> reaches, by rule induction.  The stack of frames never
  grows beyond one frame more than the depth limit, deeper containers are kept as one state each, and a
  document whose scan reports no error respected every limit.
\<close>

section \<open>The reachable states\<close>

inductive scanning :: "bytes \<Rightarrow> Limits \<Rightarrow> Mode \<Rightarrow> bool \<Rightarrow> bool \<Rightarrow> bool \<Rightarrow> bool \<Rightarrow> structuralScanner \<Rightarrow> bool"
  for r limits mode cm ce cp collect
where
  scan_first: "scanValue RoleRoot (if collect then ScopeProtocolEnvelope else ScopeValue) False
      (skipWhitespace (newScanner r limits mode cm ce cp collect)) = Inr (kind, sc) \<Longrightarrow>
    scanning r limits mode cm ce cp collect sc"
| scan_next: "scanning r limits mode cm ce cp collect sc \<Longrightarrow> stack sc \<noteq> [] \<Longrightarrow> stepContainer sc = Inr sc' \<Longrightarrow>
    scanning r limits mode cm ce cp collect sc'"

lemma scan_loop_scanning:
  "scan_loop sc = Inr sc' \<Longrightarrow> scanning r limits mode cm ce cp collect sc \<Longrightarrow>
    scanning r limits mode cm ce cp collect sc'"
proof (induction sc rule: scan_loop.induct)
  case (1 sc)
  show ?case
  proof (cases "stack sc = []")
    case True
    then show ?thesis using "1.prems" by (simp add: scan_loop.simps)
  next
    case False
    then obtain sc1 where s: "stepContainer sc = Inr sc1" "scan_loop sc1 = Inr sc'"
      using "1.prems"(1) by (simp add: scan_loop.simps [of sc] split: sum.splits)
    then show ?thesis using "1.IH" [OF False s] scan_next [OF "1.prems"(2) False s(1)] by blast
  qed
qed

section \<open>The invariant\<close>

text \<open>An error of the envelope or the params has been recorded.\<close>

definition recorded :: "structuralScanner \<Rightarrow> bool" where
  "recorded sc \<longleftrightarrow> collectProtocolErrors sc \<and> (envelopeError sc \<noteq> None \<or> paramsError sc \<noteq> None)"

fun depth_ok :: "nat \<Rightarrow> bool list \<Rightarrow> bool" where
  "depth_ok mx [] \<longleftrightarrow> True"
| "depth_ok mx (c # cs) \<longleftrightarrow> c = (mx \<le> length cs) \<and> length cs \<le> mx \<and> depth_ok mx cs"

definition counts :: "structuralScanner \<Rightarrow> (bool \<times> nat \<times> bool) list" where
  "counts sc = map (\<lambda>f. (cf_compactChildren f, cf_members f, cf_membersExhausted f)) (stack sc)"

definition in_limits :: "structuralScanner \<Rightarrow> bool" where
  "in_limits sc \<longleftrightarrow>
    depth_ok (MaxDepth (sc_limits sc)) (map fst (counts sc)) \<and>
    (overflow sc \<noteq> [] \<longrightarrow> counts sc \<noteq> [] \<and> fst (hd (counts sc))) \<and>
    (MaxDepth (sc_limits sc) < length (counts sc) \<longrightarrow> recorded sc) \<and>
    (MaxContainerItems (sc_limits sc) < totalItems sc \<longrightarrow> collectProtocolErrors sc \<and> containerItemsExhausted sc) \<and>
    (\<forall>(c, n, e)\<in>set (counts sc). n \<le> MaxObjectMembers (sc_limits sc) \<and> (e \<longrightarrow> recorded sc))"

text \<open>Operations that do not touch what the limits count.\<close>

definition mild :: "structuralScanner \<Rightarrow> structuralScanner \<Rightarrow> bool" where
  "mild sc sc' \<longleftrightarrow> sc_limits sc' = sc_limits sc \<and> collectProtocolErrors sc' = collectProtocolErrors sc \<and>
    overflow sc' = overflow sc \<and> totalItems sc' = totalItems sc \<and> counts sc' = counts sc \<and>
    (containerItemsExhausted sc \<longrightarrow> containerItemsExhausted sc') \<and> (recorded sc \<longrightarrow> recorded sc')"

lemma mild_refl [simp]: "mild sc sc" by (simp add: mild_def)

lemma mild_trans: "mild a b \<Longrightarrow> mild b c \<Longrightarrow> mild a c" by (simp add: mild_def)

lemma in_limits_mild: "in_limits sc \<Longrightarrow> mild sc sc' \<Longrightarrow> in_limits sc'"
  by (auto simp: in_limits_def mild_def)

lemma mild_updates [simp]:
  "mild sc (sc'\<lparr>position := p\<rparr>) \<longleftrightarrow> mild sc sc'"
  "mild (sc\<lparr>methodIsString := b\<rparr>) sc' \<longleftrightarrow> mild sc sc'"
  "mild sc (sc'\<lparr>sc_method := m\<rparr>) \<longleftrightarrow> mild sc sc'"
  "mild sc (sc'\<lparr>methodIsString := b\<rparr>) \<longleftrightarrow> mild sc sc'"
  by (simp_all add: mild_def recorded_def counts_def)

lemma record_mild:
  "record_or_fail e scope deferred sc = Inr sc' \<Longrightarrow> mild sc sc'"
  by (auto simp: record_or_fail_def recordRecoverable_def mild_def recorded_def counts_def Let_def
      split: if_splits bool.splits prod.splits ValidationScope.splits)

lemma record_resource:
  "record_or_fail (newValidationError KindResource p) scope deferred sc = Inr sc' \<Longrightarrow> recorded sc'"
  by (auto simp: record_or_fail_def recordRecoverable_def recorded_def newValidationError_def Let_def
      split: if_splits bool.splits prod.splits ValidationScope.splits)

lemma scope_recorded: "scopeHasError sc scope \<Longrightarrow> recorded sc"
  by (auto simp: scopeHasError_def recorded_def split: if_splits ValidationScope.splits)

lemma recordings_mild: "recordings scope deferred sc sc' \<Longrightarrow> mild sc sc'"
  by (induction rule: recordings.induct) (auto dest: record_mild intro: mild_trans)

lemma scanString_mild:
  "scanString start limit capture scope deferred sc = Inr (val, sp, sc') \<Longrightarrow> mild sc sc'"
  using scanString_read recordings_mild by blast

lemma scanNumberRecovering_mild: "scanNumberRecovering scope deferred sc = Inr sc' \<Longrightarrow> mild sc sc'"
  by (auto simp: scanNumberRecovering_def Let_def bind_sum_Inr dest!: record_mild split: sum.splits)

lemma mild_map_top:
  "(\<And>f. cf_compactChildren (g f) = cf_compactChildren f \<and> cf_members (g f) = cf_members f \<and>
    cf_membersExhausted (g f) = cf_membersExhausted f) \<Longrightarrow> mild sc (map_top g sc)"
  by (simp add: mild_def recorded_def counts_def split: list.splits)

lemma mild_simple [simp]:
  "mild sc (advance sc)" "mild sc (skipWhitespace sc)" "mild sc (set_state st sc)"
  "mild sc (capture_root frame kind start pushed compacted sc)"
  "mild sc (capture_params frame kind start pushed compacted sc)"
  "mild sc (recordRawArguments kind sp sc)"
  by (auto simp: advance_def skipWhitespace_def capture_root_def capture_params_def
      recordRawArguments_def Let_def) (auto simp: mild_def recorded_def counts_def split: list.splits)

lemma record_method_mild: "record_method frame kind start sc = Inr sc' \<Longrightarrow> mild sc sc'"
  by (auto simp: record_method_def Let_def dest!: record_mild split: if_splits sum.splits)

lemma note_key_mild: "note_key key sp sc = Inr sc' \<Longrightarrow> mild sc sc'"
  by (auto simp: note_key_def Let_def dest!: record_mild intro!: mild_map_top split: if_splits)

section \<open>Every operation stays within the limits\<close>

lemma depth_ok_push:
  "depth_ok mx cs \<Longrightarrow> cs = [] \<or> \<not> hd cs \<Longrightarrow> depth_ok mx ((mx \<le> length cs) # cs)"
  by (cases cs) auto

lemma compact_top: "stack sc \<noteq> [] \<Longrightarrow> cf_compactChildren (hd (stack sc)) = fst (hd (counts sc))"
  "counts sc = [] \<longleftrightarrow> stack sc = []" "length (counts sc) = length (stack sc)"
  by (cases "stack sc"; simp add: counts_def)+

lemma in_limits_push:
  assumes "in_limits sc" "overflow sc = []" "stack sc = [] \<or> \<not> cf_compactChildren (hd (stack sc))"
    "cf_compactChildren f \<longleftrightarrow> MaxDepth (sc_limits sc) \<le> length (stack sc)" "cf_members f = 0" "\<not> cf_membersExhausted f"
    "cf_compactChildren f \<longrightarrow> recorded sc"
  shows "in_limits (sc\<lparr>position := p, stack := f # stack sc\<rparr>)"
proof -
  have "depth_ok (MaxDepth (sc_limits sc)) (cf_compactChildren f # map fst (counts sc))"
    using depth_ok_push [of "MaxDepth (sc_limits sc)" "map fst (counts sc)"] assms(1,3,4) compact_top [of sc]
    by (cases "counts sc") (auto simp: in_limits_def)
  then show ?thesis using assms compact_top(3) [of sc] by (auto simp: in_limits_def recorded_def counts_def)
qed

lemma pushContainer_in_limits:
  assumes "pushContainer kind state role scope deferred sc = Inr sc'" "in_limits sc"
  shows "in_limits sc'"
proof (cases "overflow sc \<noteq> [] \<or> stack sc \<noteq> [] \<and> cf_compactChildren (hd (stack sc))")
  case True
  then have c: "counts sc \<noteq> [] \<and> fst (hd (counts sc))"
    using assms(2) compact_top(1,2) [of sc] by (cases "overflow sc = []") (simp_all add: in_limits_def)
  have "sc' = sc\<lparr>position := position sc + 1, overflow := state # overflow sc\<rparr>"
    using True assms(1) by (simp add: pushContainer_def)
  then show ?thesis using assms(2) c by (simp add: in_limits_def recorded_def counts_def)
next
  case False
  let ?deep = "MaxDepth (sc_limits sc) \<le> length (stack sc)"
  let ?frame = "\<lambda>sc1. \<lparr>cf_kind = kind, cf_state = state, cf_role = role, cf_scope = scope, cf_deferred = deferred,
      cf_compactChildren = ?deep, cf_start = position sc1, cf_members = 0, cf_membersExhausted = False,
      cf_pendingKey = [], cf_pendingKeySpan = zeroSpan, cf_rootMemberIndex = None, cf_paramsMemberIndex = None,
      cf_rootElementIndex = None, cf_seenKeys = {}\<rparr>"
  obtain sc1 where e: "(if ?deep \<and> \<not> scopeHasError sc scope
          then record_or_fail (newValidationError KindResource (position sc)) scope deferred sc
          else Inr sc) = Inr sc1"
    and sc': "sc' = sc1\<lparr>position := position sc1 + 1, stack := ?frame sc1 # stack sc1\<rparr>"
    using assms(1) False unfolding pushContainer_def Let_def by (simp only: if_False bind_sum_Inr) blast
  have m: "mild sc sc1" "?deep \<longrightarrow> recorded sc1"
    using e record_mild record_resource scope_recorded by (auto split: if_splits)
  have c: "counts sc1 = counts sc" using m(1) by (simp add: mild_def)
  have "length (stack sc1) = length (stack sc)" using c compact_top(3) [of sc] compact_top(3) [of sc1] by simp
  moreover have "stack sc1 = [] \<or> \<not> cf_compactChildren (hd (stack sc1))"
    using False c compact_top(1,2) [of sc] compact_top(1,2) [of sc1] by (cases "stack sc1 = []") simp_all
  moreover have "overflow sc1 = []" "sc_limits sc1 = sc_limits sc" using False m(1) by (simp_all add: mild_def)
  ultimately show ?thesis
    unfolding sc' by (intro in_limits_push in_limits_mild [OF assms(2) m(1)]) (simp_all add: m(2))
qed

lemma scanValue_in_limits:
  assumes "scanValue role scope deferred sc = Inr (kind, sc')" "in_limits sc"
  shows "in_limits sc'"
proof -
  have "mild sc sc1" if "consumeLiteral want sc = Inr sc1" for want sc1
    using that by (auto simp: consumeLiteral_def bind_sum_Inr)
  moreover have "in_limits (sc1\<lparr>position := End sp\<rparr>)"
    if "scanString (position sc) limit False scope deferred sc = Inr (v, sp, sc1)" for limit v sp sc1
    using scanString_mild [OF that] in_limits_mild [OF assms(2)] by simp
  ultimately show ?thesis
    using assms unfolding scanValue_def Let_def
    by (auto simp: bind_sum_Inr intro: pushContainer_in_limits in_limits_mild
        dest: scanNumberRecovering_mild split: if_splits)
qed

lemma chargeProtocolItem_fields:
  "stack (chargeProtocolItem p scope sc) = stack sc" "overflow (chargeProtocolItem p scope sc) = overflow sc"
  "sc_limits (chargeProtocolItem p scope sc) = sc_limits sc"
  "collectProtocolErrors (chargeProtocolItem p scope sc) = collectProtocolErrors sc"
  "recorded (chargeProtocolItem p scope sc) = recorded sc"
  "containerItemsExhausted (chargeProtocolItem p scope sc) \<longleftrightarrow> containerItemsExhausted sc \<or>
     MaxContainerItems (sc_limits sc) < totalItems (chargeProtocolItem p scope sc)"
  by (cases scope; simp add: chargeProtocolItem_def Let_def recorded_def)+

text \<open>What a charge may change: the item count, and that is accounted for.\<close>

definition charged :: "structuralScanner \<Rightarrow> structuralScanner \<Rightarrow> bool" where
  "charged sc sc' \<longleftrightarrow> in_limits sc' \<and> counts sc' = counts sc \<and> sc_limits sc' = sc_limits sc \<and> (recorded sc \<longrightarrow> recorded sc')"

lemma chargeItem_in_limits:
  assumes "chargeItem p scope deferred sc = Inr sc'" "in_limits sc"
  shows "charged sc sc'"
proof (cases "collectProtocolErrors sc")
  case True
  then have "sc' = chargeProtocolItem p scope sc" using assms(1) by (simp add: chargeItem_def)
  then show ?thesis using assms(2) True unfolding charged_def in_limits_def counts_def
    by (simp add: chargeProtocolItem_fields)
next
  case c: False
  show ?thesis
  proof (cases "MaxContainerItems (sc_limits sc) \<le> totalItems sc")
    case True
    then have "recorded sc'" "mild sc sc'" using assms c record_resource record_mild
      by (auto simp: chargeItem_def)
    then show ?thesis using c by (simp add: recorded_def mild_def)
  next
    case False
    then show ?thesis using assms c by (auto simp: chargeItem_def charged_def in_limits_def counts_def recorded_def)
  qed
qed

lemma exhaust_members_in_limits:
  assumes "exhaust_members sc = Inr sc'" "in_limits sc" "stack sc = f # fs"
  shows "in_limits sc' \<and> (\<exists>g gs. stack sc' = g # gs \<and>
    (\<not> cf_membersExhausted g \<longrightarrow> cf_members g < MaxObjectMembers (sc_limits sc')))"
proof (cases "\<not> cf_membersExhausted f \<and> MaxObjectMembers (sc_limits sc) \<le> cf_members f")
  case False
  then show ?thesis using assms by (auto simp: exhaust_members_def Let_def)
next
  case True
  let ?sc = "map_top (\<lambda>f. f\<lparr>cf_membersExhausted := True\<rparr>) sc"
  have r: "recorded sc' \<and> mild ?sc sc'"
    using assms(1,3) True scope_recorded record_resource record_mild
    by (auto simp: exhaust_members_def Let_def split: if_splits)
  obtain c n e cs where cs: "counts sc = (c, n, e) # cs" "counts ?sc = (c, n, True) # cs"
    using assms(3) by (simp add: counts_def)
  have "counts sc' = (c, n, True) # cs" "sc_limits sc' = sc_limits sc" "overflow sc' = overflow sc" "totalItems sc' = totalItems sc"
    "collectProtocolErrors sc' = collectProtocolErrors sc" "containerItemsExhausted sc \<longrightarrow> containerItemsExhausted sc'"
    using r cs(2) by (simp_all add: mild_def)
  moreover from this(1) obtain g gs where "stack sc' = g # gs" "cf_membersExhausted g"
    unfolding counts_def by (cases "stack sc'") auto
  ultimately show ?thesis using assms(2) cs(1) r by (auto simp: in_limits_def)
qed

lemma chargeObjectMember_in_limits:
  assumes "chargeObjectMember sc = Inr sc'" "in_limits sc" "stack sc = f # fs"
  shows "in_limits sc'"
proof -
  obtain sc2 sc3 where 1: "exhaust_members sc = Inr sc2"
    "chargeItem (position sc2) (cf_scope (hd (stack sc))) (cf_deferred (hd (stack sc))) sc2 = Inr sc3"
    "sc' = map_top (\<lambda>f. if \<not> cf_membersExhausted f then f\<lparr>cf_members := cf_members f + 1\<rparr> else f) sc3"
    using assms unfolding chargeObjectMember_def Let_def by (auto simp: bind_sum_Inr)
  obtain g gs where g: "in_limits sc2" "stack sc2 = g # gs"
    "\<not> cf_membersExhausted g \<longrightarrow> cf_members g < MaxObjectMembers (sc_limits sc2)"
    using exhaust_members_in_limits [OF 1(1) assms(2,3)] by blast
  have c: "in_limits sc3" "counts sc3 = counts sc2" "sc_limits sc3 = sc_limits sc2"
    using chargeItem_in_limits [OF 1(2) g(1)] by (auto simp: charged_def)
  then obtain h hs where h: "stack sc3 = h # hs" "cf_members h = cf_members g" "cf_membersExhausted h = cf_membersExhausted g"
    using g(2) unfolding counts_def by (cases "stack sc3") auto
  then show ?thesis using c g(3) unfolding 1(3) by (auto simp: in_limits_def counts_def recorded_def)
qed


section \<open>The invariant of the scan\<close>

lemma closeContainer_in_limits:
  assumes "in_limits sc" "overflow sc = []"
  shows "in_limits (closeContainer sc)"
proof -
  have f: "counts (closeContainer sc) = tl (counts sc)" "overflow (closeContainer sc) = overflow sc"
    "sc_limits (closeContainer sc) = sc_limits sc" "totalItems (closeContainer sc) = totalItems sc"
    "collectProtocolErrors (closeContainer sc) = collectProtocolErrors sc"
    "containerItemsExhausted (closeContainer sc) = containerItemsExhausted sc"
    "recorded (closeContainer sc) = recorded sc"
    by (simp_all add: closeContainer_def Let_def recordRawArguments_def counts_def recorded_def map_tl)
  show ?thesis using assms unfolding in_limits_def f by (cases "counts sc") auto
qed

lemma scanObjectKey_in_limits:
  assumes "scanObjectKey sc = Inr sc'" "in_limits sc" "stack sc = f # fs"
  shows "in_limits sc'"
proof -
  obtain sc1 where 1: "chargeObjectMember sc = Inr sc1"
    using assms unfolding scanObjectKey_def by (auto simp: bind_sum_Inr split: if_splits)
  let ?frame = "hd (stack sc1)"
  let ?cap = "(\<not> cf_deferred ?frame \<or> sc_mode sc1 = ProtocolWithRawArguments) \<and>
    \<not> scopeHasError sc1 (cf_scope ?frame) \<and> \<not> (cf_deferred ?frame \<and> deferredError sc1 \<noteq> None)"
  obtain key0 sp sc2 where 2: "scanString (position sc1) (MaxKeyBytes (sc_limits sc1)) ?cap (cf_scope ?frame)
      (cf_deferred ?frame) sc1 = Inr (key0, sp, sc2)"
    using assms(1) 1 unfolding scanObjectKey_def Let_def by (auto simp: bind_sum_Inr split: if_splits)
  then obtain key sc3 where 3: "note_key key sp sc2 = Inr sc3"
    and 4: "sc' = map_top (\<lambda>f. f\<lparr>cf_pendingKey := key, cf_pendingKeySpan := sp, cf_state := ObjectColon\<rparr>)
           (sc3\<lparr>position := End sp\<rparr>)"
    using assms(1) 1 unfolding scanObjectKey_def Let_def by (auto simp: bind_sum_Inr split: if_splits)
  have "mild (sc3\<lparr>position := End sp\<rparr>) sc'" unfolding 4 by (rule mild_map_top) simp
  moreover have "mild sc1 (sc3\<lparr>position := End sp\<rparr>)"
    using scanString_mild [OF 2] note_key_mild [OF 3] mild_trans by simp
  ultimately show ?thesis
    using chargeObjectMember_in_limits [OF 1 assms(2,3)] in_limits_mild mild_trans by blast
qed

lemma scanObjectValue_in_limits:
  assumes "scanObjectValue sc = Inr sc'" "in_limits sc"
  shows "in_limits sc'"
proof -
  obtain role scope deferred where l: "value_layer (sc_mode sc) (hd (stack sc)) = (role, scope, deferred)"
    by (cases "value_layer (sc_mode sc) (hd (stack sc))")
  let ?sc0 = "set_state ObjectCommaOrEnd sc"
  obtain kind sc1 where 1: "scanValue role scope deferred ?sc0 = Inr (kind, sc1)"
    using assms(1) by (auto simp: scanObjectValue_def l Let_def bind_sum_Inr)
  obtain sc2 where 2: "record_method (hd (stack sc)) kind (position sc) sc1 = Inr sc2"
    using assms(1) 1 by (auto simp: scanObjectValue_def l Let_def bind_sum_Inr)
  have 3: "mild sc2 sc'"
    using assms(1) 1 2 unfolding scanObjectValue_def Let_def l
    by (auto intro!: mild_trans [OF mild_simple(4) mild_trans [OF mild_simple(5) mild_simple(6)]]
        mild_trans [OF mild_simple(4) mild_simple(5)] split: if_splits)
  have "in_limits sc1" by (rule scanValue_in_limits [OF 1]) (rule in_limits_mild [OF assms(2) mild_simple(3)])
  then show ?thesis using record_method_mild [OF 2] 3 in_limits_mild by blast
qed

lemma scanArrayValue_in_limits:
  assumes "scanArrayValue sc = Inr sc'" "in_limits sc"
  shows "in_limits sc'"
proof -
  let ?scope = "cf_scope (hd (stack sc))" and ?def = "cf_deferred (hd (stack sc))"
  obtain sc1 where 1: "chargeItem (position sc) ?scope ?def sc = Inr sc1"
    using assms(1) by (auto simp: scanArrayValue_def Let_def bind_sum_Inr)
  let ?sc1 = "set_state ArrayCommaOrEnd sc1"
  obtain kind sc2 where 2: "scanValue RoleGeneric ?scope ?def ?sc1 = Inr (kind, sc2)"
    using assms(1) 1 by (auto simp: scanArrayValue_def Let_def bind_sum_Inr)
  have 3: "mild sc2 sc'"
    using assms(1) 1 2 unfolding scanArrayValue_def Let_def
    by (auto simp: mild_def counts_def recorded_def split: if_splits list.splits)
  have "in_limits sc1" using chargeItem_in_limits [OF 1 assms(2)] by (simp add: charged_def)
  then have "in_limits sc2" using scanValue_in_limits [OF 2] in_limits_mild [OF _ mild_simple(3)] by blast
  then show ?thesis using 3 in_limits_mild by blast
qed

lemma take_in_limits: "in_limits sc \<Longrightarrow> in_limits (set_state st (advance sc))"
  using in_limits_mild mild_trans [OF mild_simple(1) mild_simple(3)] by blast

lemma stepContainer_in_limits:
  assumes "stepContainer sc = Inr sc'" "in_limits sc" "stack sc \<noteq> []"
  shows "in_limits sc'"
proof -
  let ?sc = "skipWhitespace sc"
  have w: "in_limits ?sc" "in_limits (advance ?sc)"
    using in_limits_mild [OF assms(2)] mild_trans [OF mild_simple(2) mild_simple(1)] by auto
  show ?thesis
  proof (cases "overflow sc = []")
    case True
    obtain f fs where f: "stack sc = f # fs" using assms(3) by (cases "stack sc") auto
    have close: "in_limits (closeContainer (advance ?sc))"
      using closeContainer_in_limits [OF w(2)] True by simp
    have key: "in_limits sc'" if "scanObjectKey ?sc = Inr sc'" for sc'
      using scanObjectKey_in_limits [OF that w(1)] f by simp
    show ?thesis
      using assms(1) True f close key w take_in_limits [OF w(1)]
      by (auto simp: stepContainer_def stepObject_def stepArray_def Let_def
          intro: scanObjectValue_in_limits scanArrayValue_in_limits split: if_splits containerState.splits)
  next
    case False
    have ov: "in_limits (x\<lparr>overflow := o'\<rparr>)" if "in_limits x" "overflow x \<noteq> []" for x o'
      using that by (simp add: in_limits_def counts_def recorded_def)
    have val: "in_limits sc'" if "scanOverflowValue (set_overflow st ?sc) = Inr sc'" for st sc'
    proof -
      obtain scope deferred kind where "scanValue RoleGeneric scope deferred (set_overflow st ?sc) = Inr (kind, sc')"
        using \<open>scanOverflowValue (set_overflow st ?sc) = Inr sc'\<close> assms(3)
        by (cases "stack sc") (auto simp: scanOverflowValue_def bind_sum_Inr)
      then show ?thesis using scanValue_in_limits ov [OF w(1)] False by simp
    qed
    have key: "in_limits sc'" if "scanOverflowObjectKey ?sc = Inr sc'" for sc'
    proof -
      obtain p where "sc' = ?sc\<lparr>position := p, overflow := ObjectColon # tl (overflow sc)\<rparr>"
        using \<open>scanOverflowObjectKey ?sc = Inr sc'\<close> by (auto simp: scanOverflowObjectKey_def bind_sum_Inr)
      then show ?thesis using ov [of "?sc\<lparr>position := p\<rparr>"] in_limits_mild [OF w(1)] False by simp
    qed
    have "stepOverflow sc = Inr sc'" using assms(1) False by (simp add: stepContainer_def)
    then show ?thesis
      using ov [OF w(2)] val key False
      by (auto simp: stepOverflow_def Let_def split: if_splits containerState.splits)
  qed
qed

lemma scanning_in_limits:
  "scanning r limits mode cm ce cp collect sc \<Longrightarrow>
    in_limits sc \<and> sc_limits sc = limits \<and> collectProtocolErrors sc = collect"
proof (induction rule: scanning.induct)
  case (scan_first kind sc)
  let ?new = "newScanner r limits mode cm ce cp collect"
  have "in_limits ?new" by (simp add: in_limits_def newScanner_def counts_def)
  then have "in_limits (skipWhitespace ?new)" using in_limits_mild mild_simple(2) by blast
  then show ?case using scanValue_in_limits [OF scan_first] scanValue_moved [OF scan_first]
    by (simp add: moved_def config_same_def skipWhitespace_def) (simp add: newScanner_def)
next
  case (scan_next sc sc')
  then show ?case using stepContainer_in_limits stepContainer_moved by (auto simp: moved_def config_same_def)
qed

section \<open>Properties\<close>

lemma depth_ok_length: "depth_ok mx cs \<Longrightarrow> length cs \<le> mx + 1"
  by (cases cs) auto



end
