(* ===== verification/JsonViews.thy ===== *)
theory JsonViews
  imports JsonGrammar
begin

text \<open>
  The views that own a scanned document (\<open>src/internal/jsonwire/object.go\<close>), the request-id key
  (\<open>semantic_key.go\<close>), the string-array decoder (\<open>string_array.go\<close>) and the \<open>_meta\<close> validation
  (\<open>meta.go\<close>).  Copies of byte slices are values here; a value with its presence flag is an option.
\<close>

section \<open>Views\<close>

record ObjectView =
  ov_raw :: bytes
  ov_members :: "Member list"

record ArrayView =
  av_raw :: bytes
  av_elements :: "scannedElement list"

record ValueView =
  vv_raw :: bytes
  vv_span :: Span
  vv_kind :: ValueKind

record ProtocolView =
  pv_root :: ObjectView
  pv_params :: "ObjectView option"
  pv_paramsValue :: "ValueView option"
  pv_arguments :: "ValueView option"

definition emptyObjectView :: ObjectView where
  "emptyObjectView = \<lparr>ov_raw = [], ov_members = []\<rparr>"

definition emptyProtocolView :: ProtocolView where
  "emptyProtocolView = \<lparr>pv_root = emptyObjectView, pv_params = None, pv_paramsValue = None, pv_arguments = None\<rparr>"

definition ScanObject :: "bytes \<Rightarrow> Limits \<Rightarrow> Mode \<Rightarrow> ValidationError + ObjectView" where
  "ScanObject r limits mode =
    (case scanDocumentDetailed r limits mode of
       (_, Some e) \<Rightarrow> Inl e
     | (Some res, None) \<Rightarrow>
         if dr_Kind res \<noteq> JObject then Inl (newValidationError KindMismatch (Start (dr_Span res)))
         else Inr \<lparr>ov_raw = r, ov_members = dr_Members res\<rparr>
     | (None, None) \<Rightarrow> Inl (newValidationError KindMismatch 0))"

definition ScanArray :: "bytes \<Rightarrow> Limits \<Rightarrow> Mode \<Rightarrow> ValidationError + ArrayView" where
  "ScanArray r limits mode =
    (case scanArrayDocumentDetailed r limits mode of
       (_, Some e) \<Rightarrow> Inl e
     | (Some res, None) \<Rightarrow>
         if dr_Kind res \<noteq> JArray then Inl (newValidationError KindMismatch (Start (dr_Span res)))
         else Inr \<lparr>av_raw = r, av_elements = dr_Elements res\<rparr>
     | (None, None) \<Rightarrow> Inl (newValidationError KindMismatch 0))"

definition ObjectView_Member :: "ObjectView \<Rightarrow> bytes \<Rightarrow> Member option" where
  "ObjectView_Member view name = find (\<lambda>mem. m_Key mem = name) (ov_members view)"

definition ObjectView_Value :: "ObjectView \<Rightarrow> bytes \<Rightarrow> ValueView option" where
  "ObjectView_Value view name =
    (case ObjectView_Member view name of
       None \<Rightarrow> None
     | Some mem \<Rightarrow> Some \<lparr>vv_raw = ov_raw view, vv_span = m_Value mem, vv_kind = m_Kind mem\<rparr>)"

definition ArrayView_Values :: "ArrayView \<Rightarrow> ValueView list" where
  "ArrayView_Values view =
    map (\<lambda>el. \<lparr>vv_raw = av_raw view, vv_span = el_Span el, vv_kind = el_Kind el\<rparr>) (av_elements view)"

definition protocolViewFromResult :: "bytes \<Rightarrow> documentScanResult \<Rightarrow> ProtocolView" where
  "protocolViewFromResult owned res =
    (let root = \<lparr>ov_raw = owned, ov_members = dr_Members res\<rparr> in
     \<lparr>pv_root = root, pv_params = None,
      pv_paramsValue = (case ObjectView_Member root ''params'' of
          None \<Rightarrow> None
        | Some mem \<Rightarrow> Some \<lparr>vv_raw = owned, vv_span = m_Value mem, vv_kind = m_Kind mem\<rparr>),
      pv_arguments = None\<rparr>)"

text \<open>The view and the scoped error; a document error comes with an empty view.\<close>

definition ScanProtocolObject :: "bytes \<Rightarrow> Limits \<Rightarrow> ProtocolView \<times> ValidationError option" where
  "ScanProtocolObject r limits =
    (case scanProtocolDocumentDetailed r limits of
       (None, e) \<Rightarrow> (emptyProtocolView, e)
     | (Some res, e) \<Rightarrow>
         if dr_Kind res \<noteq> JObject then (emptyProtocolView, e)
         else let view = protocolViewFromResult r res in
           if e \<noteq> None then (view, e)
           else
             let view1 = (case ObjectView_Member (pv_root view) ''params'' of
                   Some mem \<Rightarrow>
                     if m_Kind mem = JObject
                     then view\<lparr>pv_params := Some \<lparr>ov_raw = r, ov_members = dr_ParamsMembers res\<rparr>\<rparr> else view
                 | None \<Rightarrow> view);
                 view2 = (if dr_HasRawArguments res
                   then view1\<lparr>pv_arguments := Some \<lparr>vv_raw = r, vv_span = dr_RawArguments res, vv_kind = JObject\<rparr>\<rparr>
                   else view1)
             in (view2, None))"

definition ValueView_Bytes :: "ValueView \<Rightarrow> bytes" where
  "ValueView_Bytes view = take (End (vv_span view) - Start (vv_span view)) (drop (Start (vv_span view)) (vv_raw view))"

definition ValueView_Validate :: "ValueView \<Rightarrow> Limits \<Rightarrow> Mode \<Rightarrow> ValidationError option" where
  "ValueView_Validate view limits mode =
    (case scanDocument (ValueView_Bytes view) limits mode of Inl e \<Rightarrow> Some e | Inr _ \<Rightarrow> None)"

section \<open>Keys and arrays of strings\<close>

definition uniform_limits :: "nat \<Rightarrow> Limits" where
  "uniform_limits b = \<lparr>MaxDepth = b, MaxObjectMembers = b, MaxContainerItems = b, MaxKeyBytes = b,
    MaxStringBytes = b, MaxNumberRawBytes = b\<rparr>"

definition RequestIDSemanticKey :: "bytes \<Rightarrow> ValidationError + bytes" where
  "RequestIDSemanticKey r =
    (if r = [] then Inl (newValidationError KindSyntax 0)
     else bind_sum (scanDocument r (uniform_limits (length r + 1)) ValidateAll) (\<lambda>(kind, sp).
       case kind of
         JString \<Rightarrow>
           bind_sum (decodeJSONString r 0) (\<lambda>(decoded, sp1).
             if End sp1 \<noteq> length r then Inl (newValidationError KindSyntax (End sp1))
             else Inr (CHR ''s'' # decoded))
       | JNumber \<Rightarrow> bind_sum (ParseDecimal r) (\<lambda>d. SemanticKey d [])
       | _ \<Rightarrow> Inl (newValidationError KindMismatch (Start sp))))"

text \<open>\<open>stringArrayError\<close> carries nothing: the decoder returns an option.\<close>

fun decode_elements :: "bytes \<Rightarrow> scannedElement list \<Rightarrow> bytes list option" where
  "decode_elements r [] = Some []"
| "decode_elements r (el # els) =
    (if el_Kind el \<noteq> JString then None
     else case decodeJSONString r (Start (el_Span el)) of
       Inl _ \<Rightarrow> None
     | Inr (val, sp) \<Rightarrow>
         if sp \<noteq> el_Span el then None
         else (case decode_elements r els of None \<Rightarrow> None | Some vs \<Rightarrow> Some (val # vs)))"

definition DecodeStringArray :: "bytes \<Rightarrow> bytes list option" where
  "DecodeStringArray r =
    (case scanArrayDocumentDetailed r (uniform_limits (length r + 1)) ValidateAll of
       (Some res, None) \<Rightarrow> if dr_Kind res \<noteq> JArray then None else decode_elements r (dr_Elements res)
     | _ \<Rightarrow> None)"

section \<open>The _meta object\<close>

definition metaMaxRawBytes :: nat where
  "metaMaxRawBytes = 16384"

definition metadataLimits :: Limits where
  "metadataLimits = \<lparr>MaxDepth = 16, MaxObjectMembers = 1024, MaxContainerItems = 1024, MaxKeyBytes = 256,
    MaxStringBytes = 4096, MaxNumberRawBytes = 256\<rparr>"

definition isASCIIAlpha :: "char \<Rightarrow> bool" where
  "isASCIIAlpha c \<longleftrightarrow> byte_val CHR ''A'' \<le> byte_val c \<and> byte_val c \<le> byte_val CHR ''Z'' \<or>
    byte_val CHR ''a'' \<le> byte_val c \<and> byte_val c \<le> byte_val CHR ''z''"

definition isASCIIAlphanumeric :: "char \<Rightarrow> bool" where
  "isASCIIAlphanumeric c \<longleftrightarrow> isASCIIAlpha c \<or> byte_val CHR ''0'' \<le> byte_val c \<and> byte_val c \<le> byte_val CHR ''9''"

definition validMetaLabel :: "bytes \<Rightarrow> bool" where
  "validMetaLabel label =
    (if label = [] \<or> \<not> isASCIIAlpha (hd label) then False
     else if length label = 1 then True
     else if \<not> isASCIIAlphanumeric (last label) then False
     else list_all (\<lambda>c. isASCIIAlphanumeric c \<or> c = CHR ''-'') (butlast (tl label)))"

definition validMetaName :: "bytes \<Rightarrow> bool" where
  "validMetaName name =
    (if name = [] then True
     else if \<not> isASCIIAlphanumeric (hd name) \<or> \<not> isASCIIAlphanumeric (last name) then False
     else list_all (\<lambda>c. isASCIIAlphanumeric c \<or> c \<in> {CHR ''-'', CHR ''_'', CHR ''.''}) (butlast (tl name)))"

text \<open>\<open>strings.Split\<close> on one byte.\<close>

fun split_on :: "char \<Rightarrow> bytes \<Rightarrow> bytes list" where
  "split_on sep [] = [[]]"
| "split_on sep (c # cs) =
    (if c = sep then [] # split_on sep cs
     else case split_on sep cs of [] \<Rightarrow> [[c]] | part # parts \<Rightarrow> (c # part) # parts)"

definition validMetaPrefix :: "bytes \<Rightarrow> bool" where
  "validMetaPrefix pre = (if pre = [] then False else list_all validMetaLabel (split_on CHR ''.'' pre))"

definition validMetaKey :: "bytes \<Rightarrow> bool" where
  "validMetaKey key =
    (if CHR ''/'' \<notin> set key then validMetaName key
     else let pre = takeWhile (\<lambda>c. c \<noteq> CHR ''/'') key; post = tl (dropWhile (\<lambda>c. c \<noteq> CHR ''/'') key) in
       if CHR ''/'' \<in> set post then False else validMetaPrefix pre \<and> validMetaName post)"

fun check_meta_members :: "Member list \<Rightarrow> ValidationError option" where
  "check_meta_members [] = None"
| "check_meta_members (mem # ms) =
    (if \<not> validMetaKey (m_Key mem) then Some (newValidationError KindMismatch (Start (m_KeySpan mem)))
     else if m_Key mem = ''progressToken'' \<and> m_Kind mem \<noteq> JString \<and> m_Kind mem \<noteq> JNumber
     then Some (newValidationError KindMismatch (Start (m_Value mem)))
     else check_meta_members ms)"

definition ValidateMeta :: "bytes \<Rightarrow> ValidationError option" where
  "ValidateMeta r =
    (if length r > metaMaxRawBytes then Some (newValidationError KindResource metaMaxRawBytes)
     else case ScanObject r metadataLimits ValidateAll of
       Inl e \<Rightarrow> Some e
     | Inr view \<Rightarrow> check_meta_members (ov_members view))"

text \<open>The definitions that evaluate a scan of concrete bytes by simplification.\<close>

lemmas scan_eval = scanProtocolDocumentDetailed_def scanDocumentConfigured_def mode_valid_def newScanner_def skipWhitespace_def
  ws_def scanValue_def pushContainer_def zeroSpan_def scan_loop.simps stepContainer_def stepObject_def take_byte_def byte_at_def
  advance_def scanObjectKey_def chargeObjectMember_def exhaust_members_def chargeItem_def chargeProtocolItem_def incrementSaturating_def
  max_uint64_def scanString_def scopeHasError_def scanJSONStringSemantics_def scan_string_loop.simps decodedLimitExceeded_def
  note_key_def scanObjectValue_def value_layer_def record_method_def decodeJSONString_def scanJSONString_def capture_root_def capture_params_def
  capture_member_def shouldCaptureRootMember_def protocolHeaders_def protocolRootHeaderFor_def scanNumberRecovering_def scanNumber_def
  number_byte_def number_integer_def number_fraction_def number_exponent_def number_digits_def digit_loop.simps digit_at_def
  checkNumberLimit_def closeContainer_def close_value_def finishContainerItemLimit_def finishProtocolSemantics_def recordRawArguments_def
  byte_val_def isDecimalDigit_def

section \<open>Facts about the views\<close>

lemma scanDocument_Inr:
  "scanDocument r limits mode = Inr (kind, sp) \<Longrightarrow> document_of r kind sp"
  by (auto simp: scanDocument_def split: prod.splits option.splits dest!: scanned_document)

lemma ScanObject_Inr:
  assumes "ScanObject r limits mode = Inr view"
  shows "ov_raw view = r" "\<exists>sp. document_of r JObject sp"
  using assms scanned_document
  by (auto simp: ScanObject_def scanDocumentDetailed_def split: prod.splits option.splits if_splits) metis

lemma decodeJSONString_grammar:
  "decodeJSONString r start = Inr (s, sp) \<Longrightarrow>
    Start sp = start \<and> (\<exists>v. json_string v \<and> sits r start v \<and> End sp = start + length v)"
  unfolding decodeJSONString_def scanJSONString_def by (rule scanSemantics_grammar)

lemma SemanticKey_hd: "SemanticKey d [] = Inr k \<Longrightarrow> \<exists>t. k = CHR ''n'' # t"
  by (auto simp: SemanticKey_def Let_def split: if_splits)

lemma RequestIDSemanticKey_cases:
  assumes "RequestIDSemanticKey r = Inr k"
  obtains (str) s sp where "decodeJSONString r 0 = Inr (s, sp)" "End sp = length r" "k = CHR ''s'' # s"
  | (num) d where "ParseDecimal r = Inr d" "SemanticKey d [] = Inr k"
proof -
  obtain x where x: "scanDocument r (uniform_limits (length r + 1)) ValidateAll = Inr x"
    using assms by (cases "scanDocument r (uniform_limits (length r + 1)) ValidateAll")
      (auto simp: RequestIDSemanticKey_def split: if_splits)
  show thesis
    using assms x str num by (cases "fst x"; cases x)
      (auto simp: RequestIDSemanticKey_def bind_sum_Inr split: if_splits)
qed

lemma string_no_number:
  assumes "decodeJSONString r 0 = Inr (s, sp)" shows "\<not> is_ok (ParseDecimal r)"
proof -
  obtain v where "json_string v" "sits r 0 v" using decodeJSONString_grammar [OF assms] by blast
  then have "r \<noteq> []" "hd r = CHR 0x22"
    by (auto simp: json_string_def sits_Cons byte_at_def hd_conv_nth)
  then show ?thesis 
    by (cases r) (simp_all add: ParseDecimal_def scan_integer_def syntaxAt_def Let_def isDecimalDigit_def byte_val_def)
qed

section \<open>Properties\<close>

text \<open>C31. The session identity of a request id is semantic: two accepted ids have the same key exactly
  when both are strings with the same decoded text or both are numbers with the same value; a string id
  never collides with a numeric one, whatever escapes, exponents or trailing zeros they are written with.\<close>

theorem RequestIDSemanticKey_exact:
  assumes "RequestIDSemanticKey r1 = Inr k1" "RequestIDSemanticKey r2 = Inr k2"
  shows "k1 = k2 \<longleftrightarrow>
    (\<exists>s sp1 sp2. decodeJSONString r1 0 = Inr (s, sp1) \<and> decodeJSONString r2 0 = Inr (s, sp2)) \<or>
    (\<exists>d1 d2. ParseDecimal r1 = Inr d1 \<and> ParseDecimal r2 = Inr d2 \<and> dec_value d1 = dec_value d2)"
proof (rule RequestIDSemanticKey_cases [OF assms(1)]; rule RequestIDSemanticKey_cases [OF assms(2)])
  fix s1 sp1 s2 sp2
  assume a: "decodeJSONString r1 0 = Inr (s1, sp1)" "k1 = CHR ''s'' # s1"
    "decodeJSONString r2 0 = Inr (s2, sp2)" "k2 = CHR ''s'' # s2"
  then show ?thesis using string_no_number [OF a(1)] by auto
next
  fix s1 sp1 d2
  assume a: "decodeJSONString r1 0 = Inr (s1, sp1)" "k1 = CHR ''s'' # s1" "ParseDecimal r2 = Inr d2" "SemanticKey d2 [] = Inr k2"
  then show ?thesis using string_no_number [OF a(1)] string_no_number [of r2] SemanticKey_hd [OF a(4)] by auto
next
  fix d1 s2 sp2
  assume a: "ParseDecimal r1 = Inr d1" "SemanticKey d1 [] = Inr k1" "decodeJSONString r2 0 = Inr (s2, sp2)" "k2 = CHR ''s'' # s2"
  then show ?thesis using string_no_number [OF a(3)] string_no_number [of r1] SemanticKey_hd [OF a(2)] by auto
next
  fix d1 d2
  assume a: "ParseDecimal r1 = Inr d1" "SemanticKey d1 [] = Inr k1" "ParseDecimal r2 = Inr d2" "SemanticKey d2 [] = Inr k2"
  have "k1 = k2 \<longleftrightarrow> dec_value d1 = dec_value d2"
  proof -
    have wf: "dec_wf d1" "dec_wf d2" using a(1,3) by (auto elim: ParseDecimal_sound)
    show ?thesis using SemanticKey_inj [OF a(2) _ wf] dec_normal_form_unique [OF wf] a(2,4) by auto
  qed
  moreover have "\<not> (\<exists>s sp. decodeJSONString r1 0 = Inr (s, sp))" using string_no_number [of r1] a(1) by auto
  ultimately show ?thesis using a(1,3) by auto
qed

lemma RequestIDSemanticKey_exact_witness:
  "\<exists>k1 k2. RequestIDSemanticKey ''10'' = Inr k1 \<and> RequestIDSemanticKey ''1e1'' = Inr k2 \<and> k1 = k2"
proof -
  let ?d = "\<lparr>negative = False, zero = False, significand = ''1'', scaleNegative = False,
     scaleMagnitude = ''1''\<rparr>"
  have s: "scanDocument ''10'' (uniform_limits (Suc (Suc (Suc 0)))) ValidateAll = Inr (JNumber, \<lparr>Start = 0, End = 2\<rparr>)"
    "scanDocument ''1e1'' (uniform_limits (Suc (Suc (Suc (Suc 0))))) ValidateAll = Inr (JNumber, \<lparr>Start = 0, End = 3\<rparr>)"
    by code_simp+
  have p: "ParseDecimal ''10'' = Inr ?d" "ParseDecimal ''1e1'' = Inr ?d" by code_simp+
  obtain k where "SemanticKey ?d [] = Inr k" by (simp add: SemanticKey_def Let_def)
  then have k: "RequestIDSemanticKey ''10'' = Inr k" "RequestIDSemanticKey ''1e1'' = Inr k"
    using s p by (simp_all add: RequestIDSemanticKey_def)
  show ?thesis using k p RequestIDSemanticKey_exact [OF k] by blast
qed

end
