(* ===== verification/Session.thy ===== *)
theory Session
  imports JsonViews IdRegistry
begin

text \<open>
  One inbound message of the session (\<open>src/internal/mcpstdio\<close>): its request id (\<open>request_id.go\<close>), its
  classification (\<open>inbound.go\<close>), the validation of its params (\<open>schema.go\<close>), the lifecycle of the
  connection (\<open>lifecycle.go\<close>) and the responses that need no work (\<open>encode.go\<close>).
\<close>

section \<open>Request ids\<close>

definition RequestIDMaxRawBytes :: nat where
  "RequestIDMaxRawBytes = 256"

text \<open>\<open>errInvalidRequestID\<close> is the only error: the result is an option.\<close>

definition parseRequestIDValue :: "ValueView \<Rightarrow> RequestID option" where
  "parseRequestIDValue val =
    (let r = ValueView_Bytes val in
     if r = [] \<or> length r > RequestIDMaxRawBytes then None
     else
       let key = (case vv_kind val of
           JString \<Rightarrow> (case RequestIDSemanticKey r of Inl _ \<Rightarrow> None | Inr k \<Rightarrow> Some k)
         | JNumber \<Rightarrow>
             (case ParseDecimal r of
                Inl _ \<Rightarrow> None
              | Inr d \<Rightarrow> if \<not> IsInteger d then None
                  else (case SemanticKey d [] of Inl _ \<Rightarrow> None | Inr k \<Rightarrow> Some k))
         | _ \<Rightarrow> None) in
       case key of
         None \<Rightarrow> None
       | Some k \<Rightarrow>
           if k = [] \<or> length k > UsedIDKeyMaxBytes then None
           else Some \<lparr>rawJSON = r, semanticKey = k\<rparr>)"

text \<open>\<open>(id, present, err)\<close>: absent, invalid, or an id.\<close>

datatype parsed_id = IDAbsent | IDInvalid | IDPresent RequestID

definition parseRequestID :: "ObjectView \<Rightarrow> parsed_id" where
  "parseRequestID rootv =
    (case ObjectView_Value rootv ''id'' of
       None \<Rightarrow> IDAbsent
     | Some val \<Rightarrow> (case parseRequestIDValue val of None \<Rightarrow> IDInvalid | Some i \<Rightarrow> IDPresent i))"

definition zeroRequestID :: RequestID where
  "zeroRequestID = \<lparr>rawJSON = [], semanticKey = []\<rparr>"

section \<open>Classification\<close>

definition protocolJSONLimits :: Limits where
  "protocolJSONLimits = \<lparr>MaxDepth = 64, MaxObjectMembers = 4096, MaxContainerItems = 65536,
    MaxKeyBytes = 4096, MaxStringBytes = 262144, MaxNumberRawBytes = 256\<rparr>"

datatype inboundKind = InboundParseError | InboundInvalidRequest | InboundResponse | InboundRequest | InboundNotification

record inboundMessage =
  in_kind :: inboundKind
  in_protocol :: ProtocolView
  in_requestID :: RequestID
  in_validationError :: "ValidationError option"
  in_output :: bytes

definition parseErrorOutput :: bytes where
  "parseErrorOutput = encodeProtocolErrorNull protocolParseError"

definition invalidRequestOutput :: bytes where
  "invalidRequestOutput = encodeProtocolErrorNull protocolInvalidRequest"

definition inbound_only :: "inboundKind \<Rightarrow> bytes \<Rightarrow> inboundMessage" where
  "inbound_only kind out = \<lparr>in_kind = kind, in_protocol = emptyProtocolView, in_requestID = zeroRequestID,
    in_validationError = None, in_output = out\<rparr>"

definition stringValueEquals :: "ValueView \<Rightarrow> bytes \<Rightarrow> bool" where
  "stringValueEquals val want =
    (if vv_kind val \<noteq> JString then False
     else case RequestIDSemanticKey (ValueView_Bytes val) of
       Inl _ \<Rightarrow> False
     | Inr key \<Rightarrow> length key = length want + 1 \<and> hd key = CHR ''s'' \<and> tl key = want)"

definition jsonrpc_ok :: "ObjectView \<Rightarrow> bool" where
  "jsonrpc_ok rootv \<longleftrightarrow>
    (case ObjectView_Value rootv ''jsonrpc'' of None \<Rightarrow> False | Some v \<Rightarrow> stringValueEquals v ''2.0'')"

definition method_ok :: "ObjectView \<Rightarrow> bool" where
  "method_ok rootv \<longleftrightarrow>
    (case ObjectView_Value rootv ''method'' of None \<Rightarrow> False | Some v \<Rightarrow> vv_kind v = JString)"

text \<open>The scanner only returns validation errors, so the error result of the code is never taken.\<close>

definition classifyInbound :: "bytes \<Rightarrow> inboundMessage" where
  "classifyInbound r =
    (let (protocol, verr) = ScanProtocolObject r protocolJSONLimits;
         rootv = pv_root protocol;
         has = (\<lambda>name. ObjectView_Member rootv name \<noteq> None);
         invalid = inbound_only InboundInvalidRequest invalidRequestOutput in
     if map_option ve_scope verr = Some ScopeDocument
     then inbound_only InboundParseError parseErrorOutput
     else if \<not> has ''method'' \<and> (has ''result'' \<or> has ''error'') then inbound_only InboundResponse []
     else if map_option ve_scope verr = Some ScopeProtocolEnvelope then invalid
     else if \<not> jsonrpc_ok rootv then invalid
     else if \<not> method_ok rootv then invalid
     else case parseRequestID rootv of
       IDInvalid \<Rightarrow> invalid
     | IDPresent i \<Rightarrow> \<lparr>in_kind = InboundRequest, in_protocol = protocol, in_requestID = i,
         in_validationError = verr, in_output = []\<rparr>
     | IDAbsent \<Rightarrow> \<lparr>in_kind = InboundNotification, in_protocol = protocol, in_requestID = zeroRequestID,
         in_validationError = verr, in_output = []\<rparr>)"

section \<open>Field validation\<close>

definition decodedStringValue :: "ValueView \<Rightarrow> bytes option" where
  "decodedStringValue val =
    (if vv_kind val \<noteq> JString then None
     else case RequestIDSemanticKey (ValueView_Bytes val) of
       Inl _ \<Rightarrow> None
     | Inr key \<Rightarrow> if key = [] \<or> hd key \<noteq> CHR ''s'' then None else Some (tl key))"

text \<open>\<open>present && !ok\<close> over several names.\<close>

definition optional_kinds :: "ObjectView \<Rightarrow> ValueKind set \<Rightarrow> bytes list \<Rightarrow> bool" where
  "optional_kinds view kinds names =
    list_all (\<lambda>name. case ObjectView_Value view name of None \<Rightarrow> True | Some v \<Rightarrow> vv_kind v \<in> kinds) names"

definition optionalObjectFields :: "ObjectView \<Rightarrow> bytes list \<Rightarrow> bool" where
  "optionalObjectFields view names = optional_kinds view {JObject} names"

definition optionalBooleanFields :: "ObjectView \<Rightarrow> bytes list \<Rightarrow> bool" where
  "optionalBooleanFields view names = optional_kinds view {JTrue, JFalse} names"

definition optionalStringFields :: "ObjectView \<Rightarrow> bytes list \<Rightarrow> bool" where
  "optionalStringFields view names = optional_kinds view {JString} names"

definition requiredStringFields :: "ObjectView \<Rightarrow> bytes list \<Rightarrow> bool" where
  "requiredStringFields view names =
    list_all (\<lambda>name. case ObjectView_Value view name of None \<Rightarrow> False | Some v \<Rightarrow> vv_kind v = JString) names"

definition schema_scanObjectValue :: "ValueView \<Rightarrow> ObjectView option" where
  "schema_scanObjectValue val =
    (if vv_kind val \<noteq> JObject then None
     else case ScanObject (ValueView_Bytes val) protocolJSONLimits ValidateAll of
       Inl _ \<Rightarrow> None
     | Inr view \<Rightarrow> Some view)"

text \<open>\<open>(object, present, valid)\<close>.\<close>

datatype optional_object = FieldAbsent | FieldInvalid | FieldObject ObjectView

definition optionalObjectField :: "ObjectView \<Rightarrow> bytes \<Rightarrow> optional_object" where
  "optionalObjectField view name =
    (case ObjectView_Value view name of
       None \<Rightarrow> FieldAbsent
     | Some val \<Rightarrow> (case schema_scanObjectValue val of None \<Rightarrow> FieldInvalid | Some obj \<Rightarrow> FieldObject obj))"

text \<open>\<open>!valid || present && !check\<close>, negated.\<close>

definition field_ok :: "optional_object \<Rightarrow> (ObjectView \<Rightarrow> bool) \<Rightarrow> bool" where
  "field_ok field check = (case field of FieldAbsent \<Rightarrow> True | FieldInvalid \<Rightarrow> False | FieldObject obj \<Rightarrow> check obj)"

definition validateMetaField :: "ObjectView \<Rightarrow> bool" where
  "validateMetaField params =
    (case ObjectView_Value params ''_meta'' of
       None \<Rightarrow> True
     | Some meta \<Rightarrow> ValidateMeta (ValueView_Bytes meta) = None)"

definition validateTaskMetadata :: "ValueView \<Rightarrow> bool" where
  "validateTaskMetadata val =
    (case schema_scanObjectValue val of
       None \<Rightarrow> False
     | Some task \<Rightarrow> (case ObjectView_Value task ''ttl'' of None \<Rightarrow> True | Some ttl \<Rightarrow> vv_kind ttl = JNumber))"

definition validateClientCapabilities :: "ValueView \<Rightarrow> bool" where
  "validateClientCapabilities val =
    (case schema_scanObjectValue val of
       None \<Rightarrow> False
     | Some caps \<Rightarrow>
         field_ok (optionalObjectField caps ''experimental'')
           (\<lambda>experimental. list_all (\<lambda>mem. m_Kind mem = JObject) (ov_members experimental)) \<and>
         field_ok (optionalObjectField caps ''roots'') (\<lambda>roots. optionalBooleanFields roots [''listChanged'']) \<and>
         field_ok (optionalObjectField caps ''sampling'') (\<lambda>sampling. optionalObjectFields sampling [''context'', ''tools'']) \<and>
         field_ok (optionalObjectField caps ''elicitation'') (\<lambda>elic. optionalObjectFields elic [''form'', ''url'']) \<and>
         field_ok (optionalObjectField caps ''tasks'') (\<lambda>tasks.
           optionalObjectFields tasks [''list'', ''cancel''] \<and>
           field_ok (optionalObjectField tasks ''requests'') (\<lambda>requests.
             field_ok (optionalObjectField requests ''sampling'') (\<lambda>s. optionalObjectFields s [''createMessage'']) \<and>
             field_ok (optionalObjectField requests ''elicitation'') (\<lambda>e. optionalObjectFields e [''create'']))))"

text \<open>An array field whose elements satisfy \<open>check\<close>.\<close>

definition array_field_ok :: "ObjectView \<Rightarrow> bytes \<Rightarrow> (ValueView \<Rightarrow> bool) \<Rightarrow> bool" where
  "array_field_ok view name check =
    (case ObjectView_Value view name of
       None \<Rightarrow> True
     | Some val \<Rightarrow>
         if vv_kind val \<noteq> JArray then False
         else case ScanArray (ValueView_Bytes val) protocolJSONLimits ValidateAll of
           Inl _ \<Rightarrow> False
         | Inr arr \<Rightarrow> list_all check (ArrayView_Values arr))"

definition validateIcon :: "ValueView \<Rightarrow> bool" where
  "validateIcon val =
    (case schema_scanObjectValue val of
       None \<Rightarrow> False
     | Some icon \<Rightarrow>
         requiredStringFields icon [''src''] \<and> optionalStringFields icon [''mimeType''] \<and>
         array_field_ok icon ''sizes'' (\<lambda>v. vv_kind v = JString) \<and>
         (case ObjectView_Value icon ''theme'' of
            None \<Rightarrow> True
          | Some theme \<Rightarrow> decodedStringValue theme \<in> {Some ''light'', Some ''dark''}))"

definition validateImplementation :: "ValueView \<Rightarrow> bool" where
  "validateImplementation val =
    (case schema_scanObjectValue val of
       None \<Rightarrow> False
     | Some impl \<Rightarrow>
         requiredStringFields impl [''name'', ''version''] \<and>
         optionalStringFields impl [''title'', ''description'', ''websiteUrl''] \<and>
         array_field_ok impl ''icons'' validateIcon)"

section \<open>The params of each method\<close>

text \<open>\<open>(params, ok)\<close>: absent optional params are an empty object.\<close>

definition inboundParamsObject :: "inboundMessage \<Rightarrow> bool \<Rightarrow> ObjectView option" where
  "inboundParamsObject message required =
    (case pv_paramsValue (in_protocol message) of
       None \<Rightarrow> if required then None else Some emptyObjectView
     | Some val \<Rightarrow> if vv_kind val \<noteq> JObject then None else pv_params (in_protocol message))"

definition validateInitializeParams :: "inboundMessage \<Rightarrow> bytes option" where
  "validateInitializeParams message =
    (case inboundParamsObject message True of
       None \<Rightarrow> None
     | Some params \<Rightarrow>
         if \<not> validateMetaField params then None
         else case ObjectView_Value params ''protocolVersion'' of
           None \<Rightarrow> None
         | Some versionValue \<Rightarrow>
           (case decodedStringValue versionValue of
              None \<Rightarrow> None
            | Some version \<Rightarrow>
              (case ObjectView_Value params ''capabilities'' of
                 None \<Rightarrow> None
               | Some capabilities \<Rightarrow>
                 if \<not> validateClientCapabilities capabilities then None
                 else case ObjectView_Value params ''clientInfo'' of
                   None \<Rightarrow> None
                 | Some clientInfo \<Rightarrow> if validateImplementation clientInfo then Some version else None)))"

definition validateOpenBaseParams :: "inboundMessage \<Rightarrow> bool \<Rightarrow> bool" where
  "validateOpenBaseParams message required =
    (case inboundParamsObject message required of None \<Rightarrow> False | Some params \<Rightarrow> validateMetaField params)"

definition validateListToolsParams :: "inboundMessage \<Rightarrow> bool" where
  "validateListToolsParams message =
    (case inboundParamsObject message False of
       None \<Rightarrow> False
     | Some params \<Rightarrow> validateMetaField params \<and> ObjectView_Member params ''cursor'' = None)"

definition inbound_arguments :: "inboundMessage \<Rightarrow> ObjectView \<Rightarrow> bytes option" where
  "inbound_arguments message params =
    (case ObjectView_Member params ''arguments'' of
       None \<Rightarrow> Some ''{}''
     | Some _ \<Rightarrow>
         (case pv_arguments (in_protocol message) of
            None \<Rightarrow> None
          | Some argumentsValue \<Rightarrow>
              if vv_kind argumentsValue \<noteq> JObject then None else Some (ValueView_Bytes argumentsValue)))"

definition validateCallToolParams :: "inboundMessage \<Rightarrow> Call option" where
  "validateCallToolParams message =
    (case inboundParamsObject message True of
       None \<Rightarrow> None
     | Some params \<Rightarrow>
         if \<not> validateMetaField params then None
         else case ObjectView_Value params ''name'' of
           None \<Rightarrow> None
         | Some nameValue \<Rightarrow>
           (case decodedStringValue nameValue of
              None \<Rightarrow> None
            | Some name \<Rightarrow>
                if \<not> ToolName_Valid name then None
                else case inbound_arguments message params of
                  None \<Rightarrow> None
                | Some arguments \<Rightarrow>
                    (case ObjectView_Value params ''task'' of
                       None \<Rightarrow> Some (NewCall name arguments)
                     | Some task \<Rightarrow> if validateTaskMetadata task then Some (NewCall name arguments) else None)))"

definition validateCancelledParams :: "inboundMessage \<Rightarrow> (bytes \<times> bytes) option" where
  "validateCancelledParams message =
    (case inboundParamsObject message True of
       None \<Rightarrow> None
     | Some params \<Rightarrow>
         if \<not> validateMetaField params then None
         else case ObjectView_Value params ''requestId'' of
           None \<Rightarrow> None
         | Some requestIDValue \<Rightarrow>
           (case parseRequestIDValue requestIDValue of
              None \<Rightarrow> None
            | Some i \<Rightarrow>
              (case ObjectView_Value params ''reason'' of
                 None \<Rightarrow> Some (semanticKey i, [])
               | Some reasonValue \<Rightarrow>
                   (case decodedStringValue reasonValue of None \<Rightarrow> None | Some reason \<Rightarrow> Some (semanticKey i, reason)))))"

section \<open>The schema result\<close>

definition methodInitialize :: bytes where "methodInitialize = ''initialize''"
definition methodPing :: bytes where "methodPing = ''ping''"
definition methodToolsList :: bytes where "methodToolsList = ''tools/list''"
definition methodToolsCall :: bytes where "methodToolsCall = ''tools/call''"
definition methodNotificationReady :: bytes where "methodNotificationReady = ''notifications/initialized''"
definition methodNotificationCancelled :: bytes where "methodNotificationCancelled = ''notifications/cancelled''"

lemmas method_defs = methodInitialize_def methodPing_def methodToolsList_def methodToolsCall_def
  methodNotificationReady_def methodNotificationCancelled_def

datatype inboundSchemaKind = SchemaAccepted | SchemaUnknown | SchemaInvalid

record inboundSchemaResult =
  sr_kind :: inboundSchemaKind
  sr_method :: bytes
  sr_requestID :: RequestID
  sr_protocolVersion :: bytes
  sr_call :: "Call option"
  sr_cancellationID :: bytes
  sr_cancellationReason :: bytes
  sr_output :: bytes

definition emptySchemaResult :: inboundSchemaResult where
  "emptySchemaResult = \<lparr>sr_kind = SchemaUnknown, sr_method = [], sr_requestID = zeroRequestID,
    sr_protocolVersion = [], sr_call = None, sr_cancellationID = [], sr_cancellationReason = [], sr_output = []\<rparr>"

definition knownInboundSchema :: "inboundKind \<Rightarrow> bytes \<Rightarrow> bool" where
  "knownInboundSchema kind meth =
    (case kind of
       InboundRequest \<Rightarrow> meth \<in> {methodInitialize, methodPing, methodToolsList, methodToolsCall}
     | InboundNotification \<Rightarrow> meth = methodNotificationReady \<or> meth = methodNotificationCancelled
     | _ \<Rightarrow> False)"

definition invalidParamsForID :: "RequestID \<Rightarrow> bytes" where
  "invalidParamsForID i = encodeProtocolError i protocolInvalidParams"

definition invalidInboundSchema :: "inboundMessage \<Rightarrow> inboundSchemaResult \<Rightarrow> inboundSchemaResult" where
  "invalidInboundSchema message res =
    (let res1 = res\<lparr>sr_kind := SchemaInvalid\<rparr> in
     if in_kind message = InboundRequest then res1\<lparr>sr_output := invalidParamsForID (in_requestID message)\<rparr> else res1)"

text \<open>The switch over the methods: the result with its params, or none when they are invalid.\<close>

definition validate_params :: "inboundMessage \<Rightarrow> inboundSchemaResult \<Rightarrow> inboundSchemaResult option" where
  "validate_params message res =
    (let meth = sr_method res in
     if meth = methodInitialize then
       map_option (\<lambda>version. res\<lparr>sr_protocolVersion := version\<rparr>) (validateInitializeParams message)
     else if meth = methodPing \<or> meth = methodNotificationReady then
       (if validateOpenBaseParams message False then Some res else None)
     else if meth = methodToolsList then
       (if validateListToolsParams message then Some res else None)
     else if meth = methodToolsCall then
       map_option (\<lambda>call. res\<lparr>sr_call := Some call\<rparr>) (validateCallToolParams message)
     else if meth = methodNotificationCancelled then
       map_option (\<lambda>(cancelID, reason). res\<lparr>sr_cancellationID := cancelID, sr_cancellationReason := reason\<rparr>)
         (validateCancelledParams message)
     else Some res)"

definition validateInboundSchema :: "inboundMessage \<Rightarrow> inboundSchemaResult" where
  "validateInboundSchema message =
    (case ObjectView_Value (pv_root (in_protocol message)) ''method'' of
       None \<Rightarrow> emptySchemaResult
     | Some methodValue \<Rightarrow>
       (case decodedStringValue methodValue of
          None \<Rightarrow> emptySchemaResult
        | Some meth \<Rightarrow>
          let res = emptySchemaResult\<lparr>sr_method := meth, sr_requestID := in_requestID message\<rparr> in
          if \<not> knownInboundSchema (in_kind message) meth then res
          else if in_validationError message \<noteq> None then invalidInboundSchema message res
          else case validate_params message res of
            None \<Rightarrow> invalidInboundSchema message res
          | Some res' \<Rightarrow> res'\<lparr>sr_kind := SchemaAccepted\<rparr>))"

section \<open>Lifecycle\<close>

datatype lifecycleState = LifecycleNew | LifecycleAwaitingInitialized | LifecycleReady

datatype lifecycleAction =
  LifecycleDrop | LifecycleInitialize | LifecyclePing | LifecycleToolsList | LifecycleToolsCall
| LifecycleCancel | LifecycleMethodNotFound | LifecycleRejected

record initializeResult =
  ir_protocolVersion :: bytes
  ir_serverName :: bytes
  ir_serverVersion :: bytes
  ir_instructions :: bytes
  ir_tools :: bool

record lifecycleDecision =
  ld_action :: lifecycleAction
  ld_requestID :: RequestID
  ld_initialize :: initializeResult
  ld_call :: "Call option"
  ld_cancellationID :: bytes
  ld_cancellationReason :: bytes
  ld_output :: bytes

record connectionLifecycle =
  lc_state :: lifecycleState
  lc_serverVersion :: bytes

definition supportedProtocolVersion :: bytes where "supportedProtocolVersion = ''2025-11-25''"
definition serverImplementationName :: bytes where "serverImplementationName = ''mcp-file-tools''"
definition serverImplementationDev :: bytes where "serverImplementationDev = ''dev''"

definition Instructions :: bytes where
  "Instructions = ''Code mode: max_output_tokens=10000; emit content[0].text; set_cwd also mirrors cwd_id in structuredContent; never stringify CallToolResult.''"

definition zeroInitialize :: initializeResult where
  "zeroInitialize = \<lparr>ir_protocolVersion = [], ir_serverName = [], ir_serverVersion = [], ir_instructions = [],
    ir_tools = False\<rparr>"

definition decide :: "lifecycleAction \<Rightarrow> RequestID \<Rightarrow> lifecycleDecision" where
  "decide action i = \<lparr>ld_action = action, ld_requestID = i, ld_initialize = zeroInitialize, ld_call = None,
    ld_cancellationID = [], ld_cancellationReason = [], ld_output = []\<rparr>"

definition newLifecycleWithVersion :: "bytes \<Rightarrow> connectionLifecycle" where
  "newLifecycleWithVersion version =
    \<lparr>lc_state = LifecycleNew, lc_serverVersion = (if version = [] then serverImplementationDev else version)\<rparr>"

definition rejectLifecycleRequest :: "RequestID \<Rightarrow> lifecycleDecision" where
  "rejectLifecycleRequest i = (decide LifecycleRejected i)\<lparr>ld_output := invalidRequestForID i\<rparr>"

definition lifecycle_handle ::
  "inboundSchemaResult \<Rightarrow> connectionLifecycle \<Rightarrow> lifecycleDecision \<times> connectionLifecycle" where
  "lifecycle_handle schema lc =
    (let i = sr_requestID schema; noID = (rawJSON i = []); drop_it = decide LifecycleDrop zeroRequestID in
     case sr_kind schema of
       SchemaInvalid \<Rightarrow>
         if noID then (drop_it, lc)
         else ((decide LifecycleRejected i)\<lparr>ld_output := sr_output schema\<rparr>, lc)
     | SchemaUnknown \<Rightarrow>
         if noID then (drop_it, lc) else (decide LifecycleMethodNotFound i, lc)
     | SchemaAccepted \<Rightarrow>
         if sr_method schema = methodInitialize then
           (if lc_state lc \<noteq> LifecycleNew then (rejectLifecycleRequest i, lc)
            else ((decide LifecycleInitialize i)\<lparr>ld_initialize :=
                \<lparr>ir_protocolVersion = supportedProtocolVersion, ir_serverName = serverImplementationName,
                 ir_serverVersion = lc_serverVersion lc, ir_instructions = Instructions, ir_tools = True\<rparr>\<rparr>,
              lc\<lparr>lc_state := LifecycleAwaitingInitialized\<rparr>))
         else if sr_method schema = methodNotificationReady then
           (drop_it, if lc_state lc = LifecycleAwaitingInitialized then lc\<lparr>lc_state := LifecycleReady\<rparr> else lc)
         else if sr_method schema = methodPing then (decide LifecyclePing i, lc)
         else if sr_method schema = methodToolsList then
           (if lc_state lc \<noteq> LifecycleReady then (rejectLifecycleRequest i, lc)
            else (decide LifecycleToolsList i, lc))
         else if sr_method schema = methodToolsCall then
           (if lc_state lc \<noteq> LifecycleReady then (rejectLifecycleRequest i, lc)
            else ((decide LifecycleToolsCall i)\<lparr>ld_call := sr_call schema\<rparr>, lc))
         else if sr_method schema = methodNotificationCancelled then
           ((decide LifecycleCancel zeroRequestID)\<lparr>ld_cancellationID := sr_cancellationID schema,
              ld_cancellationReason := sr_cancellationReason schema\<rparr>, lc)
         else (drop_it, lc))"

section \<open>Immediate responses\<close>

text \<open>\<open>toolsList\<close> is the cached result of \<open>toolsListResultJSON\<close>, which the JSON library of Go builds.\<close>

definition encodeLifecycleDecision :: "bytes option \<Rightarrow> lifecycleDecision \<Rightarrow> encode_error + bytes" where
  \<open>encodeLifecycleDecision toolsList d =
    (let i = ld_requestID d; ini = ld_initialize d in
     case ld_action d of
       LifecycleInitialize \<Rightarrow>
         if rawJSON i = [] \<or> ir_protocolVersion ini = [] \<or> ir_serverName ini = [] \<or> ir_serverVersion ini = [] \<or>
           \<not> ir_tools ini
         then Inl InvalidInitialize
         else Inr (appendResultPrefix [] i @ ''{"protocolVersion":'' @ appendJSONString [] (ir_protocolVersion ini) @
           '',"capabilities":{"tools":{}},"serverInfo":{"name":'' @ appendJSONString [] (ir_serverName ini) @
           '',"version":'' @ appendJSONString [] (ir_serverVersion ini) @
           ''},"instructions":'' @ appendJSONString [] (ir_instructions ini) @ ''}}'' @ [LF])
     | LifecyclePing \<Rightarrow>
         if rawJSON i = [] then Inl LacksRequestID else Inr (appendResultPrefix [] i @ ''{}}'' @ [LF])
     | LifecycleToolsList \<Rightarrow>
         if rawJSON i = [] then Inl LacksRequestID
         else (case toolsList of None \<Rightarrow> Inl CatalogError | Some res \<Rightarrow> Inr (appendResultPrefix [] i @ res @ ''}'' @ [LF]))
     | LifecycleMethodNotFound \<Rightarrow>
         if rawJSON i = [] then Inl LacksRequestID else Inr (encodeProtocolError i protocolMethodNotFound)
     | LifecycleRejected \<Rightarrow> if ld_output d = [] then Inl LacksOutput else Inr (ld_output d)
     | _ \<Rightarrow> Inl NoImmediateResponse)\<close>


section \<open>Facts\<close>

lemma parseRequestIDValue_Some:
  assumes "parseRequestIDValue val = Some i"
  shows "rawJSON i = ValueView_Bytes val" "rawJSON i \<noteq> []" "length (rawJSON i) \<le> RequestIDMaxRawBytes"
    "semanticKey i \<noteq> []" "length (semanticKey i) \<le> UsedIDKeyMaxBytes"
    "vv_kind val = JString \<and> RequestIDSemanticKey (rawJSON i) = Inr (semanticKey i) \<or>
     vv_kind val = JNumber \<and> (\<exists>d. ParseDecimal (rawJSON i) = Inr d \<and> IsInteger d \<and> SemanticKey d [] = Inr (semanticKey i))"
  using assms
  by (auto simp: parseRequestIDValue_def Let_def split: if_splits option.splits ValueKind.splits sum.splits)

lemma ScanProtocolObject_document:
  assumes "ScanProtocolObject r limits = (view, e)"
  shows "view = emptyProtocolView \<or> ov_raw (pv_root view) = r \<and> (\<exists>sp. document_of r JObject sp)"
proof (cases "scanProtocolDocumentDetailed r limits")
  case (Pair res e')
  show ?thesis
  proof (cases res)
    case None
    then show ?thesis using assms Pair by (simp add: ScanProtocolObject_def)
  next
    case (Some d)
    show ?thesis
    proof (cases "dr_Kind d = JObject")
      case False
      then show ?thesis using assms Pair Some by (simp add: ScanProtocolObject_def)
    next
      case True
      have "document_of r JObject (dr_Span d)"
        using scanned_document Pair Some True unfolding scanProtocolDocumentDetailed_def by metis
      moreover have "ov_raw (pv_root view) = r"
        using assms Pair Some True
        by (auto simp: ScanProtocolObject_def protocolViewFromResult_def Let_def split: if_splits option.splits)
      ultimately show ?thesis by blast
    qed
  qed
qed

lemma empty_view_no_member: "ObjectView_Value (pv_root emptyProtocolView) name = None"
  by (simp add: ObjectView_Value_def ObjectView_Member_def emptyProtocolView_def emptyObjectView_def)

lemma classify_message:
  fixes r :: bytes
  defines "m \<equiv> classifyInbound r"
  assumes "in_kind m = InboundRequest \<or> in_kind m = InboundNotification"
  shows "ScanProtocolObject r protocolJSONLimits = (in_protocol m, in_validationError m) \<and>
    jsonrpc_ok (pv_root (in_protocol m)) \<and> method_ok (pv_root (in_protocol m)) \<and>
    parseRequestID (pv_root (in_protocol m)) =
      (if in_kind m = InboundRequest then IDPresent (in_requestID m) else IDAbsent) \<and>
    (in_kind m = InboundNotification \<longrightarrow> in_requestID m = zeroRequestID)"
proof -
  obtain protocol verr where s: "ScanProtocolObject r protocolJSONLimits = (protocol, verr)" by force
  let ?root = "pv_root protocol"
  define doc resp env where "doc \<longleftrightarrow> map_option ve_scope verr = Some ScopeDocument"
    and "resp \<longleftrightarrow> \<not> ObjectView_Member ?root ''method'' \<noteq> None \<and>
       (ObjectView_Member ?root ''result'' \<noteq> None \<or> ObjectView_Member ?root ''error'' \<noteq> None)"
    and "env \<longleftrightarrow> map_option ve_scope verr = Some ScopeProtocolEnvelope"
  note abbr = this
  have m: "m = (if doc then inbound_only InboundParseError parseErrorOutput
     else if resp then inbound_only InboundResponse []
     else if env then inbound_only InboundInvalidRequest invalidRequestOutput
     else if \<not> jsonrpc_ok ?root then inbound_only InboundInvalidRequest invalidRequestOutput
     else if \<not> method_ok ?root then inbound_only InboundInvalidRequest invalidRequestOutput
     else case parseRequestID ?root of
       IDInvalid \<Rightarrow> inbound_only InboundInvalidRequest invalidRequestOutput
     | IDPresent i \<Rightarrow> \<lparr>in_kind = InboundRequest, in_protocol = protocol, in_requestID = i,
         in_validationError = verr, in_output = []\<rparr>
     | IDAbsent \<Rightarrow> \<lparr>in_kind = InboundNotification, in_protocol = protocol, in_requestID = zeroRequestID,
         in_validationError = verr, in_output = []\<rparr>)"
    unfolding m_def classifyInbound_def s Let_def prod.case abbr ..
  have ok: "\<not> doc \<and> \<not> resp \<and> \<not> env \<and> jsonrpc_ok ?root \<and> method_ok ?root"
    using assms(2) unfolding m by (cases doc; cases resp; cases env; simp add: inbound_only_def split: if_split_asm)
  have "parseRequestID ?root \<noteq> IDInvalid" using assms(2) ok unfolding m by (auto simp: inbound_only_def)
  then show ?thesis using s ok unfolding m by (cases "parseRequestID ?root") simp_all
qed

lemma json_chars_no_LF: "json_chars b \<Longrightarrow> LF \<notin> set b"
proof (induction rule: json_chars.induct)
  case (chars_ascii c cs)
  then show ?case by (auto simp: byte_val_def)
next
  case (chars_utf8 r cs)
  then show ?case using EncodeRune_high [of r LF] by (auto simp: byte_val_def)
next
  case (chars_unicode h cs)
  have "hexNibble LF = None" by (simp add: hexNibble_def byte_val_def)
  then show ?case using chars_unicode by (auto simp: hex_digits4_def list_all_iff)
qed auto

lemma digits_no_LF: "digits ds \<Longrightarrow> LF \<notin> set ds"
proof -
  have "\<not> isDecimalDigit LF" by (simp add: isDecimalDigit_def byte_val_def)
  then show "digits ds \<Longrightarrow> LF \<notin> set ds" by (auto simp: list_all_iff)
qed

lemma number_no_LF:
  assumes "number_parts ip fp ex"
  shows "LF \<notin> set (json_number_text neg ip fp ex)"
proof -
  have "LF \<notin> set (exponent_text ex)"
    using assms digits_no_LF by (cases ex) (auto simp: number_parts_def)
  then show ?thesis using assms digits_no_LF [of ip] digits_no_LF [of fp]
    by (auto simp: number_parts_def canonical_def json_number_text_def fraction_text_def)
qed

lemma parseRequestIDValue_no_LF:
  assumes "parseRequestIDValue val = Some i"
  shows "LF \<notin> set (rawJSON i)"
proof -
  have num: "LF \<notin> set r" if "ParseDecimal r = Inr d" for r d
    using ParseDecimal_sound [OF that] number_no_LF by metis
  consider "RequestIDSemanticKey (rawJSON i) = Inr (semanticKey i)" | d where "ParseDecimal (rawJSON i) = Inr d"
    using parseRequestIDValue_Some(6) [OF assms] by blast
  then show ?thesis
  proof cases
    case 1
    then show ?thesis
    proof (cases rule: RequestIDSemanticKey_cases)
      case (str s sp)
      then obtain v where v: "json_string v" "sits (rawJSON i) 0 v" "length v = length (rawJSON i)"
        using decodeJSONString_grammar [OF str(1)] by auto
      then have "rawJSON i = v" by (simp add: sits_def)
      then show ?thesis using v(1) json_chars_no_LF by (auto simp: json_string_def)
    qed (use num in blast)
  qed (use num in blast)
qed

text \<open>Classification of a concrete frame by simplification.\<close>

lemmas class_eval = scan_eval classifyInbound_def ScanProtocolObject_def protocolViewFromResult_def protocolJSONLimits_def
  ObjectView_Member_def ObjectView_Value_def jsonrpc_ok_def method_ok_def stringValueEquals_def ValueView_Bytes_def
  RequestIDSemanticKey_def uniform_limits_def scanDocument_def parseRequestID_def parseRequestIDValue_def
  RequestIDMaxRawBytes_def UsedIDKeyMaxBytes_def decodedStringValue_def Let_def

abbreviation ping_frame :: bytes where
  \<open>ping_frame \<equiv> ''{"jsonrpc":"2.0","id":"a","method":"ping"}''\<close>

lemma ping_frame_class:
  "in_kind (classifyInbound ping_frame) = InboundRequest"
  by (simp add: class_eval)

section \<open>Properties\<close>

lemma request_message_id:
  assumes "in_kind (classifyInbound r) = InboundRequest"
  shows "rawJSON (in_requestID (classifyInbound r)) \<noteq> []"
    "length (rawJSON (in_requestID (classifyInbound r))) \<le> RequestIDMaxRawBytes"
    "semanticKey (in_requestID (classifyInbound r)) \<noteq> []"
    "length (semanticKey (in_requestID (classifyInbound r))) \<le> UsedIDKeyMaxBytes"
    "LF \<notin> set (rawJSON (in_requestID (classifyInbound r)))"
proof -
  have "parseRequestID (pv_root (in_protocol (classifyInbound r))) = IDPresent (in_requestID (classifyInbound r))"
    using classify_message [of r] assms by auto
  then obtain val where "parseRequestIDValue val = Some (in_requestID (classifyInbound r))"
    by (auto simp: parseRequestID_def split: option.splits)
  note f = parseRequestIDValue_Some(2-5) [OF this] parseRequestIDValue_no_LF [OF this]
  show "rawJSON (in_requestID (classifyInbound r)) \<noteq> []"
    "length (rawJSON (in_requestID (classifyInbound r))) \<le> RequestIDMaxRawBytes"
    "semanticKey (in_requestID (classifyInbound r)) \<noteq> []"
    "length (semanticKey (in_requestID (classifyInbound r))) \<le> UsedIDKeyMaxBytes"
    "LF \<notin> set (rawJSON (in_requestID (classifyInbound r)))"
    by (fact f)+
qed

text \<open>C32. Every frame that is classified as a request is one JSON object, and its id is one the rest of the
  session can rely on: the raw text is not empty, at most 256 bytes and free of line feeds, and the key is
  not empty and within the key bound of the used-id registry.\<close>

theorem classified_request_id:
  assumes "in_kind (classifyInbound r) = InboundRequest"
  shows "(\<exists>sp. document_of r JObject sp) \<and>
    (let i = in_requestID (classifyInbound r) in
      rawJSON i \<noteq> [] \<and> length (rawJSON i) \<le> RequestIDMaxRawBytes \<and> LF \<notin> set (rawJSON i) \<and>
      semanticKey i \<noteq> [] \<and> length (semanticKey i) \<le> UsedIDKeyMaxBytes)"
proof -
  let ?m = "classifyInbound r"
  have m: "ScanProtocolObject r protocolJSONLimits = (in_protocol ?m, in_validationError ?m)"
    "method_ok (pv_root (in_protocol ?m))"
    using classify_message [of r] assms by auto
  have "in_protocol ?m \<noteq> emptyProtocolView"
    using m(2) empty_view_no_member by (auto simp: method_ok_def split: option.splits)
  then have "\<exists>sp. document_of r JObject sp" using ScanProtocolObject_document [OF m(1)] by blast
  moreover note request_message_id [OF assms]
  ultimately show ?thesis by (simp add: Let_def)
qed

lemma method_distinct [simp]:
  "methodPing \<noteq> methodInitialize" "methodInitialize \<noteq> methodPing"
  "methodToolsList \<noteq> methodInitialize" "methodInitialize \<noteq> methodToolsList"
  "methodToolsCall \<noteq> methodInitialize" "methodInitialize \<noteq> methodToolsCall"
  "methodNotificationReady \<noteq> methodInitialize" "methodInitialize \<noteq> methodNotificationReady"
  "methodNotificationCancelled \<noteq> methodInitialize" "methodInitialize \<noteq> methodNotificationCancelled"
  "methodToolsList \<noteq> methodPing" "methodPing \<noteq> methodToolsList"
  "methodToolsCall \<noteq> methodPing" "methodPing \<noteq> methodToolsCall"
  "methodNotificationReady \<noteq> methodPing" "methodPing \<noteq> methodNotificationReady"
  "methodNotificationCancelled \<noteq> methodPing" "methodPing \<noteq> methodNotificationCancelled"
  "methodToolsCall \<noteq> methodToolsList" "methodToolsList \<noteq> methodToolsCall"
  "methodNotificationReady \<noteq> methodToolsList" "methodToolsList \<noteq> methodNotificationReady"
  "methodNotificationCancelled \<noteq> methodToolsList" "methodToolsList \<noteq> methodNotificationCancelled"
  "methodNotificationReady \<noteq> methodToolsCall" "methodToolsCall \<noteq> methodNotificationReady"
  "methodNotificationCancelled \<noteq> methodToolsCall" "methodToolsCall \<noteq> methodNotificationCancelled"
  "methodNotificationCancelled \<noteq> methodNotificationReady" "methodNotificationReady \<noteq> methodNotificationCancelled"
  by (simp_all add: method_defs)

lemma classified_request_id_witness:
  "(\<exists>sp. document_of ping_frame JObject sp) \<and> rawJSON (in_requestID (classifyInbound ping_frame)) \<noteq> []"
  using classified_request_id [OF ping_frame_class] by (simp_all add: Let_def)

lemma validate_params_same:
  assumes "validate_params m res = Some res'"
  shows "sr_requestID res' = sr_requestID res \<and> sr_method res' = sr_method res \<and>
    (sr_method res = methodToolsCall \<longrightarrow> sr_call res' = validateCallToolParams m \<and> validateCallToolParams m \<noteq> None)"
  using assms unfolding validate_params_def Let_def by (auto split: if_split_asm prod.splits)

lemma invalidInboundSchema_same [simp]:
  "sr_requestID (invalidInboundSchema m res) = sr_requestID res"
  "sr_method (invalidInboundSchema m res) = sr_method res"
  "sr_kind (invalidInboundSchema m res) = SchemaInvalid"
  "in_kind m = InboundRequest \<Longrightarrow> sr_output (invalidInboundSchema m res) = invalidParamsForID (in_requestID m)"
  by (simp_all add: invalidInboundSchema_def Let_def)

lemma validate_decoded:
  fixes m :: inboundMessage
  defines "s \<equiv> validateInboundSchema m"
  assumes "ObjectView_Value (pv_root (in_protocol m)) ''method'' = Some v" "decodedStringValue v = Some meth"
  shows "sr_requestID s = in_requestID m \<and> sr_method s = meth \<and>
    (sr_kind s = SchemaAccepted \<longrightarrow> knownInboundSchema (in_kind m) meth \<and>
      (meth = methodToolsCall \<longrightarrow> sr_call s = validateCallToolParams m \<and> validateCallToolParams m \<noteq> None)) \<and>
    (sr_kind s = SchemaInvalid \<longrightarrow> in_kind m = InboundRequest \<longrightarrow> sr_output s = invalidParamsForID (in_requestID m))"
proof -
  define res where "res = emptySchemaResult\<lparr>sr_method := meth, sr_requestID := in_requestID m\<rparr>"
  have res: "sr_method res = meth" "sr_requestID res = in_requestID m" "sr_kind res = SchemaUnknown"
    by (simp_all add: res_def emptySchemaResult_def)
  have s: "s = (if \<not> knownInboundSchema (in_kind m) meth then res
          else if in_validationError m \<noteq> None then invalidInboundSchema m res
          else case validate_params m res of
            None \<Rightarrow> invalidInboundSchema m res
          | Some res' \<Rightarrow> res'\<lparr>sr_kind := SchemaAccepted\<rparr>)"
    unfolding s_def validateInboundSchema_def assms(2,3) option.case Let_def res_def ..
  show ?thesis unfolding s using res validate_params_same [of m res]
    by (cases "knownInboundSchema (in_kind m) meth"; cases "in_validationError m = None";
        cases "validate_params m res") auto
qed

lemma validate_undecoded:
  "ObjectView_Value (pv_root (in_protocol m)) ''method'' = Some v \<Longrightarrow> decodedStringValue v = None \<Longrightarrow>
    validateInboundSchema m = emptySchemaResult"
  by (simp add: validateInboundSchema_def)

lemma valid_call_tool: "validateCallToolParams m = Some call \<Longrightarrow> ToolName_Valid (call_name call)"
  by (auto simp: validateCallToolParams_def NewCall_def split: option.splits if_splits)

text \<open>The name of the decoded method of a message.\<close>

definition message_method :: "inboundMessage \<Rightarrow> bytes option" where
  "message_method m = Option.bind (ObjectView_Value (pv_root (in_protocol m)) ''method'') decodedStringValue"

lemma ping_frame_method: "message_method (classifyInbound ping_frame) = Some ''ping''"
  by (simp add: message_method_def class_eval)



section \<open>The order of the lifecycle\<close>

fun lifecycle_run :: "connectionLifecycle \<Rightarrow> inboundSchemaResult list \<Rightarrow> lifecycleDecision list" where
  "lifecycle_run lc [] = []"
| "lifecycle_run lc (s # ss) = (let (d, lc') = lifecycle_handle s lc in d # lifecycle_run lc' ss)"

definition ready_notice :: "inboundSchemaResult \<Rightarrow> bool" where
  "ready_notice s \<longleftrightarrow> sr_kind s = SchemaAccepted \<and> sr_method s = methodNotificationReady"

text \<open>What a run promises from each state.\<close>

fun run_ok :: "lifecycleState \<Rightarrow> inboundSchemaResult list \<Rightarrow> lifecycleDecision list \<Rightarrow> bool" where
  "run_ok st [] [] \<longleftrightarrow> True"
| "run_ok st (s # ss) (d # ds) \<longleftrightarrow>
    (ld_action d = LifecycleInitialize \<longrightarrow> st = LifecycleNew) \<and>
    (ld_action d \<in> {LifecycleToolsCall, LifecycleToolsList} \<longrightarrow> st = LifecycleReady) \<and>
    run_ok (if ld_action d = LifecycleInitialize then LifecycleAwaitingInitialized
      else if ready_notice s \<and> st = LifecycleAwaitingInitialized then LifecycleReady else st) ss ds"
| "run_ok st _ _ \<longleftrightarrow> False"

lemma handle_step:
  assumes "lifecycle_handle s lc = (d, lc')"
  shows "(ld_action d = LifecycleInitialize \<longrightarrow> lc_state lc = LifecycleNew) \<and>
    (ld_action d \<in> {LifecycleToolsCall, LifecycleToolsList} \<longrightarrow> lc_state lc = LifecycleReady) \<and>
    lc_state lc' = (if ld_action d = LifecycleInitialize then LifecycleAwaitingInitialized
      else if ready_notice s \<and> lc_state lc = LifecycleAwaitingInitialized then LifecycleReady else lc_state lc)"
  using assms
  by (auto simp: lifecycle_handle_def decide_def rejectLifecycleRequest_def ready_notice_def Let_def
      split: inboundSchemaKind.splits if_splits)

lemma run_ok_run: "run_ok (lc_state lc) ss (lifecycle_run lc ss)"
proof (induction ss arbitrary: lc)
  case (Cons s ss)
  obtain d lc' where h: "lifecycle_handle s lc = (d, lc')" by force
  have "run_ok (lc_state lc') ss (lifecycle_run lc' ss)" by (rule Cons.IH)
  then show ?case using handle_step [OF h] by (simp add: h)
qed simp

lemma run_ok_Ready: "run_ok LifecycleReady ss ds \<Longrightarrow> \<forall>d\<in>set ds. ld_action d \<noteq> LifecycleInitialize"
proof (induction ss arbitrary: ds)
  case Nil
  then show ?case by (cases ds) auto
next
  case (Cons s ss)
  then obtain d ds' where ds: "ds = d # ds'" by (cases ds) auto
  then have "ld_action d \<noteq> LifecycleInitialize" "run_ok LifecycleReady ss ds'" using Cons.prems by auto
  then show ?case using Cons.IH ds by auto
qed

lemma run_ok_Awaiting:
  "run_ok LifecycleAwaitingInitialized ss ds \<Longrightarrow> (\<forall>d\<in>set ds. ld_action d \<noteq> LifecycleInitialize) \<and>
    (\<forall>n<length ds. ld_action (ds ! n) \<in> {LifecycleToolsCall, LifecycleToolsList} \<longrightarrow> (\<exists>j<n. ready_notice (ss ! j)))"
proof (induction ss arbitrary: ds)
  case Nil
  then show ?case by (cases ds) auto
next
  case (Cons s ss)
  then obtain d ds' where ds: "ds = d # ds'" by (cases ds) auto
  have a: "ld_action d \<noteq> LifecycleInitialize" "ld_action d \<notin> {LifecycleToolsCall, LifecycleToolsList}"
    using Cons.prems by (auto simp: ds)
  show ?case
  proof (cases "ready_notice s")
    case True
    then have "run_ok LifecycleReady ss ds'" using Cons.prems a by (simp add: ds)
    note run_ok_Ready [OF this]
    moreover have "\<exists>j<n. ready_notice ((s # ss) ! j)" if "0 < n" for n
      using True that by (intro exI [of _ 0]) simp
    ultimately show ?thesis using a by (auto simp: ds nth_Cons split: nat.splits)
  next
    case False
    then have "run_ok LifecycleAwaitingInitialized ss ds'" using Cons.prems a by (simp add: ds)
    note ih = Cons.IH [OF this]
    have "\<exists>j<Suc n. ready_notice ((s # ss) ! j)" if "\<exists>j<n. ready_notice (ss ! j)" for n
      using that by (force intro: exI [of _ "Suc _"])
    then show ?thesis using ih a by (auto simp: ds nth_Cons split: nat.splits)
  qed
qed

lemma run_ok_New:
  "run_ok LifecycleNew ss ds \<Longrightarrow> length (filter (\<lambda>d. ld_action d = LifecycleInitialize) ds) \<le> 1 \<and>
    (\<forall>n<length ds. ld_action (ds ! n) \<in> {LifecycleToolsCall, LifecycleToolsList} \<longrightarrow>
      (\<exists>i j. i < j \<and> j < n \<and> ld_action (ds ! i) = LifecycleInitialize \<and> ready_notice (ss ! j)))"
proof (induction ss arbitrary: ds)
  case Nil
  then show ?case by (cases ds) auto
next
  case (Cons s ss)
  then obtain d ds' where ds: "ds = d # ds'" by (cases ds) auto
  have a: "ld_action d \<notin> {LifecycleToolsCall, LifecycleToolsList}" using Cons.prems by (auto simp: ds)
  show ?case
  proof (cases "ld_action d = LifecycleInitialize")
    case True
    then have "run_ok LifecycleAwaitingInitialized ss ds'" using Cons.prems by (simp add: ds)
    note w = run_ok_Awaiting [OF this]
    then have "filter (\<lambda>d. ld_action d = LifecycleInitialize) ds' = []" by (simp add: filter_empty_conv)
    moreover have "\<exists>i j. i < j \<and> j < Suc n \<and> ld_action (ds ! i) = LifecycleInitialize \<and> ready_notice ((s # ss) ! j)"
      if y: "\<exists>j<n. ready_notice (ss ! j)" for n
    proof -
      obtain j where "j < n" "ready_notice (ss ! j)" using y by blast
      then show ?thesis using True by (intro exI [of _ 0] exI [of _ "Suc j"]) (simp add: ds)
    qed
    ultimately show ?thesis using w a True by (auto simp: ds nth_Cons split: nat.splits)
  next
    case False
    then have "run_ok LifecycleNew ss ds'" using Cons.prems by (simp add: ds)
    note ih = Cons.IH [OF this]
    have "\<exists>i j. i < j \<and> j < Suc n \<and> ld_action (ds ! i) = LifecycleInitialize \<and> ready_notice ((s # ss) ! j)"
      if y: "\<exists>i j. i < j \<and> j < n \<and> ld_action (ds' ! i) = LifecycleInitialize \<and> ready_notice (ss ! j)" for n
    proof -
      obtain i j where "i < j" "j < n" "ld_action (ds' ! i) = LifecycleInitialize" "ready_notice (ss ! j)" using y by blast
      then show ?thesis by (intro exI [of _ "Suc i"] exI [of _ "Suc j"]) (simp add: ds)
    qed
    then show ?thesis using ih a False by (auto simp: ds nth_Cons split: nat.splits)
  qed
qed

text \<open>C34. The handshake of a connection: over any sequence of inbound messages at most one initialize is
  accepted, and every tool call or tool listing that goes through comes after an accepted initialize and a
  later initialized notification.\<close>

theorem lifecycle_order:
  assumes "ds = lifecycle_run (newLifecycleWithVersion version) ss"
  shows "length (filter (\<lambda>d. ld_action d = LifecycleInitialize) ds) \<le> 1 \<and>
    (\<forall>n<length ds. ld_action (ds ! n) \<in> {LifecycleToolsCall, LifecycleToolsList} \<longrightarrow>
      (\<exists>i j. i < j \<and> j < n \<and> ld_action (ds ! i) = LifecycleInitialize \<and> ready_notice (ss ! j)))"
  using run_ok_New run_ok_run [of "newLifecycleWithVersion version" ss] assms
  by (simp add: newLifecycleWithVersion_def)

lemma lifecycle_order_witness:
  "let ds = lifecycle_run (newLifecycleWithVersion [])
      [emptySchemaResult\<lparr>sr_kind := SchemaAccepted, sr_method := methodInitialize\<rparr>,
       emptySchemaResult\<lparr>sr_kind := SchemaAccepted, sr_method := methodInitialize\<rparr>]
    in length (filter (\<lambda>d. ld_action d = LifecycleInitialize) ds) \<le> 1"
  unfolding Let_def using lifecycle_order [OF refl] by blast

end
