(* ===== verification/ResponseStream.thy ===== *)
theory ResponseStream
  imports Transport "HOL-Library.Sublist"
begin

text \<open>
  The output side of a connection (\<open>connection.go\<close>, \<open>concurrency.go\<close> of \<open>src/internal/mcpstdio\<close> and
  \<open>fatal.go\<close>, \<open>publication.go\<close>, \<open>waiter.go\<close> of \<open>src/internal/runtime\<close>): the gate of response
  transactions, the locked write of one response, the protocol of a provisional publication, and the
  terminal state a failed write leaves behind.  The writer and the publication are parameters given by
  what each of their calls returns.  A critical section of \<open>outputMu\<close> is one step; another goroutine
  may stop the connection between any two checks of \<open>writeAllowed\<close>.
\<close>

section \<open>Errors\<close>

datatype conn_error =
  ErrInternalFatal | ErrConnectionStopped | ErrRecoveredWorkerPanic
  | ErrInvalidWriteCount | ErrWriteResponse | ErrShortWrite | ErrFlushResponse
  | ErrPublicationCall | ErrPreparePublication conn_error | ErrCommitPublication conn_error
  | ErrJoined "conn_error list"

text \<open>\<open>errors.Is\<close> for the sentinel errors.\<close>

fun error_is :: "conn_error \<Rightarrow> conn_error \<Rightarrow> bool" where
  "error_is (ErrJoined es) target \<longleftrightarrow> list_ex (\<lambda>e. error_is e target) es"
| "error_is (ErrPreparePublication e) target \<longleftrightarrow> error_is e target"
| "error_is (ErrCommitPublication e) target \<longleftrightarrow> error_is e target"
| "error_is e target \<longleftrightarrow> e = target"

definition errors_Join :: "conn_error option list \<Rightarrow> conn_error option" where
  "errors_Join es = (let l = List.map_filter id es in if l = [] then None else Some (ErrJoined l))"

fun combine_from :: "conn_error option \<Rightarrow> conn_error option list \<Rightarrow> conn_error option" where
  "combine_from combined [] = combined"
| "combine_from combined (None # es) = combine_from combined es"
| "combine_from combined (Some e # es) = combine_from (errors_Join [combined, Some e]) es"

definition combinePublicationErrors :: "conn_error option list \<Rightarrow> conn_error option" where
  "combinePublicationErrors es = combine_from None es"

section \<open>The state\<close>

text \<open>\<open>os_triggered\<close> is the fatal signal, \<open>os_active\<close> the wait group of the gate, \<open>os_closer\<close> whether the
  input closer is still there and \<open>os_sent\<close> the bytes the writer has accepted.\<close>

record output_state =
  os_triggered :: bool
  os_stopped :: bool
  os_gateStopped :: bool
  os_active :: nat
  os_closer :: bool
  os_asyncError :: "conn_error option"
  os_sent :: bytes

definition new_output :: "bool \<Rightarrow> output_state" where
  "new_output closer = \<lparr>os_triggered = False, os_stopped = False, os_gateStopped = False, os_active = 0,
    os_closer = closer, os_asyncError = None, os_sent = []\<rparr>"

definition gate_begin :: "output_state \<Rightarrow> output_state \<times> bool" where
  "gate_begin s = (if os_gateStopped s then (s, False) else (s\<lparr>os_active := os_active s + 1\<rparr>, True))"

text \<open>\<open>None\<close> is the panic of a negative wait group.\<close>

definition transaction_end :: "output_state \<Rightarrow> output_state option" where
  "transaction_end s = (if os_active s = 0 then None else Some (s\<lparr>os_active := os_active s - 1\<rparr>))"

definition stopAccepting :: "output_state \<Rightarrow> output_state" where
  "stopAccepting s = s\<lparr>os_gateStopped := True\<rparr>"

text \<open>The second component: the input closer to close after unlocking.\<close>

definition markStopped :: "output_state \<Rightarrow> output_state \<times> bool" where
  "markStopped s =
    (let s1 = stopAccepting s in
     if os_stopped s1 then (s1, False)
     else (s1\<lparr>os_stopped := True, os_closer := False\<rparr>, os_closer s1))"

definition storeAsyncError :: "conn_error option \<Rightarrow> output_state \<Rightarrow> output_state" where
  "storeAsyncError err s =
    (case err of
       None \<Rightarrow> s
     | Some e \<Rightarrow>
         if error_is e ErrConnectionStopped then s
         else if error_is e ErrInternalFatal then s\<lparr>os_asyncError := Some ErrInternalFatal\<rparr>
         else if os_asyncError s = None then s\<lparr>os_asyncError := Some e\<rparr>
         else s)"

definition recordAsyncError :: "conn_error option \<Rightarrow> output_state \<Rightarrow> output_state" where
  "recordAsyncError err s =
    (case err of
       None \<Rightarrow> s
     | Some e \<Rightarrow>
         if error_is e ErrConnectionStopped then s
         else fst (markStopped (storeAsyncError err s)))"

definition conn_fatalError :: "output_state \<Rightarrow> conn_error option" where
  "conn_fatalError s = (if os_triggered s then Some ErrInternalFatal else None)"

definition writeAllowed :: "output_state \<Rightarrow> conn_error option" where
  "writeAllowed s =
    (case conn_fatalError s of
       Some e \<Rightarrow> Some e
     | None \<Rightarrow> if os_stopped s then Some ErrConnectionStopped else None)"

definition beginResponseTransaction :: "output_state \<Rightarrow> output_state \<times> conn_error option" where
  "beginResponseTransaction s =
    (let (s', begun) = gate_begin s in
     if begun then (s', None)
     else case conn_fatalError s' of
       Some e \<Rightarrow> (s', Some e)
     | None \<Rightarrow> (s', Some ErrConnectionStopped))"

section \<open>Writing one response\<close>

text \<open>What happens around one response: \<open>we_stops k\<close> says that another goroutine stops the connection just
  before the \<open>k\<close>-th check of \<open>writeAllowed\<close>; \<open>we_writer k rest\<close> is the \<open>(n, err \<noteq> nil)\<close> of the write call
  after that check; \<open>we_flush\<close> is \<open>None\<close> for an output without \<open>Flush\<close>, else whether it fails.  By the
  contract of \<open>io.Writer\<close> the first \<open>n\<close> bytes, and only those, have been written, and \<open>Write\<close> does not
  panic.\<close>

record write_env =
  we_stops :: "nat \<Rightarrow> bool"
  we_writer :: "nat \<Rightarrow> bytes \<Rightarrow> int \<times> bool"
  we_flush :: "bool option"

definition check_point :: "write_env \<Rightarrow> nat \<Rightarrow> output_state \<Rightarrow> output_state \<times> conn_error option" where
  "check_point env k s =
    (let s' = (if we_stops env k then fst (markStopped s) else s) in (s', writeAllowed s'))"

function write_loop :: "write_env \<Rightarrow> nat \<Rightarrow> bytes \<Rightarrow> output_state \<Rightarrow> nat \<times> output_state \<times> conn_error option" where
  "write_loop env k response s =
    (if response = [] then (k, s, None)
     else
       let (s1, denied) = check_point env k s;
           (n, failed) = we_writer env k response in
       if denied \<noteq> None then (Suc k, s1, denied)
       else if n < 0 \<or> n > int (length response) then (Suc k, s1, Some ErrInvalidWriteCount)
       else
         let s2 = s1\<lparr>os_sent := os_sent s1 @ take (nat n) response\<rparr> in
         if failed then (Suc k, s2, Some ErrWriteResponse)
         else if n = 0 then (Suc k, s2, Some ErrShortWrite)
         else write_loop env (Suc k) (drop (nat n) response) s2)"
  by pat_completeness auto

termination write_loop
  by (relation "measure (\<lambda>(env, k, response, s). length response)") auto

declare write_loop.simps [simp del]

definition writeLocked :: "write_env \<Rightarrow> nat \<Rightarrow> bytes \<Rightarrow> output_state \<Rightarrow> output_state \<times> conn_error option" where
  "writeLocked env k0 response s =
    (let (s1, denied) = check_point env k0 s in
     if denied \<noteq> None then (s1, denied)
     else
       let (k, s2, err) = write_loop env (Suc k0) response s1 in
       if err \<noteq> None then (s2, err)
       else
         let (s3, denied') = check_point env k s2 in
         if denied' \<noteq> None then (s3, denied')
         else if we_flush env = Some True then (s3, Some ErrFlushResponse)
         else (s3, None))"

section \<open>Publications\<close>

datatype pub_outcome = PubReturns "conn_error option" | PubPanics

datatype pub_call = PubPrepare | PubCommit | PubAbort

text \<open>A publication by what its methods do when called.\<close>

record publication =
  pb_prepare :: pub_outcome
  pb_commit :: pub_outcome
  pb_abort_panics :: bool

text \<open>The result of a section that may panic; the calls made on the publication are kept as a trace.\<close>

datatype section_exit = SecReturns "conn_error option" | SecPanics

definition abortPublication :: "publication option \<Rightarrow> pub_call list \<times> conn_error option" where
  "abortPublication pub =
    (case pub of
       None \<Rightarrow> ([], None)
     | Some p \<Rightarrow> ([PubAbort], if pb_abort_panics p then Some ErrRecoveredWorkerPanic else None))"

text \<open>The body of \<open>writePublishedToolResponseLocked\<close> up to its deferred function; the boolean is \<open>terminal\<close>.\<close>

definition publish_body ::
  "write_env \<Rightarrow> bytes \<Rightarrow> publication \<Rightarrow> output_state \<Rightarrow> output_state \<times> pub_call list \<times> bool \<times> section_exit" where
  "publish_body env response p s =
    (let (s1, denied) = check_point env 0 s in
     if denied \<noteq> None then (s1, [], False, SecReturns denied)
     else case pb_prepare p of
       PubPanics \<Rightarrow> (s1, [PubPrepare], False, SecPanics)
     | PubReturns (Some e) \<Rightarrow> (s1, [PubPrepare], False, SecReturns (Some (ErrPreparePublication e)))
     | PubReturns None \<Rightarrow>
         let (s2, err) = writeLocked env 1 response s1 in
         if err \<noteq> None then (s2, [PubPrepare], False, SecReturns err)
         else case pb_commit p of
           PubPanics \<Rightarrow> (s2, [PubPrepare, PubCommit], False, SecPanics)
         | PubReturns (Some e) \<Rightarrow> (s2, [PubPrepare, PubCommit], True, SecReturns (Some (ErrCommitPublication e)))
         | PubReturns None \<Rightarrow> (s2, [PubPrepare, PubCommit], True, SecReturns None))"

definition writePublishedToolResponseLocked ::
  "write_env \<Rightarrow> bytes \<Rightarrow> publication \<Rightarrow> output_state \<Rightarrow> output_state \<times> pub_call list \<times> section_exit" where
  "writePublishedToolResponseLocked env response p s =
    (let (s', calls, terminal, res) = publish_body env response p s;
         (abort_calls, abort_err) = abortPublication (Some p) in
     case res of
       SecPanics \<Rightarrow> (s', if terminal then calls else calls @ abort_calls, SecPanics)
     | SecReturns err \<Rightarrow>
         if err \<noteq> None \<and> \<not> terminal
         then (s', calls @ abort_calls, SecReturns (combinePublicationErrors [err, abort_err]))
         else (s', calls, SecReturns err))"

section \<open>The critical section of a response\<close>

text \<open>\<open>executed\<close>, the result, and whether the input closer is to be closed; \<open>RunBeforeFatal\<close> refuses once the
  fatal transition has started.\<close>

definition runResponseTransactionLocked ::
  "(output_state \<Rightarrow> output_state \<times> 'c list \<times> section_exit) \<Rightarrow> output_state \<Rightarrow>
   output_state \<times> 'c list \<times> bool \<times> section_exit \<times> bool" where
  "runResponseTransactionLocked operation s =
    (if os_triggered s
     then let (s1, closer) = markStopped (storeAsyncError (Some ErrInternalFatal) s) in
       (s1, [], False, SecReturns (Some ErrInternalFatal), closer)
     else
       let (s1, calls, res) = operation s in
       case res of
         SecPanics \<Rightarrow> (s1, calls, True, SecPanics, False)
       | SecReturns None \<Rightarrow> (s1, calls, True, SecReturns None, False)
       | SecReturns (Some e) \<Rightarrow>
           let (s2, closer) = markStopped (storeAsyncError (Some e) s1) in
           (s2, calls, True, SecReturns (Some e), closer))"

definition writeToolCompletionInResponseTransaction ::
  "write_env \<Rightarrow> bytes \<Rightarrow> publication option \<Rightarrow> output_state \<Rightarrow> output_state \<times> pub_call list \<times> section_exit" where
  "writeToolCompletionInResponseTransaction env response pub s =
    (let (s', calls, executed, res, closer) =
       runResponseTransactionLocked (\<lambda>st.
         case pub of
           None \<Rightarrow> (let (st', err) = writeLocked env 0 response st in (st', [], SecReturns err))
         | Some p \<Rightarrow> writePublishedToolResponseLocked env response p st) s in
     case res of
       SecPanics \<Rightarrow> (s', calls, SecPanics)
     | SecReturns err \<Rightarrow>
         if \<not> executed \<and> pub \<noteq> None
         then let (abort_calls, abort_err) = abortPublication pub in
           (s', calls @ abort_calls, SecReturns (combinePublicationErrors [err, abort_err]))
         else (s', calls, SecReturns err))"

text \<open>\<open>writeInResponseTransaction\<close> is the case without a publication.\<close>

definition writeInResponseTransaction ::
  "write_env \<Rightarrow> bytes \<Rightarrow> output_state \<Rightarrow> output_state \<times> conn_error option" where
  "writeInResponseTransaction env response s =
    (let (s', calls, executed, res, closer) =
       runResponseTransactionLocked (\<lambda>st.
         let (st', err) = writeLocked env 0 response st in (st', [] :: pub_call list, SecReturns err)) s in
     case res of SecReturns err \<Rightarrow> (s', err) | SecPanics \<Rightarrow> (s', None))"

text \<open>\<open>write\<close> and \<open>writeToolCompletion\<close> bracket the section with the gate; the deferred \<open>end\<close> runs on every
  exit.\<close>

definition end_transaction :: "output_state \<Rightarrow> output_state" where
  "end_transaction s = (case transaction_end s of None \<Rightarrow> s | Some s' \<Rightarrow> s')"

definition conn_write :: "write_env \<Rightarrow> bytes \<Rightarrow> output_state \<Rightarrow> output_state \<times> conn_error option" where
  "conn_write env response s =
    (let (s1, err) = beginResponseTransaction s in
     if err \<noteq> None then (s1, err)
     else let (s2, err') = writeInResponseTransaction env response s1 in (end_transaction s2, err'))"

definition writeToolCompletion ::
  "write_env \<Rightarrow> bytes \<Rightarrow> publication option \<Rightarrow> output_state \<Rightarrow> output_state \<times> pub_call list \<times> section_exit" where
  "writeToolCompletion env response pub s =
    (let (s1, err) = beginResponseTransaction s in
     if err \<noteq> None then
       (let (abort_calls, abort_err) = abortPublication pub in
        (s1, abort_calls, SecReturns (if pub = None then err else combinePublicationErrors [err, abort_err])))
     else
       let (s2, calls, res) = writeToolCompletionInResponseTransaction env response pub s1 in
       (end_transaction s2, calls, res))"

section \<open>Results that wait for their response\<close>

text \<open>\<open>ValidatePublication\<close>; \<open>ExecutionKind\<close> is an unsigned byte, so other values exist.\<close>

definition ExecutionOrdinary :: uint8 where "ExecutionOrdinary = 1"
definition ExecutionInitialCursor :: uint8 where "ExecutionInitialCursor = 2"

record execution =
  ex_kind :: uint8
  ex_result :: Result
  ex_publication :: "publication option"

definition ValidatePublication :: "execution \<Rightarrow> bool" where
  "ValidatePublication e =
    (if ex_kind e = ExecutionOrdinary then ex_publication e = None
     else if ex_kind e = ExecutionInitialCursor then ex_publication e \<noteq> None
     else False)"

text \<open>A shared-result waiter: the first completion wins.\<close>

record waiter =
  wt_done :: bool
  wt_result :: "Result option"

definition newWaiter :: waiter where
  "newWaiter = \<lparr>wt_done = False, wt_result = None\<rparr>"

definition waiter_complete :: "Result option \<Rightarrow> waiter \<Rightarrow> waiter" where
  "waiter_complete outcome w = (if wt_done w then w else \<lparr>wt_done = True, wt_result = outcome\<rparr>)"

text \<open>\<open>Await\<close>: \<open>None\<close> while it blocks, then the stable \<open>(result, delivered)\<close>.\<close>

definition waiter_await :: "waiter \<Rightarrow> Result option option" where
  "waiter_await w = (if wt_done w then Some (wt_result w) else None)"

lemma waiter_first_wins:
  "waiter_await (fold waiter_complete outcomes newWaiter) = (case outcomes of [] \<Rightarrow> None | x # _ \<Rightarrow> Some x)"
proof -
  have "fold waiter_complete os \<lparr>wt_done = True, wt_result = x\<rparr> = \<lparr>wt_done = True, wt_result = x\<rparr>" for os x
    by (induction os) (simp_all add: waiter_complete_def)
  then show ?thesis
    by (cases outcomes) (simp_all add: waiter_await_def waiter_complete_def newWaiter_def)
qed

section \<open>The bytes of one response\<close>

lemma markStopped_same [simp]:
  "os_sent (fst (markStopped s)) = os_sent s" "os_triggered (fst (markStopped s)) = os_triggered s"
  "os_stopped (fst (markStopped s))" "os_gateStopped (fst (markStopped s))"
  by (simp_all add: markStopped_def stopAccepting_def Let_def)

lemma storeAsyncError_same [simp]:
  "os_sent (storeAsyncError e s) = os_sent s" "os_triggered (storeAsyncError e s) = os_triggered s"
  "os_stopped (storeAsyncError e s) = os_stopped s"
  by (simp_all add: storeAsyncError_def split: option.splits)

lemma check_point_facts:
  assumes "check_point env k s = (s', denied)"
  shows "os_sent s' = os_sent s" "os_stopped s \<Longrightarrow> os_stopped s' \<and> denied \<noteq> None"
  using assms
  by (auto simp: check_point_def writeAllowed_def conn_fatalError_def Let_def split: option.splits if_splits)

text \<open>What a section did to the stream: it appended a prefix of the response, the whole of it when it
  reports success, and nothing on a stopped connection.\<close>

definition appended :: "bytes \<Rightarrow> bool \<Rightarrow> output_state \<Rightarrow> output_state \<Rightarrow> bool" where
  "appended response whole s s' \<longleftrightarrow> (\<exists>chunk. os_sent s' = os_sent s @ chunk \<and> prefix chunk response \<and>
    (whole \<longrightarrow> chunk = response \<and> \<not> os_stopped s) \<and> (os_stopped s \<longrightarrow> chunk = [] \<and> os_stopped s'))"

lemma appended_none: "os_sent s' = os_sent s \<Longrightarrow> (os_stopped s \<Longrightarrow> os_stopped s') \<Longrightarrow> appended r False s s'"
  by (auto simp: appended_def)

lemma write_loop_appends:
  "write_loop env k response s = (k', s', err) \<Longrightarrow>
    \<exists>chunk. os_sent s' = os_sent s @ chunk \<and> prefix chunk response \<and> (err = None \<longrightarrow> chunk = response) \<and>
      (os_stopped s \<longrightarrow> os_stopped s' \<and> chunk = [])"
proof (induction env k response s arbitrary: k' s' err rule: write_loop.induct)
  case (1 env k response s)
  show ?case
  proof (cases "response = []")
    case True
    then show ?thesis using "1.prems" by (simp add: write_loop.simps)
  next
    case False
    obtain s1 denied where c: "check_point env k s = (s1, denied)" by force
    obtain n failed where w: "we_writer env k response = (n, failed)" by force
    note cf = check_point_facts [OF c]
    define s2 where "s2 = s1\<lparr>os_sent := os_sent s1 @ take (nat n) response\<rparr>"
    note step = "1.prems" [unfolded write_loop.simps [of env k response s] Let_def c w prod.case, folded s2_def]
    show ?thesis
    proof (cases "denied \<noteq> None \<or> n < 0 \<or> n > int (length response)")
      case True
      then have "s' = s1 \<and> err \<noteq> None" using step False by (auto split: if_splits)
      then show ?thesis using cf by (intro exI [of _ "[]"]) auto
    next
      case go: False
      then have ns: "\<not> os_stopped s" using cf by blast
      show ?thesis
      proof (cases "failed \<or> n = 0")
        case True
        then have "s' = s2 \<and> err \<noteq> None" using step False go by (auto split: if_splits)
        then show ?thesis using cf ns by (intro exI [of _ "take (nat n) response"]) (auto simp: s2_def take_is_prefix)
      next
        case more: False
        then have rest: "write_loop env (Suc k) (drop (nat n) response) s2 = (k', s', err)"
          using step False go by (auto split: if_splits)
        obtain chunk where ch: "os_sent s' = os_sent s2 @ chunk" "prefix chunk (drop (nat n) response)"
          "err = None \<longrightarrow> chunk = drop (nat n) response"
          using "1.IH" [OF False c [symmetric] refl w [symmetric] refl _ _ s2_def _ _ rest] go more by auto
        have "prefix (take (nat n) response @ chunk) (take (nat n) response @ drop (nat n) response)"
          using ch(2) by (simp only: same_prefix_prefix)
        then show ?thesis using ch cf ns
          by (intro exI [of _ "take (nat n) response @ chunk"]) (simp add: s2_def)
      qed
    qed
  qed
qed

lemma writeLocked_appends:
  assumes "writeLocked env k response s = (s', err)"
  shows "appended response (err = None) s s'"
proof -
  obtain s1 denied where c: "check_point env k s = (s1, denied)" by force
  note cf = check_point_facts [OF c]
  note step = assms [unfolded writeLocked_def Let_def c prod.case]
  show ?thesis
  proof (cases "denied = None")
    case False
    then have "s' = s1" "err \<noteq> None" using step by auto
    then show ?thesis using cf appended_none [of s1 s] by auto
  next
    case True
    then have ns: "\<not> os_stopped s" using cf by blast
    obtain k' s2 e where w: "write_loop env (Suc k) response s1 = (k', s2, e)" by (metis prod_cases3)
    obtain chunk where ch: "os_sent s2 = os_sent s @ chunk" "prefix chunk response" "e = None \<longrightarrow> chunk = response"
      using write_loop_appends [OF w] cf(1) by auto
    obtain s3 denied' where c': "check_point env k' s2 = (s3, denied')" by force
    have "(s' = s2 \<and> err \<noteq> None \<or> s' = s3 \<and> e = None)"
      using step True w c' by (auto split: if_splits)
    then show ?thesis using ch ns check_point_facts(1) [OF c'] by (auto simp: appended_def)
  qed
qed

section \<open>Sequences of responses\<close>

lemma publish_body_appends:
  assumes "publish_body env response p s = (s', calls, terminal, res)"
  shows "appended response (PubCommit \<in> set calls) s s'"
    "calls \<in> {[], [PubPrepare], [PubPrepare, PubCommit]}"
    "res = SecReturns None \<longrightarrow> terminal" "terminal \<longleftrightarrow> calls = [PubPrepare, PubCommit] \<and> res \<noteq> SecPanics"
    "calls = [PubPrepare, PubCommit] \<longrightarrow> (case pb_commit p of PubPanics \<Rightarrow> res = SecPanics
       | PubReturns None \<Rightarrow> res = SecReturns None | PubReturns (Some e) \<Rightarrow> \<exists>e'. res = SecReturns (Some e'))"
    "calls = [PubPrepare, PubCommit] \<longrightarrow> pb_prepare p = PubReturns None"
    "calls \<noteq> [PubPrepare, PubCommit] \<longrightarrow> res = SecPanics \<longrightarrow> os_sent s' = os_sent s"
proof -
  obtain s1 denied where c: "check_point env 0 s = (s1, denied)" by force
  note cf = check_point_facts [OF c]
  obtain s2 err where w: "writeLocked env 1 response s1 = (s2, err)" by force
  note step = assms [unfolded publish_body_def Let_def c prod.case w]
  have a: "appended response False s s1" using cf by (intro appended_none) auto
  have b: "appended response (err = None) s s2" if "denied = None"
    using writeLocked_appends [OF w] cf that by (auto simp: appended_def)
  show "appended response (PubCommit \<in> set calls) s s'"
    using step a b by (auto split: if_splits pub_outcome.splits option.splits simp: appended_def)
  show "calls \<in> {[], [PubPrepare], [PubPrepare, PubCommit]}" "res = SecReturns None \<longrightarrow> terminal"
    "terminal \<longleftrightarrow> calls = [PubPrepare, PubCommit] \<and> res \<noteq> SecPanics"
    "calls = [PubPrepare, PubCommit] \<longrightarrow> (case pb_commit p of PubPanics \<Rightarrow> res = SecPanics
       | PubReturns None \<Rightarrow> res = SecReturns None | PubReturns (Some e) \<Rightarrow> \<exists>e'. res = SecReturns (Some e'))"
    "calls = [PubPrepare, PubCommit] \<longrightarrow> pb_prepare p = PubReturns None"
    "calls \<noteq> [PubPrepare, PubCommit] \<longrightarrow> res = SecPanics \<longrightarrow> os_sent s' = os_sent s"
    using step cf(1) by (auto split: if_splits pub_outcome.splits option.splits)
qed

text \<open>The whole response is on the stream.\<close>

definition delivered :: "pub_call list \<Rightarrow> section_exit \<Rightarrow> bool" where
  "delivered calls res \<longleftrightarrow> res = SecReturns None \<or> PubCommit \<in> set calls"

lemma combine_Some: "combinePublicationErrors (Some e # es) \<noteq> None"
proof -
  have "x \<noteq> None \<Longrightarrow> combine_from x ys \<noteq> None" for x :: "conn_error option" and ys
    by (induction x ys rule: combine_from.induct) (auto simp: errors_Join_def Let_def List.map_filter_def)
  from this [of "errors_Join [None, Some e]" es] show ?thesis
    by (simp add: combinePublicationErrors_def errors_Join_def List.map_filter_def)
qed

lemma combine_Some' [simp]: "combinePublicationErrors [Some e, x] \<noteq> None" "combinePublicationErrors [Some e, x] = None \<longleftrightarrow> False"
  using combine_Some by blast+

text \<open>The calls a publication may see.\<close>

definition pub_protocol :: "publication \<Rightarrow> pub_call list \<Rightarrow> section_exit \<Rightarrow> bool" where
  "pub_protocol p calls res \<longleftrightarrow>
    (if res = SecReturns None then calls = [PubPrepare, PubCommit] \<and> pb_commit p = PubReturns None
     else (case pb_commit p of PubReturns (Some _) \<Rightarrow> calls = [PubPrepare, PubCommit] | _ \<Rightarrow> False) \<or>
       calls \<in> {[PubAbort], [PubPrepare, PubAbort]} \<or>
       calls = [PubPrepare, PubCommit, PubAbort] \<and> pb_commit p = PubPanics)"

lemma published_appends:
  assumes "writePublishedToolResponseLocked env response p s = (s', calls, res)"
  shows "appended response (delivered calls res) s s'" "pub_protocol p calls res"
    "\<not> delivered calls res \<longrightarrow> res = SecPanics \<longrightarrow> os_sent s' = os_sent s"
proof -
  obtain s1 calls1 terminal res1 where b: "publish_body env response p s = (s1, calls1, terminal, res1)"
    by (metis prod_cases4)
  note f = publish_body_appends [OF b]
  note step = assms [unfolded writePublishedToolResponseLocked_def b Let_def prod.case abortPublication_def option.case]
  have same: "s' = s1" using step by (auto split: section_exit.splits if_splits)
  have d: "delivered calls res \<longleftrightarrow> PubCommit \<in> set calls1"
    using step f(2-4) by (auto simp: delivered_def split: section_exit.splits if_splits)
  show "appended response (delivered calls res) s s'" using f(1) same d by simp
  show "pub_protocol p calls res"
    using step f(2-6) by (auto simp: pub_protocol_def split: section_exit.splits if_splits pub_outcome.splits option.splits)
  show "\<not> delivered calls res \<longrightarrow> res = SecPanics \<longrightarrow> os_sent s' = os_sent s"
    using step f(2,7) same d by (auto split: section_exit.splits if_splits)
qed

lemma completion_appends:
  assumes "writeToolCompletionInResponseTransaction env response pub s = (s', calls, res)"
  shows "appended response (delivered calls res) s s'"
    "case pub of None \<Rightarrow> calls = [] | Some p \<Rightarrow> pub_protocol p calls res"
    "\<not> delivered calls res \<longrightarrow> os_stopped s' \<or> os_sent s' = os_sent s"
proof -
  note step = assms [unfolded writeToolCompletionInResponseTransaction_def runResponseTransactionLocked_def]
  have protocol_abort: "pub_protocol p [PubAbort] (SecReturns (Some e))" for p e
    by (simp add: pub_protocol_def)
  consider "os_triggered s" | "\<not> os_triggered s" "pub = None"
    | p where "\<not> os_triggered s" "pub = Some p" by fastforce
  then have "appended response (delivered calls res) s s' \<and>
      (case pub of None \<Rightarrow> calls = [] | Some p \<Rightarrow> pub_protocol p calls res) \<and>
      (\<not> delivered calls res \<longrightarrow> os_stopped s' \<or> os_sent s' = os_sent s)"
  proof cases
    case 1
    obtain s1 closer where m: "markStopped (storeAsyncError (Some ErrInternalFatal) s) = (s1, closer)" by force
    have "s' = s1" "res \<noteq> SecReturns None" "calls = (if pub = None then [] else [PubAbort])"
      using step 1 m by (cases pub; auto simp: Let_def abortPublication_def)+
    moreover have "os_sent s1 = os_sent s" "os_stopped s1"
      using markStopped_same(1,3) [of "storeAsyncError (Some ErrInternalFatal) s"] m by simp_all
    ultimately show ?thesis using appended_none [of s1 s response]
      by (auto simp: delivered_def pub_protocol_def split: option.splits)
  next
    case 2
    obtain s1 err where w: "writeLocked env 0 response s = (s1, err)" by force
    obtain s2 closer where m: "markStopped (storeAsyncError err s1) = (s2, closer)" by force
    have 3: "os_sent s2 = os_sent s1" "os_stopped s2"
      using markStopped_same(1,3) [of "storeAsyncError err s1"] m by simp_all
    have "s' = (if err = None then s1 else s2)" "res = SecReturns err" "calls = []"
      using step 2 w m by (auto simp: Let_def split: option.splits)
    then show ?thesis using writeLocked_appends [OF w] 2 3 by (auto simp: delivered_def appended_def)
  next
    case 3
    obtain s1 calls1 res1 where w: "writePublishedToolResponseLocked env response p s = (s1, calls1, res1)"
      by (metis prod_cases3)
    note f = published_appends [OF w]
    have same: "calls = calls1" "res = res1" using step 3 w
      by (auto simp: Let_def split: option.splits section_exit.splits prod.splits)
    show ?thesis
    proof (cases "\<exists>e. res1 = SecReturns (Some e)")
      case True
      then obtain e where e: "res1 = SecReturns (Some e)" by blast
      obtain s2 closer where m: "markStopped (storeAsyncError (Some e) s1) = (s2, closer)" by force
      have "os_sent s2 = os_sent s1" "os_stopped s2"
        using markStopped_same(1,3) [of "storeAsyncError (Some e) s1"] m by simp_all
      moreover have "s' = s2" using step 3 w e m by (auto simp: Let_def split: option.splits)
      ultimately show ?thesis using f same 3 by (auto simp: appended_def)
    next
      case False
      then have "s' = s1" using step 3 w
        by (auto simp: Let_def split: option.splits section_exit.splits prod.splits)
      moreover have "res1 = SecPanics \<or> res1 = SecReturns None" using False by (cases res1) auto
      ultimately show ?thesis using f same 3 by (auto simp: delivered_def)
    qed
  qed
  then show "appended response (delivered calls res) s s'"
    "case pub of None \<Rightarrow> calls = [] | Some p \<Rightarrow> pub_protocol p calls res"
    "\<not> delivered calls res \<longrightarrow> os_stopped s' \<or> os_sent s' = os_sent s" by blast+
qed

section \<open>Sequences of responses\<close>

datatype stream_op =
  StreamBegin | StreamEnd | StreamStop | StreamTrigger | StreamRecord "conn_error option"
  | StreamWrite write_env bytes "publication option"

text \<open>The log lists the responses handed to the section with the calls on their publication and the
  result.\<close>

type_synonym stream_log = "(bytes \<times> pub_call list \<times> section_exit) list"

fun stream_step :: "stream_op \<Rightarrow> output_state \<times> stream_log \<Rightarrow> output_state \<times> stream_log" where
  "stream_step StreamBegin (s, l) = (fst (beginResponseTransaction s), l)"
| "stream_step StreamEnd (s, l) = (end_transaction s, l)"
| "stream_step StreamStop (s, l) = (fst (markStopped s), l)"
| "stream_step StreamTrigger (s, l) = (s\<lparr>os_triggered := True\<rparr>, l)"
| "stream_step (StreamRecord e) (s, l) = (recordAsyncError e s, l)"
| "stream_step (StreamWrite env response pub) (s, l) =
    (let (s', calls, res) = writeToolCompletionInResponseTransaction env response pub s in
     (s', l @ [(response, calls, res)]))"

definition stream_run :: "bool \<Rightarrow> stream_op list \<Rightarrow> output_state \<times> stream_log" where
  "stream_run closer ops = fold stream_step ops (new_output closer, [])"

text \<open>The responses that a log reports as written.\<close>

definition whole_responses :: "stream_log \<Rightarrow> bytes list" where
  "whole_responses l = map fst (filter (\<lambda>(r, calls, res). delivered calls res) l)"

definition stream_ok :: "output_state \<times> stream_log \<Rightarrow> bool" where
  "stream_ok st \<longleftrightarrow> (case st of (s, l) \<Rightarrow>
    \<exists>tail. os_sent s = concat (whole_responses l) @ tail \<and>
      (tail \<noteq> [] \<longrightarrow> os_stopped s \<and> (\<exists>r \<in> set (map fst l). prefix tail r)))"

lemma stream_ok_frame:
  "stream_ok (s, l) \<Longrightarrow> os_sent s' = os_sent s \<Longrightarrow> (os_stopped s \<Longrightarrow> os_stopped s') \<Longrightarrow> stream_ok (s', l)"
  unfolding stream_ok_def by auto

lemma stream_ok_step: "stream_ok st \<Longrightarrow> stream_ok (stream_step op st)"
proof (induction op st rule: stream_step.induct)
  case (6 env response pub s l)
  obtain s' calls res where w: "writeToolCompletionInResponseTransaction env response pub s = (s', calls, res)"
    by (metis prod_cases3)
  note f = completion_appends [OF w]
  obtain chunk where ch: "os_sent s' = os_sent s @ chunk" "prefix chunk response"
    "delivered calls res \<longrightarrow> chunk = response \<and> \<not> os_stopped s" "os_stopped s \<longrightarrow> chunk = [] \<and> os_stopped s'"
    using f(1) by (auto simp: appended_def)
  obtain tail where t: "os_sent s = concat (whole_responses l) @ tail"
    "tail \<noteq> [] \<longrightarrow> os_stopped s \<and> (\<exists>r \<in> set (map fst l). prefix tail r)"
    using 6 by (auto simp: stream_ok_def)
  show ?case
  proof (cases "delivered calls res")
    case True
    then have "tail = []" using ch t by blast
    then show ?thesis using ch t True w by (simp add: stream_ok_def whole_responses_def)
  next
    case False
    have w': "whole_responses (l @ [(response, calls, res)]) = whole_responses l"
      using False by (simp add: whole_responses_def)
    show ?thesis
    proof (cases "os_stopped s")
      case True
      then show ?thesis using ch t w w' by (auto simp: stream_ok_def)
    next
      case ns: False
      then have "tail = []" using t by blast
      moreover have "chunk \<noteq> [] \<longrightarrow> os_stopped s'" using f(3) False ch(1) by auto
      ultimately show ?thesis using ch t w w' by (auto simp: stream_ok_def)
    qed
  qed
qed (auto elim!: stream_ok_frame simp: beginResponseTransaction_def gate_begin_def Let_def end_transaction_def
    transaction_end_def recordAsyncError_def split: option.splits)

text \<open>C35. The output of a connection is never garbled.  Whatever the writer accepts or refuses, whatever
  publications return or panic, and whenever another goroutine stops the connection or triggers the fatal
  signal, the bytes on the stream are the responses that were reported written, each one complete and in
  order, followed by at most one proper piece of a response, and then the connection is stopped for good.\<close>

theorem output_never_garbled:
  assumes "stream_run closer ops = (s, l)"
  shows "\<exists>tail. os_sent s = concat (whole_responses l) @ tail \<and>
    (tail = [] \<or> os_stopped s \<and> (\<exists>r \<in> set (map fst l). prefix tail r))"
proof -
  have "stream_ok st \<Longrightarrow> stream_ok (fold stream_step ops st)" for st
    by (induction ops arbitrary: st) (simp_all add: stream_ok_step)
  moreover have "stream_ok (new_output closer, [])"
    by (simp add: stream_ok_def new_output_def whole_responses_def)
  ultimately have "stream_ok (s, l)" using assms by (metis stream_run_def)
  then show ?thesis unfolding stream_ok_def by auto
qed

abbreviation demo_env :: "(nat \<Rightarrow> bytes \<Rightarrow> int \<times> bool) \<Rightarrow> write_env" where
  "demo_env w \<equiv> \<lparr>we_stops = (\<lambda>_. False), we_writer = w, we_flush = None\<rparr>"

lemma output_never_garbled_witness:
  "\<exists>tail. os_sent (fst (stream_run False [StreamWrite (demo_env (\<lambda>_ r. (int (length r), False))) ''ab'' None,
      StreamWrite (demo_env (\<lambda>k _. (if k = 1 then 1 else 0, k \<noteq> 1))) ''cd'' None])) = ''ab'' @ tail"
proof -
  let ?ops = "[StreamWrite (demo_env (\<lambda>_ r. (int (length r), False))) ''ab'' None,
      StreamWrite (demo_env (\<lambda>k _. (if k = 1 then 1 else 0, k \<noteq> 1))) ''cd'' None]"
  have l: "whole_responses (snd (stream_run False ?ops)) = [''ab'']"
    by (simp add: stream_run_def new_output_def writeToolCompletionInResponseTransaction_def
        runResponseTransactionLocked_def writeLocked_def check_point_def writeAllowed_def conn_fatalError_def
        write_loop.simps Let_def whole_responses_def delivered_def storeAsyncError_def markStopped_def stopAccepting_def)
  show ?thesis
    using output_never_garbled [of False ?ops "fst (stream_run False ?ops)" "snd (stream_run False ?ops)"] l
    by auto
qed



end
