(* ===== verification/Connection.thy ===== *)
theory Connection
  imports Session ResponseStream Admission
begin

text \<open>
  The connection that ties the transport together (\<open>connection.go\<close>, \<open>tool_requests.go\<close>,
  \<open>concurrency.go\<close>, \<open>server.go\<close> of \<open>src/internal/mcpstdio\<close>): what one frame does, the map of live tool
  requests over the admission coordinator, the life of one tool request, and the protocol slot.
  Requests are heap cells named by their position; a panic is \<open>None\<close>.
\<close>

section \<open>One tool request\<close>

record toolRequest =
  tr_id :: RequestID
  tr_call :: "Call option"
  tr_reservation :: nat
  tr_cancelled :: bool
  tr_responding :: bool

text \<open>\<open>cancel\<close> also cancels the reservation exactly when it returns true.\<close>

definition request_cancel :: "toolRequest \<Rightarrow> toolRequest \<times> bool" where
  "request_cancel r =
    (if tr_cancelled r \<or> tr_responding r then (r, False) else (r\<lparr>tr_cancelled := True\<rparr>, True))"

definition claimResponse :: "toolRequest \<Rightarrow> toolRequest \<times> bool" where
  "claimResponse r =
    (if tr_cancelled r \<or> tr_responding r then (r, False) else (r\<lparr>tr_responding := True\<rparr>, True))"

definition claimTimeoutResponse :: "toolRequest \<Rightarrow> toolRequest \<times> bool" where
  "claimTimeoutResponse r = (if tr_responding r then (r, False) else (r\<lparr>tr_responding := True\<rparr>, True))"

datatype request_op = OpCancel | OpClaim | OpClaimTimeout

fun request_op_step :: "request_op \<Rightarrow> toolRequest \<Rightarrow> toolRequest \<times> bool" where
  "request_op_step OpCancel r = request_cancel r"
| "request_op_step OpClaim r = claimResponse r"
| "request_op_step OpClaimTimeout r = claimTimeoutResponse r"

fun request_run :: "request_op list \<Rightarrow> toolRequest \<Rightarrow> bool list" where
  "request_run [] r = []"
| "request_run (op # ops) r = (let (r', ok) = request_op_step op r in ok # request_run ops r')"

definition newToolRequest :: "RequestID \<Rightarrow> Call option \<Rightarrow> nat \<Rightarrow> toolRequest" where
  "newToolRequest i call reservation =
    \<lparr>tr_id = i, tr_call = call, tr_reservation = reservation, tr_cancelled = False, tr_responding = False\<rparr>"

section \<open>The worker of a tool request\<close>

text \<open>What the worker does, in order.  \<open>DoRemove\<close>: \<open>removeToolRequest\<close>; \<open>DoAbort\<close>: \<open>abortPublication\<close>;
  \<open>DoWrite\<close>, \<open>DoComplete\<close>: the response section without and with the execution's publication;
  \<open>DoReleaseOutput\<close>: the deferred \<open>toolOutputs.release\<close>; \<open>DoEndTransaction\<close>: the deferred \<open>end\<close>.\<close>

datatype worker_action =
  DoRemove | DoAbort "publication option" | DoWrite bytes | DoComplete bytes "publication option"
  | DoEndTransaction | DoReleaseOutput | DoPanic

text \<open>The outcomes of what the worker calls: of \<open>Start\<close>, whether a queue timeout carries the response right,
  the execution, \<open>cancelledBeforeResponse\<close>, \<open>beginResponseTransaction\<close> and the claim.\<close>

record worker_env =
  w_start :: StartOutcome
  w_responseRight :: bool
  w_hasLease :: bool
  w_execution :: execution
  w_cancelled :: bool
  w_begun :: bool
  w_claimed :: bool

definition budgetExceededResult :: Result where
  "budgetExceededResult = Navigation (''ERROR'' @ [CHR 0x09] @ ''budget_exceeded'' @ [LF]) True"

definition runToolRequest_body :: "RequestID \<Rightarrow> worker_env \<Rightarrow> worker_action list" where
  "runToolRequest_body i env =
    (let ex = w_execution env; pub = ex_publication ex in
     case w_start env of
       StartCancelled \<Rightarrow> [DoRemove]
     | StartQueueTimeoutBudgetExceeded \<Rightarrow>
         if \<not> w_responseRight env then [DoRemove]
         else (case encodeToolResult i budgetExceededResult of
           Inl _ \<Rightarrow> [DoRemove]
         | Inr out \<Rightarrow>
             if \<not> w_begun env then [DoRemove]
             else if \<not> w_claimed env then [DoRemove, DoEndTransaction]
             else [DoRemove, DoWrite out, DoEndTransaction])
     | StartRun \<Rightarrow>
         if \<not> w_hasLease env then []
         else if w_cancelled env then [DoRemove, DoAbort pub]
         else if \<not> ValidatePublication ex then [DoAbort pub, DoPanic]
         else (case encodeToolResult i (ex_result ex) of
           Inl _ \<Rightarrow> [DoRemove, DoAbort pub]
         | Inr out \<Rightarrow>
             if \<not> w_begun env then [DoRemove, DoAbort pub]
             else if \<not> w_claimed env then [DoRemove, DoAbort pub, DoEndTransaction]
             else [DoRemove, DoComplete out pub, DoEndTransaction]))"

text \<open>The cleanup that \<open>launch\<close> runs after a recovered panic cancels and removes the request.\<close>

definition runToolRequest :: "RequestID \<Rightarrow> worker_env \<Rightarrow> worker_action list" where
  "runToolRequest i env =
    (let acts = runToolRequest_body i env @ [DoReleaseOutput] in
     if DoPanic \<in> set acts then acts @ [DoRemove] else acts)"

section \<open>The connection\<close>

record 'o connection =
  cn_lifecycle :: connectionLifecycle
  cn_usedIDs :: usedIDRegistry
  cn_work :: "'o session"
  cn_heap :: "toolRequest list"
  cn_toolRequests :: "bytes \<Rightarrow> nat option"

text \<open>What is left to do after the state change of a frame: nothing, write a response (and close the
  connection), start the worker of a request, hand a decision to \<open>dispatchProtocol\<close>, or return an error.\<close>

datatype frame_effect =
  FrameNothing | FrameWrite bytes bool | FrameLaunch nat | FrameProtocol lifecycleDecision | FrameFailed

definition removeToolRequest :: "nat \<Rightarrow> 'o connection \<Rightarrow> 'o connection" where
  "removeToolRequest i c =
    (let key = semanticKey (tr_id (cn_heap c ! i)) in
     if cn_toolRequests c key = Some i then c\<lparr>cn_toolRequests := (cn_toolRequests c)(key := None)\<rparr> else c)"

definition cancel_reservation :: "nat \<Rightarrow> 'o connection \<Rightarrow> 'o connection" where
  "cancel_reservation reservation c =
    c\<lparr>cn_work := (cn_work c)\<lparr>coord := fst (cancel (coord (cn_work c)) reservation)\<rparr>\<rparr>"

text \<open>\<open>request.cancel()\<close> and, when it succeeds, the removal: the loop body of \<open>cancelAllToolRequests\<close>.\<close>

definition cancel_live :: "nat \<Rightarrow> 'o connection \<Rightarrow> 'o connection" where
  "cancel_live i c =
    (let (r, ok) = request_cancel (cn_heap c ! i) in
     if ok then removeToolRequest i (cancel_reservation (tr_reservation r) (c\<lparr>cn_heap := (cn_heap c)[i := r]\<rparr>))
     else c)"

definition cancelToolRequest :: "bytes \<Rightarrow> 'o connection \<Rightarrow> 'o connection" where
  "cancelToolRequest key c =
    (case cn_toolRequests c key of None \<Rightarrow> c | Some i \<Rightarrow> cancel_live i c)"

definition registerToolRequest :: "toolRequest \<Rightarrow> 'o connection \<Rightarrow> ('o connection \<times> nat) option" where
  "registerToolRequest r c =
    (let key = semanticKey (tr_id r); i = length (cn_heap c) in
     if cn_toolRequests c key \<noteq> None then None
     else Some (c\<lparr>cn_heap := cn_heap c @ [r], cn_toolRequests := (cn_toolRequests c)(key \<mapsto> i)\<rparr>, i))"

text \<open>\<open>acquired\<close> is the result of waiting for a tool output slot.\<close>

definition admitToolCall :: "bool \<Rightarrow> lifecycleDecision \<Rightarrow> 'o connection \<Rightarrow> ('o connection \<times> frame_effect) option" where
  "admitToolCall acquired d c =
    (case admit (coord (cn_work c)) (semanticKey (ld_requestID d)) of
       None \<Rightarrow> None
     | Some (co, reservation, outcome) \<Rightarrow>
         let c1 = c\<lparr>cn_work := (cn_work c)\<lparr>coord := co\<rparr>\<rparr> in
         if outcome = AdmitImmediateBudgetExceeded then
           (case encodeToolResult (ld_requestID d) budgetExceededResult of
              Inl _ \<Rightarrow> Some (c1, FrameFailed)
            | Inr out \<Rightarrow> Some (c1, FrameWrite out False))
         else case reservation of
           None \<Rightarrow> Some (c1, FrameFailed)
         | Some res \<Rightarrow>
             if \<not> acquired then Some (cancel_reservation res c1, FrameNothing)
             else (case registerToolRequest (newToolRequest (ld_requestID d) (ld_call d) res) c1 of
               None \<Rightarrow> None
             | Some (c2, i) \<Rightarrow> Some (c2, FrameLaunch i)))"

text \<open>\<open>fatal\<close> is whether the fatal signal has been triggered when the frame arrives.\<close>

definition handleFrame ::
  "(bytes \<Rightarrow> bytes) \<Rightarrow> bytes option \<Rightarrow> bool \<Rightarrow> bool \<Rightarrow> bytes \<Rightarrow> 'o connection \<Rightarrow>
   ('o connection \<times> frame_effect) option" where
  "handleFrame digest toolsList fatal acquired frame c =
    (if fatal then Some (c, FrameFailed)
     else
       let message = classifyInbound frame in
       if in_kind message = InboundParseError \<or> in_kind message = InboundInvalidRequest
       then Some (c, FrameWrite (in_output message) False)
       else if in_kind message = InboundResponse then Some (c, FrameNothing)
       else
         case registry_admit digest (cn_usedIDs c) (in_kind message = InboundRequest) (in_requestID message) of
           None \<Rightarrow> None
         | Some (reg, admission) \<Rightarrow>
             let c1 = c\<lparr>cn_usedIDs := reg\<rparr> in
             if adm_kind admission = RequestIDDuplicate \<or> adm_kind admission = RequestIDExhausted
             then Some (c1, FrameWrite (adm_output admission) (adm_close admission))
             else
               let (d, lc) = lifecycle_handle (validateInboundSchema message) (cn_lifecycle c1);
                   c2 = c1\<lparr>cn_lifecycle := lc\<rparr> in
               case ld_action d of
                 LifecycleDrop \<Rightarrow> Some (c2, FrameNothing)
               | LifecycleCancel \<Rightarrow> Some (cancelToolRequest (ld_cancellationID d) c2, FrameNothing)
               | LifecycleToolsCall \<Rightarrow> admitToolCall acquired d c2
               | LifecycleInitialize \<Rightarrow>
                   (case encodeLifecycleDecision toolsList d of
                      Inl _ \<Rightarrow> Some (c2, FrameFailed)
                    | Inr out \<Rightarrow> Some (c2, FrameWrite out False))
               | _ \<Rightarrow> Some (c2, FrameProtocol d))"

text \<open>\<open>Serve\<close>: \<open>None\<close> when the limits are refused or the coordinator cannot be built.  The timeout of the
  queue is in nanoseconds.\<close>

definition toolOutputCapacity :: "limits \<Rightarrow> nat option" where
  "toolOutputCapacity l =
    (if MaxConcurrent l = 0 \<or> QueueMax l > 2 ^ 64 - 1 - MaxConcurrent l then None
     else if MaxConcurrent l + QueueMax l > 2 ^ 63 - 1 then None
     else Some (MaxConcurrent l + QueueMax l))"

definition newConnection :: "limits \<Rightarrow> int \<Rightarrow> bytes \<Rightarrow> 'o connection option" where
  "newConnection l queueTimeout version =
    (if MaxConcurrent l = 0 \<or> QueueMax l \<noteq> 0 \<and> queueTimeout \<le> 0 then None
     else if toolOutputCapacity l = None then None
     else case newCoordinator l of
       None \<Rightarrow> None
     | Some co \<Rightarrow> Some \<lparr>cn_lifecycle = newLifecycleWithVersion version, cn_usedIDs = newUsedIDRegistry,
         cn_work = \<lparr>coord = co, waiting = {}, returning = {}, outcomes = []\<rparr>,
         cn_heap = [], cn_toolRequests = Map.empty\<rparr>)"

section \<open>The steps of a connection\<close>

text \<open>Frames arrive one at a time; in between, the coordinator moves (a step that admits nothing), workers
  claim responses and requests are cancelled or removed.\<close>

inductive connection_step :: "(bytes \<Rightarrow> bytes) \<Rightarrow> 'o connection \<Rightarrow> 'o connection \<Rightarrow> bool" for digest where
  Frame: "handleFrame digest toolsList False acquired frame c = Some (c', eff) \<Longrightarrow> connection_step digest c c'"
| Work: "session_step (cn_work c) s' \<Longrightarrow> map idKey (store (coord s')) = map idKey (store (coord (cn_work c))) \<Longrightarrow>
    connection_step digest c (c\<lparr>cn_work := s'\<rparr>)"
| Claim: "i < length (cn_heap c) \<Longrightarrow> op \<noteq> OpCancel \<Longrightarrow>
    connection_step digest c (c\<lparr>cn_heap := (cn_heap c)[i := fst (request_op_step op (cn_heap c ! i))]\<rparr>)"
| Remove: "i < length (cn_heap c) \<Longrightarrow> connection_step digest c (removeToolRequest i c)"
| CancelLive: "i < length (cn_heap c) \<Longrightarrow> connection_step digest c (cancel_live i c)"

inductive connection_reachable :: "(bytes \<Rightarrow> bytes) \<Rightarrow> limits \<Rightarrow> 'o connection \<Rightarrow> bool" for digest l where
  connection_start: "newConnection l queueTimeout version = Some c \<Longrightarrow> connection_reachable digest l c"
| connection_next: "connection_reachable digest l c \<Longrightarrow> connection_step digest c c' \<Longrightarrow> connection_reachable digest l c'"

section \<open>The invariant\<close>

definition used_ids_ok :: "(bytes \<Rightarrow> bytes) \<Rightarrow> usedIDRegistry \<Rightarrow> bytes list \<Rightarrow> bool" where
  "used_ids_ok digest reg used \<longleftrightarrow> reg_ok digest reg used \<and> ur_slots reg \<noteq> [] \<and> ur_arenaMaxBytes reg < 2 ^ 32"

definition heap_ok :: "'o connection \<Rightarrow> bool" where
  "heap_ok c \<longleftrightarrow> (\<forall>r \<in> set (cn_heap c). tr_reservation r < length (store (coord (cn_work c)))) \<and>
    (\<forall>k i. cn_toolRequests c k = Some i \<longrightarrow> i < length (cn_heap c) \<and> semanticKey (tr_id (cn_heap c ! i)) = k)"

definition connection_ok :: "(bytes \<Rightarrow> bytes) \<Rightarrow> limits \<Rightarrow> 'o connection \<Rightarrow> bool" where
  "connection_ok digest l c \<longleftrightarrow> session_reachable l (cn_work c) \<and> heap_ok c \<and>
    (\<exists>used. used_ids_ok digest (cn_usedIDs c) used \<and>
      idKey ` set (store (coord (cn_work c))) \<subseteq> set used \<and> dom (cn_toolRequests c) \<subseteq> set used)"

lemma newConnection_ok: "newConnection l queueTimeout version = Some c \<Longrightarrow> connection_ok digest l c"
proof -
  assume a: "newConnection l queueTimeout version = Some c"
  then obtain co where co: "newCoordinator l = Some co"
    and c: "c = \<lparr>cn_lifecycle = newLifecycleWithVersion version, cn_usedIDs = newUsedIDRegistry,
         cn_work = \<lparr>coord = co, waiting = {}, returning = {}, outcomes = []\<rparr>,
         cn_heap = [], cn_toolRequests = Map.empty\<rparr>"
    by (auto simp: newConnection_def split: if_splits option.splits)
  have "store co = []" using co by (auto simp: newCoordinator_def split: if_splits)
  moreover have "used_ids_ok digest newUsedIDRegistry []"
    using new_reg_ok [of digest SessionMaxRequests UsedIDTableSlots UsedIDArenaMaxBytes]
    by (simp add: used_ids_ok_def newUsedIDRegistry_def newUsedIDRegistryWithConfig_def UsedIDTableSlots_def
        UsedIDArenaMaxBytes_def)
  ultimately show ?thesis using session_start [OF co]
    by (auto simp: connection_ok_def heap_ok_def c intro!: exI [of _ "[]"])
qed

text \<open>The operations that only cancel or remove.\<close>

definition keys :: "'o coordinator \<Rightarrow> bytes list" where
  "keys c = map idKey (store c)"

lemma keys_upd: "(\<And>r. idKey (f r) = idKey r) \<Longrightarrow> keys (upd i f c) = keys c"
  by (cases "i < length (store c)") (simp_all add: keys_def map_update list_update_same_conv list_update_beyond)

lemma keys_parts [simp]:
  "keys (c\<lparr>active := n\<rparr>) = keys c" "keys (c\<lparr>queue := q\<rparr>) = keys c" "keys (c\<lparr>requests := m\<rparr>) = keys c"
  "keys (removeFromQueue i c) = keys c" "keys (deleteRequest i c) = keys c" "keys (upd i signalReady c) = keys c"
  "keys (promoteHead c) = keys c"
proof -
  show q: "keys (c\<lparr>queue := q\<rparr>) = keys c" "keys (c\<lparr>active := n\<rparr>) = keys c" "keys (c\<lparr>requests := m\<rparr>) = keys c"
    for c :: "'o coordinator" and n q m by (simp_all add: keys_def)
  show "keys (deleteRequest i c) = keys c" by (simp add: deleteRequest_def q)
  show "keys (removeFromQueue i c) = keys c"
  proof (cases "queued (store c ! i)")
    case True
    then show ?thesis unfolding removeFromQueue_def
      by (subst if_P, assumption, subst keys_upd) (simp_all add: q)
  qed (simp add: removeFromQueue_def)
  show "keys (upd i signalReady c) = keys c" by (rule keys_upd) (simp add: signalReady_def)
  show "keys (promoteHead c) = keys c"
  proof (cases "queue c")
    case (Cons j rest)
    have "keys (upd j (\<lambda>r. signalReady ((stopQueueTimer (r\<lparr>queued := False\<rparr>))\<lparr>state := Running\<rparr>))
                (c\<lparr>queue := rest, active := active c + 1\<rparr>)) = keys (c\<lparr>queue := rest, active := active c + 1\<rparr>)"
      by (rule keys_upd) (simp add: signalReady_def stopQueueTimer_def)
    also have "\<dots> = keys c" by (simp add: keys_def)
    finally show ?thesis unfolding promoteHead_def Cons list.case by (cases "active c \<ge> MaxConcurrent (c_limits c)") simp_all
  qed (simp add: promoteHead_def)
qed

lemma cancel_keys: "keys (fst (cancel c i)) = keys c"
proof -
  have u: "keys (upd i (\<lambda>r. (stopQueueTimer r)\<lparr>state := Cancelled, contextCancelled := True\<rparr>) c) = keys c"
    "keys (upd i (\<lambda>r. r\<lparr>contextCancelled := True\<rparr>) c) = keys c" "keys (upd i (\<lambda>r. r\<lparr>state := Cancelled\<rparr>) c) = keys c"
    "keys (upd i (\<lambda>r. r\<lparr>state := Lingering\<rparr>) c) = keys c" for c :: "'a coordinator"
    by (rule keys_upd, simp add: stopQueueTimer_def)+
  show ?thesis
  proof (cases "state (store c ! i)")
    case Queued
    show ?thesis unfolding cancel_def Queued RequestState.case Let_def fst_conv keys_parts u by (rule refl)
  next
    case Running
    show ?thesis
      unfolding cancel_def Running RequestState.case Let_def
      by (cases "r_lease (store c ! i) = None") (simp_all only: if_True if_False fst_conv keys_parts u simp_thms)
  qed (simp_all add: cancel_def)
qed

lemma connection_ok_cancel_reservation:
  assumes "connection_ok digest l c" "i < length (store (coord (cn_work c)))"
  shows "connection_ok digest l (cancel_reservation i c)"
proof -
  let ?c = "cancel_reservation i c"
  have "session_reachable l (cn_work ?c)"
    using session_next [OF _ session_step.Cancel [OF assms(2)]] assms(1)
    by (simp add: connection_ok_def cancel_reservation_def)
  moreover have k: "keys (coord (cn_work ?c)) = keys (coord (cn_work c))"
    by (simp add: cancel_reservation_def cancel_keys)
  moreover have "length (store (coord (cn_work ?c))) = length (store (coord (cn_work c)))"
    using k by (metis length_map keys_def)
  moreover have "idKey ` set (store (coord (cn_work ?c))) = idKey ` set (store (coord (cn_work c)))"
    using k by (metis set_map keys_def)
  moreover have "cn_heap ?c = cn_heap c" "cn_toolRequests ?c = cn_toolRequests c" "cn_usedIDs ?c = cn_usedIDs c"
    by (simp_all add: cancel_reservation_def)
  ultimately show ?thesis using assms(1) unfolding connection_ok_def heap_ok_def by simp
qed

lemma connection_ok_remove:
  assumes "connection_ok digest l c"
  shows "connection_ok digest l (removeToolRequest i c)"
proof -
  let ?c = "removeToolRequest i c"
  have same: "cn_heap ?c = cn_heap c" "cn_work ?c = cn_work c" "cn_usedIDs ?c = cn_usedIDs c"
    by (simp_all add: removeToolRequest_def Let_def)
  have sub: "cn_toolRequests ?c k = Some j \<Longrightarrow> cn_toolRequests c k = Some j" for k j
    by (simp add: removeToolRequest_def Let_def split: if_split_asm)
  obtain used where u: "used_ids_ok digest (cn_usedIDs c) used" "idKey ` set (store (coord (cn_work c))) \<subseteq> set used"
    "dom (cn_toolRequests c) \<subseteq> set used" using assms unfolding connection_ok_def by blast
  have "dom (cn_toolRequests ?c) \<subseteq> set used" using sub u(3) by (meson domD domI subset_iff)
  moreover have h: "heap_ok c" "session_reachable l (cn_work c)" using assms by (simp_all add: connection_ok_def)
  have "heap_ok ?c"
    unfolding heap_ok_def same
  proof (intro conjI allI impI)
    show "\<forall>r \<in> set (cn_heap c). tr_reservation r < length (store (coord (cn_work c)))"
      using h(1) by (simp add: heap_ok_def)
    fix k j
    assume "cn_toolRequests ?c k = Some j"
    then have "cn_toolRequests c k = Some j" by (rule sub)
    then show "j < length (cn_heap c)" "semanticKey (tr_id (cn_heap c ! j)) = k"
      using h(1) by (simp_all add: heap_ok_def)
  qed
  ultimately show ?thesis using h(2) u(1,2) unfolding connection_ok_def same by blast
qed

lemma connection_ok_heap:
  assumes "connection_ok digest l c" "i < length (cn_heap c)" "tr_reservation r = tr_reservation (cn_heap c ! i)"
    "tr_id r = tr_id (cn_heap c ! i)"
  shows "connection_ok digest l (c\<lparr>cn_heap := (cn_heap c)[i := r]\<rparr>)"
proof -
  have b: "\<forall>r \<in> set (cn_heap c). tr_reservation r < length (store (coord (cn_work c)))"
    using assms(1) by (simp add: connection_ok_def heap_ok_def)
  then have "tr_reservation r < length (store (coord (cn_work c)))" using assms(2,3) by simp
  then have "\<forall>q \<in> set ((cn_heap c)[i := r]). tr_reservation q < length (store (coord (cn_work c)))"
    using b set_update_subset_insert [of "cn_heap c" i r] by blast
  moreover have "tr_id ((cn_heap c)[i := r] ! j) = tr_id (cn_heap c ! j)" for j
    using assms(2,4) by (simp add: nth_list_update)
  ultimately show ?thesis using assms(1) by (simp add: connection_ok_def heap_ok_def)
qed

lemma request_op_same:
  "tr_reservation (fst (request_op_step op r)) = tr_reservation r" "tr_id (fst (request_op_step op r)) = tr_id r"
  by (cases op; simp add: request_cancel_def claimResponse_def claimTimeoutResponse_def)+

lemma connection_ok_cancel_live:
  assumes "connection_ok digest l c" "i < length (cn_heap c)"
  shows "connection_ok digest l (cancel_live i c)"
proof -
  obtain r ok where r: "request_cancel (cn_heap c ! i) = (r, ok)" by force
  have same: "tr_reservation r = tr_reservation (cn_heap c ! i)" "tr_id r = tr_id (cn_heap c ! i)"
    using request_op_same [of OpCancel "cn_heap c ! i"] r by simp_all
  have "tr_reservation r < length (store (coord (cn_work c)))"
    using assms same by (simp add: connection_ok_def heap_ok_def)
  then show ?thesis using assms same r connection_ok_heap [OF assms same]
    by (auto simp: cancel_live_def intro!: connection_ok_remove connection_ok_cancel_reservation)
qed

text \<open>Admitting a call with a fresh key.\<close>

lemma admit_fresh:
  assumes "session_reachable l s" "key \<notin> idKey ` set (store (coord s))" "key \<noteq> []"
  shows "\<exists>co i oc. admit (coord s) key = Some (co, i, oc) \<and> session_reachable l (s\<lparr>coord := co\<rparr>) \<and>
    (case i of None \<Rightarrow> keys co = keys (coord s) | Some j \<Rightarrow> keys co = keys (coord s) @ [key] \<and> j < length (store co))"
proof -
  have "session_ok l s" using assms(1) by (rule session_reachable_ok)
  then have "coord_ok 0 (coord s)" by (simp add: session_okD)
  then have live: "requests (coord s) k = Some i \<Longrightarrow> i < length (store (coord s)) \<and> idKey (store (coord s) ! i) = k" for k i
    unfolding coord_ok_def by blast
  have "requests (coord s) key \<noteq> Some i" for i
    using live [of key i] assms(2) by (metis image_eqI nth_mem)
  then have "requests (coord s) key = None" by (cases "requests (coord s) key") auto
  then have "admit (coord s) key \<noteq> None" using assms(3) by (simp add: admit_def Let_def)
  then obtain co i oc where a: "admit (coord s) key = Some (co, i, oc)" by (metis option.exhaust prod_cases3)
  moreover have "session_reachable l (s\<lparr>coord := co\<rparr>)"
    by (rule session_next [OF assms(1) session_step.Admit [OF assms(2,3) a]])
  moreover have "case i of None \<Rightarrow> keys co = keys (coord s)
      | Some j \<Rightarrow> keys co = keys (coord s) @ [key] \<and> j < length (store co)"
    using a by (auto simp: admit_def Let_def keys_def split: if_splits)
  ultimately show ?thesis by blast
qed

lemma admitToolCall_ok:
  fixes c :: "'o connection"
  assumes ok: "session_reachable l (cn_work c)" "heap_ok c" "used_ids_ok digest (cn_usedIDs c) (used @ [key])"
    "idKey ` set (store (coord (cn_work c))) \<subseteq> set used" "dom (cn_toolRequests c) \<subseteq> set used"
    and key: "semanticKey (ld_requestID d) = key" "key \<noteq> []" "key \<notin> set used"
  shows "\<exists>c' eff. admitToolCall acquired d c = Some (c', eff) \<and> connection_ok digest l c'"
proof -
  have "key \<notin> idKey ` set (store (coord (cn_work c)))" using ok(4) key(3) by blast
  from admit_fresh [OF ok(1) this key(2)] obtain co i oc where a: "admit (coord (cn_work c)) key = Some (co, i, oc)"
    and r: "session_reachable l ((cn_work c)\<lparr>coord := co\<rparr>)"
    and k: "case i of None \<Rightarrow> keys co = keys (coord (cn_work c))
      | Some j \<Rightarrow> keys co = keys (coord (cn_work c)) @ [key] \<and> j < length (store co)" by blast
  define c1 where "c1 = c\<lparr>cn_work := (cn_work c)\<lparr>coord := co\<rparr>\<rparr>"
  have e: "keys co = keys (coord (cn_work c)) \<or> keys co = keys (coord (cn_work c)) @ [key]" using k by (cases i) auto
  have set_keys: "set (keys q) = idKey ` set (store q)" "length (keys q) = length (store q)" for q :: "'o coordinator"
    by (simp_all add: keys_def)
  have "length (keys (coord (cn_work c))) \<le> length (keys co)" using e by auto
  then have len: "length (store (coord (cn_work c))) \<le> length (store co)" by (simp only: set_keys)
  have "set (keys co) \<subseteq> insert key (set (keys (coord (cn_work c))))" using e by auto
  moreover have "set (keys (coord (cn_work c))) \<subseteq> set used" using ok(4) by (simp only: set_keys)
  ultimately have "set (keys co) \<subseteq> set (used @ [key])" by auto
  then have sub: "idKey ` set (store co) \<subseteq> set (used @ [key])" by (simp only: set_keys)
  have parts: "cn_heap c1 = cn_heap c" "cn_toolRequests c1 = cn_toolRequests c" "cn_usedIDs c1 = cn_usedIDs c"
    "cn_work c1 = (cn_work c)\<lparr>coord := co\<rparr>" by (simp_all add: c1_def)
  have h1: "heap_ok c1" using ok(2) len unfolding heap_ok_def parts by (auto dest: order.strict_trans2)
  have c1: "connection_ok digest l c1"
    using r h1 ok(3,5) sub unfolding connection_ok_def parts by (auto intro!: exI [of _ "used @ [key]"])
  show ?thesis
  proof (cases "oc = AdmitImmediateBudgetExceeded \<or> i = None")
    case True
    then show ?thesis using a c1 key(1)
      by (auto simp: admitToolCall_def c1_def Let_def split: sum.splits)
  next
    case False
    then obtain j where j: "i = Some j" "j < length (store (coord (cn_work c1)))" using k parts by auto
    show ?thesis
    proof (cases acquired)
      case False
      then show ?thesis using a \<open>\<not> (oc = _ \<or> i = None)\<close> j key(1) connection_ok_cancel_reservation [OF c1 j(2)]
        by (simp add: admitToolCall_def c1_def)
    next
      case True
      let ?r = "newToolRequest (ld_requestID d) (ld_call d) j"
      let ?c2 = "c1\<lparr>cn_heap := cn_heap c1 @ [?r], cn_toolRequests := (cn_toolRequests c1)(key \<mapsto> length (cn_heap c1))\<rparr>"
      have "cn_toolRequests c1 key = None" using ok(5) key(3) parts by (metis domIff subsetD)
      then have reg: "registerToolRequest ?r c1 = Some (?c2, length (cn_heap c1))"
        using key(1) by (simp add: registerToolRequest_def newToolRequest_def Let_def)
      have "heap_ok ?c2" using h1 j(2) key(1) by (auto simp: heap_ok_def newToolRequest_def nth_append less_Suc_eq)
      then have "connection_ok digest l ?c2"
        using r ok(3,5) sub parts unfolding connection_ok_def by (auto intro!: exI [of _ "used @ [key]"])
      then show ?thesis using a \<open>\<not> (oc = _ \<or> i = None)\<close> j True key(1) reg
        by (simp add: admitToolCall_def c1_def)
    qed
  qed
qed

text \<open>The used-id registry under one registration.\<close>

lemma used_ids_ok_admit:
  assumes "used_ids_ok digest reg used" "is_request \<longrightarrow> length (semanticKey i) < 2 ^ 16"
  shows "\<exists>reg' adm used'. registry_admit digest reg is_request i = Some (reg', adm) \<and> used_ids_ok digest reg' used' \<and>
    set used \<subseteq> set used' \<and>
    (is_request \<and> adm_kind adm = RequestIDAccepted \<longrightarrow> used' = used @ [semanticKey i] \<and> semanticKey i \<notin> set used) \<and>
    (\<not> is_request \<longrightarrow> adm_kind adm = RequestIDIgnored) \<and> (is_request \<longrightarrow> adm_kind adm \<noteq> RequestIDIgnored)"
proof (cases is_request)
  case False
  then show ?thesis using assms(1) by (simp add: registry_admit_def) blast
next
  case True
  define new where "new = spec_register (ur_maxRequests reg) (length (ur_slots reg)) (ur_arenaMaxBytes reg) used (semanticKey i)"
  have i: "reg_ok digest reg used" "ur_slots reg \<noteq> []" "ur_arenaMaxBytes reg < 2 ^ 32"
    using assms(1) by (simp_all add: used_ids_ok_def)
  obtain reg' res where r: "id_register digest reg (semanticKey i) = Some (reg', res)"
    and n: "new = (fst new, res)" "reg_ok digest reg' (fst new)"
    and len: "length (ur_slots reg') = length (ur_slots reg)" "ur_arenaMaxBytes reg' = ur_arenaMaxBytes reg"
    using reg_ok_register [OF i, of "semanticKey i"] assms(2) True unfolding new_def by blast
  have ids: "used_ids_ok digest reg' (fst new)"
    using n(2) len i(2,3) unfolding used_ids_ok_def by (metis length_0_conv)
  have u: "set used \<subseteq> set (fst new)" by (simp add: new_def subset_insertI)
  have acc: "res = RegistrationNew \<Longrightarrow> fst new = used @ [semanticKey i] \<and> semanticKey i \<notin> set used"
    using n(1) unfolding new_def by (auto split: if_splits)
  have adm: "\<exists>adm. registry_admit digest reg is_request i = Some (reg', adm) \<and>
      (adm_kind adm = RequestIDAccepted \<longleftrightarrow> res = RegistrationNew) \<and> adm_kind adm \<noteq> RequestIDIgnored"
    using True r by (cases res) (simp_all add: registry_admit_def)
  show ?thesis using adm ids u acc True by blast
qed

lemma tools_call_is_request:
  assumes "lifecycle_handle (validateInboundSchema m) lc = (d, lc')" "ld_action d = LifecycleToolsCall"
  shows "in_kind m = InboundRequest \<and> ld_requestID d = in_requestID m"
proof -
  let ?s = "validateInboundSchema m"
  have s: "sr_kind ?s = SchemaAccepted" "sr_method ?s = methodToolsCall" "ld_requestID d = sr_requestID ?s"
    using assms by (auto simp: lifecycle_handle_def decide_def rejectLifecycleRequest_def Let_def
        split: inboundSchemaKind.splits if_splits)
  have "\<exists>v meth. ObjectView_Value (pv_root (in_protocol m)) ''method'' = Some v \<and> decodedStringValue v = Some meth"
    using s(1) by (auto simp: validateInboundSchema_def emptySchemaResult_def split: option.splits)
  then obtain v meth where v: "ObjectView_Value (pv_root (in_protocol m)) ''method'' = Some v"
    "decodedStringValue v = Some meth" by blast
  note f = validate_decoded [OF v]
  have "knownInboundSchema (in_kind m) methodToolsCall" using f s by metis
  then have "in_kind m = InboundRequest" by (cases "in_kind m") (simp_all add: knownInboundSchema_def)
  then show ?thesis using f s(3) by simp
qed

lemma handleFrame_ok:
  assumes ok: "connection_ok digest l c"
  shows "\<exists>c' eff. handleFrame digest toolsList fatal acquired frame c = Some (c', eff) \<and> connection_ok digest l c'"
proof -
  define m where "m = classifyInbound frame"
  consider "fatal" | "\<not> fatal" "in_kind m \<notin> {InboundRequest, InboundNotification}"
    | "\<not> fatal" "in_kind m \<in> {InboundRequest, InboundNotification}" by blast
  then show ?thesis
  proof cases
    case 1
    then show ?thesis using ok by (simp add: handleFrame_def)
  next
    case 2
    then show ?thesis using ok by (cases "in_kind m") (simp_all add: handleFrame_def m_def [symmetric])
  next
    case 3
    define req where "req \<longleftrightarrow> in_kind m = InboundRequest"
    obtain used where u: "used_ids_ok digest (cn_usedIDs c) used" "idKey ` set (store (coord (cn_work c))) \<subseteq> set used"
      "dom (cn_toolRequests c) \<subseteq> set used" using ok unfolding connection_ok_def by blast
    have h: "session_reachable l (cn_work c)" "heap_ok c" using ok by (simp_all add: connection_ok_def)
    have key: "req \<longrightarrow> length (semanticKey (in_requestID m)) < 2 ^ 16 \<and> semanticKey (in_requestID m) \<noteq> []"
      using request_message_id(3,4) [of frame] unfolding req_def m_def UsedIDKeyMaxBytes_def
      by (auto intro: order.strict_trans1)
    obtain reg adm used' where a: "registry_admit digest (cn_usedIDs c) req (in_requestID m) = Some (reg, adm)"
      "used_ids_ok digest reg used'" "set used \<subseteq> set used'"
      "req \<and> adm_kind adm = RequestIDAccepted \<longrightarrow>
        used' = used @ [semanticKey (in_requestID m)] \<and> semanticKey (in_requestID m) \<notin> set used"
      "\<not> req \<longrightarrow> adm_kind adm = RequestIDIgnored" "req \<longrightarrow> adm_kind adm \<noteq> RequestIDIgnored"
      using used_ids_ok_admit [OF u(1), of req "in_requestID m"] key by blast
    have c1: "connection_ok digest l (c\<lparr>cn_usedIDs := reg\<rparr>)"
      using a(2,3) u h unfolding connection_ok_def heap_ok_def by (auto intro!: exI [of _ used'])
    show ?thesis
    proof (cases "adm_kind adm = RequestIDDuplicate \<or> adm_kind adm = RequestIDExhausted")
      case True
      then show ?thesis using 3 a(1) c1 by (auto simp: handleFrame_def m_def [symmetric] req_def Let_def)
    next
      case False
      obtain d lc where d: "lifecycle_handle (validateInboundSchema m) (cn_lifecycle c) = (d, lc)" by force
      define c2 where "c2 = c\<lparr>cn_usedIDs := reg, cn_lifecycle := lc\<rparr>"
      have c2: "connection_ok digest l c2" using c1 by (simp add: connection_ok_def heap_ok_def c2_def)
      have step: "handleFrame digest toolsList fatal acquired frame c =
          (case ld_action d of
             LifecycleDrop \<Rightarrow> Some (c2, FrameNothing)
           | LifecycleCancel \<Rightarrow> Some (cancelToolRequest (ld_cancellationID d) c2, FrameNothing)
           | LifecycleToolsCall \<Rightarrow> admitToolCall acquired d c2
           | LifecycleInitialize \<Rightarrow>
               (case encodeLifecycleDecision toolsList d of
                  Inl _ \<Rightarrow> Some (c2, FrameFailed)
                | Inr out \<Rightarrow> Some (c2, FrameWrite out False))
           | _ \<Rightarrow> Some (c2, FrameProtocol d))"
      proof -
        have k: "in_kind m \<noteq> InboundParseError" "in_kind m \<noteq> InboundInvalidRequest" "in_kind m \<noteq> InboundResponse"
          using 3(2) by auto
        show ?thesis
          using 3(1) k False d
          by (cases "ld_action d"; cases "encodeLifecycleDecision toolsList d") (simp_all add: handleFrame_def Let_def m_def [symmetric] a(1) [unfolded req_def] c2_def)
      qed
      show ?thesis
      proof (cases "ld_action d")
        case LifecycleToolsCall
        have "req \<and> ld_requestID d = in_requestID m"
          using tools_call_is_request [OF d LifecycleToolsCall] by (simp add: req_def)
        moreover from this have "adm_kind adm = RequestIDAccepted" using False a(6) by (cases "adm_kind adm") auto
        ultimately show ?thesis
          using step LifecycleToolsCall admitToolCall_ok [of l c2 digest used "semanticKey (in_requestID m)" d acquired]
            a(2,4) u(2,3) h key by (simp add: c2_def heap_ok_def)
      next
        case LifecycleCancel
        have "connection_ok digest l (cancelToolRequest (ld_cancellationID d) c2)"
        proof (cases "cn_toolRequests c2 (ld_cancellationID d)")
          case (Some i)
          then have "i < length (cn_heap c2)" using c2 by (simp add: connection_ok_def heap_ok_def)
          then show ?thesis using Some connection_ok_cancel_live [OF c2] by (simp add: cancelToolRequest_def)
        qed (simp add: cancelToolRequest_def c2)
        then show ?thesis using step LifecycleCancel by simp
      qed (use step c2 in \<open>simp split: sum.splits\<close>)+
    qed
  qed
qed

lemma connection_ok_work:
  assumes "connection_ok digest l c" "session_step (cn_work c) s'"
    "map idKey (store (coord s')) = map idKey (store (coord (cn_work c)))"
  shows "connection_ok digest l (c\<lparr>cn_work := s'\<rparr>)"
proof -
  have "length (store (coord s')) = length (store (coord (cn_work c)))" using assms(3) by (rule map_eq_imp_length_eq)
  moreover have "idKey ` set (store (coord s')) = idKey ` set (store (coord (cn_work c)))"
    using assms(3) by (metis set_map)
  moreover have "session_reachable l s'"
    using assms(1,2) by (auto simp: connection_ok_def intro: session_next)
  ultimately show ?thesis using assms(1) unfolding connection_ok_def heap_ok_def by simp
qed

lemma connection_reachable_ok: "connection_reachable digest l c \<Longrightarrow> connection_ok digest l c"
proof (induction rule: connection_reachable.induct)
  case (connection_start queueTimeout version c)
  then show ?case by (rule newConnection_ok)
next
  case (connection_next c c')
  from connection_next(2) show ?case
  proof cases
    case (Frame toolsList acquired frame eff)
    then show ?thesis using handleFrame_ok [OF connection_next(3), of toolsList False acquired frame] by auto
  next
    case (Work s')
    then show ?thesis using connection_ok_work [OF connection_next(3)] by simp
  next
    case (Claim i op)
    then show ?thesis using connection_ok_heap [OF connection_next(3)] request_op_same by simp
  next
    case (Remove i)
    then show ?thesis using connection_ok_remove [OF connection_next(3)] by simp
  next
    case (CancelLive i)
    then show ?thesis using connection_ok_cancel_live [OF connection_next(3)] by simp
  qed
qed

section \<open>Properties\<close>

text \<open>C37. No frame can make the connection panic.  In every state that frames, coordinator steps, worker
  claims, cancellations and removals can reach, whatever the digest of the used-id registry, the next frame
  of any bytes is handled: the registry never divides by zero, the coordinator never sees a live key again
  and \<open>registerToolRequest\<close> never finds a duplicate.  The coordinator inside the connection only moves
  through its own reachable states, so its bounds hold here, and the map of live requests is consistent.\<close>

theorem connection_never_panics:
  assumes "connection_reachable digest l c"
  shows "(\<exists>c' eff. handleFrame digest toolsList fatal acquired frame c = Some (c', eff)) \<and>
    session_reachable l (cn_work c) \<and>
    (\<forall>k i. cn_toolRequests c k = Some i \<longrightarrow> i < length (cn_heap c) \<and> semanticKey (tr_id (cn_heap c ! i)) = k)"
proof -
  have ok: "connection_ok digest l c" using assms by (rule connection_reachable_ok)
  then have "heap_ok c" "session_reachable l (cn_work c)" by (simp_all add: connection_ok_def)
  then show ?thesis using handleFrame_ok [OF ok, of toolsList fatal acquired frame] unfolding heap_ok_def by blast
qed

lemma connection_never_panics_witness:
  "\<exists>c :: nat connection. newConnection demo_limits 1 [] = Some c \<and>
    (\<exists>c' eff. handleFrame (\<lambda>_. []) None False True ping_frame c = Some (c', eff))"
proof -
  obtain c :: "nat connection" where c: "newConnection demo_limits 1 [] = Some c"
    by (auto simp: newConnection_def toolOutputCapacity_def newCoordinator_def demo_limits_def)
  show ?thesis using c connection_never_panics [OF connection_start [OF c], of "\<lambda>_. []" None False True ping_frame]
    by blast
qed

lemma responding_stays: "tr_responding r \<Longrightarrow> \<not> request_run ops r ! n \<or> length ops \<le> n"
proof (induction ops arbitrary: r n)
  case (Cons op ops)
  then show ?case
    by (cases op; cases n)
      (auto simp: request_cancel_def claimResponse_def claimTimeoutResponse_def)
qed simp

lemma cancelled_run:
  "tr_cancelled r \<Longrightarrow> n < length ops \<Longrightarrow> request_run ops r ! n \<Longrightarrow> ops ! n = OpClaimTimeout"
proof (induction ops arbitrary: r n)
  case (Cons op ops)
  show ?case
  proof (cases n)
    case 0
    then show ?thesis using Cons.prems
      by (cases op) (auto simp: request_cancel_def claimResponse_def split: if_splits)
  next
    case (Suc k)
    obtain r' ok where r: "request_op_step op r = (r', ok)" by force
    then have "tr_cancelled r'" using Cons.prems(1)
      by (cases op) (auto simp: request_cancel_def claimResponse_def claimTimeoutResponse_def split: if_splits)
    then show ?thesis using Cons Suc r by auto
  qed
qed simp

text \<open>C38. One answer per tool call.  Over any sequence of cancellations and response claims on a request, two
  of them both succeed only as a cancellation followed by the claim of the queue timeout's response: no
  request is answered twice, none is cancelled twice, and a cancelled call never sends its result.\<close>

theorem one_response_per_request:
  assumes "a < b" "b < length ops" "request_run ops (newToolRequest i call reservation) ! a"
    "request_run ops (newToolRequest i call reservation) ! b"
  shows "ops ! a = OpCancel \<and> ops ! b = OpClaimTimeout"
proof -
  have gen: "a < b \<Longrightarrow> b < length ops \<Longrightarrow> \<not> tr_responding r \<Longrightarrow> request_run ops r ! a \<Longrightarrow> request_run ops r ! b \<Longrightarrow>
      ops ! a = OpCancel \<and> ops ! b = OpClaimTimeout" for r
  proof (induction ops arbitrary: r a b)
    case (Cons op ops)
    obtain r' ok where r: "request_op_step op r = (r', ok)" by force
    obtain b' where b: "b = Suc b'" using Cons.prems(1) by (cases b) auto
    have rb: "request_run ops r' ! b'" "b' < length ops" using Cons.prems(2,5) r b by simp_all
    then have nr: "\<not> tr_responding r'" using responding_stays [of r' ops b'] by auto
    show ?case
    proof (cases a)
      case (Suc a')
      then show ?thesis using Cons.IH [OF _ rb(2) nr _ rb(1), of a'] Cons.prems r b by simp
    next
      case 0
      then have "op = OpCancel \<and> tr_cancelled r'" using Cons.prems(4) r nr
        by (cases op) (auto simp: request_cancel_def claimResponse_def claimTimeoutResponse_def split: if_splits)
      then show ?thesis using 0 b cancelled_run [OF _ rb(2,1)] by simp
    qed
  qed simp
  show ?thesis by (rule gen [OF assms(1,2) _ assms(3,4)]) (simp add: newToolRequest_def)
qed

lemma one_response_per_request_witness:
  "request_run [OpCancel, OpClaim, OpClaimTimeout] (newToolRequest zeroRequestID None 0) = [True, False, True] \<and>
    [OpCancel, OpClaim, OpClaimTimeout] ! 2 = OpClaimTimeout"
  using one_response_per_request [of 0 2 "[OpCancel, OpClaim, OpClaimTimeout]" zeroRequestID None 0]
  by (simp add: request_cancel_def claimResponse_def claimTimeoutResponse_def newToolRequest_def)



end
