(* ===== verification/Config.thy ===== *)
theory Config
  imports JsonViews CursorAccounting
begin

text \<open>
  The closed startup configuration (\<open>src/internal/config/runtime.go\<close>): the defaults, the table of numeric
  settings with their ranges, and the checks between settings.  The environment is a parameter, a lookup
  function.  A \<open>time.Duration\<close> is its number of nanoseconds, an \<open>int\<close>.
\<close>

section \<open>The runtime configuration\<close>

record Runtime =
  CWDTTL :: int
  CWDMaxEntries :: uint64
  CursorTTL :: int
  CursorMaxEntries :: uint64
  CursorMaxEntryBytes :: uint64
  CursorMaxTotalBytes :: uint64
  CursorMaxPages :: uint64
  CallMaxConcurrent :: uint64
  CallQueueMax :: uint64
  CallQueueTimeout :: int
  ScanMaxFiles :: uint64
  ScanMaxDirs :: uint64
  ScanMaxBytes :: uint64
  ScanTimeout :: int
  ScanMaxCalls :: uint64
  ScanFrontierMaxBytes :: uint64
  ParseMaxBytes :: uint64
  ParseMaxCalls :: uint64
  ParserCacheMaxEntries :: uint64
  ParserCacheMaxBytes :: uint64
  IgnoreDirsAdd :: "bytes list"

definition Second :: int where "Second = 1000000000"
definition Millisecond :: int where "Millisecond = 1000000"

definition CursorHandoffGrace :: int where "CursorHandoffGrace = 60 * Second"

definition OutputMaxBytes :: uint64 where "OutputMaxBytes = 32768"
definition ReadOutputMaxBytes :: uint64 where "ReadOutputMaxBytes = 1048576"
definition WarningSummaryLineMaxBytes :: uint64 where "WarningSummaryLineMaxBytes = 128"
definition WarningSummaryMaxBytes :: uint64 where "WarningSummaryMaxBytes = 1536"
definition WarningExamplesPerCode :: uint64 where "WarningExamplesPerCode = 1"
definition RangeReadChunkMaxBytes :: uint64 where "RangeReadChunkMaxBytes = 4096"
definition ReadMaxItems :: uint64 where "ReadMaxItems = 24"

definition DefaultRuntime :: Runtime where
  "DefaultRuntime =
    \<lparr>CWDTTL = 604800 * Second, CWDMaxEntries = 256, CursorTTL = 1800 * Second, CursorMaxEntries = 1024,
     CursorMaxEntryBytes = 8388608, CursorMaxTotalBytes = 67108864, CursorMaxPages = 256,
     CallMaxConcurrent = 8, CallQueueMax = 64, CallQueueTimeout = 5000 * Millisecond,
     ScanMaxFiles = 100000, ScanMaxDirs = 100000, ScanMaxBytes = 536870912, ScanTimeout = 30000 * Millisecond,
     ScanMaxCalls = 4, ScanFrontierMaxBytes = 8388608, ParseMaxBytes = 8388608, ParseMaxCalls = 2,
     ParserCacheMaxEntries = 1024, ParserCacheMaxBytes = 67108864, IgnoreDirsAdd = []\<rparr>"

section \<open>Reading one setting\<close>

definition parseRuntimeUint :: "bytes \<Rightarrow> uint64 \<Rightarrow> uint64 \<Rightarrow> uint64 option" where
  "parseRuntimeUint raw_value min_value max_value =
    (if raw_value = [] then None
     else if raw_value ! 0 = CHR ''0'' \<and> length raw_value \<noteq> 1 then None
     else if raw_value ! 0 \<noteq> CHR ''0'' \<and>
       (byte_val (raw_value ! 0) < byte_val (CHR ''1'') \<or> byte_val (CHR ''9'') < byte_val (raw_value ! 0)) then None
     else if \<not> digits (tl raw_value) then None
     else case parseUint raw_value of
       None \<Rightarrow> None
     | Some v \<Rightarrow> if v < min_value \<or> v > max_value then None else Some v)"

definition maxDuration :: int where "maxDuration = 2 ^ 63 - 1"

definition durationFromUnits :: "uint64 \<Rightarrow> int \<Rightarrow> int option" where
  "durationFromUnits v unit_len =
    (if uint v > maxDuration div unit_len then None else Some (uint v * unit_len))"

record runtimeNumericSetting =
  st_name :: bytes
  st_min :: uint64
  st_max :: uint64
  st_assign :: "Runtime \<Rightarrow> uint64 \<Rightarrow> Runtime option"

abbreviation setting :: "bytes \<Rightarrow> uint64 \<Rightarrow> uint64 \<Rightarrow> (Runtime \<Rightarrow> uint64 \<Rightarrow> Runtime option) \<Rightarrow> runtimeNumericSetting" where
  "setting n lo hi f \<equiv> \<lparr>st_name = n, st_min = lo, st_max = hi, st_assign = f\<rparr>"

definition runtimeNumericSettings :: "runtimeNumericSetting list" where
  "runtimeNumericSettings =
    [setting ''MCP_CWD_TTL_SECONDS'' 3600 2592000
       (\<lambda>r v. map_option (\<lambda>d. r\<lparr>CWDTTL := d\<rparr>) (durationFromUnits v Second)),
     setting ''MCP_CWD_MAX_ENTRIES'' 1 4096 (\<lambda>r v. Some (r\<lparr>CWDMaxEntries := v\<rparr>)),
     setting ''MCP_CURSOR_TTL_SECONDS'' 60 86400
       (\<lambda>r v. map_option (\<lambda>d. r\<lparr>CursorTTL := d\<rparr>) (durationFromUnits v Second)),
     setting ''MCP_CURSOR_MAX_ENTRIES'' 16 4096 (\<lambda>r v. Some (r\<lparr>CursorMaxEntries := v\<rparr>)),
     setting ''MCP_CURSOR_MAX_ENTRY_BYTES'' 1048576 67108864 (\<lambda>r v. Some (r\<lparr>CursorMaxEntryBytes := v\<rparr>)),
     setting ''MCP_CURSOR_MAX_TOTAL_BYTES'' 8388608 536870912 (\<lambda>r v. Some (r\<lparr>CursorMaxTotalBytes := v\<rparr>)),
     setting ''MCP_CURSOR_MAX_PAGES'' 1 1024 (\<lambda>r v. Some (r\<lparr>CursorMaxPages := v\<rparr>)),
     setting ''MCP_CALL_MAX_CONCURRENT'' 1 64 (\<lambda>r v. Some (r\<lparr>CallMaxConcurrent := v\<rparr>)),
     setting ''MCP_CALL_QUEUE_MAX'' 0 1024 (\<lambda>r v. Some (r\<lparr>CallQueueMax := v\<rparr>)),
     setting ''MCP_CALL_QUEUE_TIMEOUT_MS'' 100 60000
       (\<lambda>r v. map_option (\<lambda>d. r\<lparr>CallQueueTimeout := d\<rparr>) (durationFromUnits v Millisecond)),
     setting ''MCP_SCAN_MAX_FILES'' 1000 1000000 (\<lambda>r v. Some (r\<lparr>ScanMaxFiles := v\<rparr>)),
     setting ''MCP_SCAN_MAX_DIRS'' 1000 1000000 (\<lambda>r v. Some (r\<lparr>ScanMaxDirs := v\<rparr>)),
     setting ''MCP_SCAN_MAX_BYTES'' 16777216 4294967296 (\<lambda>r v. Some (r\<lparr>ScanMaxBytes := v\<rparr>)),
     setting ''MCP_SCAN_TIMEOUT_MS'' 1000 300000
       (\<lambda>r v. map_option (\<lambda>d. r\<lparr>ScanTimeout := d\<rparr>) (durationFromUnits v Millisecond)),
     setting ''MCP_SCAN_MAX_CALLS'' 1 32 (\<lambda>r v. Some (r\<lparr>ScanMaxCalls := v\<rparr>)),
     setting ''MCP_SCAN_FRONTIER_MAX_BYTES'' 1048576 67108864 (\<lambda>r v. Some (r\<lparr>ScanFrontierMaxBytes := v\<rparr>)),
     setting ''MCP_PARSE_MAX_BYTES'' 1048576 33554432 (\<lambda>r v. Some (r\<lparr>ParseMaxBytes := v\<rparr>)),
     setting ''MCP_PARSE_MAX_CALLS'' 1 16 (\<lambda>r v. Some (r\<lparr>ParseMaxCalls := v\<rparr>)),
     setting ''MCP_PARSER_CACHE_MAX_ENTRIES'' 0 16384 (\<lambda>r v. Some (r\<lparr>ParserCacheMaxEntries := v\<rparr>)),
     setting ''MCP_PARSER_CACHE_MAX_BYTES'' 0 1073741824 (\<lambda>r v. Some (r\<lparr>ParserCacheMaxBytes := v\<rparr>))]"

section \<open>Checks between settings\<close>

definition validRuntime :: "Runtime \<Rightarrow> bool" where
  "validRuntime r \<longleftrightarrow>
    (if CursorMaxEntryBytes r > CursorMaxTotalBytes r then False
     else if ScanMaxCalls r > CallMaxConcurrent r \<or> ParseMaxCalls r > CallMaxConcurrent r then False
     else if ScanFrontierMaxBytes r > CursorMaxEntryBytes r \<or> ScanFrontierMaxBytes r > ScanMaxBytes r then False
     else if ParseMaxBytes r > ScanMaxBytes r then False
     else if CallQueueTimeout r > ScanTimeout r then False
     else if (ParserCacheMaxEntries r = 0) \<noteq> (ParserCacheMaxBytes r = 0) then False
     else True)"

fun check_ignore_dirs :: "bytes list \<Rightarrow> bytes set \<Rightarrow> bool" where
  "check_ignore_dirs [] seen = True"
| "check_ignore_dirs (name # names) seen =
    (if name = [] \<or> length name > 255 then False
     else if name = ''.'' \<or> name = ''..'' then False
     else if list_ex (\<lambda>c. c \<in> {CHR ''/'', CHR 0x5C, CHR 0x00}) name then False
     else if name \<in> seen then False
     else check_ignore_dirs names (insert name seen))"

definition validIgnoreDirsAdd :: "bytes list \<Rightarrow> bool" where
  "validIgnoreDirsAdd names = (if length names > 64 then False else check_ignore_dirs names {})"

text \<open>\<open>InvalidRuntimeError\<close> is the only error.\<close>

fun load_settings :: "(bytes \<Rightarrow> bytes option) \<Rightarrow> runtimeNumericSetting list \<Rightarrow> Runtime \<Rightarrow> Runtime option" where
  "load_settings env [] r = Some r"
| "load_settings env (s # ss) r =
    (case env (st_name s) of
       None \<Rightarrow> load_settings env ss r
     | Some raw_value \<Rightarrow>
         (case parseRuntimeUint raw_value (st_min s) (st_max s) of
            None \<Rightarrow> None
          | Some v \<Rightarrow>
              (case st_assign s r v of
                 None \<Rightarrow> None
               | Some r' \<Rightarrow> load_settings env ss r')))"

definition LoadRuntime :: "(bytes \<Rightarrow> bytes option) \<Rightarrow> Runtime option" where
  "LoadRuntime env =
    (case load_settings env runtimeNumericSettings DefaultRuntime of
       None \<Rightarrow> None
     | Some r \<Rightarrow>
         let r1 = (case env ''MCP_IGNORE_DIRS_ADD'' of
             None \<Rightarrow> Some r
           | Some raw_value \<Rightarrow>
               (case DecodeStringArray raw_value of
                  None \<Rightarrow> None
                | Some dirs \<Rightarrow> if validIgnoreDirsAdd dirs then Some (r\<lparr>IgnoreDirsAdd := dirs\<rparr>) else None)) in
         (case r1 of
            None \<Rightarrow> None
          | Some r2 \<Rightarrow> if validRuntime r2 then Some r2 else None))"

section \<open>What a loaded configuration guarantees\<close>

lemma digit_cases: "isDecimalDigit c \<longleftrightarrow> c = CHR ''0'' \<or>
    \<not> (byte_val c < byte_val (CHR ''1'') \<or> byte_val (CHR ''9'') < byte_val c)"
proof -
  have "c = CHR ''0'' \<longleftrightarrow> byte_val c = 48" using byte_val_0 by (metis byte_val_inj)
  moreover have "byte_val (CHR ''1'') = 49" by (simp add: byte_val_def)
  ultimately show ?thesis by (auto simp: isDecimalDigit_def byte_val_0 byte_val_9)
qed

lemma parseRuntimeUint_canonical:
  "parseRuntimeUint s lo hi =
    (if canonical s then case parseUint s of None \<Rightarrow> None | Some v \<Rightarrow> if v < lo \<or> v > hi then None else Some v
     else None)"
proof (cases s)
  case (Cons c cs)
  show ?thesis
  proof (cases "c = CHR ''0''")
    case True
    then show ?thesis by (cases cs) (simp_all add: Cons parseRuntimeUint_def canonical_def)
  next
    case False
    then show ?thesis by (simp add: Cons parseRuntimeUint_def canonical_def digit_cases)
  qed
qed (simp add: parseRuntimeUint_def canonical_def)

lemma parseRuntimeUint_Some:
  "parseRuntimeUint s lo hi = Some v \<longleftrightarrow> canonical s \<and> dec_val s = unat v \<and> lo \<le> v \<and> v \<le> hi"
proof -
  show ?thesis
  proof (cases "canonical s")
    case True
    then have p: "parseUint s = Some v \<longleftrightarrow> dec_val s = unat v" for v by (simp add: parseUint_Some canonical_def)
    show ?thesis
    proof (cases "parseUint s")
      case None
      then have "dec_val s \<noteq> unat v" using p [of v] by simp
      then show ?thesis using None True by (simp add: parseRuntimeUint_canonical)
    next
      case (Some w)
      then have "dec_val s = unat w" using p [of w] by simp
      then have "dec_val s = unat v \<longleftrightarrow> w = v" by (simp add: word_unat_eq_iff)
      then show ?thesis using Some True by (auto simp: parseRuntimeUint_canonical not_less)
    qed
  qed (simp add: parseRuntimeUint_canonical)
qed

text \<open>Every field of the configuration lies in the range of its setting.\<close>

definition in_ranges :: "Runtime \<Rightarrow> bool" where
  "in_ranges r \<longleftrightarrow>
    CWDTTL r \<in> {3600 * Second .. 2592000 * Second} \<and> CWDMaxEntries r \<in> {1 .. 4096} \<and>
    CursorTTL r \<in> {60 * Second .. 86400 * Second} \<and> CursorMaxEntries r \<in> {16 .. 4096} \<and>
    CursorMaxEntryBytes r \<in> {1048576 .. 67108864} \<and> CursorMaxTotalBytes r \<in> {8388608 .. 536870912} \<and>
    CursorMaxPages r \<in> {1 .. 1024} \<and> CallMaxConcurrent r \<in> {1 .. 64} \<and> CallQueueMax r \<in> {0 .. 1024} \<and>
    CallQueueTimeout r \<in> {100 * Millisecond .. 60000 * Millisecond} \<and>
    ScanMaxFiles r \<in> {1000 .. 1000000} \<and> ScanMaxDirs r \<in> {1000 .. 1000000} \<and>
    ScanMaxBytes r \<in> {16777216 .. 4294967296} \<and> ScanTimeout r \<in> {1000 * Millisecond .. 300000 * Millisecond} \<and>
    ScanMaxCalls r \<in> {1 .. 32} \<and> ScanFrontierMaxBytes r \<in> {1048576 .. 67108864} \<and>
    ParseMaxBytes r \<in> {1048576 .. 33554432} \<and> ParseMaxCalls r \<in> {1 .. 16} \<and>
    ParserCacheMaxEntries r \<in> {0 .. 16384} \<and> ParserCacheMaxBytes r \<in> {0 .. 1073741824}"

definition setting_ok :: "runtimeNumericSetting \<Rightarrow> bool" where
  "setting_ok s \<longleftrightarrow> (\<forall>r v r'. in_ranges r \<longrightarrow> st_min s \<le> v \<longrightarrow> v \<le> st_max s \<longrightarrow> st_assign s r v = Some r' \<longrightarrow>
    in_ranges r')"

lemma load_settings_ranges:
  "list_all setting_ok ss \<Longrightarrow> in_ranges r \<Longrightarrow> load_settings env ss r = Some r' \<Longrightarrow> in_ranges r'"
proof (induction ss arbitrary: r)
  case (Cons s ss)
  show ?case
  proof (cases "env (st_name s)")
    case None
    then show ?thesis using Cons by simp
  next
    case (Some raw_value)
    then obtain v r1 where v: "parseRuntimeUint raw_value (st_min s) (st_max s) = Some v" "st_assign s r v = Some r1"
      "load_settings env ss r1 = Some r'"
      using Cons.prems(3) by (auto split: option.splits)
    then have "in_ranges r1" using Cons.prems(1,2) unfolding parseRuntimeUint_Some by (auto simp: setting_ok_def)
    then show ?thesis using Cons.IH [of r1] Cons.prems(1) v(3) by simp
  qed
qed simp

lemma default_in_ranges: "in_ranges DefaultRuntime"
  by (simp add: in_ranges_def DefaultRuntime_def Second_def Millisecond_def)

lemma durationFromUnits_range:
  assumes "durationFromUnits v u = Some d" "lo \<le> v" "v \<le> hi" "0 \<le> u"
  shows "uint lo * u \<le> d \<and> d \<le> uint hi * u"
proof -
  have "uint lo \<le> uint v" "uint v \<le> uint hi" using assms(2,3) by (simp_all add: word_le_def)
  then show ?thesis using assms(1,4) by (auto simp: durationFromUnits_def mult_right_mono split: if_splits)
qed

lemma plain_setting:
  "(\<And>r v. in_ranges r \<Longrightarrow> lo \<le> v \<Longrightarrow> v \<le> hi \<Longrightarrow> in_ranges (f v r)) \<Longrightarrow>
    setting_ok (setting n lo hi (\<lambda>r v. Some (f v r)))"
  by (simp add: setting_ok_def)

lemma duration_setting:
  assumes "0 \<le> u" "a = uint lo * u" "b = uint hi * u"
    "\<And>r d. in_ranges r \<Longrightarrow> a \<le> d \<Longrightarrow> d \<le> b \<Longrightarrow> in_ranges (f d r)"
  shows "setting_ok (setting n lo hi (\<lambda>r v. map_option (\<lambda>d. f d r) (durationFromUnits v u)))"
  using assms durationFromUnits_range by (fastforce simp: setting_ok_def)

lemma settings_ok: "list_all setting_ok runtimeNumericSettings"
  unfolding runtimeNumericSettings_def list.pred_inject
  by (intro conjI TrueI plain_setting duration_setting [OF _ refl refl])
    (simp_all add: in_ranges_def Second_def Millisecond_def)

text \<open>C40. Starting up is safe.  A configuration that loads has every setting in its range, each given
  setting is a canonical decimal within the range of its row, the settings are consistent with each other, the
  extra ignored directories are at most 64 distinct single path components, and the cursor registry of that size
  fits its byte budget.\<close>

theorem LoadRuntime_sound:
  assumes "LoadRuntime env = Some r"
  shows "in_ranges r \<and> validRuntime r \<and> length (IgnoreDirsAdd r) \<le> 64 \<and> distinct (IgnoreDirsAdd r) \<and>
    (\<forall>d \<in> set (IgnoreDirsAdd r). d \<notin> {[], ''.'', ''..''} \<and> length d \<le> 255 \<and> CHR ''/'' \<notin> set d \<and> CHR 0x5C \<notin> set d \<and>
      CHR 0x00 \<notin> set d) \<and>
    (\<forall>s \<in> set runtimeNumericSettings. \<forall>given. env (st_name s) = Some given \<longrightarrow>
      canonical given \<and> unat (st_min s) \<le> dec_val given \<and> dec_val given \<le> unat (st_max s)) \<and>
    (\<exists>l. ContainerLayout (CursorMaxEntries r) = Inr l \<and> Total l \<le> CursorMaxTotalBytes r)"
proof (intro conjI)
  obtain r0 where r0: "load_settings env runtimeNumericSettings DefaultRuntime = Some r0"
    and r: "r = r0 \<or> (\<exists>dirs. r = r0\<lparr>IgnoreDirsAdd := dirs\<rparr> \<and> validIgnoreDirsAdd dirs)" and v: "validRuntime r"
    using assms by (auto simp: LoadRuntime_def Let_def split: option.splits if_splits)
  have "in_ranges r0" using load_settings_ranges [OF settings_ok default_in_ranges r0] .
  then show ir: "in_ranges r" using r by (auto simp: in_ranges_def)
  show "validRuntime r" by (rule v)
  have ign0: "IgnoreDirsAdd r0 = []"
  proof -
    have keeps: "load_settings env ss a = Some b \<Longrightarrow>
        list_all (\<lambda>s. \<forall>r v r'. st_assign s r v = Some r' \<longrightarrow> IgnoreDirsAdd r' = IgnoreDirsAdd r) ss \<Longrightarrow>
        IgnoreDirsAdd b = IgnoreDirsAdd a" for ss a b
      by (induction ss arbitrary: a) (fastforce split: option.splits)+
    have "list_all (\<lambda>s. \<forall>r v r'. st_assign s r v = Some r' \<longrightarrow> IgnoreDirsAdd r' = IgnoreDirsAdd r) runtimeNumericSettings"
      by (auto simp: runtimeNumericSettings_def)
    from keeps [OF r0 this] show ?thesis by (simp add: DefaultRuntime_def)
  qed
  have ok: "check_ignore_dirs ds seen \<Longrightarrow> distinct ds \<and> set ds \<inter> seen = {} \<and>
      (\<forall>d \<in> set ds. d \<notin> {[], ''.'', ''..''} \<and> length d \<le> 255 \<and> CHR ''/'' \<notin> set d \<and> CHR 0x5C \<notin> set d \<and> CHR 0x00 \<notin> set d)"
    for ds seen
    by (induction ds arbitrary: seen) (auto simp: list_ex_iff split: if_splits)
  have dirs: "validIgnoreDirsAdd (IgnoreDirsAdd r)" using r ign0 by (auto simp: validIgnoreDirsAdd_def)
  then show "length (IgnoreDirsAdd r) \<le> 64" "distinct (IgnoreDirsAdd r)"
    "\<forall>d \<in> set (IgnoreDirsAdd r). d \<notin> {[], ''.'', ''..''} \<and> length d \<le> 255 \<and> CHR ''/'' \<notin> set d \<and> CHR 0x5C \<notin> set d \<and>
      CHR 0x00 \<notin> set d"
    using ok [of "IgnoreDirsAdd r" "{}"] by (auto simp: validIgnoreDirsAdd_def split: if_splits)
  show "\<forall>s \<in> set runtimeNumericSettings. \<forall>given. env (st_name s) = Some given \<longrightarrow>
      canonical given \<and> unat (st_min s) \<le> dec_val given \<and> dec_val given \<le> unat (st_max s)"
  proof -
    have "load_settings env ss a = Some b \<Longrightarrow> s \<in> set ss \<Longrightarrow> env (st_name s) = Some given \<Longrightarrow>
        \<exists>v. parseRuntimeUint given (st_min s) (st_max s) = Some v" for ss a b s given
      by (induction ss arbitrary: a) (auto split: option.splits)
    from this [OF r0] show ?thesis unfolding parseRuntimeUint_Some by (metis word_le_nat_alt)
  qed
  have m: "16 \<le> CursorMaxEntries r" "CursorMaxEntries r \<le> 4096" "8388608 \<le> CursorMaxTotalBytes r"
    using ir by (simp_all add: in_ranges_def)
  then have m': "16 \<le> unat (CursorMaxEntries r)" "unat (CursorMaxEntries r) \<le> 4096" "8388608 \<le> unat (CursorMaxTotalBytes r)"
    by (simp_all add: word_le_nat_alt)
  then obtain l where l: "ContainerLayout (CursorMaxEntries r) = Inr l"
    using container_layout_exists [of "CursorMaxEntries r"] by auto
  then have "unat (Total l) \<le> 42 * (4 * 4096) + 215 * 4096 + 1448"
    using container_layout [OF l] m' by auto
  then have "Total l \<le> CursorMaxTotalBytes r" using m'(3) by (simp add: word_le_nat_alt)
  then show "\<exists>l. ContainerLayout (CursorMaxEntries r) = Inr l \<and> Total l \<le> CursorMaxTotalBytes r" using l by blast
qed

lemma LoadRuntime_sound_witness:
  "\<exists>r. LoadRuntime (\<lambda>name. if name = ''MCP_CALL_QUEUE_MAX'' then Some ''0'' else None) = Some r \<and> in_ranges r \<and> CallQueueMax r = 0"
proof -
  let ?env = "\<lambda>name :: bytes. if name = ''MCP_CALL_QUEUE_MAX'' then Some ''0'' else None"
  have p: "parseRuntimeUint ''0'' 0 1024 = Some 0"
    unfolding parseRuntimeUint_Some by (simp add: canonical_def)
  have "\<exists>r. LoadRuntime ?env = Some r \<and> CallQueueMax r = 0"
    by (simp add: LoadRuntime_def runtimeNumericSettings_def p DefaultRuntime_def validRuntime_def Second_def Millisecond_def)
  then show ?thesis using LoadRuntime_sound [of ?env] by blast
qed

end
