(* ===== verification/CursorRegistry.thy ===== *)
theory CursorRegistry
  imports CursorAccounting Config Api
begin

text \<open>
  The cursor registry of one connection (\<open>src/internal/cursor/registry.go\<close> and \<open>types.go\<close>): the token and
  lineage indexes, the arenas, the list of lineages in order of use, the byte and slot accounting, admission
  with eviction, removal of a lineage and closing.  The keyed MAC, the random tokens and the clock are
  parameters; a method of the registry, which runs under its mutex, is one function.  A state is given by
  what the registry asks of it; a root is a number and closing it is recorded.  A panic is \<open>None\<close>.
\<close>

section \<open>Data\<close>

definition entryKindResident :: uint8 where "entryKindResident = 1"
definition entryKindTombstone :: uint8 where "entryKindTombstone = 2"
definition lineagePhaseMask :: uint16 where "lineagePhaseMask = 3"
definition lineagePhaseProvisional :: uint16 where "lineagePhaseProvisional = 1"
definition lineagePhasePublishing :: uint16 where "lineagePhasePublishing = 2"
definition lineagePhasePublished :: uint16 where "lineagePhasePublished = 3"
definition lineageRollbackPending :: uint16 where "lineageRollbackPending = 4"

lemmas phase_defs = lineagePhaseMask_def lineagePhaseProvisional_def lineagePhasePublishing_def
  lineagePhasePublished_def lineageRollbackPending_def

abbreviation ErrorInvalidInput :: ErrorCode where "ErrorInvalidInput \<equiv> ''invalid_input''"
abbreviation ErrorCursorExpired :: ErrorCode where "ErrorCursorExpired \<equiv> ''cursor_expired''"
abbreviation ErrorCursorWrongTool :: ErrorCode where "ErrorCursorWrongTool \<equiv> ''cursor_wrong_tool''"
abbreviation ErrorCursorWrongCWD :: ErrorCode where "ErrorCursorWrongCWD \<equiv> ''cursor_wrong_cwd''"
abbreviation ErrorBudgetExceeded :: ErrorCode where "ErrorBudgetExceeded \<equiv> ''budget_exceeded''"
abbreviation ErrorIOError :: ErrorCode where "ErrorIOError \<equiv> ''io_error''"

text \<open>\<open>registryError\<close>, \<open>errRegistryInvariant\<close> and an error of the work lease.\<close>

datatype registry_error = Coded ErrorCode | RegistryInvariantFailed | LeaseError

definition CodeOf :: "registry_error \<Rightarrow> ErrorCode" where
  "CodeOf err = (case err of Coded code \<Rightarrow> code | _ \<Rightarrow> ErrorIOError)"

text \<open>What the \<open>State\<close> and \<open>SharedAllocation\<close> interfaces tell.\<close>

record page_state =
  ps_tool :: ToolName
  ps_cwdID :: uint64
  ps_digest :: bytes
  ps_shared :: "bytes option"
  ps_footprint :: uint64

record shared_alloc =
  sa_digest :: bytes
  sa_footprint :: uint64

datatype ReservationKind = NoReservationKind | ReadPagePlan | BroadSummaryFinal

record ReservationUse =
  ru_Kind :: ReservationKind
  ru_Slots :: uint64
  ru_Bytes :: uint64
  ru_MustTerminalize :: bool

record ReadPageReservation =
  rp_Pages :: uint32
  rp_Slots :: uint64
  rp_Bytes :: uint64

text \<open>A running continuation, as far as the registry changes it; \<open>co_waiters\<close> are the attached waiters in
  order.\<close>

record computation =
  co_entry :: EntryRef
  co_lineage :: lineageRef
  co_deadlineCode :: ErrorCode
  co_starter :: nat
  co_waiters :: "nat list"
  co_noCommit :: bool
  co_finished :: bool
  co_tombstoned :: bool
  co_cancelled :: bool
  co_work :: bool
  co_root :: "nat option"

type_synonym entry_arena = "(page_state, Result, nat) entryArena"
type_synonym lineage_arena = "(nat, shared_alloc) lineageArena"

text \<open>\<open>rg_comps\<close> is the heap of computations, \<open>rg_closedRoots\<close> the roots closed so far.\<close>

record registry =
  rg_cfg :: Runtime
  rg_tokens :: tokenIndex
  rg_ids :: lineageIndex
  rg_entries :: entry_arena
  rg_lineages :: lineage_arena
  rg_layout :: Layout
  rg_base :: uint64
  rg_used :: uint64
  rg_total :: uint64
  rg_closed :: bool
  rg_nextID :: uint64
  rg_comps :: "computation list"
  rg_closedRoots :: "nat list"

text \<open>The keyed digests: of a token, of a lineage id, and the child token of a token and a state digest.\<close>

record keyed =
  km_token :: "token \<Rightarrow> uint64"
  km_lineage :: "uint64 \<Rightarrow> uint64"
  km_child :: "token \<Rightarrow> bytes \<Rightarrow> token"

abbreviation erow :: "registry \<Rightarrow> arenaRef \<Rightarrow> (page_state, Result, nat) entry_row" where
  "erow g i \<equiv> e_rows (rg_entries g) ! unat i"

abbreviation lrow :: "registry \<Rightarrow> arenaRef \<Rightarrow> (nat, shared_alloc) lineage_row" where
  "lrow g i \<equiv> l_rows (rg_lineages g) ! unat i"

definition upd_erow ::
  "arenaRef \<Rightarrow> ((page_state, Result, nat) entry_row \<Rightarrow> (page_state, Result, nat) entry_row) \<Rightarrow> registry \<Rightarrow> registry" where
  "upd_erow i f g = g\<lparr>rg_entries := (rg_entries g)\<lparr>e_rows := (e_rows (rg_entries g))[unat i := f (erow g i)]\<rparr>\<rparr>"

definition upd_lrow ::
  "arenaRef \<Rightarrow> ((nat, shared_alloc) lineage_row \<Rightarrow> (nat, shared_alloc) lineage_row) \<Rightarrow> registry \<Rightarrow> registry" where
  "upd_lrow i f g = g\<lparr>rg_lineages := (rg_lineages g)\<lparr>l_rows := (l_rows (rg_lineages g))[unat i := f (lrow g i)]\<rparr>\<rparr>"

definition lineage_ref :: "registry \<Rightarrow> arenaRef \<Rightarrow> lineageRef" where
  "lineage_ref g i = \<lparr>ref_index = i, ref_generation = l_generation (lrow g i)\<rparr>"

definition entry_ref :: "registry \<Rightarrow> arenaRef \<Rightarrow> EntryRef" where
  "entry_ref g i = \<lparr>ref_index = i, ref_generation = e_generation (erow g i)\<rparr>"

section \<open>Construction\<close>

definition registry_initialize :: "Runtime \<Rightarrow> registry_error + registry" where
  "registry_initialize cfg =
    (if CursorMaxEntries cfg = 0 \<or> CursorTTL cfg \<le> 0 \<or> CursorMaxEntryBytes cfg = 0 \<or> CursorMaxTotalBytes cfg = 0 \<or>
       CursorMaxPages cfg = 0 \<or> CursorMaxEntryBytes cfg > CursorMaxTotalBytes cfg
     then Inl (Coded ErrorInvalidInput)
     else case ContainerLayout (CursorMaxEntries cfg) of
       Inl _ \<Rightarrow> Inl (Coded ErrorInvalidInput)
     | Inr layout \<Rightarrow>
       if Total layout > CursorMaxTotalBytes cfg then Inl (Coded ErrorBudgetExceeded)
       else case (new_index (IndexSlots layout), new_index (IndexSlots layout),
           newEntryArena (MaxEntries layout), newLineageArena (MaxEntries layout)) of
         (Inr tokens, Inr ids, Inr ents, Inr lins) \<Rightarrow>
           Inr \<lparr>rg_cfg = cfg\<lparr>IgnoreDirsAdd := []\<rparr>, rg_tokens = tokens, rg_ids = ids, rg_entries = ents,
                rg_lineages = lins, rg_layout = layout, rg_base = Total layout, rg_used = 0,
                rg_total = Total layout, rg_closed = False, rg_nextID = 0, rg_comps = [], rg_closedRoots = []\<rparr>
       | _ \<Rightarrow> Inl (Coded ErrorInvalidInput))"

section \<open>Order of use\<close>

definition lruAttachFront :: "arenaRef \<Rightarrow> lineage_arena \<Rightarrow> lineage_arena" where
  "lruAttachFront i a =
    (let head = l_lruHead a;
         a1 = a\<lparr>l_rows := (l_rows a)[unat i := (l_rows a ! unat i)\<lparr>l_lruPrev := noRef, l_lruNext := head\<rparr>]\<rparr>;
         a2 = (if head \<noteq> noRef
               then a1\<lparr>l_rows := (l_rows a1)[unat head := (l_rows a1 ! unat head)\<lparr>l_lruPrev := i\<rparr>]\<rparr>
               else a1\<lparr>l_lruTail := i\<rparr>) in
     a2\<lparr>l_lruHead := i\<rparr>)"

definition lruDetach :: "arenaRef \<Rightarrow> lineage_arena \<Rightarrow> lineage_arena" where
  "lruDetach i a =
    (let previous = l_lruPrev (l_rows a ! unat i); following = l_lruNext (l_rows a ! unat i);
         a1 = (if previous \<noteq> noRef
               then a\<lparr>l_rows := (l_rows a)[unat previous := (l_rows a ! unat previous)\<lparr>l_lruNext := following\<rparr>]\<rparr>
               else a\<lparr>l_lruHead := following\<rparr>);
         a2 = (if following \<noteq> noRef
               then a1\<lparr>l_rows := (l_rows a1)[unat following := (l_rows a1 ! unat following)\<lparr>l_lruPrev := previous\<rparr>]\<rparr>
               else a1\<lparr>l_lruTail := previous\<rparr>) in
     a2\<lparr>l_rows := (l_rows a2)[unat i := (l_rows a2 ! unat i)\<lparr>l_lruPrev := noRef, l_lruNext := noRef\<rparr>]\<rparr>)"

definition lruTouch :: "arenaRef \<Rightarrow> lineage_arena \<Rightarrow> lineage_arena" where
  "lruTouch i a = (if l_lruHead a = i then a else lruAttachFront i (lruDetach i a))"

definition upd_lineages :: "(lineage_arena \<Rightarrow> lineage_arena) \<Rightarrow> registry \<Rightarrow> registry" where
  "upd_lineages f g = g\<lparr>rg_lineages := f (rg_lineages g)\<rparr>"

section \<open>Time\<close>

text \<open>\<open>time.Time.UnixNano\<close> and \<open>time.Duration\<close> are signed 64-bit.\<close>

definition addDuration :: "int64 \<Rightarrow> int \<Rightarrow> int64" where
  "addDuration nanos d =
    (if d > 0 \<and> sint nanos > (2 ^ 63 - 1) - d then of_int (2 ^ 63 - 1) else nanos + of_int d)"

definition lineage_expired :: "registry \<Rightarrow> arenaRef \<Rightarrow> int64 \<Rightarrow> bool" where
  "lineage_expired g i now =
    (if sint now \<ge> sint (l_commitDeadline (lrow g i)) then True
     else sint now \<ge> sint (l_workExpiresAt (lrow g i)) \<and> sint now \<ge> sint (l_protectedUntil (lrow g i)))"

section \<open>Budgets and eviction\<close>

definition fitsValues :: "registry \<Rightarrow> uint64 \<Rightarrow> uint64 \<Rightarrow> uint64 \<Rightarrow> uint64 \<Rightarrow> uint64 \<Rightarrow> uint64 \<Rightarrow> bool" where
  "fitsValues g usedSlots totalBytes tokenLive lineageLive deltaSlots deltaBytes =
    (let maxEntries = MaxEntries (rg_layout g); maxTotal = CursorMaxTotalBytes (rg_cfg g) in
     if deltaSlots > maxEntries \<or> usedSlots > maxEntries - deltaSlots then False
     else if deltaBytes > maxTotal \<or> totalBytes > maxTotal - deltaBytes then False
     else tokenLive < maxEntries \<and> lineageLive < maxEntries)"

definition fits :: "registry \<Rightarrow> uint64 \<Rightarrow> uint64 \<Rightarrow> bool" where
  "fits g deltaSlots deltaBytes =
    fitsValues g (rg_used g) (rg_total g) (ucast (live (rg_tokens g))) (ucast (live (rg_ids g))) deltaSlots deltaBytes"

definition evictable :: "registry \<Rightarrow> arenaRef \<Rightarrow> int64 \<Rightarrow> bool" where
  "evictable g i now \<longleftrightarrow>
    unat i < length (l_rows (rg_lineages g)) \<and> l_occupied (lrow g i) \<noteq> 0 \<and>
    and (l_flags (lrow g i)) lineagePhaseMask = lineagePhasePublished \<and> l_pins (lrow g i) = 0 \<and>
    sint now \<ge> sint (l_protectedUntil (lrow g i))"

text \<open>\<open>visited\<close> counts up to \<open>MaxEntries\<close>: here the number of steps left.\<close>

fun lru_tail_loop :: "registry \<Rightarrow> int64 \<Rightarrow> arenaRef \<Rightarrow> nat \<Rightarrow> arenaRef \<Rightarrow> arenaRef" where
  "lru_tail_loop g now exclude 0 current = noRef"
| "lru_tail_loop g now exclude (Suc n) current =
    (if current = noRef then noRef
     else if current \<noteq> exclude \<and> evictable g current now then current
     else lru_tail_loop g now exclude n (l_lruPrev (lrow g current)))"

definition eligibleLRUTail :: "registry \<Rightarrow> int64 \<Rightarrow> arenaRef \<Rightarrow> arenaRef" where
  "eligibleLRUTail g now exclude =
    lru_tail_loop g now exclude (unat (MaxEntries (rg_layout g))) (l_lruTail (rg_lineages g))"

fun can_admit_loop ::
  "registry \<Rightarrow> uint64 \<Rightarrow> uint64 \<Rightarrow> int64 \<Rightarrow> arenaRef \<Rightarrow> nat \<Rightarrow> arenaRef \<Rightarrow>
   uint64 \<Rightarrow> uint64 \<Rightarrow> uint64 \<Rightarrow> uint64 \<Rightarrow> bool" where
  "can_admit_loop g ds db now exclude 0 current used tot tokenLive lineageLive = False"
| "can_admit_loop g ds db now exclude (Suc n) current used tot tokenLive lineageLive =
    (if current = noRef then False
     else
       let row = lrow g current; previous = l_lruPrev row in
       if current \<noteq> exclude \<and> evictable g current now then
         (let entries_of = ucast (l_resident row) + ucast (l_tombstones row);
              reclaimed = entries_of + l_reservedSlots row in
          if reclaimed > used \<or> l_dynamicBytes row > tot \<or> lineageLive = 0 then False
          else
            let used' = used - reclaimed; tot' = tot - l_dynamicBytes row; lineageLive' = lineageLive - 1 in
            if entries_of > tokenLive then False
            else
              let tokenLive' = tokenLive - entries_of in
              if fitsValues g used' tot' tokenLive' lineageLive' ds db then True
              else can_admit_loop g ds db now exclude n previous used' tot' tokenLive' lineageLive')
       else can_admit_loop g ds db now exclude n previous used tot tokenLive lineageLive)"

definition canAdmitWithEviction :: "registry \<Rightarrow> uint64 \<Rightarrow> uint64 \<Rightarrow> int64 \<Rightarrow> arenaRef \<Rightarrow> bool" where
  "canAdmitWithEviction g ds db now exclude =
    (if fits g ds db then True
     else can_admit_loop g ds db now exclude (unat (MaxEntries (rg_layout g))) (l_lruTail (rg_lineages g))
       (rg_used g) (rg_total g) (ucast (live (rg_tokens g))) (ucast (live (rg_ids g))))"

section \<open>Removing a lineage\<close>

definition tokenForEntry :: "registry \<Rightarrow> arenaRef \<Rightarrow> (token \<times> uint32) option" where
  "tokenForEntry g entry =
    (case find (\<lambda>row. slot_state row \<noteq> 0 \<and> slot_ref row = entry) (slots (rg_tokens g)) of
       None \<Rightarrow> None
     | Some row \<Rightarrow> Some (slot_key row, slot_home row))"

definition cancel_computation :: "nat \<Rightarrow> registry \<Rightarrow> registry" where
  "cancel_computation c g =
    (if co_finished (rg_comps g ! c) then g
     else g\<lparr>rg_comps := (rg_comps g)[c := (rg_comps g ! c)\<lparr>co_noCommit := True, co_cancelled := True\<rparr>]\<rparr>)"

fun cancel_chain :: "nat \<Rightarrow> arenaRef \<Rightarrow> registry \<Rightarrow> registry" where
  "cancel_chain 0 entry g = g"
| "cancel_chain (Suc n) entry g =
    (if entry = noRef then g
     else cancel_chain n (e_successor (erow g entry))
       (case e_runtime (erow g entry) of None \<Rightarrow> g | Some c \<Rightarrow> cancel_computation c g))"

definition cancelLineageWork :: "arenaRef \<Rightarrow> registry \<Rightarrow> registry" where
  "cancelLineageWork i g = cancel_chain (unat (MaxEntries (rg_layout g))) (l_entryHead (lrow g i)) g"

text \<open>The loop over the entries of a lineage; the boolean is false when a release fails.\<close>

fun release_chain :: "nat \<Rightarrow> arenaRef \<Rightarrow> registry \<Rightarrow> registry \<times> bool" where
  "release_chain 0 entry g = (g, True)"
| "release_chain (Suc n) entry g =
    (if entry = noRef then (g, True)
     else
       let following = e_successor (erow g entry);
           g1 = (case tokenForEntry g entry of
               None \<Rightarrow> g
             | Some (t, home) \<Rightarrow>
                 (case index_delete (rg_tokens g) t home of None \<Rightarrow> g | Some ix \<Rightarrow> g\<lparr>rg_tokens := ix\<rparr>)) in
       case entry_release (rg_entries g1) (entry_ref g1 entry) of
         None \<Rightarrow> (g1, False)
       | Some ents \<Rightarrow> release_chain n following (g1\<lparr>rg_entries := ents\<rparr>))"

definition lineageHome :: "keyed \<Rightarrow> registry \<Rightarrow> uint64 \<Rightarrow> uint32" where
  "lineageHome K g lineageID = keyedHome (km_lineage K) (length (slots (rg_tokens g))) lineageID"

definition tokenHome :: "keyed \<Rightarrow> registry \<Rightarrow> token \<Rightarrow> uint32" where
  "tokenHome K g t = keyedHome (km_token K) (length (slots (rg_tokens g))) t"

text \<open>The zeroed storage after closing.\<close>

definition zeroRuntime :: Runtime where
  "zeroRuntime =
    \<lparr>CWDTTL = 0, CWDMaxEntries = 0, CursorTTL = 0, CursorMaxEntries = 0, CursorMaxEntryBytes = 0,
     CursorMaxTotalBytes = 0, CursorMaxPages = 0, CallMaxConcurrent = 0, CallQueueMax = 0, CallQueueTimeout = 0,
     ScanMaxFiles = 0, ScanMaxDirs = 0, ScanMaxBytes = 0, ScanTimeout = 0, ScanMaxCalls = 0,
     ScanFrontierMaxBytes = 0, ParseMaxBytes = 0, ParseMaxCalls = 0, ParserCacheMaxEntries = 0,
     ParserCacheMaxBytes = 0, IgnoreDirsAdd = []\<rparr>"

definition zeroLayout :: Layout where
  "zeroLayout = \<lparr>MaxEntries = 0, IndexSlots = 0, WordBytes = 0, TokenIndexBacking = 0, LineageIndexBacking = 0,
    EntryArenaBacking = 0, LineageArenaBacking = 0, SliceDescriptors = 0, ScalarBytes = 0, Total = 0\<rparr>"

definition releaseFixed :: "registry \<Rightarrow> registry" where
  "releaseFixed g =
    g\<lparr>rg_tokens := \<lparr>slots = [], live = 0\<rparr>, rg_ids := \<lparr>slots = [], live = 0\<rparr>,
      rg_entries := \<lparr>e_freeHead = noRef, e_rows = []\<rparr>,
      rg_lineages := \<lparr>l_freeHead = noRef, l_lruHead = noRef, l_lruTail = noRef, l_rows = []\<rparr>,
      rg_layout := zeroLayout, rg_base := 0, rg_used := 0, rg_total := 0, rg_cfg := zeroRuntime, rg_nextID := 0\<rparr>"

definition removeLineage :: "keyed \<Rightarrow> lineageRef \<Rightarrow> registry \<Rightarrow> registry \<times> bool" where
  "removeLineage K r g =
    (if \<not> lineage_valid (rg_lineages g) r then (g, False)
     else
       let i = ref_index r; row = lrow g i in
       if l_pins row \<noteq> 0 then (cancelLineageWork i (upd_lrow i (\<lambda>w. w\<lparr>l_flags := lineageRollbackPending\<rparr>) g), True)
       else
         let releasedSlots = ucast (l_resident row) + ucast (l_tombstones row) + l_reservedSlots row in
         if releasedSlots > rg_used g \<or> rg_total g < rg_base g \<or> l_dynamicBytes row > rg_total g - rg_base g
         then (g, False)
         else
           let g1 = upd_lineages (lruDetach i) g;
               (g2, ok) = release_chain (unat (MaxEntries (rg_layout g1))) (l_entryHead (lrow g1 i)) g1 in
           if \<not> ok then (g2, False)
           else
             let lineageID = l_id (lrow g2 i);
                 g3 = (case lineage_delete (rg_ids g2) lineageID (lineageHome K g2 lineageID) of
                     None \<Rightarrow> g2 | Some ix \<Rightarrow> g2\<lparr>rg_ids := ix\<rparr>);
                 g4 = g3\<lparr>rg_used := rg_used g3 - releasedSlots,
                         rg_total := rg_total g3 - l_dynamicBytes (lrow g3 i)\<rparr>;
                 root_of = l_root (lrow g4 i);
                 g5 = upd_lrow i (\<lambda>w. w\<lparr>l_root := None\<rparr>) g4 in
             case lineage_release (rg_lineages g5) r of
               None \<Rightarrow> (g5, False)
             | Some lins \<Rightarrow>
                 let g6 = g5\<lparr>rg_lineages := lins\<rparr>;
                     g7 = (case root_of of None \<Rightarrow> g6 | Some root_id \<Rightarrow> g6\<lparr>rg_closedRoots := rg_closedRoots g6 @ [root_id]\<rparr>) in
                 (if rg_closed g7 \<and> live (rg_ids g7) = 0 then releaseFixed g7 else g7, True))"

section \<open>Lookup\<close>

text \<open>The error code, or the entry reference and the index of its lineage.\<close>

definition resolve :: "keyed \<Rightarrow> token \<Rightarrow> int64 \<Rightarrow> registry \<Rightarrow> registry \<times> (ErrorCode + EntryRef \<times> arenaRef)" where
  "resolve K t now g =
    (if rg_closed g then (g, Inl ErrorCursorExpired)
     else case index_lookup (rg_tokens g) t (tokenHome K g t) of
       None \<Rightarrow> (g, Inl ErrorCursorExpired)
     | Some entry \<Rightarrow>
       if unat entry \<ge> length (e_rows (rg_entries g)) \<or> e_occupied (erow g entry) = 0
       then (g, Inl ErrorCursorExpired)
       else
         let i = e_lineage (erow g entry) in
         if unat i \<ge> length (l_rows (rg_lineages g)) \<or> l_occupied (lrow g i) = 0
         then (g, Inl ErrorCursorExpired)
         else
           let phase = and (l_flags (lrow g i)) lineagePhaseMask in
           if phase \<noteq> lineagePhasePublishing \<and> phase \<noteq> lineagePhasePublished
           then (g, Inl ErrorCursorExpired)
           else if lineage_expired g i now
           then (fst (removeLineage K (lineage_ref g i) g), Inl ErrorCursorExpired)
           else (g, Inr (entry_ref g entry, i)))"

definition lookup :: "keyed \<Rightarrow> token \<Rightarrow> int64 \<Rightarrow> registry \<Rightarrow> registry \<times> (ErrorCode + EntryRef)" where
  "lookup K t now g =
    (let (g1, res) = resolve K t now g in
     case res of
       Inl code \<Rightarrow> (g1, Inl code)
     | Inr (r, i) \<Rightarrow> (upd_lineages (lruTouch i) g1, Inr r))"

definition lookupScoped ::
  "keyed \<Rightarrow> token \<Rightarrow> ToolName \<Rightarrow> uint64 \<Rightarrow> int64 \<Rightarrow> registry \<Rightarrow> registry \<times> (ErrorCode + EntryRef)" where
  "lookupScoped K t tool cwdID now g =
    (let (g1, res) = resolve K t now g in
     case res of
       Inl code \<Rightarrow> (g1, Inl code)
     | Inr (r, i) \<Rightarrow>
         (case e_state (erow g1 (ref_index r)) of
            None \<Rightarrow> (g1, Inl ErrorCursorWrongTool)
          | Some st \<Rightarrow>
              if ps_tool st \<noteq> tool then (g1, Inl ErrorCursorWrongTool)
              else if ps_cwdID st \<noteq> cwdID then (g1, Inl ErrorCursorWrongCWD)
              else (upd_lineages (lruTouch i) g1, Inr r)))"

section \<open>Installing a lineage\<close>

record initialRequest =
  ir_state :: page_state
  ir_root :: "nat option"
  ir_shared :: "shared_alloc option"
  ir_reservation :: ReservationUse

text \<open>The loop that evicts until the new lineage fits; \<open>None\<close> is a loop that does not end within the given
  number of rounds.  The boolean is false for the error return.\<close>

fun evict_loop ::
  "keyed \<Rightarrow> nat \<Rightarrow> uint64 \<Rightarrow> uint64 \<Rightarrow> int64 \<Rightarrow> arenaRef \<Rightarrow> registry \<Rightarrow> (registry \<times> bool) option" where
  "evict_loop K 0 ds db now exclude g = None"
| "evict_loop K (Suc n) ds db now exclude g =
    (if fits g ds db then Some (g, True)
     else
       let victim = eligibleLRUTail g now exclude in
       if victim = noRef then Some (g, False)
       else
         let (g1, ok) = removeLineage K (lineage_ref g victim) g in
         if \<not> ok then Some (g1, False) else evict_loop K n ds db now exclude g1)"

definition eviction_rounds :: "registry \<Rightarrow> nat" where
  "eviction_rounds g = length (l_rows (rg_lineages g)) + 2"

text \<open>\<open>None\<close> is the panic of a preflighted insert.\<close>

definition installInitial ::
  "keyed \<Rightarrow> arenaRef \<Rightarrow> arenaRef \<Rightarrow> uint64 \<Rightarrow> token \<Rightarrow> initialRequest \<Rightarrow> uint64 \<Rightarrow> uint64 \<Rightarrow> uint64 \<Rightarrow> int64 \<Rightarrow>
   registry \<Rightarrow> registry option" where
  "installInitial K i e lineageID t req stateBytes sharedBytes dynamicBytes now g =
    (let res = ir_reservation req;
         workExpires = addDuration now (CursorTTL (rg_cfg g));
         g1 = upd_lrow i (\<lambda>w. w\<lparr>l_flags := lineagePhaseProvisional, l_id := lineageID, l_entryHead := e,
                l_resident := 1, l_reservedSlots := ru_Slots res, l_reservedBytes := ru_Bytes res,
                l_dynamicBytes := dynamicBytes, l_root := ir_root req, l_shared := ir_shared req,
                l_sharedBytes := sharedBytes, l_createdAt := now, l_workExpiresAt := workExpires,
                l_commitDeadline := addDuration workExpires CursorHandoffGrace\<rparr>) g;
         g2 = upd_erow e (\<lambda>w. w\<lparr>e_kind := entryKindResident, e_lineage := i, e_parent := noRef,
                e_successor := noRef, e_state := Some (ir_state req), e_stateBytes := stateBytes\<rparr>) g1 in
     case index_insert (rg_tokens g2) t e (tokenHome K g2 t) of
       Inl _ \<Rightarrow> None
     | Inr ix \<Rightarrow>
         let g3 = g2\<lparr>rg_tokens := ix\<rparr> in
         (case lineage_insert (rg_ids g3) lineageID i (lineageHome K g3 lineageID) of
            Inl _ \<Rightarrow> None
          | Inr ids \<Rightarrow>
              let g4 = upd_lineages (lruAttachFront i) (g3\<lparr>rg_ids := ids\<rparr>) in
              Some (g4\<lparr>rg_used := rg_used g4 + (1 + ru_Slots res), rg_total := rg_total g4 + dynamicBytes\<rparr>)))"

text \<open>The computed sizes of a request, before the registry is locked.\<close>

record initial_sizes =
  is_stateBytes :: uint64
  is_sharedBytes :: uint64
  is_dynamicBytes :: uint64
  is_deltaSlots :: uint64

definition size_request :: "Runtime \<Rightarrow> initialRequest \<Rightarrow> registry_error + initial_sizes" where
  "size_request cfg req =
    (let st = ir_state req; res = ir_reservation req; stateBytes = ps_footprint st in
     if \<not> ToolName_Valid (ps_tool st) \<or> ps_cwdID st = 0 \<or> ps_cwdID st > of_nat maxCWDID \<or>
       stateBytes > CursorMaxEntryBytes cfg
     then Inl (Coded ErrorInvalidInput)
     else case bind_sum (checkedMul (ru_Slots res) (CursorMaxEntryBytes cfg)) (\<lambda>l. checkedMul l 2) of
       Inl _ \<Rightarrow> Inl (Coded ErrorBudgetExceeded)
     | Inr reservationLimit \<Rightarrow>
       if ru_Bytes res > reservationLimit then Inl (Coded ErrorBudgetExceeded)
       else
         let sharedBytes = (case ir_shared req of None \<Rightarrow> 0 | Some sh \<Rightarrow> sa_footprint sh);
             rootBytes = (case ir_root req of None \<Rightarrow> 0 | Some _ \<Rightarrow> 8) in
         case LineageBytes \<lparr>la_Resident = 0, la_Tombstones = 0, la_ReservedSlots = 0, la_EntryBytes = stateBytes,
             la_SharedBytes = sharedBytes, la_RootBytes = rootBytes, la_ReservedBytes = ru_Bytes res\<rparr> of
           Inl _ \<Rightarrow> Inl (Coded ErrorBudgetExceeded)
         | Inr dynamicBytes \<Rightarrow>
             (case checkedAdd 1 (ru_Slots res) of
                Inl _ \<Rightarrow> Inl (Coded ErrorBudgetExceeded)
              | Inr deltaSlots \<Rightarrow>
                  Inr \<lparr>is_stateBytes = stateBytes, is_sharedBytes = sharedBytes, is_dynamicBytes = dynamicBytes,
                       is_deltaSlots = deltaSlots\<rparr>))"

text \<open>\<open>commitInitial\<close>: \<open>draw\<close> is the token read from the entropy source (\<open>None\<close>: the read failed),
  \<open>transferred\<close> whether \<open>work.Transfer\<close> succeeds.  The result is the new state, \<open>installed\<close>, and the error or the
  token with the reference of its lineage.\<close>

type_synonym commit_result = "registry \<times> bool \<times> (registry_error + token \<times> lineageRef)"

definition commit_claimed ::
  "keyed \<Rightarrow> initialRequest \<Rightarrow> initial_sizes \<Rightarrow> token \<Rightarrow> uint64 \<Rightarrow> bool \<Rightarrow> int64 \<Rightarrow> registry \<Rightarrow> commit_result option" where
  "commit_claimed K req sz t lineageID transferred now g =
    (case lineage_claim (rg_lineages g) of
       None \<Rightarrow> Some (g, False, Inl RegistryInvariantFailed)
     | Some (lref, lins) \<Rightarrow>
         let g1 = g\<lparr>rg_lineages := lins\<rparr> in
         (case entry_claim (rg_entries g1) of
            None \<Rightarrow>
              let lins' = (case lineage_release (rg_lineages g1) lref of None \<Rightarrow> rg_lineages g1 | Some a \<Rightarrow> a) in
              Some (g1\<lparr>rg_lineages := lins'\<rparr>, False, Inl RegistryInvariantFailed)
          | Some (eref, ents) \<Rightarrow>
              let g2 = g1\<lparr>rg_entries := ents, rg_nextID := lineageID\<rparr> in
              (case installInitial K (ref_index lref) (ref_index eref) lineageID t req (is_stateBytes sz)
                   (is_sharedBytes sz) (is_dynamicBytes sz) now g2 of
                 None \<Rightarrow> None
               | Some g3 \<Rightarrow>
                   if \<not> transferred then Some (fst (removeLineage K lref g3), True, Inl LeaseError)
                   else Some (g3, True, Inr (t, lref)))))"

definition commitInitial ::
  "keyed \<Rightarrow> Runtime \<Rightarrow> initialRequest \<Rightarrow> token option \<Rightarrow> bool \<Rightarrow> int64 \<Rightarrow> registry \<Rightarrow> commit_result option" where
  "commitInitial K cfg req draw transferred now g =
    (case size_request cfg req of
       Inl e \<Rightarrow> Some (g, False, Inl e)
     | Inr sz \<Rightarrow>
       if rg_closed g then Some (g, False, Inl (Coded ErrorCursorExpired))
       else if \<not> canAdmitWithEviction g (is_deltaSlots sz) (is_dynamicBytes sz) now noRef
       then Some (g, False, Inl (Coded ErrorBudgetExceeded))
       else case draw of
         None \<Rightarrow> Some (g, False, Inl (Coded ErrorIOError))
       | Some t \<Rightarrow>
         if index_lookup (rg_tokens g) t (tokenHome K g t) \<noteq> None
         then Some (g, False, Inl RegistryInvariantFailed)
         else if rg_nextID g = -1 then Some (g, False, Inl RegistryInvariantFailed)
         else
           let lineageID = rg_nextID g + 1 in
           if lineage_lookup (rg_ids g) lineageID (lineageHome K g lineageID) \<noteq> None
           then Some (g, False, Inl RegistryInvariantFailed)
           else case evict_loop K (eviction_rounds g) (is_deltaSlots sz) (is_dynamicBytes sz) now noRef g of
             None \<Rightarrow> None
           | Some (g1, ok) \<Rightarrow>
               if \<not> ok then Some (g1, False, Inl RegistryInvariantFailed)
               else commit_claimed K req sz t lineageID transferred now g1)"

text \<open>The two public entry points.  \<open>hasState\<close> and \<open>hasWork\<close>: the interface values are not nil.  The root of a
  failed dynamic request is closed here unless the registry took it over.\<close>

record DynamicInitial =
  di_State :: "page_state option"
  di_Root :: "nat option"
  di_SummaryPlan :: ReservationUse

record ReadInitial =
  ri_State :: "page_state option"
  ri_Shared :: "shared_alloc option"
  ri_PagePlan :: ReadPageReservation

definition close_root :: "nat option \<Rightarrow> registry \<Rightarrow> registry" where
  "close_root root_of g =
    (case root_of of None \<Rightarrow> g | Some root_id \<Rightarrow> g\<lparr>rg_closedRoots := rg_closedRoots g @ [root_id]\<rparr>)"

definition CommitDynamicInitial ::
  "keyed \<Rightarrow> DynamicInitial \<Rightarrow> bool \<Rightarrow> token option \<Rightarrow> bool \<Rightarrow> int64 \<Rightarrow> registry \<Rightarrow>
   (registry \<times> (registry_error + token \<times> lineageRef)) option" where
  "CommitDynamicInitial K req hasWork draw transferred now g =
    (let refuse = (\<lambda>code. Some (close_root (di_Root req) g, Inl (Coded code))) in
     case di_State req of
       None \<Rightarrow> refuse ErrorInvalidInput
     | Some st \<Rightarrow>
       if \<not> hasWork then refuse ErrorInvalidInput
       else if rg_closed g then refuse ErrorCursorExpired
       else if CursorMaxPages (rg_cfg g) < 2 then refuse ErrorBudgetExceeded
       else if ps_shared st \<noteq> None then refuse ErrorInvalidInput
       else if ru_Kind (di_SummaryPlan req) \<noteq> BroadSummaryFinal \<or> ru_Slots (di_SummaryPlan req) \<noteq> 1 \<or>
         ru_MustTerminalize (di_SummaryPlan req)
       then refuse ErrorInvalidInput
       else case commitInitial K (rg_cfg g) \<lparr>ir_state = st, ir_root = di_Root req, ir_shared = None,
           ir_reservation = di_SummaryPlan req\<rparr> draw transferred now g of
         None \<Rightarrow> None
       | Some (g1, installed, res) \<Rightarrow>
           Some (if \<not> is_ok res \<and> \<not> installed then close_root (di_Root req) g1 else g1, res))"

definition CommitReadInitial ::
  "keyed \<Rightarrow> ReadInitial \<Rightarrow> bool \<Rightarrow> token option \<Rightarrow> bool \<Rightarrow> int64 \<Rightarrow> registry \<Rightarrow>
   (registry \<times> (registry_error + token \<times> lineageRef)) option" where
  "CommitReadInitial K req hasWork draw transferred now g =
    (let refuse = (\<lambda>code. Some (g, Inl (Coded code))); plan = ri_PagePlan req in
     case (ri_State req, ri_Shared req) of
       (Some st, Some sh) \<Rightarrow>
         if \<not> hasWork then refuse ErrorInvalidInput
         else if rg_closed g then refuse ErrorCursorExpired
         else if ps_shared st \<noteq> Some (sa_digest sh) then refuse ErrorInvalidInput
         else if rp_Pages plan < 2 \<or> ucast (rp_Pages plan) > CursorMaxPages (rg_cfg g) \<or>
           rp_Slots plan \<noteq> ucast (rp_Pages plan - 1)
         then refuse ErrorInvalidInput
         else (case commitInitial K (rg_cfg g) \<lparr>ir_state = st, ir_root = None, ir_shared = Some sh,
             ir_reservation = \<lparr>ru_Kind = ReadPagePlan, ru_Slots = rp_Slots plan, ru_Bytes = rp_Bytes plan,
               ru_MustTerminalize = False\<rparr>\<rparr> draw transferred now g of
           None \<Rightarrow> None
         | Some (g1, installed, res) \<Rightarrow> Some (g1, res))
     | _ \<Rightarrow> refuse ErrorInvalidInput)"

section \<open>Closing\<close>

text \<open>One pass over the lineages: pinned ones are marked, the first other one is removed (then the pass is
  restarted).  The boolean is \<open>removed\<close>.\<close>

fun close_pass :: "keyed \<Rightarrow> nat list \<Rightarrow> registry \<Rightarrow> registry \<times> bool" where
  "close_pass K [] g = (g, False)"
| "close_pass K (j # js) g =
    (let i = of_nat j in
     if l_occupied (lrow g i) = 0 then close_pass K js g
     else if l_pins (lrow g i) \<noteq> 0
     then close_pass K js (cancelLineageWork i (upd_lrow i (\<lambda>w. w\<lparr>l_flags := lineageRollbackPending\<rparr>) g))
     else (fst (removeLineage K (lineage_ref g i) g), True))"

text \<open>\<open>None\<close>: the loop does not end within the given number of rounds.\<close>

fun close_loop :: "keyed \<Rightarrow> nat \<Rightarrow> registry \<Rightarrow> registry option" where
  "close_loop K 0 g = None"
| "close_loop K (Suc n) g =
    (if live (rg_ids g) = 0 then Some g
     else
       let (g1, removed) = close_pass K [0..<length (l_rows (rg_lineages g))] g in
       if removed then close_loop K n g1 else Some g1)"

definition Close :: "keyed \<Rightarrow> registry \<Rightarrow> registry option" where
  "Close K g =
    (if rg_closed g then Some g
     else
       let g1 = g\<lparr>rg_closed := True\<rparr> in
       map_option (\<lambda>g2. if live (rg_ids g2) = 0 then releaseFixed g2 else g2)
         (close_loop K (eviction_rounds g1) g1))"

end
