(* ===== verification/CursorLru.thy ===== *)
theory CursorLru
  imports CursorRegistry
begin

text \<open>
  The doubly linked list that orders the lineages of a registry by use: what attaching, detaching and
  touching do to the list, and what the walk from its tail finds.  The list of row numbers is the
  abstraction; every other column of the lineage arena is untouched.
\<close>

section \<open>The linked list\<close>

fun lseg :: "('root, 'sh) lineage_row list \<Rightarrow> arenaRef \<Rightarrow> arenaRef \<Rightarrow> nat list \<Rightarrow> arenaRef \<Rightarrow> arenaRef \<Rightarrow> bool" where
  "lseg rows h p [] t q \<longleftrightarrow> h = q \<and> t = p"
| "lseg rows h p (x # xs) t q \<longleftrightarrow> h = of_nat x \<and> x < length rows \<and> l_lruPrev (rows ! x) = p \<and>
    lseg rows (l_lruNext (rows ! x)) (of_nat x) xs t q"

definition lru_list :: "('root, 'sh) lineageArena \<Rightarrow> nat list \<Rightarrow> bool" where
  "lru_list a xs \<longleftrightarrow> lseg (l_rows a) (l_lruHead a) noRef xs (l_lruTail a) noRef \<and> distinct xs \<and>
    length (l_rows a) < 4294967295"

lemma lseg_append:
  "lseg rows h p (xs @ ys) t q \<longleftrightarrow> (\<exists>t' h'. lseg rows h p xs t' h' \<and> lseg rows h' t' ys t q)"
  by (induction xs arbitrary: h p) auto

lemma lseg_cong:
  assumes "length rows' = length rows"
    "\<And>x. x \<in> set xs \<Longrightarrow> l_lruPrev (rows' ! x) = l_lruPrev (rows ! x) \<and> l_lruNext (rows' ! x) = l_lruNext (rows ! x)"
  shows "lseg rows' h p xs t q = lseg rows h p xs t q"
  using assms(2) by (induction xs arbitrary: h p) (auto simp: assms(1))

lemma lseg_bound: "lseg rows h p xs t q \<Longrightarrow> x \<in> set xs \<Longrightarrow> x < length rows"
  by (induction xs arbitrary: h p) auto

lemma unat_ref: "x < 4294967295 \<Longrightarrow> unat (of_nat x :: arenaRef) = x"
  by (rule unat_of_nat_small) simp

lemma ref_neq_noRef: "x < 4294967295 \<Longrightarrow> (of_nat x :: arenaRef) \<noteq> noRef"
  using unat_ref [of x] unat_noRef by auto

lemma ref_inj: "x < 4294967295 \<Longrightarrow> y < 4294967295 \<Longrightarrow> (of_nat x :: arenaRef) = of_nat y \<longleftrightarrow> x = y"
  by (metis unat_ref)

lemma lru_list_rows:
  assumes "lru_list a xs" "x \<in> set xs"
  shows "x < length (l_rows a)" "unat (of_nat x :: arenaRef) = x" "(of_nat x :: arenaRef) \<noteq> noRef"
proof -
  show "x < length (l_rows a)" using assms by (auto simp: lru_list_def dest: lseg_bound)
  then have "x < 4294967295" using assms by (simp add: lru_list_def)
  then show "unat (of_nat x :: arenaRef) = x" "(of_nat x :: arenaRef) \<noteq> noRef"
    by (rule unat_ref, rule ref_neq_noRef)
qed

lemma lru_list_head: "lru_list a xs \<Longrightarrow> l_lruHead a = (case xs of [] \<Rightarrow> noRef | x # _ \<Rightarrow> of_nat x)"
  by (cases xs) (auto simp: lru_list_def)

lemma lseg_tail: "lseg rows h p xs t q \<Longrightarrow> t = (if xs = [] then p else of_nat (last xs))"
  by (induction xs arbitrary: h p) auto

lemma lseg_last_next: "lseg rows h p xs t q \<Longrightarrow> xs \<noteq> [] \<Longrightarrow> l_lruNext (rows ! last xs) = q"
  by (induction xs arbitrary: h p) (auto split: if_splits)

section \<open>Untouched columns\<close>

definition unlinked :: "('root, 'sh) lineage_row \<Rightarrow> ('root, 'sh) lineage_row" where
  "unlinked w = w\<lparr>l_lruPrev := noRef, l_lruNext := noRef\<rparr>"

text \<open>Two arenas differ at most in the links.\<close>

definition same_but_links :: "('root, 'sh) lineageArena \<Rightarrow> ('root, 'sh) lineageArena \<Rightarrow> bool" where
  "same_but_links a b \<longleftrightarrow> map unlinked (l_rows a) = map unlinked (l_rows b) \<and> l_freeHead a = l_freeHead b"

lemma unlinked_links [simp]:
  "unlinked (w\<lparr>l_lruPrev := p\<rparr>) = unlinked w" "unlinked (w\<lparr>l_lruNext := n\<rparr>) = unlinked w"
  by (simp_all add: unlinked_def)

lemma same_but_links_refl [simp]: "same_but_links a a"
  by (simp add: same_but_links_def)

lemma same_but_links_trans: "same_but_links a b \<Longrightarrow> same_but_links b c \<Longrightarrow> same_but_links a c"
  by (simp add: same_but_links_def)

lemma same_but_links_update:
  assumes "unlinked w = unlinked (l_rows a ! i)"
  shows "same_but_links (a\<lparr>l_rows := (l_rows a)[i := w]\<rparr>) a"
  using assms by (cases "i < length (l_rows a)")
    (simp_all add: same_but_links_def map_update list_update_same_conv list_update_beyond)

lemma same_but_links_row:
  assumes "same_but_links a b"
  shows "length (l_rows a) = length (l_rows b)"
    "j < length (l_rows b) \<Longrightarrow> unlinked (l_rows a ! j) = unlinked (l_rows b ! j)"
proof -
  show l: "length (l_rows a) = length (l_rows b)"
    using assms unfolding same_but_links_def by (metis length_map)
  show "j < length (l_rows b) \<Longrightarrow> unlinked (l_rows a ! j) = unlinked (l_rows b ! j)"
    using assms l unfolding same_but_links_def by (metis nth_map)
qed

lemma unlinked_fields:
  assumes "unlinked v = unlinked w"
  shows "l_occupied v = l_occupied w" "l_flags v = l_flags w" "l_generation v = l_generation w"
    "l_nextFree v = l_nextFree w" "l_entryHead v = l_entryHead w" "l_pins v = l_pins w"
    "l_resident v = l_resident w" "l_tombstones v = l_tombstones w" "l_id v = l_id w"
    "l_createdAt v = l_createdAt w" "l_workExpiresAt v = l_workExpiresAt w"
    "l_commitDeadline v = l_commitDeadline w" "l_protectedUntil v = l_protectedUntil w"
    "l_reservedSlots v = l_reservedSlots w" "l_reservedBytes v = l_reservedBytes w"
    "l_dynamicBytes v = l_dynamicBytes w" "l_root v = l_root w" "l_shared v = l_shared w"
    "l_sharedBytes v = l_sharedBytes w"
  using assms by (cases v; cases w; simp add: unlinked_def)+

lemma lineage_view_links:
  assumes "same_but_links a b"
  shows "lineage_view a = lineage_view b"
proof -
  have e: "map f (l_rows a) = map f (l_rows b)" if f: "\<And>w. f (unlinked w) = f w" for f :: "('a, 'b) lineage_row \<Rightarrow> 'c"
  proof -
    have "map f rows = map f (map unlinked rows)" for rows by (simp add: f)
    then show ?thesis using assms unfolding same_but_links_def by metis
  qed
  have "map (\<lambda>r. l_occupied r \<noteq> 0) (l_rows a) = map (\<lambda>r. l_occupied r \<noteq> 0) (l_rows b)"
    "map l_generation (l_rows a) = map l_generation (l_rows b)" "map l_nextFree (l_rows a) = map l_nextFree (l_rows b)"
    by (rule e, simp add: unlinked_def)+
  then show ?thesis using assms by (simp add: lineage_view_def same_but_links_def)
qed

section \<open>The operations\<close>

lemma lruAttachFront_same: "same_but_links (lruAttachFront i a) a"
proof -
  define a1 where "a1 = a\<lparr>l_rows := (l_rows a)[unat i := (l_rows a ! unat i)\<lparr>l_lruPrev := noRef, l_lruNext := l_lruHead a\<rparr>]\<rparr>"
  have 1: "same_but_links a1 a" unfolding a1_def by (rule same_but_links_update) simp
  define h where "h = unat (l_lruHead a)"
  have 2: "same_but_links (a1\<lparr>l_rows := (l_rows a1)[h := (l_rows a1 ! h)\<lparr>l_lruPrev := i\<rparr>]\<rparr>) a1"
    by (rule same_but_links_update) simp
  show ?thesis
  proof (cases "l_lruHead a = noRef")
    case True
    then show ?thesis using 1
      by (simp add: lruAttachFront_def Let_def a1_def same_but_links_def)
  next
    case False
    then have "lruAttachFront i a = (a1\<lparr>l_rows := (l_rows a1)[h := (l_rows a1 ! h)\<lparr>l_lruPrev := i\<rparr>]\<rparr>)\<lparr>l_lruHead := i\<rparr>"
      unfolding lruAttachFront_def Let_def a1_def h_def by simp
    then show ?thesis using same_but_links_trans [OF 2 1] by (simp add: same_but_links_def)
  qed
qed

lemma lruDetach_same: "same_but_links (lruDetach i a) a"
proof -
  define p n where "p = l_lruPrev (l_rows a ! unat i)" and "n = l_lruNext (l_rows a ! unat i)"
  define a1 where "a1 = (if p \<noteq> noRef
      then a\<lparr>l_rows := (l_rows a)[unat p := (l_rows a ! unat p)\<lparr>l_lruNext := n\<rparr>]\<rparr> else a\<lparr>l_lruHead := n\<rparr>)"
  define a2 where "a2 = (if n \<noteq> noRef
      then a1\<lparr>l_rows := (l_rows a1)[unat n := (l_rows a1 ! unat n)\<lparr>l_lruPrev := p\<rparr>]\<rparr> else a1\<lparr>l_lruTail := p\<rparr>)"
  have "same_but_links a1 a" unfolding a1_def
    using same_but_links_update [of "(l_rows a ! unat p)\<lparr>l_lruNext := n\<rparr>" a "unat p"] by (simp add: same_but_links_def)
  moreover have "same_but_links a2 a1" unfolding a2_def
    using same_but_links_update [of "(l_rows a1 ! unat n)\<lparr>l_lruPrev := p\<rparr>" a1 "unat n"] by (simp add: same_but_links_def)
  moreover have "same_but_links (lruDetach i a) a2"
    unfolding lruDetach_def Let_def p_def [symmetric] n_def [symmetric] a1_def [symmetric] a2_def [symmetric]
    by (rule same_but_links_update) simp
  ultimately show ?thesis by (blast intro: same_but_links_trans)
qed

lemma lruTouch_same: "same_but_links (lruTouch i a) a"
  using same_but_links_trans [OF lruAttachFront_same lruDetach_same] by (simp add: lruTouch_def)

lemma lru_attach:
  assumes "lru_list a xs" "x < length (l_rows a)" "x \<notin> set xs"
  shows "lru_list (lruAttachFront (of_nat x) a) (x # xs)"
proof -
  have b: "length (l_rows a) < 4294967295" "distinct xs"
    and s: "lseg (l_rows a) (l_lruHead a) noRef xs (l_lruTail a) noRef"
    using assms(1) by (simp_all add: lru_list_def)
  have u: "unat (of_nat x :: arenaRef) = x" using assms(2) b(1) by (intro unat_ref) simp
  show ?thesis
  proof (cases xs)
    case Nil
    then have "l_lruHead a = noRef" using s by simp
    then show ?thesis using Nil b assms(2) u by (simp add: lru_list_def lruAttachFront_def Let_def)
  next
    case (Cons y ys)
    have y: "y < length (l_rows a)" "unat (of_nat y :: arenaRef) = y" "(of_nat y :: arenaRef) \<noteq> noRef"
      using lru_list_rows [OF assms(1), of y] Cons by simp_all
    have xy: "x \<noteq> y" "y \<notin> set ys" "x \<notin> set ys" using assms(3) b(2) Cons by auto
    let ?rows = "((l_rows a)[x := (l_rows a ! x)\<lparr>l_lruPrev := noRef, l_lruNext := of_nat y\<rparr>])
      [y := (l_rows a ! y)\<lparr>l_lruPrev := of_nat x\<rparr>]"
    have "lseg (l_rows a) (l_lruNext (l_rows a ! y)) (of_nat y) ys (l_lruTail a) noRef" using s Cons by simp
    then have "lseg ?rows (l_lruNext (l_rows a ! y)) (of_nat y) ys (l_lruTail a) noRef"
    proof (subst lseg_cong [of _ "l_rows a"])
      fix v
      assume "v \<in> set ys"
      then have "v \<noteq> x" "v \<noteq> y" using xy by auto
      then show "l_lruPrev (?rows ! v) = l_lruPrev (l_rows a ! v) \<and> l_lruNext (?rows ! v) = l_lruNext (l_rows a ! v)"
        by simp
    qed simp_all
    then show ?thesis using Cons s b assms(2,3) y xy u
      by (simp add: lru_list_def lruAttachFront_def Let_def nth_list_update)
  qed
qed

lemma lru_detach:
  assumes "lru_list a (ys @ x # zs)"
  shows "lru_list (lruDetach (of_nat x) a) (ys @ zs)"
proof -
  have b: "length (l_rows a) < 4294967295" and d: "distinct (ys @ x # zs)"
    and s: "lseg (l_rows a) (l_lruHead a) noRef (ys @ x # zs) (l_lruTail a) noRef"
    using assms by (simp_all add: lru_list_def)
  let ?w = "l_rows a"
  let ?p = "l_lruPrev (?w ! x)" and ?n = "l_lruNext (?w ! x)"
  have y: "lseg ?w (l_lruHead a) noRef ys ?p (of_nat x)" and z: "lseg ?w ?n (of_nat x) zs (l_lruTail a) noRef"
    and x: "x < length ?w"
    using s by (auto simp: lseg_append)
  have ux: "unat (of_nat x :: arenaRef) = x" "(of_nat x :: arenaRef) \<noteq> noRef"
    using x b unat_ref [of x] ref_neq_noRef [of x] by simp_all
  have p: "?p = (if ys = [] then noRef else of_nat (last ys))" by (rule lseg_tail [OF y])
  have n: "?n = (case zs of [] \<Rightarrow> noRef | v # _ \<Rightarrow> of_nat v)" using z by (cases zs) auto
  have bound: "v \<in> set ys \<union> set zs \<Longrightarrow> v < length ?w \<and> unat (of_nat v :: arenaRef) = v \<and> (of_nat v :: arenaRef) \<noteq> noRef" for v
    using lru_list_rows [OF assms, of v] by auto
  let ?a = "lruDetach (of_nat x) a"
  define i1 where "i1 = (if ys = [] then ?w else ?w[last ys := (?w ! last ys)\<lparr>l_lruNext := ?n\<rparr>])"
  define i2 where "i2 = (case zs of [] \<Rightarrow> i1 | v # _ \<Rightarrow> i1[v := (i1 ! v)\<lparr>l_lruPrev := ?p\<rparr>])"
  define i3 where "i3 = i2[x := (i2 ! x)\<lparr>l_lruPrev := noRef, l_lruNext := noRef\<rparr>]"
  have rows: "l_rows ?a = i3" "l_lruHead ?a = (if ys = [] then ?n else l_lruHead a)"
    "l_lruTail ?a = (if zs = [] then ?p else l_lruTail a)"
  proof -
    have "ys \<noteq> [] \<Longrightarrow> unat ?p = last ys \<and> ?p \<noteq> noRef" using p bound [of "last ys"] by auto
    moreover have "zs = v # vs \<Longrightarrow> unat ?n = v \<and> ?n \<noteq> noRef" for v vs using n bound [of v] by auto
    ultimately show "l_rows ?a = i3" "l_lruHead ?a = (if ys = [] then ?n else l_lruHead a)"
      "l_lruTail ?a = (if zs = [] then ?p else l_lruTail a)"
      using p n ux
      by (cases "ys = []"; cases zs; simp add: lruDetach_def Let_def i1_def i2_def i3_def)+
  qed
  have len: "length i3 = length ?w" by (simp add: i1_def i2_def i3_def split: list.splits)
  have lasty: "ys \<noteq> [] \<Longrightarrow> last ys \<in> set ys" by simp
  have xn: "x \<notin> set ys" "x \<notin> set zs" "set ys \<inter> set zs = {}" "distinct ys" "distinct zs" using d by auto
  have rowv: "v \<noteq> x \<Longrightarrow> v < length ?w \<Longrightarrow>
      i3 ! v = (?w ! v)\<lparr>l_lruNext := (if ys \<noteq> [] \<and> v = last ys then ?n else l_lruNext (?w ! v)),
        l_lruPrev := (if zs \<noteq> [] \<and> v = hd zs then ?p else l_lruPrev (?w ! v))\<rparr>" for v
    using xn lasty bound [of "last ys"] bound [of "hd zs"]
    by (cases zs; cases "ys = []") (auto simp: i1_def i2_def i3_def nth_list_update)
  have ysrow: "l_lruPrev (i3 ! v) = l_lruPrev (?w ! v) \<and>
      l_lruNext (i3 ! v) = (if v = last ys then ?n else l_lruNext (?w ! v))" if v: "v \<in> set ys" for v
  proof -
    have "v \<noteq> x" "v < length ?w" using v xn(1) bound [of v] by auto
    moreover have "\<not> (zs \<noteq> [] \<and> v = hd zs)" using v xn(3) hd_in_set [of zs] by auto
    moreover have "ys \<noteq> []" using v by auto
    ultimately show ?thesis using rowv [of v] by auto
  qed
  have zsrow: "l_lruNext (i3 ! v) = l_lruNext (?w ! v) \<and>
      l_lruPrev (i3 ! v) = (if v = hd zs then ?p else l_lruPrev (?w ! v))" if v: "v \<in> set zs" for v
  proof -
    have "v \<noteq> x" "v < length ?w" using v xn(2) bound [of v] by auto
    moreover have "\<not> (ys \<noteq> [] \<and> v = last ys)" using v xn(3) last_in_set [of ys] by (metis disjoint_iff)
    moreover have "zs \<noteq> []" using v by auto
    ultimately show ?thesis using rowv [of v] by auto
  qed
  have Y: "lseg i3 (if ys = [] then ?n else l_lruHead a) noRef ys ?p ?n"
  proof (cases ys rule: rev_cases)
    case Nil
    then show ?thesis using p by simp
  next
    case (snoc us u)
    obtain h where h: "lseg ?w (l_lruHead a) noRef us h (of_nat u)" "l_lruPrev (?w ! u) = h"
      using y snoc by (auto simp: lseg_append)
    have "u \<notin> set us" using xn(4) snoc by simp
    then have "lseg i3 (l_lruHead a) noRef us h (of_nat u)"
      using h(1) ysrow snoc by (subst lseg_cong [of _ ?w]) (auto simp: len)
    then show ?thesis using snoc h ysrow [of u] p bound [of u] by (auto simp: lseg_append len)
  qed
  have Z: "lseg i3 ?n ?p zs (if zs = [] then ?p else l_lruTail a) noRef"
  proof (cases zs)
    case Nil
    then show ?thesis using n by simp
  next
    case (Cons v vs)
    have z': "lseg ?w (l_lruNext (?w ! v)) (of_nat v) vs (l_lruTail a) noRef" using z Cons by simp
    have "v \<notin> set vs" using xn(5) Cons by simp
    then have "lseg i3 (l_lruNext (?w ! v)) (of_nat v) vs (l_lruTail a) noRef"
      using z' zsrow Cons by (subst lseg_cong [of _ ?w]) (auto simp: len)
    then show ?thesis using Cons zsrow [of v] n bound [of v] by (simp add: len)
  qed
  show ?thesis
    unfolding lru_list_def rows len lseg_append
    using Y Z b d by auto
qed

lemma lru_touch:
  assumes "lru_list a (ys @ x # zs)"
  shows "lru_list (lruTouch (of_nat x) a) (x # ys @ zs)"
proof (cases "l_lruHead a = of_nat x")
  case True
  have "ys = []"
  proof (rule ccontr)
    assume "ys \<noteq> []"
    then obtain y us where ys: "ys = y # us" by (cases ys) auto
    have "of_nat y = (of_nat x :: arenaRef)" using lru_list_head [OF assms] True ys by simp
    then have "y = x" using lru_list_rows(2) [OF assms, of y] lru_list_rows(2) [OF assms, of x] ys by (metis in_set_conv_decomp list.set_intros(1) append_Cons)
    then show False using assms ys by (simp add: lru_list_def)
  qed
  then show ?thesis using assms True by (simp add: lruTouch_def)
next
  case False
  have d: "lru_list (lruDetach (of_nat x) a) (ys @ zs)" by (rule lru_detach [OF assms])
  have "x < length (l_rows (lruDetach (of_nat x) a))"
    using lru_list_rows(1) [OF assms, of x] same_but_links_row(1) [OF lruDetach_same] by simp
  moreover have "x \<notin> set (ys @ zs)" using assms by (simp add: lru_list_def)
  ultimately show ?thesis using lru_attach [OF d] False by (simp add: lruTouch_def)
qed

section \<open>The walk from the tail\<close>

lemma lru_tail: "lru_list a xs \<Longrightarrow> l_lruTail a = (if xs = [] then noRef else of_nat (last xs))"
  unfolding lru_list_def using lseg_tail by blast

lemma lru_prev:
  assumes "lseg rows h noRef (xs @ [x]) t q"
  shows "l_lruPrev (rows ! x) = (if xs = [] then noRef else of_nat (last xs))"
proof -
  obtain t' where "lseg rows h noRef xs t' (of_nat x)" "l_lruPrev (rows ! x) = t'"
    using assms by (auto simp: lseg_append)
  then show ?thesis using lseg_tail by blast
qed

lemma lru_tail_walk:
  assumes "lseg (l_rows (rg_lineages g)) h noRef xs t q" "\<forall>x \<in> set xs. x < 4294967295" "length xs \<le> n"
  shows "lru_tail_loop g now exclude n (if xs = [] then noRef else of_nat (last xs)) =
    (case find (\<lambda>x. of_nat x \<noteq> exclude \<and> evictable g (of_nat x) now) (rev xs) of None \<Rightarrow> noRef | Some x \<Rightarrow> of_nat x)"
  using assms
proof (induction xs arbitrary: n t q rule: rev_induct)
  case Nil
  then show ?case by (cases n) simp_all
next
  case (snoc x xs)
  obtain m where n: "n = Suc m" using snoc.prems(3) by (cases n) auto
  have x: "(of_nat x :: arenaRef) \<noteq> noRef" "unat (of_nat x :: arenaRef) = x"
    using snoc.prems(2) ref_neq_noRef [of x] unat_ref [of x] by simp_all
  obtain t' where "lseg (l_rows (rg_lineages g)) h noRef xs t' (of_nat x)"
    using snoc.prems(1) by (auto simp: lseg_append)
  note ih = snoc.IH [OF this]
  show ?case using snoc.prems x lru_prev [OF snoc.prems(1)] ih [of m] by (simp add: n)
qed

end
