(* ===== verification/CursorInvariant.thy ===== *)
theory CursorInvariant
  imports CursorLru
begin

text \<open>
  The invariant of the cursor registry.  The abstraction of a registry is the list of its lineages in order of
  use and, for each lineage, the list of its entries in page order.  The invariant ties the two indexes, the two
  arenas, the links and the accounting to it; this theory proves what removing a lineage does to it.
\<close>

section \<open>Entries and tokens\<close>

abbreviation live_entries :: "entry_arena \<Rightarrow> nat set" where
  "live_entries ents \<equiv> view_live (entry_view ents)"

abbreviation live_lineages :: "lineage_arena \<Rightarrow> nat set" where
  "live_lineages lins \<equiv> view_live (lineage_view lins)"

lemma live_entries_iff:
  "j \<in> live_entries ents \<longleftrightarrow> j < length (e_rows ents) \<and> e_occupied (e_rows ents ! j) \<noteq> 0"
  by (auto simp: view_live_def entry_view_def)

lemma live_lineages_iff:
  "j \<in> live_lineages lins \<longleftrightarrow> j < length (l_rows lins) \<and> l_occupied (l_rows lins ! j) \<noteq> 0"
  by (auto simp: view_live_def lineage_view_def)

lemma finite_live [simp]: "finite (view_live v)"
  by (simp add: view_live_def)

text \<open>Every live entry has exactly one token, and every token names a live entry.\<close>

definition tokens_ok :: "keyed \<Rightarrow> tokenIndex \<Rightarrow> entry_arena \<Rightarrow> bool" where
  "tokens_ok K ix ents \<longleftrightarrow> index_inv (km_token K) ix \<and>
    (\<forall>t e. index_map ix t = Some e \<longrightarrow> unat e \<in> live_entries ents) \<and>
    (\<forall>j \<in> live_entries ents. \<exists>t. index_map ix t = Some (of_nat j)) \<and>
    (\<forall>t t' e. index_map ix t = Some e \<longrightarrow> index_map ix t' = Some e \<longrightarrow> t = t')"

lemma index_live:
  assumes "index_inv mac ix"
  shows "unat (live ix) = card (dom (index_map ix))" "card (dom (index_map ix)) \<le> length (slots ix)"
proof -
  have d: "keys_distinct (slots ix)" and t: "table_len (slots ix)" and l: "live ix = of_nat (length (live_rows (slots ix)))"
    using assms by (simp_all add: index_inv_def)
  have c: "card (dom (index_map ix)) = length (live_rows (slots ix))" by (rule card_dom_index_map [OF d])
  have le: "length (live_rows (slots ix)) \<le> length (slots ix)" by (simp add: live_rows_def)
  show "card (dom (index_map ix)) \<le> length (slots ix)" using c le by simp
  show "unat (live ix) = card (dom (index_map ix))"
    unfolding l c by (rule unat_less_len [OF t le])
qed

lemma tokens_ok_card:
  assumes "tokens_ok K ix ents" "length (e_rows ents) < 4294967295"
  shows "card (dom (index_map ix)) = card (live_entries ents)"
proof (rule bij_betw_same_card)
  let ?f = "\<lambda>t. unat (the (index_map ix t))"
  show "bij_betw ?f (dom (index_map ix)) (live_entries ents)"
    unfolding bij_betw_def
  proof
    show "inj_on ?f (dom (index_map ix))"
    proof (rule inj_onI)
      fix t t'
      assume "t \<in> dom (index_map ix)" "t' \<in> dom (index_map ix)" "?f t = ?f t'"
      then have "index_map ix t = index_map ix t'" by (auto simp: word_unat_eq_iff)
      then show "t = t'" using assms(1) \<open>t \<in> dom _\<close> unfolding tokens_ok_def by (metis domD)
    qed
    show "?f ` dom (index_map ix) = live_entries ents"
    proof (intro equalityI subsetI)
      fix j
      assume j: "j \<in> live_entries ents"
      then obtain t where t: "index_map ix t = Some (of_nat j)" using assms(1) unfolding tokens_ok_def by blast
      have "j < 4294967295" using j assms(2) by (simp add: live_entries_iff)
      then have "?f t = j" using t by (simp add: unat_ref)
      moreover have "t \<in> dom (index_map ix)" using t by blast
      ultimately show "j \<in> ?f ` dom (index_map ix)" by blast
    next
      fix j
      assume "j \<in> ?f ` dom (index_map ix)"
      then show "j \<in> live_entries ents" using assms(1) unfolding tokens_ok_def by auto
    qed
  qed
qed

lemma tokenForEntry_ok:
  assumes "tokens_ok K (rg_tokens g) ents" "j \<in> live_entries ents"
  shows "\<exists>t. tokenForEntry g (of_nat j) = Some (t, keyedHome (km_token K) (length (slots (rg_tokens g))) t) \<and>
    index_map (rg_tokens g) t = Some (of_nat j)"
proof -
  let ?ix = "rg_tokens g"
  have inv: "index_inv (km_token K) ?ix" using assms(1) by (simp add: tokens_ok_def)
  then have d: "keys_distinct (slots ?ix)" and r: "rows_ok (km_token K) (slots ?ix) None"
    by (simp_all add: index_inv_def)
  obtain t where "index_map ?ix t = Some (of_nat j)" using assms unfolding tokens_ok_def by blast
  then obtain i where i: "i < length (slots ?ix)" "occupied (slots ?ix) i" "slot_ref (slots ?ix ! i) = of_nat j"
    unfolding index_map_eq [OF d] by blast
  let ?P = "\<lambda>row. slot_state row \<noteq> 0 \<and> slot_ref row = (of_nat j :: arenaRef)"
  have "find ?P (slots ?ix) \<noteq> None" using i nth_mem [OF i(1)] unfolding find_None_iff by blast
  then obtain row where f: "find ?P (slots ?ix) = Some row" by blast
  then obtain k where k: "k < length (slots ?ix)" "?P (slots ?ix ! k)" "row = slots ?ix ! k"
    by (auto simp: find_Some_iff)
  have "index_map ?ix (slot_key row) = Some (of_nat j)" unfolding index_map_eq [OF d] using k by blast
  moreover have "slot_home row = keyedHome (km_token K) (length (slots ?ix)) (slot_key row)"
    using rows_okD(2) [OF r k(1)] k by simp
  ultimately show ?thesis using f by (simp add: tokenForEntry_def)
qed

text \<open>A free entry holds nothing of its last use.\<close>

definition idle_entry :: "(page_state, Result, nat) entry_row \<Rightarrow> bool" where
  "idle_entry w \<longleftrightarrow> e_flags w = 0 \<and> e_memo w = None \<and> e_runtime w = None \<and> e_page w = 0 \<and> e_memoBytes w = 0"

definition idle_entries :: "entry_arena \<Rightarrow> bool" where
  "idle_entries ents \<longleftrightarrow> (\<forall>w \<in> set (e_rows ents). e_occupied w = 0 \<longrightarrow> idle_entry w)"

lemma entry_release_exact:
  assumes "j \<in> live_entries ents" "j < 4294967295" "e_generation (e_rows ents ! j) \<noteq> -1"
  shows "\<exists>blank ents'. entry_release ents \<lparr>ref_index = of_nat j, ref_generation = e_generation (e_rows ents ! j)\<rparr> = Some ents' \<and>
    e_rows ents' = (e_rows ents)[j := blank] \<and> e_generation blank = e_generation (e_rows ents ! j) + 1 \<and>
    idle_entry blank"
proof -
  have "unat (of_nat j :: arenaRef) = j" using assms(2) by (rule unat_ref)
  then have "entry_release ents \<lparr>ref_index = of_nat j, ref_generation = e_generation (e_rows ents ! j)\<rparr> \<noteq> None"
    using assms by (simp add: entry_release_def entry_valid_def live_entries_iff Let_def)
  then obtain ents' where r: "entry_release ents \<lparr>ref_index = of_nat j, ref_generation = e_generation (e_rows ents ! j)\<rparr> = Some ents'"
    by blast
  have b: "j < length (e_rows ents)" using assms(1) by (simp add: live_entries_iff)
  have "e_rows ents' = (e_rows ents)[j := e_rows ents' ! j]" "e_generation (e_rows ents' ! j) = e_generation (e_rows ents ! j) + 1"
    "idle_entry (e_rows ents' ! j)"
    using r \<open>unat (of_nat j) = j\<close> b by (auto simp: entry_release_def Let_def idle_entry_def split: if_splits)
  then show ?thesis using r by blast
qed

text \<open>The release of a whole chain.\<close>

lemma release_chain_ok:
  assumes "tokens_ok K (rg_tokens g) (rg_entries g)" "view_inv (entry_view (rg_entries g))"
    "free_chain (map e_successor (e_rows (rg_entries g))) h c" "distinct c" "set c \<subseteq> live_entries (rg_entries g)"
    "length c \<le> n" "\<forall>j \<in> set c. e_generation (e_rows (rg_entries g) ! j) \<noteq> -1"
    "length (e_rows (rg_entries g)) < 4294967295"
  shows "\<exists>ix ents. release_chain n h g = (g\<lparr>rg_tokens := ix, rg_entries := ents\<rparr>, True) \<and> tokens_ok K ix ents \<and>
    view_inv (entry_view ents) \<and> length (slots ix) = length (slots (rg_tokens g)) \<and>
    length (e_rows ents) = length (e_rows (rg_entries g)) \<and>
    live_entries ents = live_entries (rg_entries g) - set c \<and>
    (\<forall>j. j \<notin> set c \<longrightarrow> e_rows ents ! j = e_rows (rg_entries g) ! j) \<and>
    (\<forall>j \<in> set c. e_generation (e_rows ents ! j) = e_generation (e_rows (rg_entries g) ! j) + 1 \<and>
      idle_entry (e_rows ents ! j)) \<and> map_le (index_map ix) (index_map (rg_tokens g))"
  using assms
proof (induction c arbitrary: g h n)
  case Nil
  then have "release_chain n h g = (g, True)" by (cases n) simp_all
  then show ?case using Nil by (intro exI [of _ "rg_tokens g"] exI [of _ "rg_entries g"]) simp
next
  case (Cons j c)
  let ?ents = "rg_entries g" and ?ix = "rg_tokens g"
  obtain m where n: "n = Suc m" using Cons.prems(6) by (cases n) auto
  have h: "h \<noteq> noRef" "unat h = j" and tl: "free_chain (map e_successor (e_rows ?ents)) (e_successor (e_rows ?ents ! j)) c"
    and jl: "j \<in> live_entries ?ents" and jb: "j < length (e_rows ?ents)"
    using Cons.prems(3,5) by (auto simp: live_entries_iff)
  have hj: "h = of_nat j" unfolding h(2) [symmetric] by simp
  have jm: "j < 4294967295" using jb Cons.prems(8) by simp
  obtain t where t: "tokenForEntry g h = Some (t, keyedHome (km_token K) (length (slots ?ix)) t)"
    "index_map ?ix t = Some h"
    using tokenForEntry_ok [OF Cons.prems(1) jl] hj by auto
  have inv: "index_inv (km_token K) ?ix" using Cons.prems(1) by (simp add: tokens_ok_def)
  obtain ix1 where ix1: "index_delete ?ix t (keyedHome (km_token K) (length (slots ?ix)) t) = Some ix1"
    using index_delete_None [OF inv refl, of t] t(2) by (cases "index_delete ?ix t (keyedHome (km_token K) (length (slots ?ix)) t)") auto
  note del = index_delete_Some [OF inv refl ix1]
  obtain blank ents1 where rel: "entry_release ?ents \<lparr>ref_index = of_nat j, ref_generation = e_generation (e_rows ?ents ! j)\<rparr> = Some ents1"
    and rows1: "e_rows ents1 = (e_rows ?ents)[j := blank]" "e_generation blank = e_generation (e_rows ?ents ! j) + 1"
      "idle_entry blank"
    using entry_release_exact [OF jl jm] Cons.prems(7) by auto
  note ent = entries.release_Some [OF Cons.prems(2) rel]
  have live1: "live_entries ents1 = live_entries ?ents - {j}" using ent(4) jm by (simp add: unat_ref)
  define g1 where "g1 = g\<lparr>rg_tokens := ix1, rg_entries := ents1\<rparr>"
  have tok1: "tokens_ok K ix1 ents1"
    unfolding tokens_ok_def
  proof (intro conjI allI ballI impI)
    show "index_inv (km_token K) ix1" by (rule del(1))
  next
    fix s e
    assume "index_map ix1 s = Some e"
    then have s: "s \<noteq> t" "index_map ?ix s = Some e" using del(2) by (auto split: if_splits)
    then have "unat e \<in> live_entries ?ents" using Cons.prems(1) unfolding tokens_ok_def by blast
    moreover have "unat e \<noteq> j"
    proof
      assume "unat e = j"
      then have "e = h" using h(2) by (simp add: word_unat_eq_iff)
      then show False using s t(2) Cons.prems(1) unfolding tokens_ok_def by blast
    qed
    ultimately show "unat e \<in> live_entries ents1" using live1 by simp
  next
    fix i
    assume i: "i \<in> live_entries ents1"
    then have i': "i \<in> live_entries ?ents" "i \<noteq> j" using live1 by auto
    then obtain s where s: "index_map ?ix s = Some (of_nat i)" using Cons.prems(1) unfolding tokens_ok_def by blast
    have "i < 4294967295" using i' Cons.prems(8) by (simp add: live_entries_iff)
    then have "(of_nat i :: arenaRef) \<noteq> h" unfolding hj using jm i'(2) ref_inj by blast
    then have "s \<noteq> t" using s t(2) by auto
    then show "\<exists>s. index_map ix1 s = Some (of_nat i)" using s del(2) by (intro exI [of _ s]) simp
  next
    fix s s' e
    assume "index_map ix1 s = Some e" "index_map ix1 s' = Some e"
    then show "s = s'" using del(2) Cons.prems(1) unfolding tokens_ok_def by (metis fun_upd_apply option.distinct(1))
  qed
  have jc: "j \<notin> set c" "distinct c" using Cons.prems(4) by auto
  have chain1: "free_chain (map e_successor (e_rows (rg_entries g1))) (e_successor (e_rows ?ents ! j)) c"
    using tl jc by (simp add: g1_def rows1 map_update free_chain_update)
  have sub1: "set c \<subseteq> live_entries (rg_entries g1)" using Cons.prems(5) jc live1 by (auto simp: g1_def)
  have gen1: "\<forall>i \<in> set c. e_generation (e_rows (rg_entries g1) ! i) \<noteq> -1"
  proof
    fix i
    assume "i \<in> set c"
    then have "i \<noteq> j" "e_generation (e_rows ?ents ! i) \<noteq> -1" using jc Cons.prems(7) by auto
    then show "e_generation (e_rows (rg_entries g1) ! i) \<noteq> -1" by (simp add: g1_def rows1)
  qed
  have len1: "length (e_rows (rg_entries g1)) = length (e_rows ?ents)" by (simp add: g1_def rows1)
  have step: "release_chain n h g = release_chain m (e_successor (e_rows ?ents ! j)) g1"
    using h t(1) ix1 rel hj by (simp add: n entry_ref_def g1_def)
  obtain ix ents where ih: "release_chain m (e_successor (e_rows ?ents ! j)) g1 = (g1\<lparr>rg_tokens := ix, rg_entries := ents\<rparr>, True)"
    "tokens_ok K ix ents" "view_inv (entry_view ents)" "length (slots ix) = length (slots (rg_tokens g1))"
    "length (e_rows ents) = length (e_rows (rg_entries g1))" "live_entries ents = live_entries (rg_entries g1) - set c"
    "\<forall>i. i \<notin> set c \<longrightarrow> e_rows ents ! i = e_rows (rg_entries g1) ! i"
    "\<forall>i \<in> set c. e_generation (e_rows ents ! i) = e_generation (e_rows (rg_entries g1) ! i) + 1 \<and>
      idle_entry (e_rows ents ! i)" "map_le (index_map ix) (index_map (rg_tokens g1))"
    using Cons.IH [of g1 "e_successor (e_rows ?ents ! j)" m] tok1 ent(1) chain1 jc(2) sub1 gen1 len1 Cons.prems(6,8) n
    by (auto simp: g1_def)
  show ?case
  proof (intro exI conjI)
    show "release_chain n h g = (g\<lparr>rg_tokens := ix, rg_entries := ents\<rparr>, True)" using step ih(1) by (simp add: g1_def)
    have "map_le (index_map ix1) (index_map ?ix)" unfolding del(2) by (simp add: map_le_def)
    then show "map_le (index_map ix) (index_map ?ix)" using ih(9) map_le_trans by (simp add: g1_def) blast
    show "length (slots ix) = length (slots ?ix)" using ih(4) del(3) by (simp add: g1_def)
    show "length (e_rows ents) = length (e_rows ?ents)" using ih(5) len1 by simp
    show "live_entries ents = live_entries ?ents - set (j # c)" using ih(6) live1 by (auto simp: g1_def)
    show "\<forall>i. i \<notin> set (j # c) \<longrightarrow> e_rows ents ! i = e_rows ?ents ! i" using ih(7) by (simp add: g1_def rows1)
    show "\<forall>i \<in> set (j # c). e_generation (e_rows ents ! i) = e_generation (e_rows ?ents ! i) + 1 \<and>
      idle_entry (e_rows ents ! i)"
    proof
      fix i
      assume "i \<in> set (j # c)"
      then consider "i = j" | "i \<in> set c" "i \<noteq> j" using jc by auto
      then show "e_generation (e_rows ents ! i) = e_generation (e_rows ?ents ! i) + 1 \<and> idle_entry (e_rows ents ! i)"
      proof cases
        case 1
        then show ?thesis using ih(7) jc(1) jb rows1 by (simp add: g1_def)
      next
        case 2
        then show ?thesis using ih(8) rows1 by (simp add: g1_def)
      qed
    qed
  qed (use ih in auto)
qed

section \<open>The invariant\<close>

definition ids_ok :: "keyed \<Rightarrow> lineageIndex \<Rightarrow> lineage_arena \<Rightarrow> nat list \<Rightarrow> bool" where
  "ids_ok K ix lins ls \<longleftrightarrow> index_inv (km_lineage K) ix \<and>
    (\<forall>k i. index_map ix k = Some i \<longleftrightarrow> (\<exists>l \<in> set ls. i = of_nat l \<and> l_id (l_rows lins ! l) = k))"

definition lineage_ok :: "entry_arena \<Rightarrow> lineage_arena \<Rightarrow> (nat \<Rightarrow> nat list) \<Rightarrow> nat \<Rightarrow> bool" where
  "lineage_ok ents lins pages l \<longleftrightarrow>
    free_chain (map e_successor (e_rows ents)) (l_entryHead (l_rows lins ! l)) (pages l) \<and>
    distinct (pages l) \<and> pages l \<noteq> [] \<and>
    (\<forall>e \<in> set (pages l). e \<in> live_entries ents \<and> e_lineage (e_rows ents ! e) = of_nat l) \<and>
    unat (l_resident (l_rows lins ! l)) + unat (l_tombstones (l_rows lins ! l)) = length (pages l)"

definition slots_held :: "lineage_arena \<Rightarrow> (nat \<Rightarrow> nat list) \<Rightarrow> nat \<Rightarrow> nat" where
  "slots_held lins pages l = length (pages l) + unat (l_reservedSlots (l_rows lins ! l))"

definition bytes_held :: "lineage_arena \<Rightarrow> nat \<Rightarrow> nat" where
  "bytes_held lins l = unat (l_dynamicBytes (l_rows lins ! l))"

definition sizes_ok :: "registry \<Rightarrow> bool" where
  "sizes_ok g \<longleftrightarrow> (let m = unat (MaxEntries (rg_layout g)) in
    0 < m \<and> length (e_rows (rg_entries g)) = m \<and> length (l_rows (rg_lineages g)) = m \<and>
    2 * m \<le> length (slots (rg_tokens g)) \<and> length (slots (rg_ids g)) = length (slots (rg_tokens g)))"

definition accounts_ok :: "registry \<Rightarrow> nat list \<Rightarrow> (nat \<Rightarrow> nat list) \<Rightarrow> bool" where
  "accounts_ok g ls pages \<longleftrightarrow>
    unat (rg_used g) = (\<Sum>l\<leftarrow>ls. slots_held (rg_lineages g) pages l) \<and>
    unat (rg_used g) \<le> unat (MaxEntries (rg_layout g)) \<and>
    unat (rg_total g) = unat (rg_base g) + (\<Sum>l\<leftarrow>ls. bytes_held (rg_lineages g) l) \<and>
    unat (rg_total g) \<le> unat (CursorMaxTotalBytes (rg_cfg g))"

text \<open>A free row has no pins and no tombstones.\<close>

definition idle_rows :: "lineage_arena \<Rightarrow> bool" where
  "idle_rows lins \<longleftrightarrow> (\<forall>j < length (l_rows lins). l_occupied (l_rows lins ! j) = 0 \<longrightarrow>
    l_pins (l_rows lins ! j) = 0 \<and> l_tombstones (l_rows lins ! j) = 0)"

definition registry_inv :: "keyed \<Rightarrow> registry \<Rightarrow> nat list \<Rightarrow> (nat \<Rightarrow> nat list) \<Rightarrow> bool" where
  "registry_inv K g ls pages \<longleftrightarrow>
    sizes_ok g \<and> view_inv (entry_view (rg_entries g)) \<and> view_inv (lineage_view (rg_lineages g)) \<and>
    lru_list (rg_lineages g) ls \<and> set ls = live_lineages (rg_lineages g) \<and>
    tokens_ok K (rg_tokens g) (rg_entries g) \<and> ids_ok K (rg_ids g) (rg_lineages g) ls \<and>
    (\<forall>l \<in> set ls. lineage_ok (rg_entries g) (rg_lineages g) pages l) \<and>
    live_entries (rg_entries g) = (\<Union>l \<in> set ls. set (pages l)) \<and>
    accounts_ok g ls pages \<and>
    (\<forall>l \<in> set ls. unat (l_id (l_rows (rg_lineages g) ! l)) \<le> unat (rg_nextID g)) \<and>
    idle_rows (rg_lineages g) \<and>
    (\<forall>l \<in> set ls. unat (l_reservedBytes (l_rows (rg_lineages g) ! l)) \<le> bytes_held (rg_lineages g) l) \<and>
    idle_entries (rg_entries g)"

text \<open>No row has been reused more than \<open>n\<close> times.\<close>

definition reused_at_most :: "nat \<Rightarrow> registry \<Rightarrow> bool" where
  "reused_at_most n g \<longleftrightarrow> (\<forall>w \<in> set (e_rows (rg_entries g)). unat (e_generation w) \<le> Suc n) \<and>
    (\<forall>w \<in> set (l_rows (rg_lineages g)). unat (l_generation w) \<le> Suc n)"

lemma sizes_okD:
  assumes "registry_inv K g ls pages"
  shows "unat (MaxEntries (rg_layout g)) < 4294967295" "length (e_rows (rg_entries g)) = unat (MaxEntries (rg_layout g))"
    "length (l_rows (rg_lineages g)) = unat (MaxEntries (rg_layout g))" "length (slots (rg_ids g)) = length (slots (rg_tokens g))"
    "unat (MaxEntries (rg_layout g)) < length (slots (rg_tokens g))" "0 < unat (MaxEntries (rg_layout g))"
proof -
  have t: "table_len (slots (rg_tokens g))" using assms by (simp add: registry_inv_def tokens_ok_def index_inv_def)
  have s: "sizes_ok g" using assms by (simp add: registry_inv_def)
  then show "length (e_rows (rg_entries g)) = unat (MaxEntries (rg_layout g))"
    "length (l_rows (rg_lineages g)) = unat (MaxEntries (rg_layout g))" "length (slots (rg_ids g)) = length (slots (rg_tokens g))"
    "unat (MaxEntries (rg_layout g)) < length (slots (rg_tokens g))" "0 < unat (MaxEntries (rg_layout g))"
    by (auto simp: sizes_ok_def Let_def)
  then show "unat (MaxEntries (rg_layout g)) < 4294967295" using table_len_le [OF t] by simp
qed

lemma free_chain_cong:
  "(\<And>i. i \<in> set is \<Longrightarrow> nxt ! i = nxt' ! i) \<Longrightarrow> free_chain nxt h is = free_chain nxt' h is"
  by (induction "is" arbitrary: h) auto

lemma lineage_ok_cong:
  assumes "lineage_ok ents lins pages l"
    "\<And>e. e \<in> set (pages l) \<Longrightarrow> e_rows ents' ! e = e_rows ents ! e \<and> e \<in> live_entries ents' \<and> e < length (e_rows ents)"
    "l_entryHead (l_rows lins' ! l) = l_entryHead (l_rows lins ! l)"
    "unat (l_resident (l_rows lins' ! l)) + unat (l_tombstones (l_rows lins' ! l)) =
      unat (l_resident (l_rows lins ! l)) + unat (l_tombstones (l_rows lins ! l))" "pages' l = pages l"
  shows "lineage_ok ents' lins' pages' l"
proof -
  have "free_chain (map e_successor (e_rows ents')) h (pages l) = free_chain (map e_successor (e_rows ents)) h (pages l)" for h
  proof (rule free_chain_cong)
    fix e
    assume e: "e \<in> set (pages l)"
    then have "e < length (e_rows ents')" using assms(2) by (simp add: live_entries_iff)
    then show "map e_successor (e_rows ents') ! e = map e_successor (e_rows ents) ! e" using assms(2) [OF e] by simp
  qed
  then show ?thesis using assms by (auto simp: lineage_ok_def)
qed

lemma pages_disjoint:
  assumes "registry_inv K g ls pages" "l \<in> set ls" "l' \<in> set ls" "l \<noteq> l'"
  shows "set (pages l) \<inter> set (pages l') = {}"
proof (rule ccontr)
  assume "set (pages l) \<inter> set (pages l') \<noteq> {}"
  then obtain e where e: "e \<in> set (pages l)" "e \<in> set (pages l')" by auto
  have o: "lineage_ok (rg_entries g) (rg_lineages g) pages l" "lineage_ok (rg_entries g) (rg_lineages g) pages l'"
    using assms(1-3) by (simp_all add: registry_inv_def)
  have lr: "lru_list (rg_lineages g) ls" using assms(1) by (simp add: registry_inv_def)
  have "(of_nat l :: arenaRef) = of_nat l'" using o e by (auto simp: lineage_ok_def)
  then show False using assms(4) lru_list_rows(2) [OF lr assms(2)] lru_list_rows(2) [OF lr assms(3)] by metis
qed

section \<open>Removing a lineage\<close>

lemma unat_ucast_up: "unat (ucast (x :: uint32) :: uint64) = unat x"
  by (simp add: unsigned_ucast_eq take_bit_nat_eq_self_iff order.strict_trans [OF unat_less_32])

lemma sum_list_split: "(\<Sum>l\<leftarrow>ys @ x # zs. f l) = f x + (\<Sum>l\<leftarrow>ys @ zs. (f l :: nat))"
  by simp

lemma registry_inv_slots:
  assumes "registry_inv K g ls pages" "l \<in> set ls"
  shows "slots_held (rg_lineages g) pages l \<le> unat (rg_used g)" "bytes_held (rg_lineages g) l \<le> unat (rg_total g) - unat (rg_base g)"
    "unat (rg_base g) \<le> unat (rg_total g)"
    "unat (ucast (l_resident (l_rows (rg_lineages g) ! l)) + ucast (l_tombstones (l_rows (rg_lineages g) ! l)) +
      l_reservedSlots (l_rows (rg_lineages g) ! l) :: uint64) = slots_held (rg_lineages g) pages l"
    "unat (ucast (l_resident (l_rows (rg_lineages g) ! l)) + ucast (l_tombstones (l_rows (rg_lineages g) ! l)) :: uint64) =
      length (pages l)"
proof -
  have a: "accounts_ok g ls pages" and o: "lineage_ok (rg_entries g) (rg_lineages g) pages l"
    using assms by (simp_all add: registry_inv_def)
  have m: "slots_held (rg_lineages g) pages l \<le> (\<Sum>l\<leftarrow>ls. slots_held (rg_lineages g) pages l)"
    "bytes_held (rg_lineages g) l \<le> (\<Sum>l\<leftarrow>ls. bytes_held (rg_lineages g) l)"
    using assms(2) by (auto intro!: member_le_sum_list)
  then show s: "slots_held (rg_lineages g) pages l \<le> unat (rg_used g)" "bytes_held (rg_lineages g) l \<le> unat (rg_total g) - unat (rg_base g)"
    "unat (rg_base g) \<le> unat (rg_total g)"
    using a by (simp_all add: accounts_ok_def)
  have small: "slots_held (rg_lineages g) pages l < 4294967295"
    using s(1) a sizes_okD(1) [OF assms(1)] by (simp add: accounts_ok_def)
  let ?w = "l_rows (rg_lineages g) ! l"
  have p: "unat (l_resident ?w) + unat (l_tombstones ?w) = length (pages l)" using o by (simp add: lineage_ok_def)
  have small': "length (pages l) + unat (l_reservedSlots ?w) < 4294967295" using small by (simp add: slots_held_def)
  show 1: "unat (ucast (l_resident ?w) + ucast (l_tombstones ?w) :: uint64) = length (pages l)"
    using p small' by (simp add: unat_word_ariths unat_ucast_up)
  show "unat (ucast (l_resident ?w) + ucast (l_tombstones ?w) + l_reservedSlots ?w :: uint64) = slots_held (rg_lineages g) pages l"
    using 1 small' by (simp add: unat_word_ariths(1) [of "ucast (l_resident ?w) + ucast (l_tombstones ?w)"] slots_held_def)
qed

text \<open>What a removal leaves alone.\<close>

definition removal_frame :: "registry \<Rightarrow> nat \<Rightarrow> (nat \<Rightarrow> nat list) \<Rightarrow> registry \<Rightarrow> bool" where
  "removal_frame g l pages g' \<longleftrightarrow>
    rg_cfg g' = rg_cfg g \<and> rg_layout g' = rg_layout g \<and> rg_base g' = rg_base g \<and> rg_closed g' = rg_closed g \<and>
    rg_nextID g' = rg_nextID g \<and> rg_comps g' = rg_comps g \<and>
    rg_closedRoots g' = rg_closedRoots g @
      (case l_root (l_rows (rg_lineages g) ! l) of None \<Rightarrow> [] | Some root_id \<Rightarrow> [root_id]) \<and>
    (\<forall>j < length (l_rows (rg_lineages g)). j \<noteq> l \<longrightarrow>
      unlinked (l_rows (rg_lineages g') ! j) = unlinked (l_rows (rg_lineages g) ! j)) \<and>
    (\<forall>e. e \<notin> set (pages l) \<longrightarrow> e_rows (rg_entries g') ! e = e_rows (rg_entries g) ! e) \<and>
    map_le (index_map (rg_tokens g')) (index_map (rg_tokens g))"

lemma lru_list_cong:
  assumes "lru_list a ls" "l_lruHead b = l_lruHead a" "l_lruTail b = l_lruTail a" "length (l_rows b) = length (l_rows a)"
    "\<And>j. j \<in> set ls \<Longrightarrow> l_lruPrev (l_rows b ! j) = l_lruPrev (l_rows a ! j) \<and> l_lruNext (l_rows b ! j) = l_lruNext (l_rows a ! j)"
  shows "lru_list b ls"
  using assms lseg_cong [of "l_rows b" "l_rows a" ls] by (simp add: lru_list_def)

lemma generation_step:
  assumes "unat (x :: uint32) \<le> Suc n" "n < 4294967294"
  shows "x \<noteq> -1" "unat (x + 1) \<le> Suc (Suc n)"
proof -
  show "x \<noteq> -1"
  proof
    assume "x = -1"
    then have "unat x = 4294967295" using unat_noRef by (simp add: noRef_def)
    then show False using assms by simp
  qed
  show "unat (x + 1) \<le> Suc (Suc n)" using assms by (simp add: unat_word_ariths)
qed

lemma lineage_release_exact:
  assumes "l < length (l_rows a)" "l < 4294967295" "l_occupied (l_rows a ! l) \<noteq> 0" "l_generation (l_rows a ! l) \<noteq> -1"
    "r = \<lparr>ref_index = of_nat l, ref_generation = l_generation (l_rows a ! l)\<rparr>"
  shows "lineage_valid a r" "lineage_release a r = Some (a\<lparr>l_rows := (l_rows a)[l :=
    blank_lineage_row (l_generation (l_rows a ! l) + 1) (l_freeHead a)], l_freeHead := of_nat l\<rparr>)"
proof -
  have "unat (of_nat l :: arenaRef) = l" using assms(2) by (rule unat_ref)
  then show "lineage_valid a r" "lineage_release a r = Some (a\<lparr>l_rows := (l_rows a)[l :=
    blank_lineage_row (l_generation (l_rows a ! l) + 1) (l_freeHead a)], l_freeHead := of_nat l\<rparr>)"
    using assms by (simp_all add: lineage_valid_def lineage_release_def Let_def)
qed

lemma live_counts:
  assumes "registry_inv K g ls pages"
  shows "unat (live (rg_tokens g)) = (\<Sum>l\<leftarrow>ls. length (pages l))" "unat (live (rg_ids g)) = length ls"
proof -
  have d: "distinct ls" and t: "tokens_ok K (rg_tokens g) (rg_entries g)" and i: "ids_ok K (rg_ids g) (rg_lineages g) ls"
    and le: "live_entries (rg_entries g) = (\<Union>l \<in> set ls. set (pages l))" and lr: "lru_list (rg_lineages g) ls"
    and lo: "\<And>l. l \<in> set ls \<Longrightarrow> lineage_ok (rg_entries g) (rg_lineages g) pages l"
    using assms by (simp_all add: registry_inv_def lru_list_def)
  have "unat (live (rg_tokens g)) = card (live_entries (rg_entries g))"
    using index_live(1) [of "km_token K" "rg_tokens g"] tokens_ok_card [OF t] t sizes_okD(1,2) [OF assms]
    by (simp add: tokens_ok_def)
  also have "\<dots> = (\<Sum>l \<in> set ls. card (set (pages l)))"
    unfolding le using pages_disjoint [OF assms] by (intro card_UN_disjoint) auto
  also have "\<dots> = (\<Sum>l \<in> set ls. length (pages l))"
    using lo by (intro sum.cong) (auto simp: lineage_ok_def distinct_card)
  also have "\<dots> = (\<Sum>l\<leftarrow>ls. length (pages l))" using d by (simp add: sum_list_distinct_conv_sum_set)
  finally show "unat (live (rg_tokens g)) = (\<Sum>l\<leftarrow>ls. length (pages l))" .
  have inv: "index_inv (km_lineage K) (rg_ids g)" using i by (simp add: ids_ok_def)
  have map_id: "index_map (rg_ids g) k = Some i \<longleftrightarrow> (\<exists>l \<in> set ls. i = of_nat l \<and> l_id (l_rows (rg_lineages g) ! l) = k)" for k i
    using i by (simp add: ids_ok_def)
  have "dom (index_map (rg_ids g)) = (\<lambda>l. l_id (l_rows (rg_lineages g) ! l)) ` set ls"
    using map_id by (auto simp: dom_def)
  moreover have "inj_on (\<lambda>l. l_id (l_rows (rg_lineages g) ! l)) (set ls)"
  proof (rule inj_onI)
    fix x y
    assume xy: "x \<in> set ls" "y \<in> set ls" "l_id (l_rows (rg_lineages g) ! x) = l_id (l_rows (rg_lineages g) ! y)"
    then have "index_map (rg_ids g) (l_id (l_rows (rg_lineages g) ! x)) = Some (of_nat x)"
      "index_map (rg_ids g) (l_id (l_rows (rg_lineages g) ! x)) = Some (of_nat y)" using map_id by auto
    then have "(of_nat x :: arenaRef) = of_nat y" by simp
    then show "x = y" using lru_list_rows(2) [OF lr xy(1)] lru_list_rows(2) [OF lr xy(2)] by metis
  qed
  ultimately have "card (dom (index_map (rg_ids g))) = card (set ls)" by (simp add: card_image)
  then show "unat (live (rg_ids g)) = length ls" using index_live(1) [OF inv] d by (simp add: distinct_card)
qed

lemma registry_invD:
  assumes "registry_inv K g ls pages"
  shows "sizes_ok g" "view_inv (entry_view (rg_entries g))" "view_inv (lineage_view (rg_lineages g))"
    "lru_list (rg_lineages g) ls" "set ls = live_lineages (rg_lineages g)"
    "tokens_ok K (rg_tokens g) (rg_entries g)" "ids_ok K (rg_ids g) (rg_lineages g) ls"
    "\<And>l. l \<in> set ls \<Longrightarrow> lineage_ok (rg_entries g) (rg_lineages g) pages l"
    "live_entries (rg_entries g) = (\<Union>l \<in> set ls. set (pages l))" "accounts_ok g ls pages"
    "\<And>l. l \<in> set ls \<Longrightarrow> unat (l_id (l_rows (rg_lineages g) ! l)) \<le> unat (rg_nextID g)"
    "distinct ls" "idle_rows (rg_lineages g)"
    "\<And>l. l \<in> set ls \<Longrightarrow> unat (l_reservedBytes (l_rows (rg_lineages g) ! l)) \<le> bytes_held (rg_lineages g) l"
    "idle_entries (rg_entries g)"
  using assms unfolding registry_inv_def lru_list_def by blast+

lemma registry_inv_row:
  assumes "registry_inv K g ls pages" "l \<in> set ls"
  shows "l < length (l_rows (rg_lineages g))" "unat (of_nat l :: arenaRef) = l" "l < 4294967295"
    "l_occupied (l_rows (rg_lineages g) ! l) \<noteq> 0" "length (pages l) \<le> unat (MaxEntries (rg_layout g))"
proof -
  show b: "l < length (l_rows (rg_lineages g))" "unat (of_nat l :: arenaRef) = l"
    using lru_list_rows [OF registry_invD(4) [OF assms(1)] assms(2)] by auto
  show "l < 4294967295" using b(1) sizes_okD(1,3) [OF assms(1)] by simp
  show "l_occupied (l_rows (rg_lineages g) ! l) \<noteq> 0"
    using assms(2) unfolding registry_invD(5) [OF assms(1)] live_lineages_iff by blast
  have "length (pages l) \<le> unat (rg_used g)"
    using registry_inv_slots(1) [OF assms] by (simp add: slots_held_def)
  then show "length (pages l) \<le> unat (MaxEntries (rg_layout g))"
    using registry_invD(10) [OF assms(1)] by (simp add: accounts_ok_def)
qed

text \<open>The state after a removal, given what the released indexes and arenas are.\<close>

definition removed ::
  "registry \<Rightarrow> nat \<Rightarrow> tokenIndex \<Rightarrow> lineageIndex \<Rightarrow> entry_arena \<Rightarrow> registry" where
  "removed g l ix ids ents =
    (let w = l_rows (rg_lineages g) ! l; lins = lruDetach (of_nat l) (rg_lineages g) in
     g\<lparr>rg_tokens := ix, rg_ids := ids, rg_entries := ents,
       rg_lineages := lins\<lparr>l_rows := (l_rows lins)[l := blank_lineage_row (l_generation w + 1) (l_freeHead lins)],
         l_freeHead := of_nat l\<rparr>,
       rg_used := rg_used g - (ucast (l_resident w) + ucast (l_tombstones w) + l_reservedSlots w),
       rg_total := rg_total g - l_dynamicBytes w,
       rg_closedRoots := rg_closedRoots g @ (case l_root w of None \<Rightarrow> [] | Some root_id \<Rightarrow> [root_id])\<rparr>)"

lemma removeLineage_shape:
  assumes inv: "registry_inv K g ls pages" and l: "l \<in> set ls" and pins: "l_pins (l_rows (rg_lineages g) ! l) = 0"
    and gen: "reused_at_most n g" "n < 4294967294"
  shows "\<exists>ix ids ents g'. g' = removed g l ix ids ents \<and>
    removeLineage K (lineage_ref g (of_nat l)) g = (if rg_closed g' \<and> live ids = 0 then releaseFixed g' else g', True) \<and>
    tokens_ok K ix ents \<and> view_inv (entry_view ents) \<and> length (slots ix) = length (slots (rg_tokens g)) \<and>
    length (e_rows ents) = length (e_rows (rg_entries g)) \<and>
    live_entries ents = live_entries (rg_entries g) - set (pages l) \<and>
    (\<forall>j. j \<notin> set (pages l) \<longrightarrow> e_rows ents ! j = e_rows (rg_entries g) ! j) \<and>
    (\<forall>j \<in> set (pages l). e_generation (e_rows ents ! j) = e_generation (e_rows (rg_entries g) ! j) + 1 \<and>
      idle_entry (e_rows ents ! j)) \<and>
    map_le (index_map ix) (index_map (rg_tokens g)) \<and>
    index_inv (km_lineage K) ids \<and> length (slots ids) = length (slots (rg_ids g)) \<and>
    index_map ids = (index_map (rg_ids g))(l_id (l_rows (rg_lineages g) ! l) := None)"
proof -
  let ?lins = "rg_lineages g" and ?ents = "rg_entries g" and ?i = "of_nat l :: arenaRef"
  let ?w = "l_rows ?lins ! l"
  let ?r = "lineage_ref g ?i"
  note D = registry_invD [OF inv] and sz = sizes_okD [OF inv] and R = registry_inv_row [OF inv l]
  have gl: "\<forall>w \<in> set (l_rows ?lins). l_generation w \<noteq> -1" "\<forall>w \<in> set (e_rows ?ents). e_generation w \<noteq> -1"
    using gen generation_step(1) by (auto simp: reused_at_most_def)
  have genl: "l_generation ?w \<noteq> -1" using gl(1) R(1) by auto
  have r: "?r = \<lparr>ref_index = ?i, ref_generation = l_generation ?w\<rparr>" using R(2) by (simp add: lineage_ref_def)
  have valid: "lineage_valid ?lins ?r" using lineage_release_exact(1) [OF R(1) R(3) R(4) genl] r by simp
  define held :: uint64 where "held = ucast (l_resident ?w) + ucast (l_tombstones ?w) + l_reservedSlots ?w"
  note sl = registry_inv_slots [OF inv l]
  have held: "unat held = slots_held ?lins pages l" unfolding held_def by (rule sl(4))
  have guards: "\<not> (held > rg_used g \<or> rg_total g < rg_base g \<or> l_dynamicBytes ?w > rg_total g - rg_base g)"
  proof -
    have "held \<le> rg_used g" "rg_base g \<le> rg_total g" using sl(1,3) held by (simp_all add: word_le_nat_alt)
    moreover from this have "l_dynamicBytes ?w \<le> rg_total g - rg_base g"
      using sl(2) by (simp add: word_le_nat_alt unat_sub bytes_held_def)
    ultimately show ?thesis by auto
  qed
  define lins1 where "lins1 = lruDetach ?i ?lins"
  define g1 where "g1 = g\<lparr>rg_lineages := lins1\<rparr>"
  let ?w1 = "l_rows lins1 ! l"
  have links1: "same_but_links lins1 ?lins" unfolding lins1_def by (rule lruDetach_same)
  have len1: "length (l_rows lins1) = length (l_rows ?lins)" by (rule same_but_links_row(1) [OF links1])
  note w1 = unlinked_fields [OF same_but_links_row(2) [OF links1 R(1)]]
  have lo: "lineage_ok ?ents ?lins pages l" by (rule D(8) [OF l])
  obtain ix ents where rc: "release_chain (unat (MaxEntries (rg_layout g1))) (l_entryHead ?w1) g1 =
      (g1\<lparr>rg_tokens := ix, rg_entries := ents\<rparr>, True)"
    and res: "tokens_ok K ix ents" "view_inv (entry_view ents)" "length (slots ix) = length (slots (rg_tokens g))"
    "length (e_rows ents) = length (e_rows ?ents)" "live_entries ents = live_entries ?ents - set (pages l)"
    "\<forall>j. j \<notin> set (pages l) \<longrightarrow> e_rows ents ! j = e_rows ?ents ! j"
    "\<forall>j \<in> set (pages l). e_generation (e_rows ents ! j) = e_generation (e_rows ?ents ! j) + 1 \<and>
      idle_entry (e_rows ents ! j)" "map_le (index_map ix) (index_map (rg_tokens g))"
  proof -
    have c: "free_chain (map e_successor (e_rows (rg_entries g1))) (l_entryHead ?w1) (pages l)" "distinct (pages l)"
      "set (pages l) \<subseteq> live_entries (rg_entries g1)"
      using lo w1(5) by (auto simp: lineage_ok_def g1_def)
    have k: "\<forall>j \<in> set (pages l). e_generation (e_rows (rg_entries g1) ! j) \<noteq> -1"
    proof
      fix j
      assume "j \<in> set (pages l)"
      then have "j < length (e_rows ?ents)" using c(3) by (auto simp: g1_def live_entries_iff)
      then show "e_generation (e_rows (rg_entries g1) ! j) \<noteq> -1" using gl(2) by (simp add: g1_def)
    qed
    have pre: "tokens_ok K (rg_tokens g1) (rg_entries g1)" "view_inv (entry_view (rg_entries g1))"
      "length (pages l) \<le> unat (MaxEntries (rg_layout g1))" "length (e_rows (rg_entries g1)) < 4294967295"
      using D(2,6) R(5) sz(1,2) by (simp_all add: g1_def)
    from release_chain_ok [OF pre(1,2) c pre(3) k pre(4)] show ?thesis
    proof (elim exE conjE)
      fix ix ents
      assume *: "release_chain (unat (MaxEntries (rg_layout g1))) (l_entryHead ?w1) g1 =
          (g1\<lparr>rg_tokens := ix, rg_entries := ents\<rparr>, True)" "tokens_ok K ix ents" "view_inv (entry_view ents)"
        "length (slots ix) = length (slots (rg_tokens g1))" "length (e_rows ents) = length (e_rows (rg_entries g1))"
        "live_entries ents = live_entries (rg_entries g1) - set (pages l)"
        "\<forall>j. j \<notin> set (pages l) \<longrightarrow> e_rows ents ! j = e_rows (rg_entries g1) ! j"
        "\<forall>j \<in> set (pages l). e_generation (e_rows ents ! j) = e_generation (e_rows (rg_entries g1) ! j) + 1 \<and>
          idle_entry (e_rows ents ! j)" "map_le (index_map ix) (index_map (rg_tokens g1))"
      show ?thesis by (rule that [OF *(1-3)]) (use *(4-) in \<open>simp_all add: g1_def\<close>)
    qed
  qed
  define g2 where "g2 = g1\<lparr>rg_tokens := ix, rg_entries := ents\<rparr>"
  have iinv: "index_inv (km_lineage K) (rg_ids g)" using D(7) by (simp add: ids_ok_def)
  have idl: "index_map (rg_ids g) (l_id ?w) = Some ?i" using D(7) l unfolding ids_ok_def by blast
  have home: "lineageHome K g2 (l_id ?w) = keyedHome (km_lineage K) (length (slots (rg_ids g))) (l_id ?w)"
    using res(3) sz(4) by (simp add: lineageHome_def g2_def g1_def)
  obtain ids where ids: "index_delete (rg_ids g) (l_id ?w) (lineageHome K g2 (l_id ?w)) = Some ids"
    using index_delete_None [OF iinv home] idl by (cases "index_delete (rg_ids g) (l_id ?w) (lineageHome K g2 (l_id ?w))") auto
  note del = index_delete_Some [OF iinv home ids]
  define blank where "blank = (blank_lineage_row (l_generation ?w + 1) (l_freeHead lins1) :: (nat, shared_alloc) lineage_row)"
  define lins2 where "lins2 = lins1\<lparr>l_rows := (l_rows lins1)[l := ?w1\<lparr>l_root := None\<rparr>]\<rparr>"
  define lins3 where "lins3 = lins1\<lparr>l_rows := (l_rows lins1)[l := blank], l_freeHead := ?i\<rparr>"
  have rel: "lineage_release lins2 ?r = Some lins3"
  proof -
    have lb: "l < length (l_rows lins1)" using R(1) len1 by simp
    have "lineage_release lins2 ?r = Some (lins2\<lparr>l_rows := (l_rows lins2)[l :=
      blank_lineage_row (l_generation (l_rows lins2 ! l) + 1) (l_freeHead lins2)], l_freeHead := ?i\<rparr>)"
      by (rule lineage_release_exact(2)) (use lb R(3,4) genl w1 r in \<open>simp_all add: lins2_def\<close>)
    then show ?thesis using lb w1(3) by (simp add: lins2_def lins3_def blank_def)
  qed
  define g' where "g' = removed g l ix ids ents"
  have g': "g' = g\<lparr>rg_tokens := ix, rg_ids := ids, rg_entries := ents, rg_lineages := lins3, rg_used := rg_used g - held,
      rg_total := rg_total g - l_dynamicBytes ?w,
      rg_closedRoots := rg_closedRoots g @ (case l_root ?w of None \<Rightarrow> [] | Some root_id \<Rightarrow> [root_id])\<rparr>"
    unfolding g'_def removed_def Let_def lins3_def blank_def held_def lins1_def by simp
  have step: "removeLineage K ?r g = (if rg_closed g' \<and> live ids = 0 then releaseFixed g' else g', True)"
  proof -
    have ri: "ref_index ?r = ?i" by (simp add: lineage_ref_def)
    have g5: "upd_lrow ?i (\<lambda>w. w\<lparr>l_root := None\<rparr>) (g2\<lparr>rg_ids := ids, rg_used := rg_used g - held,
      rg_total := rg_total g - l_dynamicBytes ?w\<rparr>) =
      g2\<lparr>rg_ids := ids, rg_used := rg_used g - held, rg_total := rg_total g - l_dynamicBytes ?w, rg_lineages := lins2\<rparr>"
      by (simp add: upd_lrow_def g2_def g1_def lins2_def R(2))
    have rows: "lrow g ?i = ?w" "lrow g1 ?i = ?w1" "lrow g2 ?i = ?w1" using R(2) by (simp_all add: g1_def g2_def)
    define g6 where "g6 = g2\<lparr>rg_ids := ids, rg_used := rg_used g - held, rg_total := rg_total g - l_dynamicBytes ?w,
      rg_lineages := lins3\<rparr>"
    have last: "(case l_root ?w of None \<Rightarrow> g6 | Some root_id \<Rightarrow> g6\<lparr>rg_closedRoots := rg_closedRoots g6 @ [root_id]\<rparr>) = g'"
      by (cases "l_root ?w") (simp_all add: g6_def g2_def g1_def g')
    have cl: "rg_closed g6 = rg_closed g" "rg_ids g6 = ids" "rg_ids g' = ids" by (simp_all add: g6_def g2_def g1_def g')
    have "removeLineage K ?r g = (let g7 = (case l_root ?w of None \<Rightarrow> g6 | Some root_id \<Rightarrow>
        g6\<lparr>rg_closedRoots := rg_closedRoots g6 @ [root_id]\<rparr>) in
      (if rg_closed g7 \<and> live (rg_ids g7) = 0 then releaseFixed g7 else g7, True))"
      unfolding removeLineage_def
      using valid pins guards rc ids rel g5 w1
      by (simp add: ri rows held_def [symmetric] upd_lineages_def lins1_def [symmetric] g1_def [symmetric] g2_def [symmetric]
          lineage_delete_def Let_def split_beta)
         (simp add: g2_def g1_def g6_def R(2) Let_def split: option.splits, blast)
    then show ?thesis unfolding last Let_def cl(3) .
  qed
  show ?thesis
    by (intro exI [of _ ix] exI [of _ ids] exI [of _ ents] exI [of _ g'] conjI)
       (use g'_def step res del in \<open>simp_all\<close>)
qed

lemma removed_fields:
  "rg_tokens (removed g l ix ids ents) = ix" "rg_ids (removed g l ix ids ents) = ids"
  "rg_entries (removed g l ix ids ents) = ents" "rg_cfg (removed g l ix ids ents) = rg_cfg g"
  "rg_layout (removed g l ix ids ents) = rg_layout g" "rg_base (removed g l ix ids ents) = rg_base g"
  "rg_closed (removed g l ix ids ents) = rg_closed g" "rg_nextID (removed g l ix ids ents) = rg_nextID g"
  "rg_comps (removed g l ix ids ents) = rg_comps g"
  by (simp_all add: removed_def Let_def)

lemma removed_lineages:
  fixes ix :: tokenIndex and ids :: lineageIndex and ents :: entry_arena
  assumes "registry_inv K g (ys @ l # zs) pages" "l_generation (l_rows (rg_lineages g) ! l) \<noteq> -1"
  defines "lins \<equiv> rg_lineages (removed g l ix ids ents)"
  shows "length (l_rows lins) = length (l_rows (rg_lineages g))" "lru_list lins (ys @ zs)" "view_inv (lineage_view lins)"
    "live_lineages lins = live_lineages (rg_lineages g) - {l}"
    "\<And>j. j < length (l_rows (rg_lineages g)) \<Longrightarrow> j \<noteq> l \<Longrightarrow> unlinked (l_rows lins ! j) = unlinked (l_rows (rg_lineages g) ! j)"
    "l_generation (l_rows lins ! l) = l_generation (l_rows (rg_lineages g) ! l) + 1"
    "l_pins (l_rows lins ! l) = 0" "l_tombstones (l_rows lins ! l) = 0"
proof -
  let ?lins = "rg_lineages g" and ?i = "of_nat l :: arenaRef"
  have lin: "l \<in> set (ys @ l # zs)" by simp
  note D = registry_invD [OF assms(1)] and R = registry_inv_row [OF assms(1) lin]
  define lins1 where "lins1 = lruDetach ?i ?lins"
  have links1: "same_but_links lins1 ?lins" unfolding lins1_def by (rule lruDetach_same)
  have len1: "length (l_rows lins1) = length (l_rows ?lins)" by (rule same_but_links_row(1) [OF links1])
  note w1 = unlinked_fields [OF same_but_links_row(2) [OF links1 R(1)]]
  have shape: "lins = lins1\<lparr>l_rows := (l_rows lins1)[l := blank_lineage_row (l_generation (l_rows lins1 ! l) + 1)
      (l_freeHead lins1)], l_freeHead := ?i\<rparr>"
    using w1(3) by (simp add: lins_def removed_def Let_def lins1_def)
  have l1: "l < length (l_rows lins1)" "l_occupied (l_rows lins1 ! l) \<noteq> 0" "l_generation (l_rows lins1 ! l) \<noteq> -1"
    using R(1,4) len1 w1 assms(2) by simp_all
  have rel: "lineage_release lins1 \<lparr>ref_index = ?i, ref_generation = l_generation (l_rows lins1 ! l)\<rparr> = Some lins"
    unfolding shape by (rule lineage_release_exact(2) [OF l1(1) R(3) l1(2,3) refl])
  have v1: "view_inv (lineage_view lins1)" unfolding lineage_view_links [OF links1] by (rule D(3))
  note rs = lineages.release_Some [OF v1 rel]
  show "view_inv (lineage_view lins)" by (rule rs(1))
  show "live_lineages lins = live_lineages ?lins - {l}"
    using rs(4) R(2) by (simp add: lineage_view_links [OF links1])
  show "length (l_rows lins) = length (l_rows ?lins)" by (simp add: shape len1)
  show "unlinked (l_rows lins ! j) = unlinked (l_rows ?lins ! j)" if "j < length (l_rows ?lins)" "j \<noteq> l" for j
    using same_but_links_row(2) [OF links1 that(1)] that by (simp add: shape)
  show "l_generation (l_rows lins ! l) = l_generation (l_rows ?lins ! l) + 1"
    "l_pins (l_rows lins ! l) = 0" "l_tombstones (l_rows lins ! l) = 0"
    using l1(1) w1(3) by (simp_all add: shape blank_lineage_row_def)
  have det: "lru_list lins1 (ys @ zs)" unfolding lins1_def by (rule lru_detach [OF D(4)])
  have "l \<notin> set (ys @ zs)" using D(12) by simp
  then have "l \<noteq> j" if "j \<in> set (ys @ zs)" for j using that by blast
  then show "lru_list lins (ys @ zs)"
    by (intro lru_list_cong [OF det]) (simp_all add: shape)
qed

lemma removed_inv:
  assumes inv: "registry_inv K g (ys @ l # zs) pages" and gen: "l_generation (l_rows (rg_lineages g) ! l) \<noteq> -1"
    and ents: "tokens_ok K ix ents" "view_inv (entry_view ents)" "length (slots ix) = length (slots (rg_tokens g))"
    "length (e_rows ents) = length (e_rows (rg_entries g))"
    "live_entries ents = live_entries (rg_entries g) - set (pages l)"
    "\<forall>j. j \<notin> set (pages l) \<longrightarrow> e_rows ents ! j = e_rows (rg_entries g) ! j"
    "\<forall>j \<in> set (pages l). idle_entry (e_rows ents ! j)"
    and ids: "index_inv (km_lineage K) ids" "length (slots ids) = length (slots (rg_ids g))"
    "index_map ids = (index_map (rg_ids g))(l_id (l_rows (rg_lineages g) ! l) := None)"
  shows "registry_inv K (removed g l ix ids ents) (ys @ zs) pages"
proof -
  define ls where "ls = ys @ zs"
  let ?g = "removed g l ix ids ents" and ?w = "l_rows (rg_lineages g) ! l"
  note D = registry_invD [OF inv] and L = removed_lineages [where ix = ix and ids = ids and ents = ents, OF inv gen] and F = removed_fields [of g l ix ids ents]
  have lin: "l \<in> set (ys @ l # zs)" by simp
  have ls: "set (ys @ l # zs) = insert l (set ls)" "l \<notin> set ls" "distinct ls" using D(12) by (auto simp: ls_def)
  have sub: "x \<in> set (ys @ l # zs)" "x \<noteq> l" "x < length (l_rows (rg_lineages g))" if "x \<in> set ls" for x
    using that ls registry_inv_row(1) [OF inv, of x] by auto
  note U = unlinked_fields [OF L(5)]
  show ?thesis
    unfolding registry_inv_def F ls_def [symmetric]
  proof (intro conjI ballI)
    show "sizes_ok ?g" using D(1) ents(3,4) ids(2) L(1) by (simp add: sizes_ok_def Let_def F)
    show "view_inv (entry_view ents)" by (rule ents(2))
    show "view_inv (lineage_view (rg_lineages ?g))" by (rule L(3))
    show "lru_list (rg_lineages ?g) ls" unfolding ls_def by (rule L(2))
    show "set ls = live_lineages (rg_lineages ?g)" using L(4) D(5) ls by auto
    show "tokens_ok K ix ents" by (rule ents(1))
    show "ids_ok K ids (rg_lineages ?g) ls"
      unfolding ids_ok_def
    proof (intro conjI allI)
      show "index_inv (km_lineage K) ids" by (rule ids(1))
      fix k i
      have old: "index_map (rg_ids g) k = Some i \<longleftrightarrow>
          (\<exists>x \<in> insert l (set ls). i = of_nat x \<and> l_id (l_rows (rg_lineages g) ! x) = k)" for k i
        using D(7) unfolding ids_ok_def ls(1) by blast
      have idl: "index_map (rg_ids g) (l_id ?w) = Some (of_nat l)" using old by blast
      have other: "l_id (l_rows (rg_lineages g) ! x) \<noteq> l_id ?w" if "x \<in> set ls" for x
      proof
        assume "l_id (l_rows (rg_lineages g) ! x) = l_id ?w"
        then have "index_map (rg_ids g) (l_id ?w) = Some (of_nat x)" using old that by blast
        then have "(of_nat x :: arenaRef) = of_nat l" using idl by simp
        then show False
          using sub(2) [OF that] registry_inv_row(2) [OF inv sub(1) [OF that]] registry_inv_row(2) [OF inv lin] by metis
      qed
      have new: "l_id (l_rows (rg_lineages ?g) ! x) = l_id (l_rows (rg_lineages g) ! x)" if "x \<in> set ls" for x
        using U(9) sub [OF that] by blast
      show "index_map ids k = Some i \<longleftrightarrow> (\<exists>x \<in> set ls. i = of_nat x \<and> l_id (l_rows (rg_lineages ?g) ! x) = k)"
      proof (cases "k = l_id ?w")
        case True
        then show ?thesis using other new by (auto simp: ids(3))
      next
        case False
        then have "index_map ids k = index_map (rg_ids g) k" by (simp add: ids(3))
        then show ?thesis using old [of k i] new False by auto
      qed
    qed
    show "lineage_ok ents (rg_lineages ?g) pages x" if x: "x \<in> set ls" for x
    proof (rule lineage_ok_cong [OF D(8) [OF sub(1) [OF x]]])
      fix e
      assume e: "e \<in> set (pages x)"
      then have "e \<notin> set (pages l)" using pages_disjoint [OF inv sub(1) [OF x] lin sub(2) [OF x]] by blast
      moreover have "e \<in> live_entries (rg_entries g)" using D(8) [OF sub(1) [OF x]] e by (simp add: lineage_ok_def)
      ultimately show "e_rows ents ! e = e_rows (rg_entries g) ! e \<and> e \<in> live_entries ents \<and> e < length (e_rows (rg_entries g))"
        using ents(5,6) live_entries_iff by blast
    qed (use U sub [OF x] in simp_all)
    show "live_entries ents = (\<Union>x \<in> set ls. set (pages x))"
    proof -
      have "live_entries (rg_entries g) = set (pages l) \<union> (\<Union>x \<in> set ls. set (pages x))" using D(9) unfolding ls(1) by simp
      moreover have "set (pages l) \<inter> (\<Union>x \<in> set ls. set (pages x)) = {}"
        using pages_disjoint [OF inv lin] sub by blast
      ultimately show ?thesis using ents(5) by blast
    qed
    show "accounts_ok ?g ls pages"
    proof -
      note sl = registry_inv_slots [OF inv lin]
      have eq: "slots_held (rg_lineages ?g) pages x = slots_held (rg_lineages g) pages x"
        "bytes_held (rg_lineages ?g) x = bytes_held (rg_lineages g) x" if "x \<in> set ls" for x
        using U sub [OF that] by (simp_all add: slots_held_def bytes_held_def)
      have s: "(\<Sum>x\<leftarrow>ls. slots_held (rg_lineages ?g) pages x) = (\<Sum>x\<leftarrow>ls. slots_held (rg_lineages g) pages x)"
        "(\<Sum>x\<leftarrow>ls. bytes_held (rg_lineages ?g) x) = (\<Sum>x\<leftarrow>ls. bytes_held (rg_lineages g) x)"
        by (intro arg_cong [where f = sum_list] map_cong refl eq, assumption)+
      have u: "unat (rg_used ?g) = unat (rg_used g) - slots_held (rg_lineages g) pages l"
        "unat (rg_total ?g) = unat (rg_total g) - bytes_held (rg_lineages g) l"
        unfolding removed_def Let_def
        using sl by (simp_all add: unat_sub word_le_nat_alt bytes_held_def)
      show ?thesis
        using D(10) [unfolded accounts_ok_def sum_list_split, folded ls_def] sl(1,2,3)
        unfolding accounts_ok_def F s u by simp
    qed
    show "unat (l_id (l_rows (rg_lineages ?g) ! x)) \<le> unat (rg_nextID g)" if "x \<in> set ls" for x
      using U(9) sub [OF that] D(11) by simp
    show "idle_entries ents"
      unfolding idle_entries_def
    proof (intro ballI impI)
      fix w
      assume "w \<in> set (e_rows ents)" and free: "e_occupied w = 0"
      then obtain j where j: "j < length (e_rows (rg_entries g))" "w = e_rows ents ! j"
        using ents(4) by (auto simp: in_set_conv_nth)
      show "idle_entry w"
        using j ents(6,7) free D(15) by (cases "j \<in> set (pages l)") (auto simp: idle_entries_def)
    qed
    show "idle_rows (rg_lineages ?g)"
      unfolding idle_rows_def L(1)
    proof (intro allI impI)
      fix j
      assume j: "j < length (l_rows (rg_lineages g))" "l_occupied (l_rows (rg_lineages ?g) ! j) = 0"
      show "l_pins (l_rows (rg_lineages ?g) ! j) = 0 \<and> l_tombstones (l_rows (rg_lineages ?g) ! j) = 0"
        using j L(7,8) unlinked_fields(1,6,8) [OF L(5) [OF j(1)]] D(13) by (cases "j = l") (auto simp: idle_rows_def)
    qed
    show "unat (l_reservedBytes (l_rows (rg_lineages ?g) ! x)) \<le> bytes_held (rg_lineages ?g) x" if x: "x \<in> set ls" for x
      using U(15,16) [OF sub(3) [OF x] sub(2) [OF x]] D(14) [OF sub(1) [OF x]] by (simp add: bytes_held_def)
  qed
qed

lemma removeLineage_ok:
  assumes inv: "registry_inv K g (ys @ l # zs) pages" and pins: "l_pins (l_rows (rg_lineages g) ! l) = 0"
    and gen: "reused_at_most n g" "n < 4294967294"
  shows "\<exists>g'. removeLineage K (lineage_ref g (of_nat l)) g =
      (if rg_closed g \<and> ys @ zs = [] then releaseFixed g' else g', True) \<and>
    registry_inv K g' (ys @ zs) pages \<and> reused_at_most (Suc n) g' \<and> removal_frame g l pages g'"
proof -
  have lin: "l \<in> set (ys @ l # zs)" by simp
  obtain ix ids ents g' where g': "g' = removed g l ix ids ents"
    and step: "removeLineage K (lineage_ref g (of_nat l)) g = (if rg_closed g' \<and> live ids = 0 then releaseFixed g' else g', True)"
    and e: "tokens_ok K ix ents" "view_inv (entry_view ents)" "length (slots ix) = length (slots (rg_tokens g))"
    "length (e_rows ents) = length (e_rows (rg_entries g))"
    "live_entries ents = live_entries (rg_entries g) - set (pages l)"
    "\<forall>j. j \<notin> set (pages l) \<longrightarrow> e_rows ents ! j = e_rows (rg_entries g) ! j"
    "\<forall>j \<in> set (pages l). e_generation (e_rows ents ! j) = e_generation (e_rows (rg_entries g) ! j) + 1 \<and>
      idle_entry (e_rows ents ! j)" "map_le (index_map ix) (index_map (rg_tokens g))"
    and i: "index_inv (km_lineage K) ids" "length (slots ids) = length (slots (rg_ids g))"
    "index_map ids = (index_map (rg_ids g))(l_id (l_rows (rg_lineages g) ! l) := None)"
    using removeLineage_shape [OF inv lin pins gen] by (elim exE conjE)
  have R: "l < length (l_rows (rg_lineages g))" by (rule registry_inv_row(1) [OF inv lin])
  have "unat (l_generation (l_rows (rg_lineages g) ! l)) \<le> Suc n" using gen(1) R by (simp add: reused_at_most_def)
  then have gl: "l_generation (l_rows (rg_lineages g) ! l) \<noteq> -1" using gen(2) by (rule generation_step(1))
  have idle: "\<forall>j \<in> set (pages l). idle_entry (e_rows ents ! j)" using e(7) by blast
  have inv': "registry_inv K g' (ys @ zs) pages" unfolding g' by (rule removed_inv [OF inv gl e(1-6) idle i])
  note L = removed_lineages [where ix = ix and ids = ids and ents = ents, OF inv gl, folded g'] and F = removed_fields [of g l ix ids ents, folded g']
  have "unat (live ids) = length (ys @ zs)" using live_counts(2) [OF inv'] F by simp
  then have "live ids = 0 \<longleftrightarrow> ys @ zs = []" by (metis length_0_conv unat_eq_zero)
  then have step': "removeLineage K (lineage_ref g (of_nat l)) g = (if rg_closed g \<and> ys @ zs = [] then releaseFixed g' else g', True)"
    using step F by simp
  have "reused_at_most (Suc n) g'"
    unfolding reused_at_most_def F
  proof (intro conjI ballI)
    fix w
    assume "w \<in> set (e_rows ents)"
    then obtain j where j: "j < length (e_rows ents)" "w = e_rows ents ! j" by (auto simp: in_set_conv_nth)
    have old: "unat (e_generation (e_rows (rg_entries g) ! j)) \<le> Suc n"
      using gen(1) j(1) e(4) by (simp add: reused_at_most_def)
    show "unat (e_generation w) \<le> Suc (Suc n)"
      using old j e(6,7) generation_step(2) [OF old gen(2)] by (cases "j \<in> set (pages l)") auto
  next
    fix w
    assume "w \<in> set (l_rows (rg_lineages g'))"
    then obtain j where j: "j < length (l_rows (rg_lineages g))" "w = l_rows (rg_lineages g') ! j"
      using L(1) by (auto simp: in_set_conv_nth)
    have old: "unat (l_generation (l_rows (rg_lineages g) ! j)) \<le> Suc n"
      using gen(1) j(1) by (simp add: reused_at_most_def)
    show "unat (l_generation w) \<le> Suc (Suc n)"
      using old j L(6) unlinked_fields(3) [OF L(5) [OF j(1)]] generation_step(2) [OF old gen(2)] by (cases "j = l") auto
  qed
  moreover have "removal_frame g l pages g'"
    unfolding removal_frame_def F
    using L(5) e(6,8) by (simp add: g' removed_def Let_def)
  ultimately show ?thesis using step' inv' by blast
qed

end
