(* ===== verification/CursorEviction.thy ===== *)
theory CursorEviction
  imports CursorInvariant
begin

text \<open>
  Eviction and admission of new lineages.  When \<open>canAdmitWithEviction\<close> says that a lineage can be admitted, the
  loop that evicts ends, removes the least recently used lineages that may be evicted and nothing else, stops as
  soon as the new lineage fits, and keeps the invariant; then both claims and both inserts succeed.
\<close>

section \<open>The budget test\<close>

abbreviation room :: "registry \<Rightarrow> nat list \<Rightarrow> (nat \<Rightarrow> nat list) \<Rightarrow> uint64 \<Rightarrow> uint64 \<Rightarrow> bool" where
  "room g ls pages ds db \<equiv>
    unat (rg_used g) + unat ds \<le> unat (MaxEntries (rg_layout g)) \<and>
    unat (rg_total g) + unat db \<le> unat (CursorMaxTotalBytes (rg_cfg g)) \<and>
    (\<Sum>l\<leftarrow>ls. length (pages l)) < unat (MaxEntries (rg_layout g)) \<and> length ls < unat (MaxEntries (rg_layout g))"

lemma budget_left: "\<not> (d > m \<or> u > m - d) \<longleftrightarrow> unat u + unat d \<le> unat (m :: uint64)"
  by (auto simp: word_le_nat_alt word_less_nat_alt unat_sub not_less)

lemma fitsValues_iff:
  "fitsValues g used tot tk li ds db \<longleftrightarrow> unat used + unat ds \<le> unat (MaxEntries (rg_layout g)) \<and>
    unat tot + unat db \<le> unat (CursorMaxTotalBytes (rg_cfg g)) \<and> tk < MaxEntries (rg_layout g) \<and> li < MaxEntries (rg_layout g)"
  unfolding fitsValues_def Let_def budget_left [symmetric] by (simp only: if_bool_eq_conj) blast

lemma fits_iff:
  assumes "registry_inv K g ls pages"
  shows "fits g ds db \<longleftrightarrow> room g ls pages ds db"
  unfolding fits_def fitsValues_iff
  using live_counts [OF assms] by (simp add: word_less_nat_alt unat_ucast_up)

section \<open>The eviction loop\<close>

lemma find_append_None: "find P xs = None \<Longrightarrow> find P (xs @ ys) = find P ys"
  by (induction xs) (auto split: if_splits)

abbreviation may_evict :: "registry \<Rightarrow> int64 \<Rightarrow> arenaRef \<Rightarrow> nat \<Rightarrow> bool" where
  "may_evict g now exclude x \<equiv> of_nat x \<noteq> exclude \<and> evictable g (of_nat x) now"

lemma evictable_cong:
  assumes "unlinked (l_rows (rg_lineages g') ! x) = unlinked (l_rows (rg_lineages g) ! x)" "unat (of_nat x :: arenaRef) = x"
    "length (l_rows (rg_lineages g')) = length (l_rows (rg_lineages g))"
  shows "evictable g' (of_nat x) now \<longleftrightarrow> evictable g (of_nat x) now"
  using unlinked_fields [OF assms(1)] assms(2,3) by (simp add: evictable_def)

lemma registry_inv_tail:
  assumes "registry_inv K g ls pages"
  shows "eligibleLRUTail g now exclude =
    (case find (may_evict g now exclude) (rev ls) of None \<Rightarrow> noRef | Some x \<Rightarrow> of_nat x)"
proof -
  note D = registry_invD [OF assms]
  have l: "lseg (l_rows (rg_lineages g)) (l_lruHead (rg_lineages g)) noRef ls (l_lruTail (rg_lineages g)) noRef"
    using D(4) by (simp add: lru_list_def)
  have b: "\<forall>x \<in> set ls. x < 4294967295" using registry_inv_row(3) [OF assms] by blast
  have "set ls \<subseteq> {..<length (l_rows (rg_lineages g))}" using registry_inv_row(1) [OF assms] by auto
  then have "card (set ls) \<le> length (l_rows (rg_lineages g))" using card_mono [of "{..<length (l_rows (rg_lineages g))}"] by simp
  then have n: "length ls \<le> unat (MaxEntries (rg_layout g))" using D(12) sizes_okD(3) [OF assms] by (simp add: distinct_card)
  show ?thesis
    unfolding eligibleLRUTail_def lru_tail [OF D(4)] using lru_tail_walk [OF l b n] .
qed

text \<open>What the eviction leaves alone: the configuration, the rows of the lineages that stay, and their entries.\<close>

definition rows_kept :: "registry \<Rightarrow> nat list \<Rightarrow> (nat \<Rightarrow> nat list) \<Rightarrow> registry \<Rightarrow> bool" where
  "rows_kept g ls pages g' \<longleftrightarrow>
    rg_cfg g' = rg_cfg g \<and> rg_layout g' = rg_layout g \<and> rg_base g' = rg_base g \<and> rg_closed g' = rg_closed g \<and>
    rg_nextID g' = rg_nextID g \<and> rg_comps g' = rg_comps g \<and>
    length (l_rows (rg_lineages g')) = length (l_rows (rg_lineages g)) \<and>
    (\<forall>x \<in> set ls. unlinked (l_rows (rg_lineages g') ! x) = unlinked (l_rows (rg_lineages g) ! x) \<and>
      (\<forall>e \<in> set (pages x). e_rows (rg_entries g') ! e = e_rows (rg_entries g) ! e)) \<and>
    map_le (index_map (rg_tokens g')) (index_map (rg_tokens g))"

lemma rows_kept_refl: "rows_kept g ls pages g"
  by (simp add: rows_kept_def)

lemma rows_kept_trans: "rows_kept g ls pages g' \<Longrightarrow> rows_kept g' ls pages g'' \<Longrightarrow> rows_kept g ls pages g''"
  by (simp add: rows_kept_def) (blast intro: map_le_trans)

lemma rows_kept_subset: "rows_kept g ls pages g' \<Longrightarrow> set ls' \<subseteq> set ls \<Longrightarrow> rows_kept g ls' pages g'"
  by (auto simp: rows_kept_def)

lemma may_evict_kept:
  assumes "rows_kept g ls pages g'" "x \<in> set ls" "unat (of_nat x :: arenaRef) = x"
  shows "may_evict g' now exclude x \<longleftrightarrow> may_evict g now exclude x"
proof -
  have "unlinked (l_rows (rg_lineages g') ! x) = unlinked (l_rows (rg_lineages g) ! x)"
    "length (l_rows (rg_lineages g')) = length (l_rows (rg_lineages g))"
    using assms(1,2) unfolding rows_kept_def by blast+
  then show ?thesis using evictable_cong assms(3) by metis
qed

lemma removal_kept:
  assumes "registry_inv K g (ys @ l # zs) pages" "registry_inv K g' (ys @ zs) pages" "removal_frame g l pages g'"
  shows "rows_kept g (ys @ zs) pages g'"
proof -
  have len: "length (l_rows (rg_lineages g')) = length (l_rows (rg_lineages g))"
    using sizes_okD(3) [OF assms(1)] sizes_okD(3) [OF assms(2)] assms(3) by (simp add: removal_frame_def)
  have "unlinked (l_rows (rg_lineages g') ! x) = unlinked (l_rows (rg_lineages g) ! x) \<and>
      (\<forall>e \<in> set (pages x). e_rows (rg_entries g') ! e = e_rows (rg_entries g) ! e)" if x: "x \<in> set (ys @ zs)" for x
  proof -
    have "x \<in> set (ys @ l # zs)" "x \<noteq> l" using x registry_invD(12) [OF assms(1)] by auto
    then have "x < length (l_rows (rg_lineages g))" "set (pages x) \<inter> set (pages l) = {}"
      using registry_inv_row(1) [OF assms(1)] pages_disjoint [OF assms(1), of x l] by auto
    then show ?thesis using assms(3) \<open>x \<noteq> l\<close> unfolding removal_frame_def by blast
  qed
  then show ?thesis using assms(3) len unfolding rows_kept_def removal_frame_def by blast
qed

text \<open>The first \<open>k\<close> of a list of victims are gone.\<close>

abbreviation without :: "nat list \<Rightarrow> nat list \<Rightarrow> nat list" where
  "without ls vs \<equiv> filter (\<lambda>x. x \<notin> set vs) ls"

lemma without_Cons: "x \<notin> set xs \<Longrightarrow> without xs (x # vs) = without xs vs"
  by (induction xs) auto

lemma reclaim_step:
  assumes inv: "registry_inv K g (ys @ l # zs) pages" and inv': "registry_inv K g' (ys @ zs) pages"
    and same: "rg_base g' = rg_base g"
  defines "w \<equiv> l_rows (rg_lineages g) ! l"
  assumes held: "\<And>x. x \<in> set (ys @ zs) \<Longrightarrow> unlinked (l_rows (rg_lineages g') ! x) = unlinked (l_rows (rg_lineages g) ! x)"
  shows "\<not> (ucast (l_resident w) + ucast (l_tombstones w) + l_reservedSlots w > rg_used g \<or>
      l_dynamicBytes w > rg_total g \<or> (ucast (live (rg_ids g)) :: uint64) = 0)"
    "\<not> (ucast (l_resident w) + ucast (l_tombstones w) :: uint64) > ucast (live (rg_tokens g))"
    "rg_used g' = rg_used g - (ucast (l_resident w) + ucast (l_tombstones w) + l_reservedSlots w)"
    "rg_total g' = rg_total g - l_dynamicBytes w"
    "(ucast (live (rg_ids g')) :: uint64) = ucast (live (rg_ids g)) - 1"
    "(ucast (live (rg_tokens g')) :: uint64) = ucast (live (rg_tokens g)) - (ucast (l_resident w) + ucast (l_tombstones w))"
proof -
  define ls where "ls = ys @ zs"
  have lin: "l \<in> set (ys @ l # zs)" by simp
  note sl = registry_inv_slots [OF inv lin, folded w_def] and c = live_counts [OF inv] and c' = live_counts [OF inv']
  have a: "unat (rg_used g) = slots_held (rg_lineages g) pages l + (\<Sum>x\<leftarrow>ls. slots_held (rg_lineages g) pages x)"
    "unat (rg_total g) = unat (rg_base g) + (bytes_held (rg_lineages g) l + (\<Sum>x\<leftarrow>ls. bytes_held (rg_lineages g) x))"
    using registry_invD(10) [OF inv] unfolding accounts_ok_def sum_list_split ls_def by blast+
  have a': "unat (rg_used g') = (\<Sum>x\<leftarrow>ls. slots_held (rg_lineages g') pages x)"
    "unat (rg_total g') = unat (rg_base g') + (\<Sum>x\<leftarrow>ls. bytes_held (rg_lineages g') x)"
    using registry_invD(10) [OF inv'] unfolding accounts_ok_def ls_def by blast+
  have eq: "slots_held (rg_lineages g') pages x = slots_held (rg_lineages g) pages x"
    "bytes_held (rg_lineages g') x = bytes_held (rg_lineages g) x" if "x \<in> set ls" for x
    using unlinked_fields [OF held] that by (simp_all add: slots_held_def bytes_held_def ls_def)
  have s: "(\<Sum>x\<leftarrow>ls. slots_held (rg_lineages g') pages x) = (\<Sum>x\<leftarrow>ls. slots_held (rg_lineages g) pages x)"
    "(\<Sum>x\<leftarrow>ls. bytes_held (rg_lineages g') x) = (\<Sum>x\<leftarrow>ls. bytes_held (rg_lineages g) x)"
    by (intro arg_cong [where f = sum_list] map_cong refl eq, assumption)+
  have u: "unat (rg_used g') = unat (rg_used g) - slots_held (rg_lineages g) pages l"
    "unat (rg_total g') = unat (rg_total g) - bytes_held (rg_lineages g) l"
    using a a' same unfolding s by simp_all
  have b: "bytes_held (rg_lineages g) l = unat (l_dynamicBytes w)" by (simp add: bytes_held_def w_def)
  have p: "(\<Sum>x\<leftarrow>ys @ l # zs. length (pages x)) = length (pages l) + (\<Sum>x\<leftarrow>ls. length (pages x))"
    unfolding sum_list_split ls_def ..
  have nz: "unat (ucast (live (rg_ids g)) :: uint64) = Suc (length ls)" using c(2) by (simp add: unat_ucast_up ls_def)
  show "\<not> (ucast (l_resident w) + ucast (l_tombstones w) + l_reservedSlots w > rg_used g \<or>
      l_dynamicBytes w > rg_total g \<or> (ucast (live (rg_ids g)) :: uint64) = 0)"
  proof -
    have "(ucast (live (rg_ids g)) :: uint64) \<noteq> 0" using nz by (metis nat.distinct(1) unat_0)
    then show ?thesis using sl(1,2,4) b by (simp add: word_less_nat_alt)
  qed
  have t: "unat (ucast (live (rg_tokens g)) :: uint64) = length (pages l) + (\<Sum>x\<leftarrow>ls. length (pages x))"
    using c(1) p by (simp add: unat_ucast_up)
  then show "\<not> (ucast (l_resident w) + ucast (l_tombstones w) :: uint64) > ucast (live (rg_tokens g))"
    using sl(5) by (simp add: word_less_nat_alt)
  show "rg_used g' = rg_used g - (ucast (l_resident w) + ucast (l_tombstones w) + l_reservedSlots w)"
    using u(1) sl(1,4) by (simp add: word_unat_eq_iff unat_sub word_le_nat_alt)
  show "rg_total g' = rg_total g - l_dynamicBytes w"
    using u(2) sl(2) b by (simp add: word_unat_eq_iff unat_sub word_le_nat_alt)
  show "(ucast (live (rg_ids g')) :: uint64) = ucast (live (rg_ids g)) - 1"
    using nz c'(2) by (simp add: word_unat_eq_iff unat_sub word_le_nat_alt unat_ucast_up ls_def)
  show "(ucast (live (rg_tokens g')) :: uint64) = ucast (live (rg_tokens g)) - (ucast (l_resident w) + ucast (l_tombstones w))"
    using t sl(5) c'(1) by (simp add: word_unat_eq_iff unat_sub word_le_nat_alt unat_ucast_up ls_def)
qed

lemma reused_at_most_mono: "reused_at_most m g \<Longrightarrow> m \<le> n \<Longrightarrow> reused_at_most n g"
  unfolding reused_at_most_def by (meson Suc_le_mono le_trans)

lemma evict_step:
  assumes inv: "registry_inv K g (xs @ x # ss) pages" and ex: "may_evict g now exclude x"
    and ss: "\<forall>y \<in> set ss. \<not> may_evict g now exclude y" and nf: "\<not> fits g ds db" and op: "\<not> rg_closed g"
    and gen: "reused_at_most m g" "m < 4294967294"
  shows "\<exists>g'. evict_loop K (Suc r) ds db now exclude g = evict_loop K r ds db now exclude g' \<and>
    registry_inv K g' (xs @ ss) pages \<and> reused_at_most (Suc m) g' \<and> rows_kept g (xs @ ss) pages g'"
proof -
  have f: "find (may_evict g now exclude) (rev (xs @ x # ss)) = Some x"
  proof -
    have "find (may_evict g now exclude) (rev ss) = None" using ss by (simp add: find_None_iff)
    then show ?thesis using ex by (simp add: find_append_None)
  qed
  have tail: "eligibleLRUTail g now exclude = of_nat x" unfolding registry_inv_tail [OF inv] f by simp
  have xin: "x \<in> set (xs @ x # ss)" by simp
  have xr: "(of_nat x :: arenaRef) \<noteq> noRef" "unat (of_nat x :: arenaRef) = x"
    using ref_neq_noRef registry_inv_row(2,3) [OF inv xin] by blast+
  have pins: "l_pins (l_rows (rg_lineages g) ! x) = 0" using ex xr(2) by (simp add: evictable_def)
  obtain g' where g': "removeLineage K (lineage_ref g (of_nat x)) g = (g', True)"
    "registry_inv K g' (xs @ ss) pages" "reused_at_most (Suc m) g'" "removal_frame g x pages g'"
    using removeLineage_ok [OF inv pins gen] op by auto
  have "evict_loop K (Suc r) ds db now exclude g = evict_loop K r ds db now exclude g'"
    using nf tail xr(1) g'(1) by (simp add: Let_def)
  moreover have "rows_kept g (xs @ ss) pages g'" by (rule removal_kept [OF inv g'(2,4)])
  ultimately show ?thesis using g' by blast
qed

lemma evict_walk:
  assumes "registry_inv K g1 (xs @ ss) pages" "lseg (l_rows (rg_lineages g)) h noRef xs t q"
    "rows_kept g (xs @ ss) pages g1" "\<forall>x \<in> set ss. \<not> may_evict g1 now exclude x"
    "\<not> fits g1 ds db" "\<not> rg_closed g1" "reused_at_most m g1" "m + length xs < 4294967295" "length xs < r"
    "can_admit_loop g ds db now exclude n (if xs = [] then noRef else of_nat (last xs)) (rg_used g1) (rg_total g1)
      (ucast (live (rg_tokens g1))) (ucast (live (rg_ids g1)))"
  shows "\<exists>g' k. let ls = without (xs @ ss) (take k (filter (may_evict g now exclude) (rev xs))) in
    evict_loop K r ds db now exclude g1 = Some (g', True) \<and> registry_inv K g' ls pages \<and> fits g' ds db \<and>
    reused_at_most (m + k) g' \<and> rows_kept g ls pages g' \<and> k \<le> length (filter (may_evict g now exclude) (rev xs))"
  using assms
proof (induction xs arbitrary: g1 ss n t q m r rule: rev_induct)
  case Nil
  then show ?case by (cases n) simp_all
next
  case (snoc x xs)
  let ?row = "l_rows (rg_lineages g) ! x"
  obtain n' where n: "n = Suc n'" using snoc.prems(10) by (cases n) auto
  obtain r' where r: "r = Suc r'" using snoc.prems(9) by (cases r) auto
  have inv: "registry_inv K g1 (xs @ x # ss) pages" using snoc.prems(1) by simp
  note D = registry_invD [OF inv]
  have xin: "x \<in> set (xs @ x # ss)" by simp
  have xr: "(of_nat x :: arenaRef) \<noteq> noRef" "unat (of_nat x :: arenaRef) = x"
    using ref_neq_noRef registry_inv_row(2,3) [OF inv xin] by blast+
  have kp: "rows_kept g (xs @ x # ss) pages g1" using snoc.prems(3) by simp
  have same: "may_evict g1 now exclude y \<longleftrightarrow> may_evict g now exclude y" if y: "y \<in> set (xs @ x # ss)" for y
    by (rule may_evict_kept [OF kp y registry_inv_row(2) [OF inv y]])
  have prev: "l_lruPrev ?row = (if xs = [] then noRef else of_nat (last xs))" by (rule lru_prev [OF snoc.prems(2)])
  obtain t' where seg: "lseg (l_rows (rg_lineages g)) h noRef xs t' (of_nat x)"
    using snoc.prems(2) by (auto simp: lseg_append)
  have last: "last (xs @ [x]) = x" "xs @ [x] \<noteq> []" by simp_all
  have row: "unlinked (l_rows (rg_lineages g1) ! x) = unlinked ?row" using kp by (simp add: rows_kept_def)
  note rowf = unlinked_fields [OF row]
  let ?ev = "may_evict g now exclude"
  show ?case
  proof (cases "?ev x")
    case False
    have "can_admit_loop g ds db now exclude n' (if xs = [] then noRef else of_nat (last xs)) (rg_used g1) (rg_total g1)
        (ucast (live (rg_tokens g1))) (ucast (live (rg_ids g1)))"
      using snoc.prems(10) False xr prev unfolding last(1) if_not_P [OF last(2)] n by (simp add: Let_def)
    then have "\<exists>g' k. let ls = without (xs @ x # ss) (take k (filter ?ev (rev xs))) in
      evict_loop K r ds db now exclude g1 = Some (g', True) \<and> registry_inv K g' ls pages \<and> fits g' ds db \<and>
      reused_at_most (m + k) g' \<and> rows_kept g ls pages g' \<and> k \<le> length (filter ?ev (rev xs))"
      using snoc.prems(4-9) inv kp seg False same [OF xin] by (intro snoc.IH) auto
    then obtain g' k where gk: "let ls = without (xs @ x # ss) (take k (filter ?ev (rev xs))) in
      evict_loop K r ds db now exclude g1 = Some (g', True) \<and> registry_inv K g' ls pages \<and> fits g' ds db \<and>
      reused_at_most (m + k) g' \<and> rows_kept g ls pages g' \<and> k \<le> length (filter ?ev (rev xs))" by blast
    have fl: "filter ?ev (rev (xs @ [x])) = filter ?ev (rev xs)" "(xs @ [x]) @ ss = xs @ x # ss"
      using False by simp_all
    show ?thesis using gk unfolding fl Let_def by blast
  next
    case True
    then have e: "may_evict g1 now exclude x" using same [OF xin] by simp
    have m: "m < 4294967294" using snoc.prems(8) by simp
    obtain g2 where g2: "evict_loop K (Suc r') ds db now exclude g1 = evict_loop K r' ds db now exclude g2"
      "registry_inv K g2 (xs @ ss) pages" "reused_at_most (Suc m) g2" "rows_kept g1 (xs @ ss) pages g2"
      using evict_step [OF inv e snoc.prems(4-7) m] by blast
    have "rows_kept g (xs @ ss) pages g1" by (rule rows_kept_subset [OF kp]) auto
    then have kp2: "rows_kept g (xs @ ss) pages g2" using g2(4) by (rule rows_kept_trans)
    have sub: "unlinked (l_rows (rg_lineages g2) ! y) = unlinked (l_rows (rg_lineages g1) ! y)" if "y \<in> set (xs @ ss)" for y
      using g2(4) that by (simp add: rows_kept_def)
    have base: "rg_base g2 = rg_base g1" using g2(4) by (simp add: rows_kept_def)
    note step = reclaim_step [OF inv g2(2) base sub, simplified rowf]
    define us tt tk li where "us = rg_used g2" and "tt = rg_total g2" and "tk = (ucast (live (rg_tokens g2)) :: uint64)"
      and "li = (ucast (live (rg_ids g2)) :: uint64)"
    have fit: "fitsValues g us tt tk li ds db \<longleftrightarrow> fits g2 ds db"
      using kp2 by (simp add: fits_def fitsValues_def rows_kept_def us_def tt_def tk_def li_def)
    have adm: "fits g2 ds db \<or> can_admit_loop g ds db now exclude n' (l_lruPrev ?row) us tt tk li"
      using snoc.prems(10) True xr step
      unfolding last(1) if_not_P [OF last(2)] n fit [symmetric] us_def tt_def tk_def li_def
      by (simp add: Let_def split: if_splits)
    have dist: "x \<notin> set xs" "x \<notin> set ss" using D(12) by auto
    have rest: "without ((xs @ [x]) @ ss) (take (Suc k) (filter ?ev (rev (xs @ [x])))) =
      without (xs @ ss) (take k (filter ?ev (rev xs)))" for k
      using True without_Cons [OF dist(1)] without_Cons [OF dist(2)] by simp
    have op2: "\<not> rg_closed g2" using g2(4) snoc.prems(6) by (simp add: rows_kept_def)
    show ?thesis
    proof (cases "fits g2 ds db")
      case fits2: True
      obtain r'' where r'': "r' = Suc r''" using snoc.prems(9) r by (cases r') auto
      have ev: "evict_loop K r ds db now exclude g1 = Some (g2, True)" using g2(1) fits2 by (simp add: r r'')
      have w: "without ((xs @ [x]) @ ss) (take 1 (filter ?ev (rev (xs @ [x])))) = xs @ ss"
        using rest [of 0] by simp
      have "reused_at_most (m + 1) g2" using g2(3) by simp
      then show ?thesis using ev g2(2) fits2 kp2 True w
        by (intro exI [of _ g2] exI [of _ 1]) (simp only: Let_def w, simp)
    next
      case nofit: False
      have "\<exists>g' k. let ls = without (xs @ ss) (take k (filter ?ev (rev xs))) in
        evict_loop K r' ds db now exclude g2 = Some (g', True) \<and> registry_inv K g' ls pages \<and> fits g' ds db \<and>
        reused_at_most (Suc m + k) g' \<and> rows_kept g ls pages g' \<and> k \<le> length (filter ?ev (rev xs))"
      proof (rule snoc.IH [OF g2(2) seg kp2 _ nofit op2 g2(3)])
        show "\<forall>y \<in> set ss. \<not> may_evict g2 now exclude y"
        proof
          fix y
          assume y: "y \<in> set ss"
          then have y': "y \<in> set (xs @ ss)" by simp
          show "\<not> may_evict g2 now exclude y"
            using snoc.prems(4) y may_evict_kept [OF g2(4) y' registry_inv_row(2) [OF g2(2) y']] by blast
        qed
        show "Suc m + length xs < 4294967295" "length xs < r'" using snoc.prems(8,9) r by simp_all
        show "can_admit_loop g ds db now exclude n' (if xs = [] then noRef else of_nat (last xs)) (rg_used g2)
            (rg_total g2) (ucast (live (rg_tokens g2))) (ucast (live (rg_ids g2)))"
          using adm nofit unfolding prev us_def tt_def tk_def li_def by blast
      qed
      then obtain g' k where gk: "let ls = without (xs @ ss) (take k (filter ?ev (rev xs))) in
        evict_loop K r' ds db now exclude g2 = Some (g', True) \<and> registry_inv K g' ls pages \<and> fits g' ds db \<and>
        reused_at_most (Suc m + k) g' \<and> rows_kept g ls pages g' \<and> k \<le> length (filter ?ev (rev xs))" by blast
      have ev: "evict_loop K r ds db now exclude g1 = evict_loop K r' ds db now exclude g2" using g2(1) by (simp only: r)
      have "Suc k \<le> length (filter ?ev (rev (xs @ [x])))" using gk True by (simp add: Let_def)
      then show ?thesis using gk ev
        by (intro exI [of _ g'] exI [of _ "Suc k"]) (simp only: Let_def rest, simp)
    qed
  qed
qed

text \<open>The lineages evicted are the \<open>k\<close> least recently used among those that may be evicted.\<close>

definition victims :: "registry \<Rightarrow> int64 \<Rightarrow> arenaRef \<Rightarrow> nat list \<Rightarrow> nat \<Rightarrow> nat list" where
  "victims g now exclude ls k = take k (filter (may_evict g now exclude) (rev ls))"

lemma victims_set: "set (victims g now exclude ls k) \<subseteq> {x \<in> set ls. may_evict g now exclude x}"
  unfolding victims_def using set_take_subset by fastforce

lemma length_without:
  assumes "distinct ls" "distinct vs" "set vs \<subseteq> set ls"
  shows "length (without ls vs) + length vs = length ls"
proof -
  have "length (filter (\<lambda>x. x \<in> set vs) ls) = card (set ls \<inter> set vs)"
    using assms(1) by (simp add: distinct_length_filter Int_commute)
  moreover have "set ls \<inter> set vs = set vs" using assms(3) by blast
  ultimately have "length (filter (\<lambda>x. x \<in> set vs) ls) = length vs" using distinct_card [OF assms(2)] by simp
  then show ?thesis using sum_length_filter_compl [of "\<lambda>x. x \<in> set vs" ls] by simp
qed

lemma eviction_ok:
  assumes inv: "registry_inv K g ls pages" and adm: "canAdmitWithEviction g ds db now exclude"
    and op: "\<not> rg_closed g" and gen: "reused_at_most m g" "m + length ls < 4294967295"
  shows "\<exists>g' k. evict_loop K (eviction_rounds g) ds db now exclude g = Some (g', True) \<and>
    registry_inv K g' (without ls (victims g now exclude ls k)) pages \<and> room g' (without ls (victims g now exclude ls k)) pages ds db \<and>
    reused_at_most (m + k) g' \<and> rows_kept g (without ls (victims g now exclude ls k)) pages g' \<and>
    length (without ls (victims g now exclude ls k)) + k = length ls"
proof (cases "fits g ds db")
  case True
  have w: "without ls (victims g now exclude ls 0) = ls" by (simp add: victims_def)
  have r: "eviction_rounds g = Suc (Suc (length (l_rows (rg_lineages g))))" by (simp add: eviction_rounds_def)
  have "evict_loop K (eviction_rounds g) ds db now exclude g = Some (g, True)" using True by (simp add: r)
  then show ?thesis
    using inv True fits_iff [OF inv] gen rows_kept_refl by (intro exI [of _ g] exI [of _ 0]) (simp add: w)
next
  case False
  note D = registry_invD [OF inv]
  have seg: "lseg (l_rows (rg_lineages g)) (l_lruHead (rg_lineages g)) noRef ls (l_lruTail (rg_lineages g)) noRef"
    using D(4) by (simp add: lru_list_def)
  have "set ls \<subseteq> {..<length (l_rows (rg_lineages g))}" using registry_inv_row(1) [OF inv] by auto
  then have "card (set ls) \<le> length (l_rows (rg_lineages g))" using card_mono [of "{..<length (l_rows (rg_lineages g))}"] by simp
  then have n: "length ls < eviction_rounds g" using D(12) by (simp add: distinct_card eviction_rounds_def)
  have loop: "can_admit_loop g ds db now exclude (unat (MaxEntries (rg_layout g))) (if ls = [] then noRef else of_nat (last ls))
      (rg_used g) (rg_total g) (ucast (live (rg_tokens g))) (ucast (live (rg_ids g)))"
    using adm False lru_tail [OF D(4)] by (simp add: canAdmitWithEviction_def)
  have inv0: "registry_inv K g (ls @ []) pages" and k0: "rows_kept g (ls @ []) pages g" using inv by (simp_all add: rows_kept_refl)
  obtain g' k where *: "let vs = without (ls @ []) (take k (filter (may_evict g now exclude) (rev ls))) in
      evict_loop K (eviction_rounds g) ds db now exclude g = Some (g', True) \<and> registry_inv K g' vs pages \<and> fits g' ds db \<and>
      reused_at_most (m + k) g' \<and> rows_kept g vs pages g' \<and> k \<le> length (filter (may_evict g now exclude) (rev ls))"
    using evict_walk [OF inv0 seg k0 _ False op gen n loop] by auto
  then have v: "evict_loop K (eviction_rounds g) ds db now exclude g = Some (g', True)"
    "registry_inv K g' (without ls (victims g now exclude ls k)) pages" "fits g' ds db"
    "reused_at_most (m + k) g'" "rows_kept g (without ls (victims g now exclude ls k)) pages g'"
    "length (victims g now exclude ls k) = k"
    by (simp_all add: victims_def Let_def)
  have "distinct (victims g now exclude ls k)" using D(12) by (simp add: victims_def)
  moreover have "set (victims g now exclude ls k) \<subseteq> set ls" using victims_set [of g now exclude ls k] by blast
  ultimately have "length (without ls (victims g now exclude ls k)) + k = length ls"
    using length_without [OF D(12)] v(6) by metis
  then show ?thesis using v fits_iff [OF v(2)] by blast
qed

end
