(* ===== verification/CursorInstall.thy ===== *)
theory CursorInstall
  imports CursorEviction
begin

text \<open>
  Construction of the registry and admission of a lineage: the fresh registry satisfies the invariant, and
  \<open>commitInitial\<close> either changes nothing but the evicted lineages or puts one lineage with one entry at the front
  of the order of use, charged for exactly what it holds.
\<close>

section \<open>Adding an entry\<close>

lemma view_length: "length (v_occ (entry_view ents)) = length (e_rows ents)" "length (v_occ (lineage_view lins)) = length (l_rows lins)"
  by (simp_all add: entry_view_def lineage_view_def)

lemma entry_view_row:
  assumes "e_occupied w = e_occupied (e_rows ents ! i)" "e_generation w = e_generation (e_rows ents ! i)"
    "e_nextFree w = e_nextFree (e_rows ents ! i)"
  shows "entry_view (ents\<lparr>e_rows := (e_rows ents)[i := w]\<rparr>) = entry_view ents"
  using assms by (cases "i < length (e_rows ents)")
    (simp_all add: entry_view_def map_update list_update_beyond list_update_same_conv)

lemma lineage_view_row:
  assumes "l_occupied w = l_occupied (l_rows lins ! i)" "l_generation w = l_generation (l_rows lins ! i)"
    "l_nextFree w = l_nextFree (l_rows lins ! i)"
  shows "lineage_view (lins\<lparr>l_rows := (l_rows lins)[i := w]\<rparr>) = lineage_view lins"
  using assms by (cases "i < length (l_rows lins)")
    (simp_all add: lineage_view_def map_update list_update_beyond list_update_same_conv)

lemma tokens_ok_live: "tokens_ok K ix ents \<Longrightarrow> live_entries ents' = live_entries ents \<Longrightarrow> tokens_ok K ix ents'"
  by (simp add: tokens_ok_def)

lemma index_insert_room:
  assumes "index_inv mac ix" "index_map ix k = None" "unat (live ix) < length (slots ix)"
    "home = keyedHome mac (length (slots ix)) k"
  shows "\<exists>ix'. index_insert ix k r home = Inr ix'"
proof -
  have t: "table_len (slots ix)" and l: "live ix = of_nat (length (live_rows (slots ix)))"
    using assms(1) by (simp_all add: index_inv_def)
  have "length (live_rows (slots ix)) \<le> length (slots ix)" by (simp add: live_rows_def)
  then have "unat (live ix) = length (live_rows (slots ix))" unfolding l by (rule unat_less_len [OF t])
  then have "index_insert ix k r home \<noteq> Inl e" for e using index_insert_Inl [OF assms(1,4)] assms(2,3) by auto
  then show ?thesis by (cases "index_insert ix k r home") auto
qed

lemma tokens_ok_insert:
  assumes tok: "tokens_ok K ix ents" and e: "e \<notin> live_entries ents" "e < 4294967295"
    and live: "live_entries ents' = insert e (live_entries ents)" "length (e_rows ents) < 4294967295"
    and ins: "index_insert ix t (of_nat e) (keyedHome (km_token K) (length (slots ix)) t) = Inr ix'"
  shows "tokens_ok K ix' ents'" "length (slots ix') = length (slots ix)"
proof -
  have inv: "index_inv (km_token K) ix" using tok by (simp add: tokens_ok_def)
  note I = index_insert_Inr [OF inv refl ins]
  have ue: "unat (of_nat e :: arenaRef) = e" using e(2) by (rule unat_ref)
  have small: "j < 4294967295" if "j \<in> live_entries ents" for j using that live(2) by (simp add: live_entries_iff)
  show "length (slots ix') = length (slots ix)" by (rule I(3))
  show "tokens_ok K ix' ents'"
    unfolding tokens_ok_def
  proof (intro conjI allI ballI impI)
    show "index_inv (km_token K) ix'" by (rule I(1))
    fix s r
    assume "index_map ix' s = Some r"
    then show "unat r \<in> live_entries ents'"
      using tok live(1) ue unfolding I(2) tokens_ok_def by (auto split: if_splits)
  next
    fix j
    assume j: "j \<in> live_entries ents'"
    show "\<exists>s. index_map ix' s = Some (of_nat j)"
    proof (cases "j = e")
      case False
      then have "j \<in> live_entries ents" using j live(1) by blast
      then obtain s where s: "index_map ix s = Some (of_nat j)" using tok unfolding tokens_ok_def by blast
      then have "s \<noteq> t" using I(4) by auto
      then show ?thesis using s by (intro exI [of _ s]) (simp add: I(2))
    qed (use I(2) in auto)
  next
    fix s s' r
    assume s: "index_map ix' s = Some r" "index_map ix' s' = Some r"
    have old: "r \<noteq> of_nat e" if "index_map ix q = Some r" for q
      using that tok e ue unfolding tokens_ok_def by metis
    show "s = s'"
    proof (cases "s = t")
      case True
      then have "r = of_nat e" using s(1) by (simp add: I(2))
      then show ?thesis using s(2) old True by (auto simp: I(2) split: if_splits)
    next
      case False
      then have "index_map ix s = Some r" using s(1) by (simp add: I(2))
      then show ?thesis using s(2) old tok unfolding I(2) tokens_ok_def by (auto split: if_splits)
    qed
  qed
qed

section \<open>Claims\<close>

lemma entry_claim_Some:
  assumes "view_inv (entry_view ents)" "live_entries ents \<noteq> {..<length (e_rows ents)}"
  shows "\<exists>e ents1. entry_claim ents = Some (\<lparr>ref_index = of_nat e, ref_generation = e_generation (e_rows ents ! e)\<rparr>, ents1) \<and>
    e < length (e_rows ents) \<and> e \<notin> live_entries ents \<and> view_inv (entry_view ents1) \<and>
    live_entries ents1 = insert e (live_entries ents) \<and>
    e_rows ents1 = (e_rows ents)[e := (e_rows ents ! e)\<lparr>e_nextFree := noRef, e_occupied := 1\<rparr>] \<and> unat (of_nat e :: arenaRef) = e"
proof -
  have "entry_claim ents \<noteq> None" using entries.claim_None [OF assms(1)] assms(2) by (simp add: view_length)
  then obtain r ents1 where cl: "entry_claim ents = Some (r, ents1)" by auto
  note C = entries.claim_Some [OF assms(1) cl]
  have b: "unat (e_freeHead ents) < length (e_rows ents)"
    using cl view_head_less [OF assms(1)] by (auto simp: entry_claim_def entry_view_def split: if_splits)
  show ?thesis
    using cl C b by (intro exI [of _ "unat (e_freeHead ents)"] exI [of _ ents1])
      (auto simp: entry_claim_def Let_def split: if_splits)
qed

lemma lineage_claim_Some:
  assumes "view_inv (lineage_view lins)" "live_lineages lins \<noteq> {..<length (l_rows lins)}"
  shows "\<exists>l lins1. lineage_claim lins = Some (\<lparr>ref_index = of_nat l, ref_generation = l_generation (l_rows lins ! l)\<rparr>, lins1) \<and>
    l < length (l_rows lins) \<and> l \<notin> live_lineages lins \<and> view_inv (lineage_view lins1) \<and>
    live_lineages lins1 = insert l (live_lineages lins) \<and> l_lruHead lins1 = l_lruHead lins \<and> l_lruTail lins1 = l_lruTail lins \<and>
    l_rows lins1 = (l_rows lins)[l := (l_rows lins ! l)\<lparr>l_nextFree := noRef, l_occupied := 1\<rparr>] \<and> unat (of_nat l :: arenaRef) = l"
proof -
  have "lineage_claim lins \<noteq> None" using lineages.claim_None [OF assms(1)] assms(2) by (simp add: view_length)
  then obtain r lins1 where cl: "lineage_claim lins = Some (r, lins1)" by auto
  note C = lineages.claim_Some [OF assms(1) cl]
  have b: "unat (l_freeHead lins) < length (l_rows lins)"
    using cl view_head_less [OF assms(1)] by (auto simp: lineage_claim_def lineage_view_def split: if_splits)
  show ?thesis
    using cl C b by (intro exI [of _ "unat (l_freeHead lins)"] exI [of _ lins1])
      (auto simp: lineage_claim_def Let_def split: if_splits)
qed

lemma live_less_all:
  assumes "registry_inv K g ls pages" "room g ls pages ds db"
  shows "live_entries (rg_entries g) \<noteq> {..<length (e_rows (rg_entries g))}"
    "live_lineages (rg_lineages g) \<noteq> {..<length (l_rows (rg_lineages g))}"
    "unat (live (rg_tokens g)) < length (slots (rg_tokens g))" "unat (live (rg_ids g)) < length (slots (rg_ids g))"
proof -
  note D = registry_invD [OF assms(1)] and sz = sizes_okD [OF assms(1)] and c = live_counts [OF assms(1)]
  show "unat (live (rg_tokens g)) < length (slots (rg_tokens g))" "unat (live (rg_ids g)) < length (slots (rg_ids g))"
    using c sz assms(2) by simp_all
  have ti: "index_inv (km_token K) (rg_tokens g)" using D(6) unfolding tokens_ok_def by blast
  have "length (e_rows (rg_entries g)) < 4294967295" using sz(1,2) by simp
  then have "card (live_entries (rg_entries g)) = unat (live (rg_tokens g))"
    using tokens_ok_card [OF D(6)] index_live(1) [OF ti] by simp
  then have "card (live_entries (rg_entries g)) < length (e_rows (rg_entries g))" using c(1) assms(2) sz(2) by linarith
  then show "live_entries (rg_entries g) \<noteq> {..<length (e_rows (rg_entries g))}"
    by (metis card_lessThan less_irrefl)
  have "card (live_lineages (rg_lineages g)) = length ls" using D(5,12) distinct_card by metis
  then have "card (live_lineages (rg_lineages g)) < length (l_rows (rg_lineages g))" using assms(2) sz(3) by simp
  then show "live_lineages (rg_lineages g) \<noteq> {..<length (l_rows (rg_lineages g))}"
    by (metis card_lessThan less_irrefl)
qed

section \<open>The fresh registry\<close>

lemma registry_initialize_ok:
  assumes "registry_initialize cfg = Inr g"
  shows "registry_inv K g [] pages" "reused_at_most 0 g" "rg_nextID g = 0" "\<not> rg_closed g" "rg_closedRoots g = []"
    "rg_comps g = []"
proof -
  obtain lay tk ids ents lins where lay: "ContainerLayout (CursorMaxEntries cfg) = Inr lay" "Total lay \<le> CursorMaxTotalBytes cfg"
    and new: "new_index (IndexSlots lay) = Inr tk" "new_index (IndexSlots lay) = Inr ids"
    "newEntryArena (MaxEntries lay) = Inr ents" "newLineageArena (MaxEntries lay) = Inr lins"
    and pos: "CursorMaxEntries cfg \<noteq> 0"
    and g: "g = \<lparr>rg_cfg = cfg\<lparr>IgnoreDirsAdd := []\<rparr>, rg_tokens = tk, rg_ids = ids, rg_entries = ents,
      rg_lineages = lins, rg_layout = lay, rg_base = Total lay, rg_used = 0,
      rg_total = Total lay, rg_closed = False, rg_nextID = 0, rg_comps = [], rg_closedRoots = []\<rparr>"
    using assms by (auto simp: registry_initialize_def not_less split: if_splits sum.splits)
  note cl = container_layout [OF lay(1)]
  note t = new_index_inv [OF new(1)] and i = new_index_inv [OF new(2)]
  note e = newEntryArena_view [OF new(3)] and l = newLineageArena_view [OF new(4)]
  have le: "length (e_rows ents) = unat (MaxEntries lay)" "length (l_rows lins) = unat (MaxEntries lay)"
    using e(3) l(3) by (simp_all add: view_length)
  have lr: "l_lruHead lins = noRef" "l_lruTail lins = noRef" "\<forall>w \<in> set (l_rows lins). l_pins w = 0 \<and> l_tombstones w = 0 \<and> l_generation w = 1"
    using new(4) by (auto simp: newLineageArena_def bind_sum_Inr blank_lineage_row_def)
  have er: "\<forall>w \<in> set (e_rows ents). idle_entry w \<and> e_generation w = 1"
    using new(3) by (auto simp: newEntryArena_def bind_sum_Inr new_entry_row_def idle_entry_def)
  have small: "unat (MaxEntries lay) < 4294967295"
  proof -
    have "table_len (slots tk)" using t(1) [of "km_token K"] by (simp add: index_inv_def)
    then show ?thesis using table_len_le [of "slots tk"] t(3) cl pos by simp
  qed
  have p: "0 < unat (MaxEntries lay)" using cl pos by (simp add: unat_gt_0)
  show "registry_inv K g [] pages"
    unfolding registry_inv_def g
    using t(2,3) t(1) [of "km_token K"] i(2,3) i(1) [of "km_lineage K"] e l le lr er small cl lay(2) p
    by (simp add: sizes_ok_def lru_list_def tokens_ok_def ids_ok_def accounts_ok_def idle_rows_def idle_entries_def word_le_nat_alt)
  show "reused_at_most 0 g" using lr er by (simp add: reused_at_most_def g)
  show "rg_nextID g = 0" "\<not> rg_closed g" "rg_closedRoots g = []" "rg_comps g = []" by (simp_all add: g)
qed

section \<open>Installing a lineage\<close>

text \<open>The row of a new lineage and the row of its first entry.\<close>

definition installed_row :: "(nat, shared_alloc) lineage_row \<Rightarrow> nat \<Rightarrow> uint64 \<Rightarrow> initialRequest \<Rightarrow> initial_sizes \<Rightarrow>
    Runtime \<Rightarrow> int64 \<Rightarrow> (nat, shared_alloc) lineage_row" where
  "installed_row w e lineageID req sz cfg now = w\<lparr>l_nextFree := noRef, l_occupied := 1, l_flags := lineagePhaseProvisional,
     l_id := lineageID, l_entryHead := of_nat e, l_resident := 1, l_reservedSlots := ru_Slots (ir_reservation req),
     l_reservedBytes := ru_Bytes (ir_reservation req), l_dynamicBytes := is_dynamicBytes sz, l_root := ir_root req,
     l_shared := ir_shared req, l_sharedBytes := is_sharedBytes sz, l_createdAt := now,
     l_workExpiresAt := addDuration now (CursorTTL cfg),
     l_commitDeadline := addDuration (addDuration now (CursorTTL cfg)) CursorHandoffGrace\<rparr>"

definition installed_entry :: "(page_state, Result, nat) entry_row \<Rightarrow> nat \<Rightarrow> page_state \<Rightarrow> uint64 \<Rightarrow>
    (page_state, Result, nat) entry_row" where
  "installed_entry w l st stateBytes = w\<lparr>e_nextFree := noRef, e_occupied := 1, e_kind := entryKindResident,
     e_lineage := of_nat l, e_parent := noRef, e_successor := noRef, e_state := Some st, e_stateBytes := stateBytes\<rparr>"

text \<open>What an installation does: the free rows \<open>l\<close> and \<open>e\<close> are filled and nothing else changes.\<close>

definition installs ::
  "registry \<Rightarrow> nat \<Rightarrow> nat \<Rightarrow> initialRequest \<Rightarrow> initial_sizes \<Rightarrow> int64 \<Rightarrow> registry \<Rightarrow> bool" where
  "installs g l e req sz now g' \<longleftrightarrow>
    l \<notin> live_lineages (rg_lineages g) \<and> e \<notin> live_entries (rg_entries g) \<and> l < length (l_rows (rg_lineages g)) \<and> l_occupied (l_rows (rg_lineages g) ! l) = 0 \<and>
    e < length (e_rows (rg_entries g)) \<and> e_occupied (e_rows (rg_entries g) ! e) = 0 \<and>
    rg_cfg g' = rg_cfg g \<and> rg_layout g' = rg_layout g \<and> rg_base g' = rg_base g \<and> rg_closed g' = rg_closed g \<and>
    rg_nextID g' = rg_nextID g + 1 \<and> rg_comps g' = rg_comps g \<and> rg_closedRoots g' = rg_closedRoots g \<and>
    e_rows (rg_entries g') = (e_rows (rg_entries g))[e := installed_entry (e_rows (rg_entries g) ! e) l (ir_state req)
      (is_stateBytes sz)] \<and>
    map unlinked (l_rows (rg_lineages g')) = map unlinked ((l_rows (rg_lineages g))[l := installed_row
      (l_rows (rg_lineages g) ! l) e (rg_nextID g + 1) req sz (rg_cfg g) now])"

lemma registry_inv_fresh_id:
  assumes "registry_inv K g ls pages" "rg_nextID g \<noteq> -1"
  shows "index_map (rg_ids g) (rg_nextID g + 1) = None" "unat (rg_nextID g + 1) = Suc (unat (rg_nextID g))"
proof -
  have n: "unat (rg_nextID g + 1) = Suc (unat (rg_nextID g))"
    using assms(2) by (metis add.commute unatSuc add_eq_0_iff plus_1_eq_Suc)
  then show "unat (rg_nextID g + 1) = Suc (unat (rg_nextID g))" .
  show "index_map (rg_ids g) (rg_nextID g + 1) = None"
  proof (rule ccontr)
    assume "index_map (rg_ids g) (rg_nextID g + 1) \<noteq> None"
    then obtain l where "l \<in> set ls" "l_id (l_rows (rg_lineages g) ! l) = rg_nextID g + 1"
      using registry_invD(7) [OF assms(1)] unfolding ids_ok_def by blast
    then show False using registry_invD(11) [OF assms(1)] n by fastforce
  qed
qed

lemma ids_ok_insert:
  assumes "ids_ok K ix lins ls" "index_insert ix k (of_nat l) (keyedHome (km_lineage K) (length (slots ix)) k) = Inr ix'"
    "l_id (l_rows lins' ! l) = k" "\<And>x. x \<in> set ls \<Longrightarrow> l_id (l_rows lins' ! x) = l_id (l_rows lins ! x)"
  shows "ids_ok K ix' lins' (l # ls)" "length (slots ix') = length (slots ix)"
proof -
  have inv: "index_inv (km_lineage K) ix" using assms(1) by (simp add: ids_ok_def)
  note I = index_insert_Inr [OF inv refl assms(2)]
  show "length (slots ix') = length (slots ix)" by (rule I(3))
  show "ids_ok K ix' lins' (l # ls)"
    unfolding ids_ok_def
  proof (intro conjI allI)
    show "index_inv (km_lineage K) ix'" by (rule I(1))
    fix k' i
    have old: "index_map ix k' = Some i \<longleftrightarrow> (\<exists>x \<in> set ls. i = of_nat x \<and> l_id (l_rows lins ! x) = k')" for k' i
      using assms(1) by (simp add: ids_ok_def)
    have none: "l_id (l_rows lins ! x) \<noteq> k" if "x \<in> set ls" for x
      using old [of k "of_nat x"] I(4) that by auto
    show "index_map ix' k' = Some i \<longleftrightarrow> (\<exists>x \<in> set (l # ls). i = of_nat x \<and> l_id (l_rows lins' ! x) = k')"
    proof (cases "k' = k")
      case True
      then show ?thesis using none assms(3,4) by (auto simp: I(2))
    next
      case False
      then show ?thesis using old [of k' i] assms(3,4) by (auto simp: I(2))
    qed
  qed
qed

lemma in_set_update_cases: "w \<in> set (xs[i := v]) \<Longrightarrow> w = v \<or> w \<in> set xs"
  using set_update_subset_insert [of xs i v] by blast

lemma same_but_links_sym: "same_but_links a b \<Longrightarrow> same_but_links b a"
  by (simp add: same_but_links_def)

lemma installed_inv:
  assumes inv: "registry_inv K g ls pages" and rm: "room g ls pages (1 + ru_Slots (ir_reservation req)) (is_dynamicBytes sz)"
    and ds: "unat (1 + ru_Slots (ir_reservation req)) = Suc (unat (ru_Slots (ir_reservation req)))"
    and rb: "unat (ru_Bytes (ir_reservation req)) \<le> unat (is_dynamicBytes sz)" and nid: "rg_nextID g \<noteq> -1"
    and l: "l < length (l_rows (rg_lineages g))" "l \<notin> live_lineages (rg_lineages g)"
    and e: "e < length (e_rows (rg_entries g))" "e \<notin> live_entries (rg_entries g)"
    and lins: "view_inv (lineage_view lins)" "live_lineages lins = insert l (live_lineages (rg_lineages g))"
      "l_lruHead lins = l_lruHead (rg_lineages g)" "l_lruTail lins = l_lruTail (rg_lineages g)"
      "l_rows lins = (l_rows (rg_lineages g))[l := installed_row (l_rows (rg_lineages g) ! l) e (rg_nextID g + 1) req sz
        (rg_cfg g) now]"
    and ents: "view_inv (entry_view ents)" "live_entries ents = insert e (live_entries (rg_entries g))"
      "e_rows ents = (e_rows (rg_entries g))[e := installed_entry (e_rows (rg_entries g) ! e) l (ir_state req) (is_stateBytes sz)]"
    and ix: "tokens_ok K ix ents" "length (slots ix) = length (slots (rg_tokens g))"
    and ids: "index_insert (rg_ids g) (rg_nextID g + 1) (of_nat l)
      (keyedHome (km_lineage K) (length (slots (rg_ids g))) (rg_nextID g + 1)) = Inr ids"
    and g': "g' = g\<lparr>rg_lineages := lruAttachFront (of_nat l) lins, rg_entries := ents, rg_nextID := rg_nextID g + 1,
      rg_tokens := ix, rg_ids := ids, rg_used := rg_used g + (1 + ru_Slots (ir_reservation req)),
      rg_total := rg_total g + is_dynamicBytes sz\<rparr>"
  shows "registry_inv K g' (l # ls) (pages(l := [e]))"
proof -
  note D = registry_invD [OF inv] and sz = sizes_okD [OF inv] and R = registry_inv_row [OF inv]
  let ?p = "pages(l := [e])" and ?lins = "lruAttachFront (of_nat l) lins"
  let ?W = "installed_row (l_rows (rg_lineages g) ! l) e (rg_nextID g + 1) req sz (rg_cfg g) now"
  have lls: "l \<notin> set ls" using l(2) D(5) by simp
  then have ne: "x \<noteq> l" if "x \<in> set ls" for x using that by blast
  have links: "same_but_links ?lins lins" by (rule lruAttachFront_same)
  have len: "length (l_rows ?lins) = length (l_rows (rg_lineages g))" "length (l_rows lins) = length (l_rows (rg_lineages g))"
    using same_but_links_row(1) [OF links] lins(5) by simp_all
  have other: "unlinked (l_rows ?lins ! x) = unlinked (l_rows (rg_lineages g) ! x)"
    if "x < length (l_rows (rg_lineages g))" "x \<noteq> l" for x
    using same_but_links_row(2) [OF links, of x] that len lins(5) by simp
  have old: "unlinked (l_rows ?lins ! x) = unlinked (l_rows (rg_lineages g) ! x)" if "x \<in> set ls" for x
    using other R(1) ne that by blast
  have new: "unlinked (l_rows ?lins ! l) = unlinked ?W"
    using same_but_links_row(2) [OF links, of l] l(1) len lins(5) by simp
  note O = unlinked_fields [OF old] and N = unlinked_fields [OF new]
  have small: "l < 4294967295" "e < 4294967295" using l(1) e(1) sz by simp_all
  have ul: "unat (of_nat l :: arenaRef) = l" "unat (of_nat e :: arenaRef) = e" "(of_nat e :: arenaRef) \<noteq> noRef"
    using small unat_ref ref_neq_noRef by blast+
  have tm: "l_tombstones (l_rows (rg_lineages g) ! l) = 0" "l_occupied (l_rows (rg_lineages g) ! l) = 0"
    using l D(13) by (auto simp: live_lineages_iff idle_rows_def)
  have pin: "e \<notin> set (pages x)" if "x \<in> set ls" for x
    using D(8) [OF that] e(2) by (auto simp: lineage_ok_def)
  have lr: "lru_list lins ls"
    by (rule lru_list_cong [OF D(4) lins(3,4) len(2)]) (simp add: lins(5) ne [symmetric])
  have F: "rg_lineages g' = ?lins" "rg_entries g' = ents" "rg_tokens g' = ix" "rg_ids g' = ids" "rg_nextID g' = rg_nextID g + 1"
    by (simp_all add: g')
  show ?thesis
    unfolding registry_inv_def F
  proof (intro conjI ballI)
    have "index_inv (km_lineage K) (rg_ids g)" using D(7) by (simp add: ids_ok_def)
    then have "length (slots ids) = length (slots (rg_ids g))" using index_insert_Inr(3) [OF _ refl ids] by blast
    then show "sizes_ok g'" using D(1) ix(2) len ents(3) by (simp add: sizes_ok_def Let_def g')
    show "view_inv (entry_view ents)" by (rule ents(1))
    show "view_inv (lineage_view ?lins)" using lins(1) by (simp add: lineage_view_links [OF links])
    show "lru_list ?lins (l # ls)" using lru_attach [OF lr, of l] l(1) len(2) lls by simp
    show "set (l # ls) = live_lineages ?lins" using D(5) lins(2) by (simp add: lineage_view_links [OF links])
    show "tokens_ok K ix ents" by (rule ix(1))
    show "ids_ok K ids ?lins (l # ls)"
      by (rule ids_ok_insert(1) [OF D(7) ids]) (simp_all add: N O installed_row_def)
    show "lineage_ok ents ?lins ?p x" if x: "x \<in> set (l # ls)" for x
    proof (cases "x = l")
      case True
      then show ?thesis
        using ul e(1) ents(2) tm by (simp add: lineage_ok_def N installed_row_def installed_entry_def ents(3))
    next
      case False
      then have x: "x \<in> set ls" using x by simp
      show ?thesis
      proof (rule lineage_ok_cong [OF D(8) [OF x]])
        fix a
        assume a: "a \<in> set (pages x)"
        then have "a \<in> live_entries (rg_entries g)" using D(8) [OF x] by (simp add: lineage_ok_def)
        moreover have "a \<noteq> e" using a pin [OF x] by blast
        ultimately show "e_rows ents ! a = e_rows (rg_entries g) ! a \<and> a \<in> live_entries ents \<and> a < length (e_rows (rg_entries g))"
          using ents(2,3) by (simp add: live_entries_iff)
      qed (use O [OF x] False in simp_all)
    qed
    have "(\<Union>x \<in> set ls. set (?p x)) = (\<Union>x \<in> set ls. set (pages x))" using ne by (intro SUP_cong refl) simp
    then show "live_entries ents = (\<Union>x \<in> set (l # ls). set (?p x))" using ents(2) D(9) by simp
    show "accounts_ok g' (l # ls) ?p"
    proof -
      have eq: "slots_held ?lins ?p x = slots_held (rg_lineages g) pages x" "bytes_held ?lins x = bytes_held (rg_lineages g) x"
        if "x \<in> set ls" for x
        using O [OF that] ne [OF that] by (simp_all add: slots_held_def bytes_held_def)
      have s: "(\<Sum>x\<leftarrow>ls. slots_held ?lins ?p x) = (\<Sum>x\<leftarrow>ls. slots_held (rg_lineages g) pages x)"
        "(\<Sum>x\<leftarrow>ls. bytes_held ?lins x) = (\<Sum>x\<leftarrow>ls. bytes_held (rg_lineages g) x)"
        by (intro arg_cong [where f = sum_list] map_cong refl eq, assumption)+
      have h: "slots_held ?lins ?p l = unat (1 + ru_Slots (ir_reservation req))" "bytes_held ?lins l = unat (is_dynamicBytes sz)"
        using ds by (simp_all add: slots_held_def bytes_held_def N installed_row_def)
      have "unat (MaxEntries (rg_layout g)) < 2 ^ 64" "unat (CursorMaxTotalBytes (rg_cfg g)) < 2 ^ 64" by (rule unat_less_64)+
      then have u: "unat (rg_used g + (1 + ru_Slots (ir_reservation req))) = unat (rg_used g) + unat (1 + ru_Slots (ir_reservation req))"
        "unat (rg_total g + is_dynamicBytes sz) = unat (rg_total g) + unat (is_dynamicBytes sz)"
        using rm by (simp_all add: unat_word_ariths(1) [of "rg_used g"] unat_word_ariths(1) [of "rg_total g"])
      have G: "rg_used g' = rg_used g + (1 + ru_Slots (ir_reservation req))" "rg_total g' = rg_total g + is_dynamicBytes sz"
        "rg_layout g' = rg_layout g" "rg_cfg g' = rg_cfg g" "rg_base g' = rg_base g" by (simp_all add: g')
      show ?thesis
        using D(10) rm unfolding accounts_ok_def F G sum_list.Cons list.map s h u by simp
    qed
    show "unat (l_id (l_rows ?lins ! x)) \<le> unat (rg_nextID g + 1)" if "x \<in> set (l # ls)" for x
      using registry_inv_fresh_id(2) [OF inv nid] D(11) [of x] O(9) [of x] N(9) that
      by (cases "x = l") (auto simp: installed_row_def)
    show "idle_rows ?lins"
      unfolding idle_rows_def len
    proof (intro allI impI)
      fix j
      assume j: "j < length (l_rows (rg_lineages g))" "l_occupied (l_rows ?lins ! j) = 0"
      then have "j \<noteq> l" using N(1) by (auto simp: installed_row_def)
      then show "l_pins (l_rows ?lins ! j) = 0 \<and> l_tombstones (l_rows ?lins ! j) = 0"
        using j unlinked_fields(1,6,8) [OF other [OF j(1)]] D(13) by (simp add: idle_rows_def)
    qed
    show "unat (l_reservedBytes (l_rows ?lins ! x)) \<le> bytes_held ?lins x" if "x \<in> set (l # ls)" for x
      using D(14) [of x] O(15,16) [of x] N(15,16) rb that
      by (cases "x = l") (auto simp: bytes_held_def installed_row_def)
    show "idle_entries ents"
      unfolding idle_entries_def ents(3)
    proof (intro ballI impI)
      fix w
      assume "w \<in> set ((e_rows (rg_entries g))[e := installed_entry (e_rows (rg_entries g) ! e) l (ir_state req) (is_stateBytes sz)])"
        and free: "e_occupied w = 0"
      then have "w \<in> set (e_rows (rg_entries g))" by (auto dest!: in_set_update_cases simp: installed_entry_def)
      then show "idle_entry w" using D(15) free by (simp add: idle_entries_def)
    qed
  qed
qed

lemma installInitial_ok:
  assumes inv: "registry_inv K g ls pages" and rm: "room g ls pages (1 + ru_Slots (ir_reservation req)) (is_dynamicBytes sz)"
    and ds: "unat (1 + ru_Slots (ir_reservation req)) = Suc (unat (ru_Slots (ir_reservation req)))"
    and rb: "unat (ru_Bytes (ir_reservation req)) \<le> unat (is_dynamicBytes sz)" and nid: "rg_nextID g \<noteq> -1"
    and t: "index_map (rg_tokens g) t = None"
  shows "\<exists>l e lref eref lins1 ents1 g'. lineage_claim (rg_lineages g) = Some (lref, lins1) \<and>
    entry_claim (rg_entries g) = Some (eref, ents1) \<and>
    installInitial K (ref_index lref) (ref_index eref) (rg_nextID g + 1) t req (is_stateBytes sz) (is_sharedBytes sz)
      (is_dynamicBytes sz) now (g\<lparr>rg_lineages := lins1, rg_entries := ents1, rg_nextID := rg_nextID g + 1\<rparr>) = Some g' \<and>
    lref = \<lparr>ref_index = of_nat l, ref_generation = l_generation (l_rows (rg_lineages g) ! l)\<rparr> \<and> unat (of_nat l :: arenaRef) = l \<and>
    installs g l e req sz now g' \<and> registry_inv K g' (l # ls) (pages(l := [e])) \<and>
    index_map (rg_tokens g') = (index_map (rg_tokens g))(t \<mapsto> of_nat e)"
proof -
  note D = registry_invD [OF inv] and zs = sizes_okD [OF inv] and A = live_less_all [OF inv rm]
  let ?W = "\<lambda>l e. installed_row (l_rows (rg_lineages g) ! l) e (rg_nextID g + 1) req sz (rg_cfg g) now"
  obtain l lins1 where l: "lineage_claim (rg_lineages g) =
      Some (\<lparr>ref_index = of_nat l, ref_generation = l_generation (l_rows (rg_lineages g) ! l)\<rparr>, lins1)"
    "l < length (l_rows (rg_lineages g))" "l \<notin> live_lineages (rg_lineages g)" "view_inv (lineage_view lins1)"
    "live_lineages lins1 = insert l (live_lineages (rg_lineages g))" "l_lruHead lins1 = l_lruHead (rg_lineages g)"
    "l_lruTail lins1 = l_lruTail (rg_lineages g)"
    "l_rows lins1 = (l_rows (rg_lineages g))[l := (l_rows (rg_lineages g) ! l)\<lparr>l_nextFree := noRef, l_occupied := 1\<rparr>]"
    "unat (of_nat l :: arenaRef) = l"
    using lineage_claim_Some [OF D(3) A(2)] by blast
  obtain e ents1 where e: "entry_claim (rg_entries g) =
      Some (\<lparr>ref_index = of_nat e, ref_generation = e_generation (e_rows (rg_entries g) ! e)\<rparr>, ents1)"
    "e < length (e_rows (rg_entries g))" "e \<notin> live_entries (rg_entries g)" "view_inv (entry_view ents1)"
    "live_entries ents1 = insert e (live_entries (rg_entries g))"
    "e_rows ents1 = (e_rows (rg_entries g))[e := (e_rows (rg_entries g) ! e)\<lparr>e_nextFree := noRef, e_occupied := 1\<rparr>]"
    "unat (of_nat e :: arenaRef) = e"
    using entry_claim_Some [OF D(2) A(1)] by blast
  define lins where "lins = lins1\<lparr>l_rows := (l_rows lins1)[l := ?W l e]\<rparr>"
  define ents where "ents = ents1\<lparr>e_rows := (e_rows ents1)[e := installed_entry (e_rows (rg_entries g) ! e) l (ir_state req)
    (is_stateBytes sz)]\<rparr>"
  have lrows: "l_rows lins = (l_rows (rg_lineages g))[l := ?W l e]" by (simp add: lins_def l(8))
  have erows: "e_rows ents = (e_rows (rg_entries g))[e := installed_entry (e_rows (rg_entries g) ! e) l (ir_state req) (is_stateBytes sz)]"
    by (simp add: ents_def e(6))
  have lv: "lineage_view lins = lineage_view lins1"
    unfolding lins_def by (rule lineage_view_row) (use l(2) in \<open>simp_all add: l(8) installed_row_def\<close>)
  have ev: "entry_view ents = entry_view ents1"
    unfolding ents_def by (rule entry_view_row) (use e(2) in \<open>simp_all add: e(6) installed_entry_def\<close>)
  have ti: "index_inv (km_token K) (rg_tokens g)" using D(6) unfolding tokens_ok_def by blast
  obtain ix where ix: "index_insert (rg_tokens g) t (of_nat e) (keyedHome (km_token K) (length (slots (rg_tokens g))) t) = Inr ix"
    using index_insert_room [OF ti t A(3) refl] by blast
  have small: "e < 4294967295" "length (e_rows (rg_entries g)) < 4294967295" using e(2) zs(1,2) by simp_all
  have live: "live_entries ents = insert e (live_entries (rg_entries g))" by (simp add: ev e(5))
  note T = tokens_ok_insert [OF D(6) e(3) small(1) live small(2) ix]
  have ii: "index_inv (km_lineage K) (rg_ids g)" using D(7) by (simp add: ids_ok_def)
  obtain ids where ids: "index_insert (rg_ids g) (rg_nextID g + 1) (of_nat l)
      (keyedHome (km_lineage K) (length (slots (rg_ids g))) (rg_nextID g + 1)) = Inr ids"
    using index_insert_room [OF ii registry_inv_fresh_id(1) [OF inv nid] A(4) refl] by blast
  define g' where "g' = g\<lparr>rg_lineages := lruAttachFront (of_nat l) lins, rg_entries := ents, rg_nextID := rg_nextID g + 1,
      rg_tokens := ix, rg_ids := ids, rg_used := rg_used g + (1 + ru_Slots (ir_reservation req)),
      rg_total := rg_total g + is_dynamicBytes sz\<rparr>"
  have inv': "registry_inv K g' (l # ls) (pages(l := [e]))"
    by (rule installed_inv [OF inv rm ds rb nid l(2,3) e(2,3) _ _ _ _ lrows _ _ erows T ids g'_def])
       (use l e lv ev in \<open>simp_all add: lins_def\<close>)
  have wl: "(l_rows lins1 ! l)\<lparr>l_flags := lineagePhaseProvisional, l_id := rg_nextID g + 1, l_entryHead := of_nat e,
      l_resident := 1, l_reservedSlots := ru_Slots (ir_reservation req), l_reservedBytes := ru_Bytes (ir_reservation req),
      l_dynamicBytes := is_dynamicBytes sz, l_root := ir_root req, l_shared := ir_shared req, l_sharedBytes := is_sharedBytes sz,
      l_createdAt := now, l_workExpiresAt := addDuration now (CursorTTL (rg_cfg g)),
      l_commitDeadline := addDuration (addDuration now (CursorTTL (rg_cfg g))) CursorHandoffGrace\<rparr> = ?W l e"
    using l(2) by (simp add: l(8) installed_row_def)
  have we: "(e_rows ents1 ! e)\<lparr>e_kind := entryKindResident, e_lineage := of_nat l, e_parent := noRef, e_successor := noRef,
      e_state := Some (ir_state req), e_stateBytes := is_stateBytes sz\<rparr> =
      installed_entry (e_rows (rg_entries g) ! e) l (ir_state req) (is_stateBytes sz)"
    using e(2) by (simp add: e(6) installed_entry_def)
  have run: "installInitial K (of_nat l) (of_nat e) (rg_nextID g + 1) t req (is_stateBytes sz) (is_sharedBytes sz)
      (is_dynamicBytes sz) now (g\<lparr>rg_lineages := lins1, rg_entries := ents1, rg_nextID := rg_nextID g + 1\<rparr>) = Some g'"
    unfolding installInitial_def Let_def upd_lrow_def upd_erow_def upd_lineages_def
    using ix ids T(2) zs(4)
    by (simp add: l(9) e(7) wl we lins_def [symmetric] ents_def [symmetric] tokenHome_def lineageHome_def lineage_insert_def g'_def)
  have links: "map unlinked (l_rows (lruAttachFront (of_nat l) lins)) = map unlinked (l_rows lins)"
    using lruAttachFront_same [of "of_nat l" lins] by (simp add: same_but_links_def)
  have "installs g l e req sz now g'"
    unfolding installs_def using l(2,3) e(2,3) links erows lrows
    by (simp add: g'_def live_entries_iff live_lineages_iff)
  moreover have "index_map (rg_tokens g') = (index_map (rg_tokens g))(t \<mapsto> of_nat e)"
    using index_insert_Inr(2) [OF ti refl ix] by (simp add: g'_def)
  ultimately show ?thesis using l(1,9) e(1) run inv'
    by (intro exI [of _ l] exI [of _ e] exI [of _ lins1] exI [of _ ents1] exI [of _ g'] exI conjI) (rule refl | assumption | simp)+
qed

section \<open>Committing an initial lineage\<close>

text \<open>The invariant with the count of reuses: a row is reused at most once per lineage that is gone.\<close>

definition registry_good :: "keyed \<Rightarrow> registry \<Rightarrow> nat list \<Rightarrow> (nat \<Rightarrow> nat list) \<Rightarrow> bool" where
  "registry_good K g ls pages \<longleftrightarrow> registry_inv K g ls pages \<and>
    (\<exists>d. reused_at_most d g \<and> d + length ls \<le> unat (rg_nextID g))"

lemma registry_goodD: "registry_good K g ls pages \<Longrightarrow> registry_inv K g ls pages"
  by (simp add: registry_good_def)

abbreviation root_bytes :: "nat option \<Rightarrow> uint64" where
  "root_bytes r \<equiv> (case r of None \<Rightarrow> 0 | Some _ \<Rightarrow> 8)"

abbreviation shared_bytes :: "shared_alloc option \<Rightarrow> uint64" where
  "shared_bytes s \<equiv> (case s of None \<Rightarrow> 0 | Some sh \<Rightarrow> sa_footprint sh)"

lemma size_request_Inr:
  assumes "size_request cfg req = Inr sz"
  shows "is_deltaSlots sz = 1 + ru_Slots (ir_reservation req)" "unat (1 + ru_Slots (ir_reservation req)) = Suc (unat (ru_Slots (ir_reservation req)))"
    "unat (ru_Bytes (ir_reservation req)) \<le> unat (is_dynamicBytes sz)" "is_stateBytes sz = ps_footprint (ir_state req)"
    "unat (is_stateBytes sz) \<le> unat (CursorMaxEntryBytes cfg)" "ToolName_Valid (ps_tool (ir_state req))"
    "unat (is_dynamicBytes sz) = unat (is_stateBytes sz) + unat (shared_bytes (ir_shared req)) +
      unat (root_bytes (ir_root req)) + unat (ru_Bytes (ir_reservation req))"
proof -
  obtain lim dyn ds where *: "LineageBytes \<lparr>la_Resident = 0, la_Tombstones = 0, la_ReservedSlots = 0,
      la_EntryBytes = ps_footprint (ir_state req), la_SharedBytes = (case ir_shared req of None \<Rightarrow> 0 | Some sh \<Rightarrow> sa_footprint sh),
      la_RootBytes = (case ir_root req of None \<Rightarrow> 0 | Some _ \<Rightarrow> 8), la_ReservedBytes = ru_Bytes (ir_reservation req)\<rparr> = Inr dyn"
    "checkedAdd 1 (ru_Slots (ir_reservation req)) = Inr ds"
    "sz = \<lparr>is_stateBytes = ps_footprint (ir_state req),
      is_sharedBytes = (case ir_shared req of None \<Rightarrow> 0 | Some sh \<Rightarrow> sa_footprint sh), is_dynamicBytes = dyn, is_deltaSlots = ds\<rparr>"
    "\<not> ps_footprint (ir_state req) > CursorMaxEntryBytes cfg" "ToolName_Valid (ps_tool (ir_state req))"
    using assms unfolding size_request_def Let_def by (auto split: if_splits sum.splits)
  have ds: "unat ds = Suc (unat (ru_Slots (ir_reservation req)))" and nw: "1 + unat (ru_Slots (ir_reservation req)) < 2 ^ 64"
    using *(2) by (simp_all add: checkedAdd_Inr)
  have "ds = 1 + ru_Slots (ir_reservation req)" using ds nw by (simp add: word_unat_eq_iff unat_word_ariths)
  then show "is_deltaSlots sz = 1 + ru_Slots (ir_reservation req)"
    "unat (1 + ru_Slots (ir_reservation req)) = Suc (unat (ru_Slots (ir_reservation req)))"
    using ds *(3) by simp_all
  have sum: "unat dyn = unat (ps_footprint (ir_state req)) + unat (shared_bytes (ir_shared req)) +
      unat (root_bytes (ir_root req)) + unat (ru_Bytes (ir_reservation req))"
    using *(1) by (auto simp: LineageBytes_def bind_sum_Inr checkedAdd_Inr)
  then show "unat (ru_Bytes (ir_reservation req)) \<le> unat (is_dynamicBytes sz)" using *(3) by simp
  show "unat (is_dynamicBytes sz) = unat (is_stateBytes sz) + unat (shared_bytes (ir_shared req)) +
      unat (root_bytes (ir_root req)) + unat (ru_Bytes (ir_reservation req))"
    using sum *(3) by simp
  show "is_stateBytes sz = ps_footprint (ir_state req)" "unat (is_stateBytes sz) \<le> unat (CursorMaxEntryBytes cfg)"
    "ToolName_Valid (ps_tool (ir_state req))"
    using *(3,4,5) by (simp_all add: not_less word_le_nat_alt)
qed

lemma map_update_nth: "(map f xs)[i := f (xs ! i)] = map f xs"
  by (metis list_update_id map_update)

lemma installs_reused:
  assumes "reused_at_most d g" "installs g l e req sz now g'"
  shows "reused_at_most d g'"
proof -
  have "map l_generation (l_rows (rg_lineages g')) = map l_generation (l_rows (rg_lineages g))"
  proof -
    have g: "map l_generation rows = map l_generation (map unlinked rows)" for rows :: "(nat, shared_alloc) lineage_row list"
      by (simp add: unlinked_def)
    have "map unlinked (l_rows (rg_lineages g')) = map unlinked ((l_rows (rg_lineages g))[l := installed_row
      (l_rows (rg_lineages g) ! l) e (rg_nextID g + 1) req sz (rg_cfg g) now])"
      using assms(2) by (simp add: installs_def)
    then have "map l_generation (l_rows (rg_lineages g')) = map l_generation ((l_rows (rg_lineages g))[l := installed_row
      (l_rows (rg_lineages g) ! l) e (rg_nextID g + 1) req sz (rg_cfg g) now])"
      using g by metis
    then show ?thesis by (simp add: map_update installed_row_def map_update_nth)
  qed
  then have "l_generation ` set (l_rows (rg_lineages g')) = l_generation ` set (l_rows (rg_lineages g))"
    by (metis list.set_map)
  moreover have "map e_generation (e_rows (rg_entries g')) = map e_generation (e_rows (rg_entries g))"
    using assms(2) by (simp add: installs_def map_update installed_entry_def map_update_nth)
  then have "e_generation ` set (e_rows (rg_entries g')) = e_generation ` set (e_rows (rg_entries g))"
    by (metis list.set_map)
  moreover have "reused_at_most d h \<longleftrightarrow> (\<forall>x \<in> e_generation ` set (e_rows (rg_entries h)). unat x \<le> Suc d) \<and>
    (\<forall>x \<in> l_generation ` set (l_rows (rg_lineages h)). unat x \<le> Suc d)" for h
    by (simp add: reused_at_most_def)
  ultimately show ?thesis using assms(1) by (simp only:)
qed

lemma installs_row:
  assumes "installs g l e req sz now g'"
  shows "length (l_rows (rg_lineages g')) = length (l_rows (rg_lineages g))"
    "unlinked (l_rows (rg_lineages g') ! l) = unlinked (installed_row (l_rows (rg_lineages g) ! l) e (rg_nextID g + 1) req sz
      (rg_cfg g) now)"
    "\<And>x. x < length (l_rows (rg_lineages g)) \<Longrightarrow> x \<noteq> l \<Longrightarrow>
      unlinked (l_rows (rg_lineages g') ! x) = unlinked (l_rows (rg_lineages g) ! x)"
proof -
  have m: "map unlinked (l_rows (rg_lineages g')) = map unlinked ((l_rows (rg_lineages g))[l := installed_row
      (l_rows (rg_lineages g) ! l) e (rg_nextID g + 1) req sz (rg_cfg g) now])" and l: "l < length (l_rows (rg_lineages g))"
    using assms by (simp_all add: installs_def)
  show len: "length (l_rows (rg_lineages g')) = length (l_rows (rg_lineages g))" using arg_cong [OF m, of length] by simp
  have "unlinked (l_rows (rg_lineages g') ! x) = unlinked ((l_rows (rg_lineages g))[l := installed_row
      (l_rows (rg_lineages g) ! l) e (rg_nextID g + 1) req sz (rg_cfg g) now] ! x)" if "x < length (l_rows (rg_lineages g))" for x
    using arg_cong [OF m, of "\<lambda>ws. ws ! x"] that len by simp
  then show "unlinked (l_rows (rg_lineages g') ! l) = unlinked (installed_row (l_rows (rg_lineages g) ! l) e (rg_nextID g + 1) req sz
      (rg_cfg g) now)"
    "\<And>x. x < length (l_rows (rg_lineages g)) \<Longrightarrow> x \<noteq> l \<Longrightarrow>
      unlinked (l_rows (rg_lineages g') ! x) = unlinked (l_rows (rg_lineages g) ! x)"
    using l by simp_all
qed

lemma lineage_ok_pages: "pages' l = pages l \<Longrightarrow> lineage_ok ents lins pages' l = lineage_ok ents lins pages l"
  by (simp add: lineage_ok_def)

lemma registry_inv_pages:
  assumes "registry_inv K g ls pages" "\<And>x. x \<in> set ls \<Longrightarrow> pages' x = pages x"
  shows "registry_inv K g ls pages'"
proof -
  have "(\<Union>l \<in> set ls. set (pages' l)) = (\<Union>l \<in> set ls. set (pages l))" using assms(2) by simp
  moreover have "(\<Sum>l\<leftarrow>ls. slots_held (rg_lineages g) pages' l) = (\<Sum>l\<leftarrow>ls. slots_held (rg_lineages g) pages l)"
    using assms(2) by (intro arg_cong [where f = sum_list] map_cong refl) (simp add: slots_held_def)
  moreover have "lineage_ok (rg_entries g) (rg_lineages g) pages' l" if "l \<in> set ls" for l
    using registry_invD(8) [OF assms(1) that] lineage_ok_pages [where pages = pages and pages' = pages', OF assms(2) [OF that]] by simp
  ultimately show ?thesis using assms(1) unfolding registry_inv_def accounts_ok_def by simp
qed

text \<open>A lineage that has just been installed can be removed again, and its root is then closed.\<close>

lemma commitInitial_ok:
  assumes good: "registry_good K g ls pages" and room_left: "unat (rg_nextID g) < 4294967293"
  shows "\<exists>g' installed res. commitInitial K cfg req draw transferred now g = Some (g', installed, res) \<and>
    (case res of
       Inl err \<Rightarrow> (if installed then err = LeaseError \<and> \<not> transferred \<and>
           (\<exists>k. registry_good K g' (without ls (victims g now noRef ls k)) pages)
         else g' = g \<and> (err = RegistryInvariantFailed \<longrightarrow> (\<exists>t. draw = Some t \<and> index_map (rg_tokens g) t \<noteq> None)))
     | Inr (t, lref) \<Rightarrow> installed \<and> transferred \<and> draw = Some t \<and> \<not> rg_closed g \<and>
         (\<exists>k l e g1 sz. size_request cfg req = Inr sz \<and> lref = lineage_ref g' (of_nat l) \<and> index_map (rg_tokens g') t = Some (of_nat e) \<and>
           registry_good K g' (l # without ls (victims g now noRef ls k)) (pages(l := [e])) \<and>
           rows_kept g (without ls (victims g now noRef ls k)) pages g1 \<and> installs g1 l e req sz now g'))"
proof -
  note inv = registry_goodD [OF good]
  obtain d where d: "reused_at_most d g" "d + length ls \<le> unat (rg_nextID g)" using good by (auto simp: registry_good_def)
  have nid: "rg_nextID g \<noteq> -1" using room_left unat_max64 by auto
  show ?thesis
  proof (cases "size_request cfg req")
    case (Inl err)
    then have "err \<noteq> RegistryInvariantFailed" unfolding size_request_def Let_def by (auto split: if_splits sum.splits)
    then show ?thesis using Inl by (intro exI [of _ g] exI [of _ False] exI [of _ "Inl err"]) (simp add: commitInitial_def)
  next
    case sz: (Inr sz)
    note S = size_request_Inr [OF sz]
    show ?thesis
    proof (cases "rg_closed g \<or> \<not> canAdmitWithEviction g (is_deltaSlots sz) (is_dynamicBytes sz) now noRef \<or> draw = None")
      case True
      then show ?thesis using sz by (auto simp: commitInitial_def split: option.split)
    next
      case False
      then obtain t where op: "\<not> rg_closed g" and adm: "canAdmitWithEviction g (is_deltaSlots sz) (is_dynamicBytes sz) now noRef"
        and t: "draw = Some t" by auto
      have ti: "index_inv (km_token K) (rg_tokens g)" and ii: "index_inv (km_lineage K) (rg_ids g)"
        using registry_invD(6,7) [OF inv] by (simp_all add: tokens_ok_def ids_ok_def)
      have lk: "index_lookup (rg_tokens g) t (tokenHome K g t) = index_map (rg_tokens g) t"
        by (rule index_lookup_correct [OF ti]) (simp add: tokenHome_def)
      have li: "lineage_lookup (rg_ids g) (rg_nextID g + 1) (lineageHome K g (rg_nextID g + 1)) = None"
        using registry_inv_fresh_id(1) [OF inv nid] index_lookup_correct [OF ii, of _ "rg_nextID g + 1"] sizes_okD(4) [OF inv]
        by (simp add: lineage_lookup_def lineageHome_def)
      show ?thesis
      proof (cases "index_map (rg_tokens g) t = None")
        case False
        then show ?thesis using sz op adm t lk by (auto simp: commitInitial_def Let_def)
      next
        case fresh: True
        have bound: "d + length ls < 4294967295" using d(2) room_left by simp
        obtain g1 k where ev: "evict_loop K (eviction_rounds g) (is_deltaSlots sz) (is_dynamicBytes sz) now noRef g = Some (g1, True)"
          "registry_inv K g1 (without ls (victims g now noRef ls k)) pages"
          "room g1 (without ls (victims g now noRef ls k)) pages (is_deltaSlots sz) (is_dynamicBytes sz)"
          "reused_at_most (d + k) g1" "rows_kept g (without ls (victims g now noRef ls k)) pages g1"
          "length (without ls (victims g now noRef ls k)) + k = length ls"
          using eviction_ok [OF inv adm op d(1) bound] by blast
        define ls1 where "ls1 = without ls (victims g now noRef ls k)"
        have run: "commitInitial K cfg req draw transferred now g =
            commit_claimed K req sz t (rg_nextID g + 1) transferred now g1"
          using sz op adm t lk fresh nid li ev(1) by (simp add: commitInitial_def Let_def)
        have same: "rg_nextID g1 = rg_nextID g" "rg_closed g1 = rg_closed g" using ev(5) by (simp_all add: rows_kept_def)
        have le: "map_le (index_map (rg_tokens g1)) (index_map (rg_tokens g))" using ev(5) unfolding rows_kept_def by blast
        have fresh1: "index_map (rg_tokens g1) t = None"
        proof (cases "index_map (rg_tokens g1) t")
          case (Some x)
          then have "index_map (rg_tokens g) t = Some x" using le unfolding map_le_def by (metis domI)
          then show ?thesis using fresh by simp
        qed
        have rm1: "room g1 ls1 pages (1 + ru_Slots (ir_reservation req)) (is_dynamicBytes sz)"
          using ev(3) S(1) unfolding ls1_def by simp
        have nid1: "rg_nextID g1 \<noteq> -1" using nid same by simp
        obtain l e lref eref lins1 ents1 g2 where ins: "lineage_claim (rg_lineages g1) = Some (lref, lins1)"
          "entry_claim (rg_entries g1) = Some (eref, ents1)"
          "installInitial K (ref_index lref) (ref_index eref) (rg_nextID g1 + 1) t req (is_stateBytes sz) (is_sharedBytes sz)
            (is_dynamicBytes sz) now (g1\<lparr>rg_lineages := lins1, rg_entries := ents1, rg_nextID := rg_nextID g1 + 1\<rparr>) = Some g2"
          "lref = \<lparr>ref_index = of_nat l, ref_generation = l_generation (l_rows (rg_lineages g1) ! l)\<rparr>"
          "unat (of_nat l :: arenaRef) = l" "installs g1 l e req sz now g2" "registry_inv K g2 (l # ls1) (pages(l := [e]))"
          "index_map (rg_tokens g2) = (index_map (rg_tokens g1))(t \<mapsto> of_nat e)"
          using installInitial_ok [OF ev(2) [folded ls1_def] rm1 S(2,3) nid1 fresh1, of now] by blast
        have len2: "length (l_rows (rg_lineages g2)) = length (l_rows (rg_lineages g1))"
          and row2: "unlinked (l_rows (rg_lineages g2) ! l) = unlinked (installed_row (l_rows (rg_lineages g1) ! l) e
            (rg_nextID g1 + 1) req sz (rg_cfg g1) now)"
          using installs_row [OF ins(6)] by simp_all
        note F = unlinked_fields [OF row2]
        have lref2: "lref = lineage_ref g2 (of_nat l)" using ins(4,5) F(3) by (simp add: lineage_ref_def installed_row_def)
        have n2: "rg_nextID g2 = rg_nextID g + 1" using ins(6) same by (simp add: installs_def)
        have un2: "unat (rg_nextID g2) = Suc (unat (rg_nextID g))" using registry_inv_fresh_id(2) [OF inv nid] n2 by simp
        have reused2: "reused_at_most (d + k) g2" by (rule installs_reused [OF ev(4) ins(6)])
        have run2: "commitInitial K cfg req draw transferred now g =
            (if \<not> transferred then Some (fst (removeLineage K lref g2), True, Inl LeaseError) else Some (g2, True, Inr (t, lref)))"
          unfolding run commit_claimed_def using ins(1,2,3) same by (simp add: Let_def)
        show ?thesis
        proof (cases transferred)
          case True
          have good2: "registry_good K g2 (l # ls1) (pages(l := [e]))"
            unfolding registry_good_def using ins(7) reused2 ev(6) d(2) un2 ls1_def by (auto intro!: exI [of _ "d + k"])
          have "commitInitial K cfg req draw transferred now g = Some (g2, True, Inr (t, lref))" using run2 True by simp
          then show ?thesis
            using True t op sz lref2 good2 ins(6,8) ev(5) by (auto simp: ls1_def)
        next
          case False
          have pins: "l_pins (l_rows (rg_lineages g2) ! l) = 0"
          proof -
            have "l \<notin> live_lineages (rg_lineages g1)" "l < length (l_rows (rg_lineages g1))" using ins(6) by (simp_all add: installs_def)
            then have "l_pins (l_rows (rg_lineages g1) ! l) = 0"
              using registry_invD(13) [OF ev(2)] by (simp add: live_lineages_iff idle_rows_def)
            then show ?thesis using F(6) by (simp add: installed_row_def)
          qed
          have i2: "registry_inv K g2 ([] @ l # ls1) (pages(l := [e]))" using ins(7) by simp
          have b2: "d + k < 4294967294" using ev(6) d(2) room_left by simp
          have op2: "\<not> rg_closed g2" using op same ins(6) by (simp add: installs_def)
          obtain g3 where g3: "removeLineage K (lineage_ref g2 (of_nat l)) g2 = (g3, True)"
            "registry_inv K g3 ls1 (pages(l := [e]))" "reused_at_most (Suc (d + k)) g3" "removal_frame g2 l (pages(l := [e])) g3"
            using removeLineage_ok [OF i2 pins reused2 b2] op2 by auto
          have "l \<notin> set ls1" using registry_invD(12) [OF ins(7)] by simp
          then have "pages x = (pages(l := [e])) x" if "x \<in> set ls1" for x using that by auto
          then have i3: "registry_inv K g3 ls1 pages" by (rule registry_inv_pages [OF g3(2)])
          have "rg_nextID g3 = rg_nextID g2" using g3(4) by (simp add: removal_frame_def)
          then have good3: "registry_good K g3 ls1 pages"
            unfolding registry_good_def using i3 g3(3) ev(6) d(2) un2 ls1_def by (auto intro!: exI [of _ "Suc (d + k)"])
          have "commitInitial K cfg req draw transferred now g = Some (g3, True, Inl LeaseError)"
            using run2 False g3(1) lref2 by simp
          then show ?thesis using False good3 by (auto simp: ls1_def)
        qed
      qed
    qed
  qed
qed

end
