(* ===== verification/CursorSuccessor.thy ===== *)
theory CursorSuccessor
  imports CursorInstall
begin

text \<open>
  The continuation of a lineage by one page (\<open>src/internal/cursor/successor.go\<close>): the result of a page is kept
  with its entry and a child entry with a derived token is put behind it, paid for by a reservation or, for a
  dynamic lineage, newly admitted with eviction.
\<close>

section \<open>Sizes\<close>

definition entryFlagMustTerminalize :: uint16 where "entryFlagMustTerminalize = 1"

datatype footprint_error = InvalidResult result_error | FootprintOverflow cursor_error | NoState

text \<open>Words have 8 bytes.\<close>

definition resultFootprint :: "Result \<Rightarrow> footprint_error + uint64" where
  "resultFootprint res =
    (case Result_Validate res of
       Inl e \<Rightarrow> Inl (InvalidResult e)
     | Inr _ \<Rightarrow>
       let bytes = 5 * 8 in
       (case Result_Text res of
          Some txt \<Rightarrow> (case checkedAdd bytes (of_nat (length txt)) of Inl e \<Rightarrow> Inl (FootprintOverflow e) | Inr n \<Rightarrow> Inr n)
        | None \<Rightarrow> Inr bytes))"

definition SuccessorBytes :: "page_state option \<Rightarrow> Result \<Rightarrow> footprint_error + uint64" where
  "SuccessorBytes st res =
    (case st of
       None \<Rightarrow> Inl NoState
     | Some s \<Rightarrow>
       (case resultFootprint res of
          Inl e \<Rightarrow> Inl e
        | Inr memoBytes \<Rightarrow>
            (case EntryBytes \<lparr>ea_StateBytes = ps_footprint s, ea_MemoBytes = memoBytes\<rparr> of
               Inl e \<Rightarrow> Inl (FootprintOverflow e)
             | Inr n \<Rightarrow> Inr n)))"

section \<open>Materialising a successor\<close>

text \<open>The checks under the lock that change nothing, in the order of the source; \<open>i\<close> is the lineage index.\<close>

definition successor_checks ::
  "registry \<Rightarrow> arenaRef \<Rightarrow> arenaRef \<Rightarrow> page_state \<Rightarrow> uint64 \<Rightarrow> uint64 \<Rightarrow> uint64 \<Rightarrow> ReservationUse \<Rightarrow> int64 \<Rightarrow>
   registry_error option" where
  "successor_checks g p i succ memoBytes stateBytes actualBytes use now =
    (if e_memo (erow g p) \<noteq> None \<or> e_successor (erow g p) \<noteq> noRef \<or> e_page (erow g p) = -1 \<or>
       and (e_flags (erow g p)) entryFlagMustTerminalize \<noteq> 0
     then Some RegistryInvariantFailed
     else if (ucast (e_page (erow g p)) :: uint64) + 3 > CursorMaxPages (rg_cfg g) then Some (Coded ErrorBudgetExceeded)
     else if (case e_state (erow g p) of None \<Rightarrow> True | Some parentState \<Rightarrow>
       ps_tool succ \<noteq> ps_tool parentState \<or> ps_cwdID succ \<noteq> ps_cwdID parentState \<or>
       \<not> ToolName_Valid (ps_tool succ) \<or> ps_cwdID succ = 0)
     then Some (Coded ErrorInvalidInput)
     else if stateBytes > CursorMaxEntryBytes (rg_cfg g) \<or> memoBytes > CursorMaxEntryBytes (rg_cfg g) \<or>
       e_stateBytes (erow g p) > CursorMaxEntryBytes (rg_cfg g) - memoBytes
     then Some (Coded ErrorBudgetExceeded)
     else if sint now \<ge> sint (l_workExpiresAt (lrow g i)) then Some (Coded ErrorCursorExpired)
     else
       let isRead = l_shared (lrow g i) \<noteq> None in
       if isRead \<and> (ps_shared succ = None \<or> ps_shared succ \<noteq> map_option sa_digest (l_shared (lrow g i)) \<or>
         ru_Kind use \<noteq> ReadPagePlan \<or> ru_Slots use \<noteq> 1)
       then Some (Coded ErrorInvalidInput)
       else if \<not> isRead \<and> (ps_shared succ \<noteq> None \<or> ru_Kind use \<noteq> BroadSummaryFinal \<or> ru_Slots use > 1)
       then Some (Coded ErrorInvalidInput)
       else if ru_Slots use = 1
       then
         if l_reservedSlots (lrow g i) = 0 \<or> ru_Bytes use > l_reservedBytes (lrow g i) then Some RegistryInvariantFailed
         else if ru_Kind use \<noteq> BroadSummaryFinal \<and> l_reservedSlots (lrow g i) = 1 \<and> ru_Bytes use \<noteq> l_reservedBytes (lrow g i)
         then Some RegistryInvariantFailed
         else None
       else if isRead \<or> ru_MustTerminalize use \<or> \<not> canAdmitWithEviction g 1 actualBytes now i
       then Some (Coded ErrorBudgetExceeded)
       else None)"

text \<open>The rows after the child has been claimed.\<close>

definition child_row ::
  "arenaRef \<Rightarrow> arenaRef \<Rightarrow> uint32 \<Rightarrow> page_state \<Rightarrow> uint64 \<Rightarrow> ReservationUse \<Rightarrow>
   (page_state, Result, nat) entry_row \<Rightarrow> (page_state, Result, nat) entry_row" where
  "child_row p i parentPage succ stateBytes use w =
    (let w1 = w\<lparr>e_kind := entryKindResident, e_lineage := i, e_parent := p, e_successor := noRef,
        e_page := parentPage + 1, e_state := Some succ, e_stateBytes := stateBytes\<rparr> in
     if ru_MustTerminalize use then w1\<lparr>e_flags := or (e_flags w1) entryFlagMustTerminalize\<rparr> else w1)"

definition charge_successor :: "arenaRef \<Rightarrow> uint64 \<Rightarrow> ReservationUse \<Rightarrow> registry \<Rightarrow> registry" where
  "charge_successor i actualBytes use g =
    (let g1 = upd_lrow i (\<lambda>w. w\<lparr>l_resident := l_resident w + 1\<rparr>) g in
     if ru_Slots use = 1
     then
       let reservedBefore = l_reservedBytes (lrow g1 i);
           g2 = upd_lrow i (\<lambda>w. w\<lparr>l_reservedSlots := l_reservedSlots w - 1\<rparr>) g1 in
       if ru_Kind use = BroadSummaryFinal \<and> l_reservedSlots (lrow g2 i) = 0
       then
         let slack = reservedBefore - actualBytes in
         upd_lrow i (\<lambda>w. w\<lparr>l_reservedBytes := 0, l_dynamicBytes := l_dynamicBytes w - slack\<rparr>)
           (g2\<lparr>rg_total := rg_total g2 - slack\<rparr>)
       else upd_lrow i (\<lambda>w. w\<lparr>l_reservedBytes := l_reservedBytes w - actualBytes\<rparr>) g2
     else upd_lrow i (\<lambda>w. w\<lparr>l_dynamicBytes := l_dynamicBytes w + actualBytes\<rparr>)
       (g1\<lparr>rg_used := rg_used g1 + 1, rg_total := rg_total g1 + actualBytes\<rparr>))"

definition extend_protection :: "arenaRef \<Rightarrow> int64 \<Rightarrow> registry \<Rightarrow> registry" where
  "extend_protection i now g =
    (let handoff = addDuration now CursorHandoffGrace;
         protectedUntil = (if sint handoff > sint (l_commitDeadline (lrow g i)) then l_commitDeadline (lrow g i) else handoff) in
     if sint protectedUntil > sint (l_protectedUntil (lrow g i))
     then upd_lrow i (\<lambda>w. w\<lparr>l_protectedUntil := protectedUntil\<rparr>) g
     else g)"

text \<open>The part after the checks.  \<open>None\<close> is a panic or an eviction that does not end.\<close>

definition link_child ::
  "keyed \<Rightarrow> arenaRef \<Rightarrow> arenaRef \<Rightarrow> token \<Rightarrow> page_state \<Rightarrow> Result \<Rightarrow> uint64 \<Rightarrow> uint64 \<Rightarrow> uint64 \<Rightarrow> ReservationUse \<Rightarrow> int64 \<Rightarrow>
   registry \<Rightarrow> (registry \<times> (registry_error + token)) option" where
  "link_child K p i childToken succ memo memoBytes stateBytes actualBytes use now g =
    (case entry_claim (rg_entries g) of
       None \<Rightarrow> Some (g, Inl RegistryInvariantFailed)
     | Some (child, ents) \<Rightarrow>
         let c = ref_index child;
             g1 = upd_erow c (child_row p i (e_page (erow g p)) succ stateBytes use) (g\<lparr>rg_entries := ents\<rparr>);
             g2 = upd_erow p (\<lambda>w. w\<lparr>e_memo := Some memo, e_memoBytes := memoBytes, e_successor := c\<rparr>) g1 in
         (case index_insert (rg_tokens g2) childToken c (tokenHome K g2 childToken) of
            Inl _ \<Rightarrow> None
          | Inr ix \<Rightarrow>
              let g3 = charge_successor i actualBytes use (g2\<lparr>rg_tokens := ix\<rparr>) in
              Some (upd_lineages (lruTouch i) (extend_protection i now g3), Inr childToken)))"

definition place_child ::
  "keyed \<Rightarrow> arenaRef \<Rightarrow> arenaRef \<Rightarrow> page_state \<Rightarrow> Result \<Rightarrow> uint64 \<Rightarrow> uint64 \<Rightarrow> uint64 \<Rightarrow> ReservationUse \<Rightarrow> int64 \<Rightarrow>
   registry \<Rightarrow> (registry \<times> (registry_error + token)) option" where
  "place_child K p i succ memo memoBytes stateBytes actualBytes use now g =
    (case tokenForEntry g p of
       None \<Rightarrow> Some (g, Inl RegistryInvariantFailed)
     | Some (parentToken, _) \<Rightarrow>
       let childToken = km_child K parentToken (ps_digest succ) in
       if index_lookup (rg_tokens g) childToken (tokenHome K g childToken) \<noteq> None then Some (g, Inl RegistryInvariantFailed)
       else if e_freeHead (rg_entries g) = noRef then Some (g, Inl RegistryInvariantFailed)
       else if ru_Slots use = 1
       then link_child K p i childToken succ memo memoBytes stateBytes actualBytes use now g
       else case evict_loop K (eviction_rounds g) 1 actualBytes now i g of
         None \<Rightarrow> None
       | Some (g1, ok) \<Rightarrow>
           if \<not> ok then Some (g1, Inl RegistryInvariantFailed)
           else link_child K p i childToken succ memo memoBytes stateBytes actualBytes use now g1)"

definition materializeSuccessor ::
  "keyed \<Rightarrow> EntryRef \<Rightarrow> page_state option \<Rightarrow> Result \<Rightarrow> ReservationUse \<Rightarrow> int64 \<Rightarrow> registry \<Rightarrow>
   (registry \<times> (registry_error + token)) option" where
  "materializeSuccessor K parent successor res use now g =
    (case successor of
       None \<Rightarrow> Some (g, Inl (Coded ErrorInvalidInput))
     | Some succ \<Rightarrow>
     (case resultFootprint res of
       Inl _ \<Rightarrow> Some (g, Inl (Coded ErrorInvalidInput))
     | Inr memoBytes \<Rightarrow>
     let stateBytes = ps_footprint succ in
     (case EntryBytes \<lparr>ea_StateBytes = stateBytes, ea_MemoBytes = memoBytes\<rparr> of
       Inl _ \<Rightarrow> Some (g, Inl (Coded ErrorBudgetExceeded))
     | Inr actualBytes \<Rightarrow>
       if actualBytes \<noteq> ru_Bytes use then Some (g, Inl (Coded ErrorBudgetExceeded))
       else if rg_closed g \<or> \<not> entry_valid (rg_entries g) parent then Some (g, Inl (Coded ErrorCursorExpired))
       else
         let p = ref_index parent; i = e_lineage (erow g p) in
         if unat i \<ge> length (l_rows (rg_lineages g)) \<or> l_occupied (lrow g i) = 0 then Some (g, Inl (Coded ErrorCursorExpired))
         else
           let phase = and (l_flags (lrow g i)) lineagePhaseMask in
           if phase \<noteq> lineagePhasePublishing \<and> phase \<noteq> lineagePhasePublished then Some (g, Inl (Coded ErrorCursorExpired))
           else if lineage_expired g i now
           then Some (fst (removeLineage K (lineage_ref g i) g), Inl (Coded ErrorCursorExpired))
           else case successor_checks g p i succ memoBytes stateBytes actualBytes use now of
             Some err \<Rightarrow> Some (g, Inl err)
           | None \<Rightarrow> place_child K p i succ res memoBytes stateBytes actualBytes use now g)))"

section \<open>Updates of rows\<close>

lemma sum_list_change:
  fixes f f' :: "nat \<Rightarrow> nat"
  assumes "distinct ls" "l \<in> set ls" "\<And>x. x \<in> set ls \<Longrightarrow> x \<noteq> l \<Longrightarrow> f' x = f x"
  shows "(\<Sum>x\<leftarrow>ls. f' x) + f l = (\<Sum>x\<leftarrow>ls. f x) + f' l"
proof -
  obtain ys zs where ls: "ls = ys @ l # zs" using assms(2) by (meson split_list)
  have "sum_list (map f' (ys @ zs)) = sum_list (map f (ys @ zs))"
    using assms(1,3) by (intro arg_cong [where f = sum_list] map_cong refl) (auto simp: ls)
  then show ?thesis unfolding ls sum_list_split by (simp only: ac_simps)
qed

text \<open>A change of one lineage: its row, its pages and the accounts move together.\<close>

lemma lineage_change_inv:
  assumes inv: "registry_inv K g ls pages" and l: "l \<in> set ls"
    and lins: "rg_lineages g' = (rg_lineages g)\<lparr>l_rows := (l_rows (rg_lineages g))[l := w]\<rparr>"
    and w: "l_occupied w = l_occupied (l_rows (rg_lineages g) ! l)" "l_generation w = l_generation (l_rows (rg_lineages g) ! l)"
      "l_nextFree w = l_nextFree (l_rows (rg_lineages g) ! l)" "l_lruPrev w = l_lruPrev (l_rows (rg_lineages g) ! l)"
      "l_lruNext w = l_lruNext (l_rows (rg_lineages g) ! l)" "l_id w = l_id (l_rows (rg_lineages g) ! l)"
      "unat (l_reservedBytes w) \<le> unat (l_dynamicBytes w)"
    and ok: "lineage_ok (rg_entries g') (rg_lineages g') (pages(l := P)) l"
    and ents: "tokens_ok K (rg_tokens g') (rg_entries g')" "view_inv (entry_view (rg_entries g'))"
      "length (slots (rg_tokens g')) = length (slots (rg_tokens g))"
      "length (e_rows (rg_entries g')) = length (e_rows (rg_entries g))" "idle_entries (rg_entries g')"
      "live_entries (rg_entries g') = live_entries (rg_entries g) - set (pages l) \<union> set P"
      "\<And>e. e \<in> live_entries (rg_entries g) \<Longrightarrow> e \<notin> set (pages l) \<Longrightarrow> e_rows (rg_entries g') ! e = e_rows (rg_entries g) ! e"
    and same: "rg_layout g' = rg_layout g" "rg_cfg g' = rg_cfg g" "rg_base g' = rg_base g" "rg_ids g' = rg_ids g"
      "rg_nextID g' = rg_nextID g"
    and acc: "unat (rg_used g') + slots_held (rg_lineages g) pages l = unat (rg_used g) + slots_held (rg_lineages g') (pages(l := P)) l"
      "unat (rg_used g') \<le> unat (MaxEntries (rg_layout g))"
      "unat (rg_total g') + bytes_held (rg_lineages g) l = unat (rg_total g) + unat (l_dynamicBytes w)"
      "unat (rg_total g') \<le> unat (CursorMaxTotalBytes (rg_cfg g))"
  shows "registry_inv K g' ls (pages(l := P))"
proof -
  note D = registry_invD [OF inv] and R = registry_inv_row [OF inv]
  let ?lins = "rg_lineages g'"
  have at_l: "l_rows ?lins ! l = w" using R(1) [OF l] lins by simp
  have off: "l_rows ?lins ! x = l_rows (rg_lineages g) ! x" if "x \<noteq> l" for x using that lins by simp
  have len: "length (l_rows ?lins) = length (l_rows (rg_lineages g))" using lins by simp
  have view: "lineage_view ?lins = lineage_view (rg_lineages g)" unfolding lins by (rule lineage_view_row) (use w in auto)
  have field: "h (l_rows ?lins ! x) = h (l_rows (rg_lineages g) ! x)"
    if "h w = h (l_rows (rg_lineages g) ! l)" for h :: "(nat, shared_alloc) lineage_row \<Rightarrow> 'c" and x
    using that at_l off by (cases "x = l") auto
  note pins_field = field
  show ?thesis
    unfolding registry_inv_def same
  proof (intro conjI ballI)
    show "sizes_ok g'" using D(1) ents(3,4) len same by (simp add: sizes_ok_def Let_def)
    show "view_inv (entry_view (rg_entries g'))" "tokens_ok K (rg_tokens g') (rg_entries g')" "idle_entries (rg_entries g')"
      by (rule ents)+
    show "view_inv (lineage_view ?lins)" "set ls = live_lineages ?lins" using D(3,5) by (simp_all add: view)
    show "lru_list ?lins ls"
      by (rule lru_list_cong [OF D(4)]) (use lins len field w(4,5) in auto)
    have "l_id (l_rows ?lins ! x) = l_id (l_rows (rg_lineages g) ! x)" for x by (rule field [OF w(6)])
    then show "ids_ok K (rg_ids g) ?lins ls" "\<And>x. x \<in> set ls \<Longrightarrow> unat (l_id (l_rows ?lins ! x)) \<le> unat (rg_nextID g)"
      using D(7,11) by (simp_all add: ids_ok_def)
    show "lineage_ok (rg_entries g') ?lins (pages(l := P)) x" if x: "x \<in> set ls" for x
    proof (cases "x = l")
      case True
      then show ?thesis using ok by simp
    next
      case False
      show ?thesis
      proof (rule lineage_ok_cong [OF D(8) [OF x]])
        fix e
        assume e: "e \<in> set (pages x)"
        have live: "e \<in> live_entries (rg_entries g)" using D(8) [OF x] e by (simp add: lineage_ok_def)
        have "e \<notin> set (pages l)" using pages_disjoint [OF inv x l False] e by blast
        then show "e_rows (rg_entries g') ! e = e_rows (rg_entries g) ! e \<and> e \<in> live_entries (rg_entries g') \<and>
            e < length (e_rows (rg_entries g))"
          using ents(6) ents(7) live by (simp add: live_entries_iff)
      qed (use off False in simp_all)
    qed
    show "live_entries (rg_entries g') = (\<Union>x \<in> set ls. set ((pages(l := P)) x))"
    proof -
      have dis: "set (pages x) \<inter> set (pages l) = {}" if "x \<in> set ls" "x \<noteq> l" for x by (rule pages_disjoint [OF inv that(1) l that(2)])
      have "(\<Union>x \<in> set ls. set ((pages(l := P)) x)) = set P \<union> (\<Union>x \<in> set ls - {l}. set (pages x))"
        using l by (auto split: if_splits)
      moreover have "(\<Union>x \<in> set ls. set (pages x)) - set (pages l) = (\<Union>x \<in> set ls - {l}. set (pages x))"
        using l dis by blast
      ultimately show ?thesis unfolding ents(6) D(9) by blast
    qed
    show "accounts_ok g' ls (pages(l := P))"
    proof -
      have s: "(\<Sum>x\<leftarrow>ls. slots_held ?lins (pages(l := P)) x) + slots_held (rg_lineages g) pages l =
          (\<Sum>x\<leftarrow>ls. slots_held (rg_lineages g) pages x) + slots_held ?lins (pages(l := P)) l"
        by (rule sum_list_change [OF D(12) l]) (simp add: slots_held_def off)
      have b: "(\<Sum>x\<leftarrow>ls. bytes_held ?lins x) + bytes_held (rg_lineages g) l =
          (\<Sum>x\<leftarrow>ls. bytes_held (rg_lineages g) x) + bytes_held ?lins l"
        by (rule sum_list_change [OF D(12) l]) (simp add: bytes_held_def off)
      have bl: "bytes_held ?lins l = unat (l_dynamicBytes w)" by (simp add: bytes_held_def at_l)
      have a: "unat (rg_used g) = (\<Sum>x\<leftarrow>ls. slots_held (rg_lineages g) pages x)"
        "unat (rg_total g) = unat (rg_base g) + (\<Sum>x\<leftarrow>ls. bytes_held (rg_lineages g) x)"
        using D(10) unfolding accounts_ok_def by blast+
      show ?thesis
        unfolding accounts_ok_def same
        using s b bl a acc by linarith
    qed
    show "idle_rows ?lins"
      unfolding idle_rows_def len
    proof (intro allI impI)
      fix j
      assume j: "j < length (l_rows (rg_lineages g))" "l_occupied (l_rows ?lins ! j) = 0"
      have "j \<noteq> l" using j(2) R(4) [OF l] field [of l_occupied, OF w(1)] by auto
      then show "l_pins (l_rows ?lins ! j) = 0 \<and> l_tombstones (l_rows ?lins ! j) = 0"
        using j off D(13) by (simp add: idle_rows_def)
    qed
    show "unat (l_reservedBytes (l_rows ?lins ! x)) \<le> bytes_held ?lins x" if "x \<in> set ls" for x
      using D(14) [OF that] w(7) at_l off by (cases "x = l") (simp_all add: bytes_held_def)
  qed
qed

text \<open>A change of a row that the accounting does not see.\<close>

definition quiet_change :: "(nat, shared_alloc) lineage_row \<Rightarrow> (nat, shared_alloc) lineage_row \<Rightarrow> bool" where
  "quiet_change w v \<longleftrightarrow> l_occupied w = l_occupied v \<and> l_generation w = l_generation v \<and> l_nextFree w = l_nextFree v \<and>
    l_lruPrev w = l_lruPrev v \<and> l_lruNext w = l_lruNext v \<and> l_entryHead w = l_entryHead v \<and>
    unat (l_resident w) + unat (l_tombstones w) = unat (l_resident v) + unat (l_tombstones v) \<and>
    l_reservedSlots w = l_reservedSlots v \<and> l_reservedBytes w = l_reservedBytes v \<and>
    l_dynamicBytes w = l_dynamicBytes v \<and> l_id w = l_id v"

lemma quiet_inv:
  assumes inv: "registry_inv K g ls pages" and l: "l \<in> set ls" and q: "quiet_change (f (l_rows (rg_lineages g) ! l)) (l_rows (rg_lineages g) ! l)"
  shows "registry_inv K (upd_lrow (of_nat l) f g) ls pages"
proof -
  note D = registry_invD [OF inv] and R = registry_inv_row [OF inv l]
  let ?g = "upd_lrow (of_nat l) f g" and ?w = "f (l_rows (rg_lineages g) ! l)"
  have lins: "rg_lineages ?g = (rg_lineages g)\<lparr>l_rows := (l_rows (rg_lineages g))[l := ?w]\<rparr>"
    using R(2) by (simp add: upd_lrow_def)
  have at_l: "l_rows (rg_lineages ?g) ! l = ?w" using R(1) lins by simp
  have e: "rg_entries ?g = rg_entries g" "rg_tokens ?g = rg_tokens g" "rg_used ?g = rg_used g" "rg_total ?g = rg_total g"
    by (simp_all add: upd_lrow_def)
  have "set (pages l) \<subseteq> live_entries (rg_entries g)" using D(8) [OF l] by (auto simp: lineage_ok_def)
  then have live: "live_entries (rg_entries ?g) = live_entries (rg_entries g) - set (pages l) \<union> set (pages l)" using e by auto
  have "registry_inv K ?g ls (pages(l := pages l))"
  proof (rule lineage_change_inv [OF inv l lins _ _ _ _ _ _ _ _ _ _ _ _ _ live])
    show "unat (l_reservedBytes ?w) \<le> unat (l_dynamicBytes ?w)" using D(14) [OF l] q by (simp add: quiet_change_def bytes_held_def)
    have "lineage_ok (rg_entries ?g) (rg_lineages ?g) pages l"
      by (rule lineage_ok_cong [OF D(8) [OF l]])
        (use q at_l D(8) [OF l] in \<open>auto simp: quiet_change_def e lineage_ok_def live_entries_iff\<close>)
    then show "lineage_ok (rg_entries ?g) (rg_lineages ?g) (pages(l := pages l)) l" by simp
    show "unat (rg_used ?g) + slots_held (rg_lineages g) pages l = unat (rg_used g) + slots_held (rg_lineages ?g) (pages(l := pages l)) l"
      using q at_l by (simp add: quiet_change_def e slots_held_def)
    show "unat (rg_total ?g) + bytes_held (rg_lineages g) l = unat (rg_total g) + unat (l_dynamicBytes ?w)"
      using q by (simp add: quiet_change_def e bytes_held_def)
    show "unat (rg_used ?g) \<le> unat (MaxEntries (rg_layout g))" "unat (rg_total ?g) \<le> unat (CursorMaxTotalBytes (rg_cfg g))"
      using D(10) by (simp_all add: e accounts_ok_def)
  qed (use q D in \<open>simp_all add: quiet_change_def e\<close>, simp_all add: upd_lrow_def)
  then show ?thesis by simp
qed

lemma touch_inv:
  assumes inv: "registry_inv K g (ys @ l # zs) pages"
  shows "registry_inv K (upd_lineages (lruTouch (of_nat l)) g) (l # ys @ zs) pages"
proof -
  note D = registry_invD [OF inv]
  let ?lins = "lruTouch (of_nat l) (rg_lineages g)" and ?g = "upd_lineages (lruTouch (of_nat l)) g"
  have links: "same_but_links ?lins (rg_lineages g)" by (rule lruTouch_same)
  have len: "length (l_rows ?lins) = length (l_rows (rg_lineages g))" by (rule same_but_links_row(1) [OF links])
  have view: "lineage_view ?lins = lineage_view (rg_lineages g)" by (rule lineage_view_links [OF links])
  define ls where "ls = l # ys @ zs"
  have set: "set ls = set (ys @ l # zs)" by (auto simp: ls_def)
  have row: "unlinked (l_rows ?lins ! x) = unlinked (l_rows (rg_lineages g) ! x)" if "x < length (l_rows (rg_lineages g))" for x
    by (rule same_but_links_row(2) [OF links that])
  have b: "x < length (l_rows (rg_lineages g))" if "x \<in> set ls" for x using registry_inv_row(1) [OF inv] that set by blast
  note F = unlinked_fields [OF row]
  have G: "rg_entries ?g = rg_entries g" "rg_tokens ?g = rg_tokens g" "rg_ids ?g = rg_ids g" "rg_lineages ?g = ?lins"
    "rg_nextID ?g = rg_nextID g" by (simp_all add: upd_lineages_def)
  have perm: "(\<Sum>x\<leftarrow>ls. h x) = (\<Sum>x\<leftarrow>ys @ l # zs. h x)" for h :: "nat \<Rightarrow> nat" by (simp add: ls_def)
  have "registry_inv K ?g ls pages"
    unfolding registry_inv_def G set
  proof (intro conjI ballI)
    show "sizes_ok ?g" using D(1) len by (simp add: sizes_ok_def Let_def upd_lineages_def)
    show "view_inv (entry_view (rg_entries g))" "tokens_ok K (rg_tokens g) (rg_entries g)" "idle_entries (rg_entries g)"
      "live_entries (rg_entries g) = (\<Union>l \<in> set (ys @ l # zs). set (pages l))"
      using D(2,6,9,15) by blast+
    show "view_inv (lineage_view ?lins)" "set (ys @ l # zs) = live_lineages ?lins" using D(3,5) unfolding view by blast+
    show "lru_list ?lins ls" unfolding ls_def by (rule lru_touch [OF D(4)])
    have "l_id (l_rows ?lins ! x) = l_id (l_rows (rg_lineages g) ! x)" if "x \<in> set ls" for x using F(9) b that by blast
    then show "ids_ok K (rg_ids g) ?lins ls" "\<And>x. x \<in> set (ys @ l # zs) \<Longrightarrow> unat (l_id (l_rows ?lins ! x)) \<le> unat (rg_nextID g)"
      using D(7,11) set by (simp_all add: ids_ok_def)
    show "lineage_ok (rg_entries g) ?lins pages x" if "x \<in> set (ys @ l # zs)" for x
      by (rule lineage_ok_cong [OF D(8) [OF that]])
        (use D(8) [OF that] F b that set in \<open>auto simp: lineage_ok_def live_entries_iff\<close>)
    show "accounts_ok ?g ls pages"
    proof -
      have "slots_held ?lins pages x = slots_held (rg_lineages g) pages x" "bytes_held ?lins x = bytes_held (rg_lineages g) x"
        if "x \<in> set ls" for x
        using F b that by (simp_all add: slots_held_def bytes_held_def)
      then have "(\<Sum>x\<leftarrow>ls. slots_held ?lins pages x) = (\<Sum>x\<leftarrow>ls. slots_held (rg_lineages g) pages x)"
        "(\<Sum>x\<leftarrow>ls. bytes_held ?lins x) = (\<Sum>x\<leftarrow>ls. bytes_held (rg_lineages g) x)"
        by (auto intro!: arg_cong [where f = sum_list] map_cong)
      then show ?thesis using D(10) unfolding accounts_ok_def G perm by (simp add: upd_lineages_def)
    qed
    show "idle_rows ?lins"
      unfolding idle_rows_def len using D(13) F by (auto simp: idle_rows_def)
    show "unat (l_reservedBytes (l_rows ?lins ! x)) \<le> bytes_held ?lins x" if "x \<in> set (ys @ l # zs)" for x
      using D(14) [OF that] F b that set by (simp add: bytes_held_def)
  qed
  then show ?thesis by (simp add: ls_def)
qed

section \<open>The child\<close>

lemma free_chain_last:
  "free_chain nxt h xs \<Longrightarrow> p \<in> set xs \<Longrightarrow> nxt ! p = noRef \<Longrightarrow> \<exists>ys. xs = ys @ [p]"
proof (induction xs arbitrary: h)
  case (Cons x xs)
  show ?case
  proof (cases "p = x")
    case True
    then have "free_chain nxt noRef xs" using Cons.prems by simp
    then show ?thesis using True by (cases xs) auto
  next
    case False
    then obtain ys where "xs = ys @ [p]" using Cons by auto
    then show ?thesis by simp
  qed
qed simp

lemma free_chain_snoc:
  assumes "free_chain nxt h (xs @ [p])" "\<And>x. x \<in> set xs \<Longrightarrow> nxt' ! x = nxt ! x" "nxt' ! p = c" "c \<noteq> noRef" "nxt' ! unat c = noRef"
  shows "free_chain nxt' h (xs @ [p, unat c])"
  using assms by (induction xs arbitrary: h) auto

lemma free_chain_app: "free_chain nxt h (xs @ ys) \<Longrightarrow> \<exists>h'. free_chain nxt h' ys"
  by (induction xs arbitrary: h) auto

text \<open>The row of the lineage after the charge.\<close>

definition charged_row :: "uint64 \<Rightarrow> ReservationUse \<Rightarrow> (nat, shared_alloc) lineage_row \<Rightarrow> (nat, shared_alloc) lineage_row" where
  "charged_row actual use w =
    (let w1 = w\<lparr>l_resident := l_resident w + 1\<rparr> in
     if ru_Slots use = 1
     then if ru_Kind use = BroadSummaryFinal \<and> l_reservedSlots w - 1 = 0
       then w1\<lparr>l_reservedSlots := l_reservedSlots w - 1, l_reservedBytes := 0,
         l_dynamicBytes := l_dynamicBytes w - (l_reservedBytes w - actual)\<rparr>
       else w1\<lparr>l_reservedSlots := l_reservedSlots w - 1, l_reservedBytes := l_reservedBytes w - actual\<rparr>
     else w1\<lparr>l_dynamicBytes := l_dynamicBytes w + actual\<rparr>)"

definition charged_used :: "ReservationUse \<Rightarrow> uint64 \<Rightarrow> uint64" where
  "charged_used use used = (if ru_Slots use = 1 then used else used + 1)"

definition charged_total :: "uint64 \<Rightarrow> ReservationUse \<Rightarrow> (nat, shared_alloc) lineage_row \<Rightarrow> uint64 \<Rightarrow> uint64" where
  "charged_total actual use w tot =
    (if ru_Slots use = 1 then if ru_Kind use = BroadSummaryFinal \<and> l_reservedSlots w - 1 = 0
       then tot - (l_reservedBytes w - actual) else tot
     else tot + actual)"

lemma charge_successor_eq:
  assumes "unat i < length (l_rows (rg_lineages g))"
  shows "charge_successor i actual use g = g\<lparr>rg_lineages := (rg_lineages g)\<lparr>l_rows := (l_rows (rg_lineages g))
      [unat i := charged_row actual use (lrow g i)]\<rparr>,
    rg_used := charged_used use (rg_used g), rg_total := charged_total actual use (lrow g i) (rg_total g)\<rparr>"
  using assms by (simp add: charge_successor_def charged_row_def charged_used_def charged_total_def upd_lrow_def Let_def)

text \<open>What pays for the child.\<close>

definition paid :: "registry \<Rightarrow> nat list \<Rightarrow> (nat \<Rightarrow> nat list) \<Rightarrow> nat \<Rightarrow> uint64 \<Rightarrow> ReservationUse \<Rightarrow> bool" where
  "paid g ls pages l actual use \<longleftrightarrow>
    (if ru_Slots use = 1
     then l_reservedSlots (l_rows (rg_lineages g) ! l) \<noteq> 0 \<and> unat actual \<le> unat (l_reservedBytes (l_rows (rg_lineages g) ! l))
     else room g ls pages 1 actual)"

lemma charged_exact:
  assumes inv: "registry_inv K g ls pages" and l: "l \<in> set ls" and pay: "paid g ls pages l actual use"
  defines "w \<equiv> l_rows (rg_lineages g) ! l"
  shows "unat (charged_used use (rg_used g)) + slots_held (rg_lineages g) pages l =
      unat (rg_used g) + (Suc (length (pages l)) + unat (l_reservedSlots (charged_row actual use w)))"
    "unat (charged_used use (rg_used g)) \<le> unat (MaxEntries (rg_layout g))"
    "unat (charged_total actual use w (rg_total g)) + bytes_held (rg_lineages g) l =
      unat (rg_total g) + unat (l_dynamicBytes (charged_row actual use w))"
    "unat (charged_total actual use w (rg_total g)) \<le> unat (CursorMaxTotalBytes (rg_cfg g))"
    "unat (l_reservedBytes (charged_row actual use w)) \<le> unat (l_dynamicBytes (charged_row actual use w))"
    "unat (l_resident (charged_row actual use w)) = Suc (unat (l_resident w))"
proof -
  note D = registry_invD [OF inv] and sl = registry_inv_slots [OF inv l]
  have acc: "unat (rg_used g) \<le> unat (MaxEntries (rg_layout g))" "unat (rg_total g) \<le> unat (CursorMaxTotalBytes (rg_cfg g))"
    using D(10) by (simp_all add: accounts_ok_def)
  have held: "slots_held (rg_lineages g) pages l = length (pages l) + unat (l_reservedSlots w)"
    "bytes_held (rg_lineages g) l = unat (l_dynamicBytes w)" by (simp_all add: slots_held_def bytes_held_def w_def)
  have res: "unat (l_reservedBytes w) \<le> unat (l_dynamicBytes w)" "unat (l_dynamicBytes w) \<le> unat (rg_total g)"
    using D(14) [OF l] sl(2) held by (simp_all add: w_def)
  have "unat (l_resident w) \<le> length (pages l)" using D(8) [OF l] by (simp add: lineage_ok_def w_def)
  moreover have "length (pages l) \<le> unat (MaxEntries (rg_layout g))" by (rule registry_inv_row(5) [OF inv l])
  ultimately have "unat (l_resident w) < 4294967295" using sizes_okD(1) [OF inv] by simp
  then have r: "unat (l_resident w + 1) = Suc (unat (l_resident w))" by (simp add: unat_word_ariths)
  then show "unat (l_resident (charged_row actual use w)) = Suc (unat (l_resident w))"
    by (simp add: charged_row_def Let_def)
  have max: "unat (MaxEntries (rg_layout g)) < 2 ^ 64" "unat (CursorMaxTotalBytes (rg_cfg g)) < 2 ^ 64" by (rule unat_less_64)+
  have "unat (charged_used use (rg_used g)) + slots_held (rg_lineages g) pages l =
      unat (rg_used g) + (Suc (length (pages l)) + unat (l_reservedSlots (charged_row actual use w))) \<and>
    unat (charged_used use (rg_used g)) \<le> unat (MaxEntries (rg_layout g)) \<and>
    unat (charged_total actual use w (rg_total g)) + bytes_held (rg_lineages g) l =
      unat (rg_total g) + unat (l_dynamicBytes (charged_row actual use w)) \<and>
    unat (charged_total actual use w (rg_total g)) \<le> unat (CursorMaxTotalBytes (rg_cfg g)) \<and>
    unat (l_reservedBytes (charged_row actual use w)) \<le> unat (l_dynamicBytes (charged_row actual use w))"
  proof (cases "ru_Slots use = 1")
    case True
    then have p: "l_reservedSlots w \<noteq> 0" "unat actual \<le> unat (l_reservedBytes w)" using pay by (simp_all add: paid_def w_def)
    have one: "unat (l_reservedSlots w - 1) + 1 = unat (l_reservedSlots w)" using p(1) unat_gt_0 [of "l_reservedSlots w"] by (simp add: unat_minus_one)
    have sub: "unat (l_reservedBytes w - actual) = unat (l_reservedBytes w) - unat actual"
      using p(2) by (simp add: unat_sub word_le_nat_alt)
    then have s2: "unat (l_dynamicBytes w - (l_reservedBytes w - actual)) = unat (l_dynamicBytes w) - (unat (l_reservedBytes w) - unat actual)"
      "unat (rg_total g - (l_reservedBytes w - actual)) = unat (rg_total g) - (unat (l_reservedBytes w) - unat actual)"
      using res by (simp_all add: unat_sub word_le_nat_alt)
    show ?thesis
      using True one sub s2 res acc held
      by (cases "ru_Kind use = BroadSummaryFinal \<and> l_reservedSlots w - 1 = 0")
         (simp_all add: charged_row_def charged_used_def charged_total_def Let_def, auto)
  next
    case False
    then have p: "room g ls pages 1 actual" using pay by (simp add: paid_def)
    then have u: "unat (rg_used g + 1) = Suc (unat (rg_used g))" "unat (rg_total g + actual) = unat (rg_total g) + unat actual"
      using max by (simp_all add: unat_word_ariths)
    have "unat (l_dynamicBytes w + actual) = unat (l_dynamicBytes w) + unat actual"
      using p max res(2) by (simp add: unat_word_ariths)
    then show ?thesis
      using False u p res acc held by (simp add: charged_row_def charged_used_def charged_total_def Let_def)
  qed
  then show "unat (charged_used use (rg_used g)) + slots_held (rg_lineages g) pages l =
      unat (rg_used g) + (Suc (length (pages l)) + unat (l_reservedSlots (charged_row actual use w)))"
    "unat (charged_used use (rg_used g)) \<le> unat (MaxEntries (rg_layout g))"
    "unat (charged_total actual use w (rg_total g)) + bytes_held (rg_lineages g) l =
      unat (rg_total g) + unat (l_dynamicBytes (charged_row actual use w))"
    "unat (charged_total actual use w (rg_total g)) \<le> unat (CursorMaxTotalBytes (rg_cfg g))"
    "unat (l_reservedBytes (charged_row actual use w)) \<le> unat (l_dynamicBytes (charged_row actual use w))"
    by blast+
qed

lemma entries_room:
  assumes inv: "registry_inv K g ls pages" and l: "l \<in> set ls" and pay: "paid g ls pages l actual use"
  shows "live_entries (rg_entries g) \<noteq> {..<length (e_rows (rg_entries g))}"
    "unat (live (rg_tokens g)) < length (slots (rg_tokens g))"
proof -
  note D = registry_invD [OF inv] and zs = sizes_okD [OF inv] and c = live_counts [OF inv]
  have s: "(\<Sum>x\<leftarrow>ls. length (pages x)) \<le> (\<Sum>x\<leftarrow>ls. slots_held (rg_lineages g) pages x)"
    by (rule sum_list_mono) (simp add: slots_held_def)
  have a: "(\<Sum>x\<leftarrow>ls. slots_held (rg_lineages g) pages x) \<le> unat (MaxEntries (rg_layout g))"
    using D(10) by (simp add: accounts_ok_def)
  show "unat (live (rg_tokens g)) < length (slots (rg_tokens g))" using s a c(1) zs(5) by simp
  have "(\<Sum>x\<leftarrow>ls. length (pages x)) < unat (MaxEntries (rg_layout g))"
  proof (cases "ru_Slots use = 1")
    case True
    obtain ys zs where ls: "ls = ys @ l # zs" using l by (meson split_list)
    have "l_reservedSlots (l_rows (rg_lineages g) ! l) \<noteq> 0" using pay True by (simp add: paid_def)
    then have "length (pages l) < slots_held (rg_lineages g) pages l"
      using unat_gt_0 by (auto simp: slots_held_def)
    moreover have "(\<Sum>x\<leftarrow>ys @ zs. length (pages x)) \<le> (\<Sum>x\<leftarrow>ys @ zs. slots_held (rg_lineages g) pages x)"
      by (rule sum_list_mono) (simp add: slots_held_def)
    ultimately show ?thesis using a unfolding ls sum_list_split by linarith
  next
    case False
    then show ?thesis using pay by (simp add: paid_def)
  qed
  moreover have ti: "index_inv (km_token K) (rg_tokens g)" using D(6) unfolding tokens_ok_def by blast
  have "length (e_rows (rg_entries g)) < 4294967295" using zs(1,2) by simp
  then have "card (live_entries (rg_entries g)) = unat (live (rg_tokens g))"
    using tokens_ok_card [OF D(6)] index_live(1) [OF ti] by simp
  ultimately have "card (live_entries (rg_entries g)) < length (e_rows (rg_entries g))" using c(1) zs(2) by linarith
  then show "live_entries (rg_entries g) \<noteq> {..<length (e_rows (rg_entries g))}" by (metis card_lessThan less_irrefl)
qed

lemma extend_protection_inv:
  assumes "registry_inv K g ls pages" "l \<in> set ls"
  shows "registry_inv K (extend_protection (of_nat l) now g) ls pages"
proof -
  have "registry_inv K (upd_lrow (of_nat l) (\<lambda>w. w\<lparr>l_protectedUntil := x\<rparr>) g) ls pages" for x
    by (rule quiet_inv [OF assms]) (simp add: quiet_change_def)
  then show ?thesis using assms(1) by (simp add: extend_protection_def Let_def)
qed

text \<open>The state after a child has been linked.\<close>

definition child_linked ::
  "registry \<Rightarrow> nat \<Rightarrow> nat \<Rightarrow> nat \<Rightarrow> token \<Rightarrow> page_state \<Rightarrow> Result \<Rightarrow> registry \<Rightarrow> bool" where
  "child_linked g l p c t succ memo g' \<longleftrightarrow>
    c < length (e_rows (rg_entries g)) \<and> c \<notin> live_entries (rg_entries g) \<and>
    rg_cfg g' = rg_cfg g \<and> rg_layout g' = rg_layout g \<and> rg_base g' = rg_base g \<and> rg_closed g' = rg_closed g \<and>
    rg_nextID g' = rg_nextID g \<and> rg_comps g' = rg_comps g \<and> rg_closedRoots g' = rg_closedRoots g \<and>
    (\<forall>e. e \<noteq> c \<longrightarrow> e \<noteq> p \<longrightarrow> e_rows (rg_entries g') ! e = e_rows (rg_entries g) ! e) \<and>
    e_memo (e_rows (rg_entries g') ! p) = Some memo \<and> e_successor (e_rows (rg_entries g') ! p) = of_nat c \<and>
    e_runtime (e_rows (rg_entries g') ! p) = e_runtime (e_rows (rg_entries g) ! p) \<and>
    e_lineage (e_rows (rg_entries g') ! p) = e_lineage (e_rows (rg_entries g) ! p) \<and>
    e_state (e_rows (rg_entries g') ! c) = Some succ \<and> e_memo (e_rows (rg_entries g') ! c) = None \<and>
    e_runtime (e_rows (rg_entries g') ! c) = None \<and> e_page (e_rows (rg_entries g') ! c) = e_page (e_rows (rg_entries g) ! p) + 1 \<and>
    e_parent (e_rows (rg_entries g') ! c) = of_nat p \<and>
    map e_generation (e_rows (rg_entries g')) = map e_generation (e_rows (rg_entries g)) \<and>
    map l_generation (l_rows (rg_lineages g')) = map l_generation (l_rows (rg_lineages g)) \<and>
    (\<forall>x < length (l_rows (rg_lineages g)). x \<noteq> l \<longrightarrow> unlinked (l_rows (rg_lineages g') ! x) = unlinked (l_rows (rg_lineages g) ! x)) \<and>
    l_pins (l_rows (rg_lineages g') ! l) = l_pins (l_rows (rg_lineages g) ! l) \<and>
    l_flags (l_rows (rg_lineages g') ! l) = l_flags (l_rows (rg_lineages g) ! l) \<and>
    l_root (l_rows (rg_lineages g') ! l) = l_root (l_rows (rg_lineages g) ! l) \<and>
    index_map (rg_tokens g') = (index_map (rg_tokens g))(t \<mapsto> of_nat c)"

lemma extend_protection_frame:
  fixes now :: int64
  assumes "l < length (l_rows (rg_lineages g))" "unat (of_nat l :: arenaRef) = l"
  defines "g' \<equiv> extend_protection (of_nat l) now g"
  shows "rg_entries g' = rg_entries g" "rg_tokens g' = rg_tokens g" "rg_ids g' = rg_ids g" "rg_cfg g' = rg_cfg g"
    "rg_layout g' = rg_layout g" "rg_base g' = rg_base g" "rg_closed g' = rg_closed g" "rg_nextID g' = rg_nextID g"
    "rg_comps g' = rg_comps g" "rg_closedRoots g' = rg_closedRoots g"
    "length (l_rows (rg_lineages g')) = length (l_rows (rg_lineages g))"
    "\<And>x. x \<noteq> l \<Longrightarrow> l_rows (rg_lineages g') ! x = l_rows (rg_lineages g) ! x"
    "l_pins (l_rows (rg_lineages g') ! l) = l_pins (l_rows (rg_lineages g) ! l)"
    "l_flags (l_rows (rg_lineages g') ! l) = l_flags (l_rows (rg_lineages g) ! l)"
    "l_root (l_rows (rg_lineages g') ! l) = l_root (l_rows (rg_lineages g) ! l)"
    "l_generation (l_rows (rg_lineages g') ! l) = l_generation (l_rows (rg_lineages g) ! l)"
    "rg_used g' = rg_used g" "rg_total g' = rg_total g"
  using assms by (simp_all add: extend_protection_def Let_def upd_lrow_def)

lemma link_child_ok:
  assumes inv: "registry_inv K g (ys @ l # zs) pages" and p: "p \<in> set (pages l)" "e_successor (e_rows (rg_entries g) ! p) = noRef"
    and fresh: "index_map (rg_tokens g) t = None" and pay: "paid g (ys @ l # zs) pages l actual use"
  shows "\<exists>g' c. link_child K (of_nat p) (of_nat l) t succ memo memoBytes stateBytes actual use now g = Some (g', Inr t) \<and>
    registry_inv K g' (l # ys @ zs) (pages(l := pages l @ [c])) \<and> child_linked g l p c t succ memo g'"
proof -
  define ls where "ls = ys @ l # zs"
  have l: "l \<in> set ls" by (simp add: ls_def)
  note inv = inv [folded ls_def] and pay = pay [folded ls_def]
  note D = registry_invD [OF inv] and zs = sizes_okD [OF inv] and R = registry_inv_row [OF inv l]
    and A = entries_room [OF inv l pay] and X = charged_exact [OF inv l pay]
  have lo: "lineage_ok (rg_entries g) (rg_lineages g) pages l" by (rule D(8) [OF l])
  obtain c ents1 where c: "entry_claim (rg_entries g) =
      Some (\<lparr>ref_index = of_nat c, ref_generation = e_generation (e_rows (rg_entries g) ! c)\<rparr>, ents1)"
    "c < length (e_rows (rg_entries g))" "c \<notin> live_entries (rg_entries g)" "view_inv (entry_view ents1)"
    "live_entries ents1 = insert c (live_entries (rg_entries g))"
    "e_rows ents1 = (e_rows (rg_entries g))[c := (e_rows (rg_entries g) ! c)\<lparr>e_nextFree := noRef, e_occupied := 1\<rparr>]"
    "unat (of_nat c :: arenaRef) = c"
    using entry_claim_Some [OF D(2) A(1)] by blast
  have pl: "p \<in> live_entries (rg_entries g)" "p < length (e_rows (rg_entries g))" "e_lineage (e_rows (rg_entries g) ! p) = of_nat l"
    using lo p(1) by (auto simp: lineage_ok_def live_entries_iff)
  then have pc: "p \<noteq> c" using c(3) by blast
  have small: "c < 4294967295" "p < 4294967295" "length (e_rows (rg_entries g)) < 4294967295" using c(2) pl(2) zs(1,2) by simp_all
  have up: "unat (of_nat p :: arenaRef) = p" using small(2) by (rule unat_ref)
  have cn: "(of_nat c :: arenaRef) \<noteq> noRef" using small(1) by (rule ref_neq_noRef)
  define crow where "crow = child_row (of_nat p) (of_nat l) (e_page (e_rows (rg_entries g) ! p)) succ stateBytes use
    ((e_rows (rg_entries g) ! c)\<lparr>e_nextFree := noRef, e_occupied := 1\<rparr>)"
  define prow where "prow = (e_rows (rg_entries g) ! p)\<lparr>e_memo := Some memo, e_memoBytes := memoBytes, e_successor := of_nat c\<rparr>"
  define ents where "ents = ents1\<lparr>e_rows := ((e_rows (rg_entries g))[c := crow])[p := prow]\<rparr>"
  have crow: "e_occupied crow = 1" "e_nextFree crow = noRef" "e_generation crow = e_generation (e_rows (rg_entries g) ! c)"
    "e_lineage crow = of_nat l" "e_successor crow = noRef" "e_state crow = Some succ" "e_parent crow = of_nat p"
    "e_page crow = e_page (e_rows (rg_entries g) ! p) + 1" "e_memo crow = e_memo (e_rows (rg_entries g) ! c)"
    "e_runtime crow = e_runtime (e_rows (rg_entries g) ! c)"
    by (simp_all add: crow_def child_row_def Let_def)
  have ev: "entry_view ents = entry_view ents1"
  proof -
    have 1: "entry_view (ents1\<lparr>e_rows := (e_rows ents1)[c := crow]\<rparr>) = entry_view ents1"
      by (rule entry_view_row) (use c(2) in \<open>simp_all add: c(6) crow\<close>)
    have e1: "(e_rows ents1)[c := crow] = (e_rows (rg_entries g))[c := crow]" by (simp add: c(6))
    have "entry_view ((ents1\<lparr>e_rows := (e_rows ents1)[c := crow]\<rparr>)\<lparr>e_rows := (e_rows (ents1\<lparr>e_rows := (e_rows ents1)[c := crow]\<rparr>))[p := prow]\<rparr>) =
        entry_view (ents1\<lparr>e_rows := (e_rows ents1)[c := crow]\<rparr>)"
      by (rule entry_view_row) (use pl(2) pc in \<open>simp_all add: e1 prow_def\<close>)
    then show ?thesis using 1 by (simp add: ents_def e1)
  qed
  have rows: "e_rows ents ! p = prow" "e_rows ents ! c = crow" "\<And>e. e \<noteq> c \<Longrightarrow> e \<noteq> p \<Longrightarrow> e_rows ents ! e = e_rows (rg_entries g) ! e"
    "length (e_rows ents) = length (e_rows (rg_entries g))"
    using pl(2) c(2) pc by (simp_all add: ents_def)
  have ti: "index_inv (km_token K) (rg_tokens g)" using D(6) unfolding tokens_ok_def by blast
  obtain ix where ix: "index_insert (rg_tokens g) t (of_nat c) (keyedHome (km_token K) (length (slots (rg_tokens g))) t) = Inr ix"
    using index_insert_room [OF ti fresh A(2) refl] by blast
  have live: "live_entries ents = insert c (live_entries (rg_entries g))" by (simp add: ev c(5))
  note T = tokens_ok_insert [OF D(6) c(3) small(1) live small(3) ix]
  let ?w = "l_rows (rg_lineages g) ! l"
  define g3 where "g3 = g\<lparr>rg_entries := ents, rg_tokens := ix,
    rg_lineages := (rg_lineages g)\<lparr>l_rows := (l_rows (rg_lineages g))[l := charged_row actual use ?w]\<rparr>,
    rg_used := charged_used use (rg_used g), rg_total := charged_total actual use ?w (rg_total g)\<rparr>"
  have run: "link_child K (of_nat p) (of_nat l) t succ memo memoBytes stateBytes actual use now g =
      Some (upd_lineages (lruTouch (of_nat l)) (extend_protection (of_nat l) now g3), Inr t)"
  proof -
    have u1: "upd_erow (of_nat c) (child_row (of_nat p) (of_nat l) (e_page (erow g (of_nat p))) succ stateBytes use) (g\<lparr>rg_entries := ents1\<rparr>) =
        g\<lparr>rg_entries := ents1\<lparr>e_rows := (e_rows (rg_entries g))[c := crow]\<rparr>\<rparr>"
      using c(2,7) up by (simp add: upd_erow_def c(6) crow_def)
    have u2: "upd_erow (of_nat p) (\<lambda>w. w\<lparr>e_memo := Some memo, e_memoBytes := memoBytes, e_successor := of_nat c\<rparr>)
        (g\<lparr>rg_entries := ents1\<lparr>e_rows := (e_rows (rg_entries g))[c := crow]\<rparr>\<rparr>) = g\<lparr>rg_entries := ents\<rparr>"
      using up pc by (simp add: upd_erow_def ents_def prow_def)
    have ch: "charge_successor (of_nat l) actual use (g\<lparr>rg_entries := ents, rg_tokens := ix\<rparr>) = g3"
      using R(1,2) by (subst charge_successor_eq) (simp_all add: g3_def)
    show ?thesis
      unfolding link_child_def c(1) option.case prod.case Let_def arena_ref.select_convs u1 u2
      using ix ch by (simp add: tokenHome_def)
  qed
  have G: "rg_entries g3 = ents" "rg_tokens g3 = ix" "rg_used g3 = charged_used use (rg_used g)"
    "rg_total g3 = charged_total actual use ?w (rg_total g)"
    "rg_lineages g3 = (rg_lineages g)\<lparr>l_rows := (l_rows (rg_lineages g))[l := charged_row actual use ?w]\<rparr>"
    by (simp_all add: g3_def)
  have cw: "l_occupied (charged_row actual use ?w) = l_occupied ?w" "l_generation (charged_row actual use ?w) = l_generation ?w"
    "l_nextFree (charged_row actual use ?w) = l_nextFree ?w" "l_lruPrev (charged_row actual use ?w) = l_lruPrev ?w"
    "l_lruNext (charged_row actual use ?w) = l_lruNext ?w" "l_id (charged_row actual use ?w) = l_id ?w"
    "l_entryHead (charged_row actual use ?w) = l_entryHead ?w" "l_tombstones (charged_row actual use ?w) = l_tombstones ?w"
    "l_pins (charged_row actual use ?w) = l_pins ?w" "l_flags (charged_row actual use ?w) = l_flags ?w"
    "l_root (charged_row actual use ?w) = l_root ?w"
    by (simp_all add: charged_row_def Let_def)
  have cpl: "c \<notin> set (pages l)" using lo c(3) by (auto simp: lineage_ok_def)
  have chain: "free_chain (map e_successor (e_rows ents)) (l_entryHead ?w) (pages l @ [c])"
  proof -
    have fc: "free_chain (map e_successor (e_rows (rg_entries g))) (l_entryHead ?w) (pages l)" using lo by (simp add: lineage_ok_def)
    obtain xs where xs: "pages l = xs @ [p]"
      using free_chain_last [OF fc p(1)] p(2) pl(2) by auto
    have "distinct (xs @ [p])" using lo xs by (simp add: lineage_ok_def)
    then have off: "x \<noteq> p \<and> x \<noteq> c \<and> x < length (e_rows (rg_entries g))" if "x \<in> set xs" for x
      using that cpl lo unfolding xs by (auto simp: lineage_ok_def xs live_entries_iff)
    have "free_chain (map e_successor (e_rows ents)) (l_entryHead ?w) (xs @ [p, unat (of_nat c :: arenaRef)])"
      by (rule free_chain_snoc [OF fc [unfolded xs]])
        (use off rows pl(2) c(2,7) cn crow in \<open>simp_all add: prow_def\<close>)
    then show ?thesis by (simp add: xs c(7))
  qed
  have ok: "lineage_ok (rg_entries g3) (rg_lineages g3) (pages(l := pages l @ [c])) l"
  proof -
    have "e \<in> live_entries ents \<and> e_lineage (e_rows ents ! e) = of_nat l" if "e \<in> set (pages l @ [c])" for e
    proof (cases "e = c")
      case True
      then show ?thesis using live rows(2) crow by simp
    next
      case False
      then have e: "e \<in> set (pages l)" using that by simp
      then have "e \<in> live_entries (rg_entries g)" "e_lineage (e_rows (rg_entries g) ! e) = of_nat l" using lo by (simp_all add: lineage_ok_def)
      then show ?thesis using live rows(1,3) False by (cases "e = p") (simp_all add: prow_def)
    qed
    then show ?thesis
      using chain lo cpl R(1) X(6) cw by (simp add: lineage_ok_def G)
  qed
  have inv3: "registry_inv K g3 ls (pages(l := pages l @ [c]))"
  proof (rule lineage_change_inv [OF inv l G(5) cw(1-6) X(5) ok])
    show "tokens_ok K (rg_tokens g3) (rg_entries g3)" "length (slots (rg_tokens g3)) = length (slots (rg_tokens g))"
      using T by (simp_all add: G)
    show "view_inv (entry_view (rg_entries g3))" using c(4) by (simp add: G ev)
    show "length (e_rows (rg_entries g3)) = length (e_rows (rg_entries g))" using rows(4) by (simp add: G)
    show "idle_entries (rg_entries g3)"
      unfolding idle_entries_def G
    proof (intro ballI impI)
      fix w
      assume "w \<in> set (e_rows ents)" and free: "e_occupied w = 0"
      then have "w = prow \<or> w = crow \<or> w \<in> set (e_rows (rg_entries g))"
        unfolding ents_def by (auto dest!: in_set_update_cases)
      moreover have "w \<noteq> crow" using free crow by auto
      moreover have "w \<noteq> prow" using free pl(1) by (auto simp: prow_def live_entries_iff)
      ultimately show "idle_entry w" using D(15) free by (simp add: idle_entries_def)
    qed
    have "set (pages l) \<subseteq> live_entries (rg_entries g)" using lo by (auto simp: lineage_ok_def)
    then show "live_entries (rg_entries g3) = live_entries (rg_entries g) - set (pages l) \<union> set (pages l @ [c])"
      unfolding G live by auto
    show "e_rows (rg_entries g3) ! e = e_rows (rg_entries g) ! e" if "e \<in> live_entries (rg_entries g)" "e \<notin> set (pages l)" for e
    proof -
      have "e \<noteq> c" "e \<noteq> p" using that c(3) p(1) by blast+
      then show ?thesis by (simp add: G rows)
    qed
    show "unat (rg_used g3) + slots_held (rg_lineages g) pages l =
        unat (rg_used g) + slots_held (rg_lineages g3) (pages(l := pages l @ [c])) l"
      using X(1) R(1) by (simp add: G slots_held_def)
    show "unat (rg_used g3) \<le> unat (MaxEntries (rg_layout g))" "unat (rg_total g3) \<le> unat (CursorMaxTotalBytes (rg_cfg g))"
      "unat (rg_total g3) + bytes_held (rg_lineages g) l = unat (rg_total g) + unat (l_dynamicBytes (charged_row actual use ?w))"
      using X(2,3,4) by (simp_all only: G)
  qed (simp_all add: g3_def)
  define g4 where "g4 = extend_protection (of_nat l) now g3"
  have len3: "l < length (l_rows (rg_lineages g3))" using R(1) by (simp add: G)
  note E = extend_protection_frame [where now = now, OF len3 R(2), folded g4_def]
  have inv4: "registry_inv K g4 (ys @ l # zs) (pages(l := pages l @ [c]))"
    unfolding g4_def ls_def [symmetric] by (rule extend_protection_inv [OF inv3 l])
  define g5 where "g5 = upd_lineages (lruTouch (of_nat l)) g4"
  have inv5: "registry_inv K g5 (l # ys @ zs) (pages(l := pages l @ [c]))"
    unfolding g5_def by (rule touch_inv [OF inv4])
  have links: "same_but_links (rg_lineages g5) (rg_lineages g4)" unfolding g5_def upd_lineages_def by (simp add: lruTouch_same)
  have len5: "length (l_rows (rg_lineages g5)) = length (l_rows (rg_lineages g4))" by (rule same_but_links_row(1) [OF links])
  have row5: "unlinked (l_rows (rg_lineages g5) ! x) = unlinked (l_rows (rg_lineages g4) ! x)" if "x < length (l_rows (rg_lineages g))" for x
    using same_but_links_row(2) [OF links, of x] that E(11) by (simp add: G)
  note U = unlinked_fields [OF row5 [OF R(1)]]
  have gen_l: "map l_generation (l_rows (rg_lineages g5)) = map l_generation (l_rows (rg_lineages g))"
  proof (rule nth_equalityI)
    show "length (map l_generation (l_rows (rg_lineages g5))) = length (map l_generation (l_rows (rg_lineages g)))"
      using len5 E(11) by (simp add: G)
    fix x
    assume "x < length (map l_generation (l_rows (rg_lineages g5)))"
    then have x: "x < length (l_rows (rg_lineages g))" using len5 E(11) by (simp add: G)
    show "map l_generation (l_rows (rg_lineages g5)) ! x = map l_generation (l_rows (rg_lineages g)) ! x"
      using x unlinked_fields(3) [OF row5 [OF x]] E(11,12,16) len5 cw(2) R(1) by (cases "x = l") (simp_all add: G)
  qed
  have idle: "idle_entry (e_rows (rg_entries g) ! c)"
    using D(15) c(2,3) by (simp add: idle_entries_def live_entries_iff)
  have F5: "rg_entries g5 = ents" "rg_tokens g5 = ix" "rg_cfg g5 = rg_cfg g" "rg_layout g5 = rg_layout g" "rg_base g5 = rg_base g"
    "rg_closed g5 = rg_closed g" "rg_nextID g5 = rg_nextID g" "rg_comps g5 = rg_comps g" "rg_closedRoots g5 = rg_closedRoots g"
    using E by (simp_all add: g5_def upd_lineages_def g3_def)
  have others: "unlinked (l_rows (rg_lineages g5) ! x) = unlinked (l_rows (rg_lineages g) ! x)"
    if "x < length (l_rows (rg_lineages g))" "x \<noteq> l" for x
    using row5 [OF that(1)] E(12) [OF that(2)] that(2) by (simp add: G)
  have lf: "l_pins (l_rows (rg_lineages g5) ! l) = l_pins ?w" "l_flags (l_rows (rg_lineages g5) ! l) = l_flags ?w"
    "l_root (l_rows (rg_lineages g5) ! l) = l_root ?w"
    using U(2,6,17) E(13,14,15) R(1) cw(9,10,11) by (simp_all add: G)
  have gen_e: "map e_generation (e_rows ents) = map e_generation (e_rows (rg_entries g))"
    using pc by (simp add: ents_def map_update crow prow_def map_update_nth list_update_same_conv pl(2) c(2))
  have "child_linked g l p c t succ memo g5"
    unfolding child_linked_def F5 rows(1,2) gen_e gen_l lf
    using c(2,3) rows(3) others index_insert_Inr(2) [OF ti refl ix] crow idle
    by (simp add: prow_def idle_entry_def)
  then show ?thesis using run inv5 by (auto simp: g5_def g4_def)
qed

end
