(* ===== verification/CursorWork.thy ===== *)
theory CursorWork
  imports CursorSuccessor
begin

text \<open>
  Running continuations and the registry.  A lineage is pinned by the computations that work on its entries: the
  pin count of a lineage is the number of its entries with a running computation, so neither eviction nor removal
  can take an entry, its lineage or its root away from a running computation.
\<close>

section \<open>Computations and pins\<close>

definition comps_ok :: "registry \<Rightarrow> nat list \<Rightarrow> (nat \<Rightarrow> nat list) \<Rightarrow> bool" where
  "comps_ok g ls pages \<longleftrightarrow>
    (\<forall>c < length (rg_comps g). \<not> co_finished (rg_comps g ! c) \<longrightarrow>
      (\<exists>l \<in> set ls. \<exists>e \<in> set (pages l). co_entry (rg_comps g ! c) = entry_ref g (of_nat e) \<and>
        co_lineage (rg_comps g ! c) = lineage_ref g (of_nat l) \<and> e_runtime (e_rows (rg_entries g) ! e) = Some c \<and>
        co_root (rg_comps g ! c) = l_root (l_rows (rg_lineages g) ! l))) \<and>
    (\<forall>l \<in> set ls. \<forall>e \<in> set (pages l). \<forall>c. e_runtime (e_rows (rg_entries g) ! e) = Some c \<longrightarrow>
      c < length (rg_comps g) \<and> \<not> co_finished (rg_comps g ! c) \<and> co_entry (rg_comps g ! c) = entry_ref g (of_nat e)) \<and>
    (\<forall>l \<in> set ls. unat (l_pins (l_rows (rg_lineages g) ! l)) =
      card {e \<in> set (pages l). e_runtime (e_rows (rg_entries g) ! e) \<noteq> None})"

definition registry_state :: "keyed \<Rightarrow> registry \<Rightarrow> nat list \<Rightarrow> (nat \<Rightarrow> nat list) \<Rightarrow> bool" where
  "registry_state K g ls pages \<longleftrightarrow> registry_good K g ls pages \<and> comps_ok g ls pages"

lemma registry_stateD:
  assumes "registry_state K g ls pages"
  shows "registry_good K g ls pages" "registry_inv K g ls pages" "comps_ok g ls pages"
  using assms by (simp_all add: registry_state_def registry_good_def)

text \<open>The invariant sees only these fields of a computation.\<close>

definition same_core :: "computation list \<Rightarrow> computation list \<Rightarrow> bool" where
  "same_core cs ds \<longleftrightarrow> map (\<lambda>c. (co_entry c, co_lineage c, co_finished c, co_root c)) cs =
    map (\<lambda>c. (co_entry c, co_lineage c, co_finished c, co_root c)) ds"

text \<open>The registry itself changes nothing but the two flags that stop a computation.\<close>

definition same_work :: "computation list \<Rightarrow> computation list \<Rightarrow> bool" where
  "same_work cs ds \<longleftrightarrow> map (\<lambda>c. c\<lparr>co_noCommit := False, co_cancelled := False\<rparr>) cs =
    map (\<lambda>c. c\<lparr>co_noCommit := False, co_cancelled := False\<rparr>) ds"

lemma same_work_refl [simp]: "same_work cs cs"
  by (simp add: same_work_def)

lemma same_work_trans: "same_work a b \<Longrightarrow> same_work b c \<Longrightarrow> same_work a c"
  by (simp add: same_work_def)

lemma same_core_len: "same_core cs ds \<Longrightarrow> length cs = length ds"
  unfolding same_core_def by (rule map_eq_imp_length_eq)

lemma same_work_len: "same_work cs ds \<Longrightarrow> length cs = length ds"
  unfolding same_work_def by (rule map_eq_imp_length_eq)

lemma same_core_nth:
  assumes "same_core cs ds" "c < length ds"
  shows "co_entry (cs ! c) = co_entry (ds ! c)" "co_lineage (cs ! c) = co_lineage (ds ! c)"
    "co_finished (cs ! c) = co_finished (ds ! c)" "co_root (cs ! c) = co_root (ds ! c)"
proof -
  let ?f = "\<lambda>c. (co_entry c, co_lineage c, co_finished c, co_root c)"
  have "map ?f cs ! c = map ?f ds ! c" using assms(1) by (simp add: same_core_def)
  then show "co_entry (cs ! c) = co_entry (ds ! c)" "co_lineage (cs ! c) = co_lineage (ds ! c)"
    "co_finished (cs ! c) = co_finished (ds ! c)" "co_root (cs ! c) = co_root (ds ! c)"
    using assms(2) same_core_len [OF assms(1)] by simp_all
qed

lemma same_work_nth:
  assumes "same_work cs ds" "c < length ds"
  shows "co_entry (cs ! c) = co_entry (ds ! c)" "co_lineage (cs ! c) = co_lineage (ds ! c)"
    "co_finished (cs ! c) = co_finished (ds ! c)" "co_root (cs ! c) = co_root (ds ! c)"
    "co_waiters (cs ! c) = co_waiters (ds ! c)" "co_starter (cs ! c) = co_starter (ds ! c)"
    "co_work (cs ! c) = co_work (ds ! c)"
proof -
  let ?f = "\<lambda>c. c\<lparr>co_noCommit := False, co_cancelled := False\<rparr>"
  have "map ?f cs ! c = map ?f ds ! c" using assms(1) by (simp add: same_work_def)
  then have e: "?f (cs ! c) = ?f (ds ! c)" using assms(2) same_work_len [OF assms(1)] by simp
  have "co_entry (?f x) = co_entry x \<and> co_lineage (?f x) = co_lineage x \<and> co_finished (?f x) = co_finished x \<and>
    co_root (?f x) = co_root x \<and> co_waiters (?f x) = co_waiters x \<and> co_starter (?f x) = co_starter x \<and>
    co_work (?f x) = co_work x" for x by simp
  then show "co_entry (cs ! c) = co_entry (ds ! c)" "co_lineage (cs ! c) = co_lineage (ds ! c)"
    "co_finished (cs ! c) = co_finished (ds ! c)" "co_root (cs ! c) = co_root (ds ! c)"
    "co_waiters (cs ! c) = co_waiters (ds ! c)" "co_starter (cs ! c) = co_starter (ds ! c)"
    "co_work (cs ! c) = co_work (ds ! c)"
    using e by metis+
qed

lemma same_work_core: "same_work cs ds \<Longrightarrow> same_core cs ds"
  unfolding same_core_def by (rule nth_equalityI) (auto simp: same_work_nth same_work_len)

lemma same_core_update:
  assumes "co_entry w = co_entry (cs ! c)" "co_lineage w = co_lineage (cs ! c)" "co_finished w = co_finished (cs ! c)"
    "co_root w = co_root (cs ! c)"
  shows "same_core (cs[c := w]) cs"
  using assms by (cases "c < length cs") (simp_all add: same_core_def map_update list_update_beyond list_update_same_conv)

lemma registry_good_comps: "registry_good K (g\<lparr>rg_comps := cs\<rparr>) ls pages = registry_good K g ls pages"
  by (simp add: registry_good_def registry_inv_def sizes_ok_def accounts_ok_def reused_at_most_def Let_def)

lemma comps_ok_same_core:
  assumes "comps_ok g ls pages" "same_core cs (rg_comps g)"
  shows "comps_ok (g\<lparr>rg_comps := cs\<rparr>) ls pages"
proof -
  note S = same_core_nth [OF assms(2)]
  have len: "length cs = length (rg_comps g)" by (rule same_core_len [OF assms(2)])
  have r: "entry_ref (g\<lparr>rg_comps := cs\<rparr>) = entry_ref g" "lineage_ref (g\<lparr>rg_comps := cs\<rparr>) = lineage_ref g"
    by (simp_all add: entry_ref_def lineage_ref_def fun_eq_iff)
  have G: "rg_comps (g\<lparr>rg_comps := cs\<rparr>) = cs" "rg_entries (g\<lparr>rg_comps := cs\<rparr>) = rg_entries g"
    "rg_lineages (g\<lparr>rg_comps := cs\<rparr>) = rg_lineages g" by simp_all
  show ?thesis
    unfolding comps_ok_def r G len
  proof (intro conjI allI ballI impI)
    fix c
    assume "c < length (rg_comps g)" "\<not> co_finished (cs ! c)"
    then show "\<exists>l \<in> set ls. \<exists>e \<in> set (pages l). co_entry (cs ! c) = entry_ref g (of_nat e) \<and>
        co_lineage (cs ! c) = lineage_ref g (of_nat l) \<and> e_runtime (e_rows (rg_entries g) ! e) = Some c \<and>
        co_root (cs ! c) = l_root (l_rows (rg_lineages g) ! l)"
      using assms(1) S [of c] unfolding comps_ok_def by simp
  next
    fix l e c
    assume "l \<in> set ls" "e \<in> set (pages l)" "e_runtime (e_rows (rg_entries g) ! e) = Some c"
    then have "c < length (rg_comps g) \<and> \<not> co_finished (rg_comps g ! c) \<and> co_entry (rg_comps g ! c) = entry_ref g (of_nat e)"
      using assms(1) unfolding comps_ok_def by blast
    then show "c < length (rg_comps g)" "\<not> co_finished (cs ! c)" "co_entry (cs ! c) = entry_ref g (of_nat e)"
      using S(1,3) [of c] by simp_all
  next
    fix l
    assume "l \<in> set ls"
    then show "unat (l_pins (l_rows (rg_lineages g) ! l)) = card {e \<in> set (pages l). e_runtime (e_rows (rg_entries g) ! e) \<noteq> None}"
      using assms(1) unfolding comps_ok_def by blast
  qed
qed

lemma cancel_chain_comps:
  "\<exists>cs. cancel_chain n e g = g\<lparr>rg_comps := cs\<rparr> \<and> same_work cs (rg_comps g)"
proof (induction n arbitrary: e g)
  case 0
  show ?case by (intro exI [of _ "rg_comps g"]) simp
next
  case (Suc n)
  define g1 where "g1 = (case e_runtime (erow g e) of None \<Rightarrow> g | Some c \<Rightarrow> cancel_computation c g)"
  have "\<exists>cs. g1 = g\<lparr>rg_comps := cs\<rparr> \<and> same_work cs (rg_comps g)"
  proof (cases "e_runtime (erow g e)")
    case None
    then show ?thesis by (intro exI [of _ "rg_comps g"]) (simp add: g1_def)
  next
    case (Some c)
    let ?cs = "(rg_comps g)[c := (rg_comps g ! c)\<lparr>co_noCommit := True, co_cancelled := True\<rparr>]"
    have "same_work ?cs (rg_comps g)"
      by (cases "c < length (rg_comps g)") (simp_all add: same_work_def map_update list_update_beyond list_update_same_conv)
    then show ?thesis
      using Some by (cases "co_finished (rg_comps g ! c)")
        (auto simp: g1_def cancel_computation_def intro: exI [of _ "rg_comps g"] exI [of _ ?cs])
  qed
  then obtain cs1 where 1: "g1 = g\<lparr>rg_comps := cs1\<rparr>" "same_work cs1 (rg_comps g)" by blast
  obtain cs2 where 2: "cancel_chain n (e_successor (erow g e)) g1 = g1\<lparr>rg_comps := cs2\<rparr>" "same_work cs2 (rg_comps g1)"
    using Suc.IH by blast
  show ?case
  proof (cases "e = noRef")
    case True
    then show ?thesis by (intro exI [of _ "rg_comps g"]) simp
  next
    case False
    then have "cancel_chain (Suc n) e g = g\<lparr>rg_comps := cs2\<rparr>" using 1 2 by (simp add: g1_def)
    moreover have "same_work cs2 (rg_comps g)" using same_work_trans [OF 2(2)] 1 by simp
    ultimately show ?thesis by blast
  qed
qed

section \<open>Frames\<close>

text \<open>What a transition on the registry keeps for the computations: the rows of the lineages and entries that
  stay.\<close>

definition work_frame ::
  "registry \<Rightarrow> nat list \<Rightarrow> (nat \<Rightarrow> nat list) \<Rightarrow> registry \<Rightarrow> bool" where
  "work_frame g ls pages g' \<longleftrightarrow> same_work (rg_comps g') (rg_comps g) \<and>
    (\<forall>l \<in> set ls. l_generation (l_rows (rg_lineages g') ! l) = l_generation (l_rows (rg_lineages g) ! l) \<and>
      l_pins (l_rows (rg_lineages g') ! l) = l_pins (l_rows (rg_lineages g) ! l) \<and>
      l_root (l_rows (rg_lineages g') ! l) = l_root (l_rows (rg_lineages g) ! l) \<and>
      (\<forall>e \<in> set (pages l). e_generation (e_rows (rg_entries g') ! e) = e_generation (e_rows (rg_entries g) ! e) \<and>
        e_runtime (e_rows (rg_entries g') ! e) = e_runtime (e_rows (rg_entries g) ! e)))"

text \<open>The lineages of \<open>ls'\<close> stay, the others of \<open>ls\<close> were not pinned; the pages of \<open>ls'\<close> may have grown by entries
  without a computation.\<close>

lemma comps_ok_frame:
  assumes ok: "comps_ok g ls pages" and inv: "registry_inv K g ls pages" and inv': "registry_inv K g' ls' pages'"
    and fr: "work_frame g (filter (\<lambda>l. l \<in> set ls') ls) pages g'"
    and gone: "\<And>l. l \<in> set ls \<Longrightarrow> l \<notin> set ls' \<Longrightarrow> l_pins (l_rows (rg_lineages g) ! l) = 0"
    and grown: "\<And>l. l \<in> set ls \<Longrightarrow> l \<in> set ls' \<Longrightarrow> set (pages l) \<subseteq> set (pages' l) \<and>
      (\<forall>e \<in> set (pages' l) - set (pages l). e_runtime (e_rows (rg_entries g') ! e) = None)"
    and new: "\<And>l. l \<in> set ls' \<Longrightarrow> l \<notin> set ls \<Longrightarrow> l_pins (l_rows (rg_lineages g') ! l) = 0 \<and>
      (\<forall>e \<in> set (pages' l). e_runtime (e_rows (rg_entries g') ! e) = None)"
  shows "comps_ok g' ls' pages'"
proof -
  have sw: "same_work (rg_comps g') (rg_comps g)" using fr by (simp add: work_frame_def)
  note S = same_work_nth [OF sw]
  have len: "length (rg_comps g') = length (rg_comps g)" by (rule same_work_len [OF sw])
  have kept: "l_generation (l_rows (rg_lineages g') ! l) = l_generation (l_rows (rg_lineages g) ! l)"
    "l_pins (l_rows (rg_lineages g') ! l) = l_pins (l_rows (rg_lineages g) ! l)"
    "l_root (l_rows (rg_lineages g') ! l) = l_root (l_rows (rg_lineages g) ! l)"
    "\<And>e. e \<in> set (pages l) \<Longrightarrow> e_generation (e_rows (rg_entries g') ! e) = e_generation (e_rows (rg_entries g) ! e)"
    "\<And>e. e \<in> set (pages l) \<Longrightarrow> e_runtime (e_rows (rg_entries g') ! e) = e_runtime (e_rows (rg_entries g) ! e)"
    if "l \<in> set ls" "l \<in> set ls'" for l
    using fr that unfolding work_frame_def by auto
  have ue: "unat (of_nat e :: arenaRef) = e" if "l \<in> set ls" "e \<in> set (pages l)" for l e
  proof -
    have "e < length (e_rows (rg_entries g))" using registry_invD(8) [OF inv that(1)] that(2) by (auto simp: lineage_ok_def live_entries_iff)
    then show ?thesis using sizes_okD(1,2) [OF inv] by (intro unat_ref) simp
  qed
  have ul: "unat (of_nat l :: arenaRef) = l" if "l \<in> set ls" for l by (rule registry_inv_row(2) [OF inv that])
  have eref: "entry_ref g' (of_nat e) = entry_ref g (of_nat e)" if "l \<in> set ls" "l \<in> set ls'" "e \<in> set (pages l)" for l e
    using kept(4) [OF that] ue [OF that(1,3)] by (simp add: entry_ref_def)
  have lref: "lineage_ref g' (of_nat l) = lineage_ref g (of_nat l)" if "l \<in> set ls" "l \<in> set ls'" for l
    using kept(1) [OF that] ul [OF that(1)] by (simp add: lineage_ref_def)
  have old1: "\<exists>l \<in> set ls. \<exists>e \<in> set (pages l). co_entry (rg_comps g ! c) = entry_ref g (of_nat e) \<and>
        co_lineage (rg_comps g ! c) = lineage_ref g (of_nat l) \<and> e_runtime (e_rows (rg_entries g) ! e) = Some c \<and>
        co_root (rg_comps g ! c) = l_root (l_rows (rg_lineages g) ! l)"
    if "c < length (rg_comps g)" "\<not> co_finished (rg_comps g ! c)" for c
    using ok that unfolding comps_ok_def by blast
  have old2: "c < length (rg_comps g) \<and> \<not> co_finished (rg_comps g ! c) \<and> co_entry (rg_comps g ! c) = entry_ref g (of_nat e)"
    if "l \<in> set ls" "e \<in> set (pages l)" "e_runtime (e_rows (rg_entries g) ! e) = Some c" for l e c
    using ok that unfolding comps_ok_def by blast
  have old3: "unat (l_pins (l_rows (rg_lineages g) ! l)) = card {e \<in> set (pages l). e_runtime (e_rows (rg_entries g) ! e) \<noteq> None}"
    if "l \<in> set ls" for l
    using ok that unfolding comps_ok_def by blast
  show ?thesis
    unfolding comps_ok_def len
  proof (intro conjI allI ballI impI)
    fix c
    assume c: "c < length (rg_comps g)" "\<not> co_finished (rg_comps g' ! c)"
    then obtain l e where le: "l \<in> set ls" "e \<in> set (pages l)" "co_entry (rg_comps g ! c) = entry_ref g (of_nat e)"
        "co_lineage (rg_comps g ! c) = lineage_ref g (of_nat l)" "e_runtime (e_rows (rg_entries g) ! e) = Some c"
        "co_root (rg_comps g ! c) = l_root (l_rows (rg_lineages g) ! l)"
      using old1 S(3) [OF c(1)] by blast
    have "l \<in> set ls'"
    proof (rule ccontr)
      assume "l \<notin> set ls'"
      then have "card {e \<in> set (pages l). e_runtime (e_rows (rg_entries g) ! e) \<noteq> None} = 0"
        using gone [OF le(1)] old3 [OF le(1)] by simp
      then have "{e \<in> set (pages l). e_runtime (e_rows (rg_entries g) ! e) \<noteq> None} = {}" by simp
      then show False using le(2,5) by blast
    qed
    then show "\<exists>l \<in> set ls'. \<exists>e \<in> set (pages' l). co_entry (rg_comps g' ! c) = entry_ref g' (of_nat e) \<and>
        co_lineage (rg_comps g' ! c) = lineage_ref g' (of_nat l) \<and> e_runtime (e_rows (rg_entries g') ! e) = Some c \<and>
        co_root (rg_comps g' ! c) = l_root (l_rows (rg_lineages g') ! l)"
      using le S(1,2,4) [OF c(1)] eref [OF le(1) _ le(2)] lref [OF le(1)] kept(3,5) [OF le(1)] grown [OF le(1)]
      by (intro bexI [of _ l] bexI [of _ e]) auto
  next
    fix l e c
    assume *: "l \<in> set ls'" "e \<in> set (pages' l)" "e_runtime (e_rows (rg_entries g') ! e) = Some c"
    have l: "l \<in> set ls" using new [OF *(1)] * by (cases "l \<in> set ls") auto
    have e: "e \<in> set (pages l)" using grown [OF l *(1)] * by (cases "e \<in> set (pages l)") auto
    have "e_runtime (e_rows (rg_entries g) ! e) = Some c" using kept(5) [OF l *(1) e] * by simp
    note o = old2 [OF l e this]
    then show "c < length (rg_comps g)" "\<not> co_finished (rg_comps g' ! c)" "co_entry (rg_comps g' ! c) = entry_ref g' (of_nat e)"
      using S(1,3) [of c] eref [OF l *(1) e] by simp_all
  next
    fix l
    assume l': "l \<in> set ls'"
    show "unat (l_pins (l_rows (rg_lineages g') ! l)) = card {e \<in> set (pages' l). e_runtime (e_rows (rg_entries g') ! e) \<noteq> None}"
    proof (cases "l \<in> set ls")
      case True
      have "{e \<in> set (pages' l). e_runtime (e_rows (rg_entries g') ! e) \<noteq> None} =
          {e \<in> set (pages l). e_runtime (e_rows (rg_entries g) ! e) \<noteq> None}"
      proof (intro Collect_cong)
        fix e
        show "(e \<in> set (pages' l) \<and> e_runtime (e_rows (rg_entries g') ! e) \<noteq> None) =
            (e \<in> set (pages l) \<and> e_runtime (e_rows (rg_entries g) ! e) \<noteq> None)"
          using grown [OF True l'] kept(5) [OF True l', of e] by (cases "e \<in> set (pages l)") auto
      qed
      then show ?thesis using old3 [OF True] kept(2) [OF True l'] by simp
    next
      case False
      have "{e \<in> set (pages' l). e_runtime (e_rows (rg_entries g') ! e) \<noteq> None} = {}" using new [OF l' False] by auto
      then show ?thesis using new [OF l' False] by simp
    qed
  qed
qed

section \<open>Changes of rows and of computations\<close>

lemma reused_at_most_gens:
  assumes "reused_at_most d g" "map e_generation (e_rows (rg_entries g')) = map e_generation (e_rows (rg_entries g))"
    "map l_generation (l_rows (rg_lineages g')) = map l_generation (l_rows (rg_lineages g))"
  shows "reused_at_most d g'"
proof -
  have "e_generation ` set (e_rows (rg_entries g')) = e_generation ` set (e_rows (rg_entries g))"
    "l_generation ` set (l_rows (rg_lineages g')) = l_generation ` set (l_rows (rg_lineages g))"
    using assms(2,3) by (metis list.set_map)+
  moreover have "reused_at_most d h \<longleftrightarrow> (\<forall>x \<in> e_generation ` set (e_rows (rg_entries h)). unat x \<le> Suc d) \<and>
    (\<forall>x \<in> l_generation ` set (l_rows (rg_lineages h)). unat x \<le> Suc d)" for h
    by (simp add: reused_at_most_def)
  ultimately show ?thesis using assms(1) by (simp only:)
qed

lemma same_gens_links: "same_but_links a b \<Longrightarrow> map l_generation (l_rows a) = map l_generation (l_rows b)"
  using lineage_view_links by (fastforce simp: lineage_view_def)

lemma upd_lrow_fields:
  "rg_entries (upd_lrow i f g) = rg_entries g" "rg_tokens (upd_lrow i f g) = rg_tokens g" "rg_ids (upd_lrow i f g) = rg_ids g"
  "rg_cfg (upd_lrow i f g) = rg_cfg g" "rg_layout (upd_lrow i f g) = rg_layout g" "rg_base (upd_lrow i f g) = rg_base g"
  "rg_closed (upd_lrow i f g) = rg_closed g" "rg_nextID (upd_lrow i f g) = rg_nextID g" "rg_comps (upd_lrow i f g) = rg_comps g"
  "rg_closedRoots (upd_lrow i f g) = rg_closedRoots g"
  "l_rows (rg_lineages (upd_lrow i f g)) = (l_rows (rg_lineages g))[unat i := f (lrow g i)]"
  by (simp_all add: upd_lrow_def)

lemma work_frame_refl: "work_frame g ls pages g"
  by (simp add: work_frame_def)

lemma filter_self: "filter (\<lambda>l. l \<in> set ls) ls = ls"
  by (induction ls) (auto intro: filter_True)

lemma quiet_state:
  assumes st: "registry_state K g ls pages" and l: "l \<in> set ls"
    and q: "quiet_change (f (l_rows (rg_lineages g) ! l)) (l_rows (rg_lineages g) ! l)"
    "l_pins (f (l_rows (rg_lineages g) ! l)) = l_pins (l_rows (rg_lineages g) ! l)"
    "l_root (f (l_rows (rg_lineages g) ! l)) = l_root (l_rows (rg_lineages g) ! l)"
  shows "registry_state K (upd_lrow (of_nat l) f g) ls pages"
proof -
  note S = registry_stateD [OF st] and R = registry_inv_row [OF registry_stateD(2) [OF st] l]
  let ?g = "upd_lrow (of_nat l) f g"
  have inv: "registry_inv K ?g ls pages" by (rule quiet_inv [where f = f, OF S(2) l q(1)])
  obtain d where d: "reused_at_most d g" "d + length ls \<le> unat (rg_nextID g)" using S(1) by (auto simp: registry_good_def)
  have "map l_generation (l_rows (rg_lineages ?g)) = map l_generation (l_rows (rg_lineages g))"
    using q(1) R(1,2) by (simp add: upd_lrow_fields map_update quiet_change_def list_update_same_conv)
  then have "reused_at_most d ?g" by (intro reused_at_most_gens [OF d(1)]) (simp add: upd_lrow_fields)
  then have good: "registry_good K ?g ls pages" using inv d(2) by (auto simp: registry_good_def upd_lrow_fields)
  have "work_frame g (filter (\<lambda>l. l \<in> set ls) ls) pages ?g"
    unfolding work_frame_def upd_lrow_fields filter_self R(2)
    using q R(1) by (auto simp: quiet_change_def nth_list_update)
  then have "comps_ok ?g ls pages" by (rule comps_ok_frame [OF S(3,2) inv]) (auto simp: upd_lrow_fields)
  then show ?thesis using good by (simp add: registry_state_def)
qed

lemma comps_state:
  assumes "registry_state K g ls pages" "same_core cs (rg_comps g)"
  shows "registry_state K (g\<lparr>rg_comps := cs\<rparr>) ls pages"
  using assms comps_ok_same_core by (simp add: registry_state_def registry_good_comps)

lemma valid_lineage_ref:
  assumes "registry_inv K g ls pages" "lineage_valid (rg_lineages g) r"
  shows "\<exists>l \<in> set ls. r = lineage_ref g (of_nat l)"
proof -
  have "unat (ref_index r) \<in> set ls" using assms unfolding registry_invD(5) [OF assms(1)] live_lineages_iff lineage_valid_def by simp
  moreover have "r = lineage_ref g (of_nat (unat (ref_index r)))"
    using assms(2) by (cases r) (simp add: lineage_valid_def lineage_ref_def)
  ultimately show ?thesis by blast
qed

lemma lineage_ref_valid:
  assumes "registry_inv K g ls pages" "l \<in> set ls"
  shows "lineage_valid (rg_lineages g) (lineage_ref g (of_nat l))"
  using registry_inv_row [OF assms] by (simp add: lineage_valid_def lineage_ref_def)

section \<open>Removal\<close>

text \<open>Fewer than \<open>2 ^ 32 - 3\<close> lineages were ever created: the generations of the rows have not run out.\<close>

definition ids_left :: "registry \<Rightarrow> bool" where
  "ids_left g \<longleftrightarrow> unat (rg_nextID g) < 4294967293"

text \<open>A removal takes the lineage out, or marks it when it is pinned.\<close>

definition removal_outcome ::
  "keyed \<Rightarrow> registry \<Rightarrow> nat list \<Rightarrow> (nat \<Rightarrow> nat list) \<Rightarrow> nat \<Rightarrow> registry \<Rightarrow> nat list \<Rightarrow> bool" where
  "removal_outcome K g ls pages l g' ls' \<longleftrightarrow> registry_state K g' ls' pages \<and> rg_closed g' = rg_closed g \<and>
    rg_nextID g' = rg_nextID g \<and> rg_cfg g' = rg_cfg g \<and> rg_layout g' = rg_layout g \<and> rg_base g' = rg_base g \<and>
    same_work (rg_comps g') (rg_comps g) \<and>
    (if l_pins (l_rows (rg_lineages g) ! l) = 0
     then ls' = without ls [l] \<and> rg_comps g' = rg_comps g \<and>
       rg_closedRoots g' = rg_closedRoots g @ (case l_root (l_rows (rg_lineages g) ! l) of None \<Rightarrow> [] | Some r \<Rightarrow> [r])
     else ls' = ls \<and> rg_closedRoots g' = rg_closedRoots g \<and> rg_tokens g' = rg_tokens g \<and> rg_entries g' = rg_entries g \<and>
       l_flags (l_rows (rg_lineages g') ! l) = lineageRollbackPending)"

lemma removal_state:
  assumes st: "registry_state K g ls pages" and l: "l \<in> set ls" and left: "ids_left g"
  shows "\<exists>g' ls'. removal_outcome K g ls pages l g' ls' \<and>
    removeLineage K (lineage_ref g (of_nat l)) g = (if rg_closed g \<and> ls' = [] then releaseFixed g' else g', True)"
proof (cases "l_pins (l_rows (rg_lineages g) ! l) = 0")
  case True
  note S = registry_stateD [OF st]
  obtain d where d: "reused_at_most d g" "d + length ls \<le> unat (rg_nextID g)" using S(1) by (auto simp: registry_good_def)
  have bound: "d < 4294967294" using d(2) left by (simp add: ids_left_def)
  obtain ys zs where ls: "ls = ys @ l # zs" using l by (meson split_list)
  have dist: "distinct ls" by (rule registry_invD(12) [OF S(2)])
  have w: "without ls [l] = ys @ zs"
  proof -
    have "l \<notin> set ys" "l \<notin> set zs" using dist by (auto simp: ls)
    then have "filter (\<lambda>x. x \<noteq> l) ys = ys" "filter (\<lambda>x. x \<noteq> l) zs = zs" by (auto simp: filter_id_conv)
    then show ?thesis by (simp add: ls)
  qed
  obtain g' where g': "removeLineage K (lineage_ref g (of_nat l)) g = (if rg_closed g \<and> ys @ zs = [] then releaseFixed g' else g', True)"
    "registry_inv K g' (ys @ zs) pages" "reused_at_most (Suc d) g'" "removal_frame g l pages g'"
    using removeLineage_ok [OF S(2) [unfolded ls] True d(1) bound] by blast
  have kp: "rows_kept g (ys @ zs) pages g'" by (rule removal_kept [OF S(2) [unfolded ls] g'(2,4)])
  have good: "registry_good K g' (ys @ zs) pages"
    using g'(2,3,4) d(2) by (auto simp: registry_good_def removal_frame_def ls intro!: exI [of _ "Suc d"])
  have "comps_ok g' (ys @ zs) pages"
  proof (rule comps_ok_frame [OF S(3,2) g'(2)])
    show "work_frame g (filter (\<lambda>x. x \<in> set (ys @ zs)) ls) pages g'"
      unfolding work_frame_def
    proof (intro conjI ballI)
      show "same_work (rg_comps g') (rg_comps g)" using kp by (simp add: rows_kept_def)
      fix x
      assume "x \<in> set (filter (\<lambda>x. x \<in> set (ys @ zs)) ls)"
      then have u: "unlinked (l_rows (rg_lineages g') ! x) = unlinked (l_rows (rg_lineages g) ! x)"
        and e: "\<forall>e \<in> set (pages x). e_rows (rg_entries g') ! e = e_rows (rg_entries g) ! e"
        using kp unfolding rows_kept_def by auto
      show "l_generation (l_rows (rg_lineages g') ! x) = l_generation (l_rows (rg_lineages g) ! x)"
        "l_pins (l_rows (rg_lineages g') ! x) = l_pins (l_rows (rg_lineages g) ! x)"
        "l_root (l_rows (rg_lineages g') ! x) = l_root (l_rows (rg_lineages g) ! x)"
        using unlinked_fields [OF u] by simp_all
      show "e_generation (e_rows (rg_entries g') ! e) = e_generation (e_rows (rg_entries g) ! e)"
        "e_runtime (e_rows (rg_entries g') ! e) = e_runtime (e_rows (rg_entries g) ! e)" if "e \<in> set (pages x)" for e
        using e that by simp_all
    qed
  qed (use True in \<open>auto simp: ls\<close>)
  then have "registry_state K g' (ys @ zs) pages" using good by (simp add: registry_state_def)
  then have "removal_outcome K g ls pages l g' (ys @ zs)"
    using g'(4) kp True w by (simp add: removal_outcome_def removal_frame_def)
  then show ?thesis using g'(1) by blast
next
  case False
  note S = registry_stateD [OF st] and R = registry_inv_row [OF registry_stateD(2) [OF st] l]
  define g1 where "g1 = upd_lrow (of_nat l) (\<lambda>w. w\<lparr>l_flags := lineageRollbackPending\<rparr>) g"
  have st1: "registry_state K g1 ls pages"
    unfolding g1_def by (rule quiet_state [OF st l]) (simp_all add: quiet_change_def)
  obtain cs where cs: "cancelLineageWork (of_nat l) g1 = g1\<lparr>rg_comps := cs\<rparr>" "same_work cs (rg_comps g1)"
    unfolding cancelLineageWork_def using cancel_chain_comps by blast
  have st2: "registry_state K (g1\<lparr>rg_comps := cs\<rparr>) ls pages" by (rule comps_state [OF st1 same_work_core [OF cs(2)]])
  have "l_rows (rg_lineages g1) ! l = (l_rows (rg_lineages g) ! l)\<lparr>l_flags := lineageRollbackPending\<rparr>"
    using R(1,2) by (simp add: g1_def upd_lrow_fields)
  then have out: "removal_outcome K g ls pages l (g1\<lparr>rg_comps := cs\<rparr>) ls"
    using False st2 cs(2) by (simp add: removal_outcome_def g1_def upd_lrow_fields)
  have ne: "ls \<noteq> []" using l by auto
  have "ref_index (lineage_ref g (of_nat l)) = of_nat l" by (simp add: lineage_ref_def)
  then have "removeLineage K (lineage_ref g (of_nat l)) g = (g1\<lparr>rg_comps := cs\<rparr>, True)"
    using lineage_ref_valid [OF S(2) l] False R(2) cs(1) by (simp add: removeLineage_def Let_def g1_def)
  then show ?thesis using out ne by (intro exI [of _ "g1\<lparr>rg_comps := cs\<rparr>"] exI [of _ ls]) simp
qed

end
