(* ===== verification/CursorPublication.thy ===== *)
theory CursorPublication
  imports CursorWork
begin

text \<open>
  The publication of an initial lineage (\<open>src/internal/cursor/publication.go\<close>): a provisional lineage becomes
  visible when the response is about to be written and permanent when it has been written; until then it can be
  rolled back.  The methods run under the mutexes of the publication and of the registry.
\<close>

section \<open>The publication\<close>

text \<open>The registry and the work lease are not nil; \<open>pb_workReturned\<close> tells whether the lease was handed back.\<close>

record cursor_publication =
  pb_lineage :: lineageRef
  pb_armed :: bool
  pb_prepared :: bool
  pb_terminal :: bool
  pb_workReturned :: bool

definition newPublication :: "lineageRef \<Rightarrow> cursor_publication" where
  "newPublication r = \<lparr>pb_lineage = r, pb_armed = True, pb_prepared = False, pb_terminal = False, pb_workReturned = False\<rparr>"

text \<open>Each method returns the new publication and registry, whether the caller now hands the work lease back, and
  whether it succeeded.\<close>

definition Prepare :: "int64 \<Rightarrow> cursor_publication \<Rightarrow> registry \<Rightarrow> cursor_publication \<times> registry \<times> bool" where
  "Prepare now p g =
    (if pb_terminal p \<or> \<not> pb_armed p \<or> pb_prepared p then (p, g, False)
     else
       let i = ref_index (pb_lineage p) in
       if rg_closed g \<or> \<not> lineage_valid (rg_lineages g) (pb_lineage p) \<or>
         and (l_flags (lrow g i)) lineagePhaseMask \<noteq> lineagePhaseProvisional
       then (p, g, False)
       else
         let g1 = upd_lrow i (\<lambda>w. w\<lparr>l_flags := lineagePhasePublishing\<rparr>) g;
             protectedUntil = addDuration now CursorHandoffGrace;
             g2 = (if sint protectedUntil > sint (l_protectedUntil (lrow g1 i))
               then upd_lrow i (\<lambda>w. w\<lparr>l_protectedUntil := protectedUntil\<rparr>) g1 else g1) in
         (p\<lparr>pb_prepared := True\<rparr>, g2, True))"

definition takeWork :: "cursor_publication \<Rightarrow> cursor_publication \<times> bool" where
  "takeWork p = (if pb_workReturned p then (p, False) else (p\<lparr>pb_workReturned := True\<rparr>, True))"

definition CommitPublication :: "cursor_publication \<Rightarrow> registry \<Rightarrow> cursor_publication \<times> registry \<times> bool \<times> bool" where
  "CommitPublication p g =
    (if pb_terminal p \<or> \<not> pb_armed p \<or> \<not> pb_prepared p then (p, g, False, False)
     else
       let i = ref_index (pb_lineage p);
           valid = (\<not> rg_closed g \<and> lineage_valid (rg_lineages g) (pb_lineage p) \<and>
             and (l_flags (lrow g i)) lineagePhaseMask = lineagePhasePublishing);
           g1 = (if valid then upd_lrow i (\<lambda>w. w\<lparr>l_flags := lineagePhasePublished\<rparr>) g else g);
           (p1, returns) = takeWork (p\<lparr>pb_armed := False, pb_terminal := True\<rparr>) in
       (p1, g1, returns, valid))"

definition rollback :: "keyed \<Rightarrow> bool \<Rightarrow> bool \<Rightarrow> cursor_publication \<Rightarrow> registry \<Rightarrow> cursor_publication \<times> registry \<times> bool" where
  "rollback K returnWork calledByWork p g =
    (let p1 = (if calledByWork then p\<lparr>pb_workReturned := True\<rparr> else p);
         (p2, g1) = (if \<not> pb_terminal p1
           then (p1\<lparr>pb_terminal := True, pb_armed := False\<rparr>, fst (removeLineage K (pb_lineage p1) g))
           else (p1, g));
         (p3, returns) = (if returnWork then takeWork p2 else (p2, False)) in
     (p3, g1, returns))"

definition AbortPublication :: "keyed \<Rightarrow> cursor_publication \<Rightarrow> registry \<Rightarrow> cursor_publication \<times> registry \<times> bool" where
  "AbortPublication K = rollback K True False"

definition MarkNoCommitPublication :: "keyed \<Rightarrow> cursor_publication \<Rightarrow> registry \<Rightarrow> cursor_publication \<times> registry \<times> bool" where
  "MarkNoCommitPublication K = rollback K False False"

definition ReleasePublication :: "keyed \<Rightarrow> cursor_publication \<Rightarrow> registry \<Rightarrow> cursor_publication \<times> registry \<times> bool" where
  "ReleasePublication K = rollback K False True"

section \<open>States of the registry\<close>

text \<open>After closing, when the last lineage is gone, nothing is left.\<close>

definition released :: "registry \<Rightarrow> bool" where
  "released g \<longleftrightarrow> rg_closed g \<and> e_rows (rg_entries g) = [] \<and> l_rows (rg_lineages g) = [] \<and> live (rg_ids g) = 0 \<and>
    rg_nextID g = 0 \<and> (\<forall>c < length (rg_comps g). co_finished (rg_comps g ! c))"

definition registry_ok :: "keyed \<Rightarrow> registry \<Rightarrow> bool" where
  "registry_ok K g \<longleftrightarrow> (\<exists>ls pages. registry_state K g ls pages \<and> (rg_closed g \<longrightarrow> ls \<noteq> [])) \<or> released g"

lemma released_valid: "released g \<Longrightarrow> \<not> lineage_valid (rg_lineages g) r" "released g \<Longrightarrow> \<not> entry_valid (rg_entries g) r'"
  by (simp_all add: released_def lineage_valid_def entry_valid_def)

lemma registry_state_empty:
  assumes "registry_state K g [] pages" "rg_closed g"
  shows "released (releaseFixed g)"
proof -
  have "comps_ok g [] pages" using assms(1) by (simp add: registry_state_def)
  then have "co_finished (rg_comps g ! c)" if "c < length (rg_comps g)" for c using that by (auto simp: comps_ok_def)
  then show ?thesis using assms(2) by (simp add: released_def releaseFixed_def)
qed

lemma registry_ok_or_released:
  assumes "registry_state K g ls pages"
  shows "registry_ok K (if rg_closed g \<and> ls = [] then releaseFixed g else g)"
  using assms registry_state_empty [of K g pages] by (auto simp: registry_ok_def)

text \<open>A removal keeps the registry in order, whatever the reference.\<close>

lemma removeLineage_registry_ok:
  assumes ok: "registry_ok K g" and left: "ids_left g"
  shows "registry_ok K (fst (removeLineage K r g)) \<and> rg_closed (fst (removeLineage K r g)) = rg_closed g \<and>
    (rg_nextID (fst (removeLineage K r g)) = rg_nextID g \<or> rg_nextID (fst (removeLineage K r g)) = 0) \<and>
    same_work (rg_comps (fst (removeLineage K r g))) (rg_comps g)"
proof (cases "lineage_valid (rg_lineages g) r")
  case False
  then show ?thesis using ok by (simp add: removeLineage_def)
next
  case True
  then obtain ls pages where st: "registry_state K g ls pages" using ok released_valid unfolding registry_ok_def by blast
  obtain l where l: "l \<in> set ls" "r = lineage_ref g (of_nat l)"
    using valid_lineage_ref [OF registry_stateD(2) [OF st] True] by blast
  obtain g' ls' where out: "removal_outcome K g ls pages l g' ls'"
    "removeLineage K r g = (if rg_closed g \<and> ls' = [] then releaseFixed g' else g', True)"
    using removal_state [OF st l(1) left] l(2) by blast
  have "registry_ok K (if rg_closed g' \<and> ls' = [] then releaseFixed g' else g')"
    using out(1) by (intro registry_ok_or_released [where pages = pages]) (simp add: removal_outcome_def)
  moreover have "rg_closed g' = rg_closed g" "rg_nextID g' = rg_nextID g" "same_work (rg_comps g') (rg_comps g)"
    using out(1) by (simp_all add: removal_outcome_def)
  ultimately show ?thesis using out(2) by (simp add: releaseFixed_def)
qed

lemma ids_left_cong: "ids_left g \<Longrightarrow> rg_nextID g' = rg_nextID g \<or> rg_nextID g' = 0 \<Longrightarrow> ids_left g'"
  by (auto simp: ids_left_def)

section \<open>Lookup\<close>

lemma resolve_ok:
  assumes ok: "registry_ok K g" and left: "ids_left g"
  shows "case resolve K t now g of (g', res) \<Rightarrow> registry_ok K g' \<and> ids_left g' \<and> same_work (rg_comps g') (rg_comps g) \<and>
    (case res of Inl code \<Rightarrow> True
     | Inr (r, i) \<Rightarrow> g' = g \<and> \<not> rg_closed g \<and> (\<exists>ls pages l e. registry_state K g ls pages \<and> l \<in> set ls \<and> i = of_nat l \<and>
         e \<in> set (pages l) \<and> r = entry_ref g (of_nat e) \<and> index_map (rg_tokens g) t = Some (of_nat e)))"
proof (cases "rg_closed g")
  case True
  then show ?thesis using ok left by (simp add: resolve_def)
next
  case op: False
  then obtain ls pages where st: "registry_state K g ls pages" using ok by (auto simp: registry_ok_def released_def)
  note D = registry_invD [OF registry_stateD(2) [OF st]] and zs = sizes_okD [OF registry_stateD(2) [OF st]]
  have ti: "index_inv (km_token K) (rg_tokens g)" using D(6) unfolding tokens_ok_def by blast
  have lk: "index_lookup (rg_tokens g) t (tokenHome K g t) = index_map (rg_tokens g) t"
    by (rule index_lookup_correct [OF ti]) (simp add: tokenHome_def)
  show ?thesis
  proof (cases "index_map (rg_tokens g) t")
    case None
    then show ?thesis using ok left lk by (simp add: resolve_def)
  next
    case (Some x)
    then have live: "unat x \<in> live_entries (rg_entries g)" using D(6) unfolding tokens_ok_def by blast
    then obtain l where l: "l \<in> set ls" "unat x \<in> set (pages l)" unfolding D(9) by blast
    have i: "e_lineage (erow g x) = of_nat l" using D(8) [OF l(1)] l(2) by (simp add: lineage_ok_def)
    note R = registry_inv_row [OF registry_stateD(2) [OF st] l(1)]
    have live': "\<not> (unat x \<ge> length (e_rows (rg_entries g)) \<or> e_occupied (erow g x) = 0)"
      "\<not> (unat (of_nat l :: arenaRef) \<ge> length (l_rows (rg_lineages g)) \<or> l_occupied (lrow g (of_nat l)) = 0)"
      using live R by (auto simp: live_entries_iff)
    define bad where "bad \<longleftrightarrow> (let phase = and (l_flags (lrow g (of_nat l))) lineagePhaseMask in
      phase \<noteq> lineagePhasePublishing \<and> phase \<noteq> lineagePhasePublished)"
    have eq: "resolve K t now g = (if bad then (g, Inl ErrorCursorExpired)
       else if lineage_expired g (of_nat l) now then (fst (removeLineage K (lineage_ref g (of_nat l)) g), Inl ErrorCursorExpired)
       else (g, Inr (entry_ref g x, of_nat l)))"
      unfolding resolve_def Let_def lk Some option.case i if_not_P [OF op] if_not_P [OF live'(1)] if_not_P [OF live'(2)] bad_def ..
    consider "bad" | "\<not> bad" "lineage_expired g (of_nat l) now" | "\<not> bad" "\<not> lineage_expired g (of_nat l) now" by blast
    then show ?thesis
    proof cases
      case 1
      then show ?thesis using ok left by (simp add: eq)
    next
      case 2
      then show ?thesis using removeLineage_registry_ok [OF ok left, of "lineage_ref g (of_nat l)"] ids_left_cong [OF left]
        by (simp add: eq)
    next
      case 3
      have "\<exists>e. e \<in> set (pages l) \<and> entry_ref g x = entry_ref g (of_nat e) \<and> index_map (rg_tokens g) t = Some (of_nat e)"
        using l(2) Some by (intro exI [of _ "unat x"]) simp
      then show ?thesis using 3 ok left st l(1) op by (auto simp: eq)
    qed
  qed
qed

end
