(* ===== verification/CursorContinue.thy ===== *)
theory CursorContinue
  imports CursorPublication
begin

text \<open>
  Continuations (\<open>src/internal/cursor/continue.go\<close>): a call joins the running computation of an entry, replays the
  result kept with it, or starts a computation; the computation ends in a successor page, a terminal result, an
  expiry or nothing.  Every critical section is one function on the state of the world; the world consists of the
  registry, the nodes of the calls and the log of what was done to waiters and work leases.  A call is known by
  the number of its node; the list of the attached waiters stands for the doubly linked list of nodes.
\<close>

section \<open>The world\<close>

record waiter_node =
  wn_comp :: "nat option"
  wn_attached :: bool
  wn_lease :: bool
  wn_doneClosed :: bool

datatype effect = Deliver nat Result | CloseWithoutResponse nat | WorkReturned nat

record world =
  cw_reg :: registry
  cw_nodes :: "waiter_node list"
  cw_log :: "effect list"

datatype ProgressKind = NoProgress | ProgressOutputKey | ProgressReadItem | ProgressSummary | ProgressTraversal

record ProgressProof =
  pp_Kind :: ProgressKind
  pp_BeforeValue :: uint64
  pp_AfterValue :: uint64
  pp_Before :: bytes
  pp_After :: bytes

definition ProgressProof_Valid :: "ProgressProof \<Rightarrow> bool" where
  "ProgressProof_Valid p =
    (case pp_Kind p of
       ProgressOutputKey \<Rightarrow> pp_AfterValue p > pp_BeforeValue p
     | ProgressReadItem \<Rightarrow> pp_AfterValue p > pp_BeforeValue p
     | ProgressSummary \<Rightarrow> pp_Before p \<noteq> pp_After p \<or> pp_AfterValue p > pp_BeforeValue p
     | ProgressTraversal \<Rightarrow> pp_Before p \<noteq> pp_After p \<or> pp_AfterValue p > pp_BeforeValue p
     | NoProgress \<Rightarrow> False)"

text \<open>\<open>oc_Finalize\<close>: the callback, which may fail.\<close>

record Outcome =
  oc_Result :: Result
  oc_Successor :: "page_state option"
  oc_Reservation :: ReservationUse
  oc_Progress :: ProgressProof
  oc_Finalize :: "(token \<Rightarrow> Result option) option"

definition cursorResult :: "ErrorCode \<Rightarrow> Result" where
  "cursorResult code =
    Navigation (''ERROR'' @ [CHR 0x09] @ (if ErrorCode_Valid code then code else ErrorIOError) @ [LF]) True"

abbreviation comp_of :: "world \<Rightarrow> nat \<Rightarrow> computation" where
  "comp_of w c \<equiv> rg_comps (cw_reg w) ! c"

definition upd_comp :: "nat \<Rightarrow> (computation \<Rightarrow> computation) \<Rightarrow> world \<Rightarrow> world" where
  "upd_comp c f w = w\<lparr>cw_reg := (cw_reg w)\<lparr>rg_comps := (rg_comps (cw_reg w))[c := f (comp_of w c)]\<rparr>\<rparr>"

definition upd_node :: "nat \<Rightarrow> (waiter_node \<Rightarrow> waiter_node) \<Rightarrow> world \<Rightarrow> world" where
  "upd_node n f w = w\<lparr>cw_nodes := (cw_nodes w)[n := f (cw_nodes w ! n)]\<rparr>"

definition upd_reg :: "(registry \<Rightarrow> registry) \<Rightarrow> world \<Rightarrow> world" where
  "upd_reg f w = w\<lparr>cw_reg := f (cw_reg w)\<rparr>"

definition emit :: "effect list \<Rightarrow> world \<Rightarrow> world" where
  "emit es w = w\<lparr>cw_log := cw_log w @ es\<rparr>"

section \<open>Waiters\<close>

definition closeWaiterDone :: "nat \<Rightarrow> world \<Rightarrow> world" where
  "closeWaiterDone n = upd_node n (\<lambda>nd. nd\<lparr>wn_doneClosed := True\<rparr>)"

definition attach :: "nat \<Rightarrow> nat \<Rightarrow> world \<Rightarrow> world" where
  "attach c n w = upd_comp c (\<lambda>co. co\<lparr>co_waiters := co_waiters co @ [n]\<rparr>) (upd_node n (\<lambda>nd. nd\<lparr>wn_attached := True\<rparr>) w)"

definition detach :: "nat \<Rightarrow> nat \<Rightarrow> world \<Rightarrow> world" where
  "detach c n w =
    (if \<not> wn_attached (cw_nodes w ! n) then w
     else closeWaiterDone n (upd_node n (\<lambda>nd. nd\<lparr>wn_attached := False\<rparr>)
       (upd_comp c (\<lambda>co. co\<lparr>co_waiters := remove1 n (co_waiters co)\<rparr>) w)))"

fun release_nodes :: "nat list \<Rightarrow> world \<Rightarrow> world" where
  "release_nodes [] w = w"
| "release_nodes (n # ns) w = release_nodes ns (closeWaiterDone n (upd_node n (\<lambda>nd. nd\<lparr>wn_attached := False\<rparr>) w))"

definition detachAll :: "nat \<Rightarrow> world \<Rightarrow> world \<times> nat list" where
  "detachAll c w =
    (let head = co_waiters (comp_of w c) in
     (upd_comp c (\<lambda>co. co\<lparr>co_waiters := []\<rparr>) (release_nodes head w), head))"

text \<open>\<open>cancelled\<close>: the waiters whose call is cancelled at that time.\<close>

definition deliverImmediate :: "(nat \<Rightarrow> bool) \<Rightarrow> nat \<Rightarrow> Result \<Rightarrow> world \<Rightarrow> world" where
  "deliverImmediate cancelled n res = emit [if cancelled n then CloseWithoutResponse n else Deliver n res, WorkReturned n]"

fun deliverWaiters :: "(nat \<Rightarrow> bool) \<Rightarrow> nat list \<Rightarrow> Result \<Rightarrow> bool \<Rightarrow> world \<Rightarrow> world" where
  "deliverWaiters cancelled [] res deliver w = w"
| "deliverWaiters cancelled (n # ns) res deliver w =
    (let w1 = emit [if deliver \<and> \<not> cancelled n then Deliver n res else CloseWithoutResponse n] w;
         w2 = (if wn_lease (cw_nodes w1 ! n) then emit [WorkReturned n] (upd_node n (\<lambda>nd. nd\<lparr>wn_lease := False\<rparr>) w1) else w1) in
     deliverWaiters cancelled ns res deliver w2)"

definition tombstoneComputation :: "nat \<Rightarrow> world \<Rightarrow> world" where
  "tombstoneComputation c w =
    (let co = comp_of w c; g = cw_reg w in
     if co_tombstoned co \<or> \<not> entry_valid (rg_entries g) (co_entry co) \<or> \<not> lineage_valid (rg_lineages g) (co_lineage co) then w
     else
       let e = ref_index (co_entry co); i = ref_index (co_lineage co);
           g1 = (if e_kind (erow g e) = entryKindResident \<and> l_resident (lrow g i) \<noteq> 0
             then upd_lrow i (\<lambda>x. x\<lparr>l_resident := l_resident x - 1, l_tombstones := l_tombstones x + 1\<rparr>)
               (upd_erow e (\<lambda>x. x\<lparr>e_kind := entryKindTombstone\<rparr>) g)
             else g);
           g2 = upd_lrow i (\<lambda>x. x\<lparr>l_flags := lineageRollbackPending\<rparr>) g1 in
       upd_comp c (\<lambda>co. co\<lparr>co_tombstoned := True\<rparr>) (w\<lparr>cw_reg := g2\<rparr>))"

text \<open>\<open>cancelWaiter\<close>; the boolean is its result.\<close>

definition cancelWaiter :: "nat \<Rightarrow> world \<Rightarrow> world \<times> bool" where
  "cancelWaiter n w =
    (case wn_comp (cw_nodes w ! n) of
       None \<Rightarrow> (w, False)
     | Some c \<Rightarrow>
       if co_finished (comp_of w c) then (w, False)
       else if \<not> wn_attached (cw_nodes w ! n) then (w, \<not> co_noCommit (comp_of w c) \<and> co_waiters (comp_of w c) \<noteq> [])
       else
         let w1 = detach c n w;
             retain = (co_waiters (comp_of w1 c) \<noteq> []);
             w2 = (if retain then w1
               else upd_comp c (\<lambda>co. co\<lparr>co_cancelled := True\<rparr>)
                 (tombstoneComputation c (upd_comp c (\<lambda>co. co\<lparr>co_noCommit := True\<rparr>) w1)));
             lease = wn_lease (cw_nodes w2 ! n);
             w3 = upd_node n (\<lambda>nd. nd\<lparr>wn_lease := False\<rparr>) w2 in
         (emit ([CloseWithoutResponse n] @ (if lease then [WorkReturned n] else [])) w3, retain))"

definition HandleSharedNoCommit :: "nat \<Rightarrow> world \<Rightarrow> world \<times> bool" where
  "HandleSharedNoCommit c w = cancelWaiter (co_starter (comp_of w c)) w"

section \<open>Starting or joining\<close>

definition cloneState :: "(page_state \<Rightarrow> page_state option) \<Rightarrow> page_state option \<Rightarrow> page_state option" where
  "cloneState clone parent =
    (case parent of
       None \<Rightarrow> None
     | Some p \<Rightarrow>
       (case clone p of
          None \<Rightarrow> None
        | Some working \<Rightarrow>
            if ps_tool working \<noteq> ps_tool p \<or> ps_cwdID working \<noteq> ps_cwdID p \<or> ps_digest working \<noteq> ps_digest p \<or>
              ps_footprint working \<noteq> ps_footprint p then None
            else if ps_shared p \<noteq> ps_shared working then None
            else Some working))"

text \<open>The deadline of the context of the call, if it has one, is \<open>ctxDeadline\<close>.\<close>

definition continuationDeadline :: "int option \<Rightarrow> int64 \<Rightarrow> int \<times> ErrorCode" where
  "continuationDeadline ctxDeadline lineageDeadlineNanos =
    (case ctxDeadline of
       Some callerDeadline \<Rightarrow>
         if callerDeadline < sint lineageDeadlineNanos then (callerDeadline, ErrorBudgetExceeded)
         else (sint lineageDeadlineNanos, ErrorCursorExpired)
     | None \<Rightarrow> (sint lineageDeadlineNanos, ErrorCursorExpired))"

record continue_call =
  cc_token :: token
  cc_tool :: ToolName
  cc_cwdID :: uint64
  cc_hasWaiter :: bool
  cc_hasCompute :: bool
  cc_ctxDeadline :: "int option"

definition new_node :: waiter_node where
  "new_node = \<lparr>wn_comp = None, wn_attached = False, wn_lease = False, wn_doneClosed = False\<rparr>"

definition add_node :: "world \<Rightarrow> world" where
  "add_node w = w\<lparr>cw_nodes := cw_nodes w @ [new_node]\<rparr>"

text \<open>Joining the computation \<open>c\<close>; \<open>transferred\<close>: \<open>work.Transfer\<close> succeeds.\<close>

definition join_computation :: "bool \<Rightarrow> nat \<Rightarrow> nat \<Rightarrow> world \<Rightarrow> world" where
  "join_computation transferred c n w =
    (let w1 = attach c n (upd_node n (\<lambda>nd. nd\<lparr>wn_comp := Some c, wn_lease := True\<rparr>) w) in
     if \<not> transferred
     then emit [CloseWithoutResponse n, WorkReturned n] (detach c n w1)
     else w1)"

definition start_computation :: "bool \<Rightarrow> continue_call \<Rightarrow> EntryRef \<Rightarrow> arenaRef \<Rightarrow> nat \<Rightarrow> world \<Rightarrow> world" where
  "start_computation transferred call entry i n w =
    (let g = cw_reg w; e = ref_index entry; c = length (rg_comps g);
         co = \<lparr>co_entry = entry, co_lineage = lineage_ref g i,
           co_deadlineCode = snd (continuationDeadline (cc_ctxDeadline call) (l_commitDeadline (lrow g i))),
           co_starter = n, co_waiters = [], co_noCommit = False, co_finished = False, co_tombstoned = False,
           co_cancelled = False, co_work = True, co_root = l_root (lrow g i)\<rparr>;
         w1 = attach c n (upd_node n (\<lambda>nd. nd\<lparr>wn_comp := Some c\<rparr>) (upd_reg (\<lambda>g. g\<lparr>rg_comps := rg_comps g @ [co]\<rparr>) w));
         w2 = upd_reg (\<lambda>g. upd_lrow i (\<lambda>x. x\<lparr>l_pins := l_pins x + 1\<rparr>) (upd_erow e (\<lambda>x. x\<lparr>e_runtime := Some c\<rparr>) g)) w1 in
     if \<not> transferred
     then
       let w3 = detach c n (upd_reg (\<lambda>g. upd_lrow i (\<lambda>x. x\<lparr>l_pins := l_pins x - 1\<rparr>)
           (upd_erow e (\<lambda>x. x\<lparr>e_runtime := None\<rparr>) g)) w2) in
       emit [CloseWithoutResponse n, WorkReturned n] (upd_comp c (\<lambda>co. co\<lparr>co_finished := True, co_cancelled := True\<rparr>) w3)
     else w2)"

text \<open>\<open>Continue\<close> with a work lease that is not nil; \<open>c0\<close> and \<open>cancelled\<close>: the cancelled calls at the entry and at
  the delivery.\<close>

definition Continue ::
  "keyed \<Rightarrow> (page_state \<Rightarrow> page_state option) \<Rightarrow> continue_call \<Rightarrow> bool \<Rightarrow> bool \<Rightarrow> (nat \<Rightarrow> bool) \<Rightarrow> int64 \<Rightarrow> world \<Rightarrow> world" where
  "Continue K clone call transferred c0 cancelled now w0 =
    (let n = length (cw_nodes w0); w = add_node w0 in
     if \<not> cc_hasWaiter call then emit [WorkReturned n] w
     else if c0 then emit [CloseWithoutResponse n, WorkReturned n] w
     else
       let (g1, res) = lookupScoped K (cc_token call) (cc_tool call) (cc_cwdID call) now (cw_reg w);
           w1 = w\<lparr>cw_reg := g1\<rparr> in
       case res of
         Inl code \<Rightarrow> deliverImmediate cancelled n (cursorResult code) w1
       | Inr entry \<Rightarrow>
         let e = ref_index entry in
         (case e_memo (erow g1 e) of
            Some memo \<Rightarrow> deliverImmediate cancelled n memo w1
          | None \<Rightarrow>
            (case e_runtime (erow g1 e) of
               Some c \<Rightarrow>
                 if co_finished (comp_of w1 c) \<or> co_noCommit (comp_of w1 c)
                 then deliverImmediate cancelled n (cursorResult ErrorCursorExpired) w1
                 else join_computation transferred c n w1
             | None \<Rightarrow>
                 if \<not> cc_hasCompute call then deliverImmediate cancelled n (cursorResult ErrorInvalidInput) w1
                 else
                   let i = e_lineage (erow g1 e) in
                   (case cloneState clone (e_state (erow g1 e)) of
                      None \<Rightarrow>
                        let g2 = upd_lrow i (\<lambda>x. x\<lparr>l_flags := lineageRollbackPending\<rparr>) g1 in
                        deliverImmediate cancelled n (cursorResult ErrorIOError)
                          (w1\<lparr>cw_reg := fst (removeLineage K (lineage_ref g2 i) g2)\<rparr>)
                    | Some _ \<Rightarrow> start_computation transferred call entry i n w1))))"

section \<open>Ending\<close>

definition expireComputation :: "(nat \<Rightarrow> bool) \<Rightarrow> nat \<Rightarrow> ErrorCode \<Rightarrow> world \<Rightarrow> world" where
  "expireComputation cancelled c code w =
    (let co = comp_of w c; g = cw_reg w in
     if co_finished co \<or> co_noCommit co \<or> \<not> entry_valid (rg_entries g) (co_entry co) \<or>
       e_runtime (erow g (ref_index (co_entry co))) \<noteq> Some c
     then w
     else
       let w1 = tombstoneComputation c (upd_comp c (\<lambda>co. co\<lparr>co_noCommit := True\<rparr>) w);
           (w2, head) = detachAll c w1 in
       deliverWaiters cancelled head (cursorResult code) True w2)"

text \<open>The common steps of the three ways to finish: the runtime and the pin of the computation go.\<close>

definition unpin_computation :: "nat \<Rightarrow> world \<Rightarrow> world" where
  "unpin_computation c w =
    (let co = comp_of w c; g = cw_reg w; e = ref_index (co_entry co); i = ref_index (co_lineage co);
         g1 = (if entry_valid (rg_entries g) (co_entry co) \<and> e_runtime (erow g e) = Some c
           then upd_erow e (\<lambda>x. x\<lparr>e_runtime := None\<rparr>) g else g);
         g2 = (if lineage_valid (rg_lineages g1) (co_lineage co) \<and> l_pins (lrow g1 i) \<noteq> 0
           then upd_lrow i (\<lambda>x. x\<lparr>l_pins := l_pins x - 1\<rparr>) g1 else g1) in
     upd_comp c (\<lambda>co. co\<lparr>co_finished := True, co_cancelled := True, co_work := False\<rparr>) (w\<lparr>cw_reg := g2\<rparr>))"

definition remove_of :: "keyed \<Rightarrow> nat \<Rightarrow> world \<Rightarrow> world" where
  "remove_of K c w = (if lineage_valid (rg_lineages (cw_reg w)) (co_lineage (comp_of w c))
     then upd_reg (\<lambda>g. fst (removeLineage K (co_lineage (comp_of w c)) g)) w else w)"

definition return_work :: "nat \<Rightarrow> bool \<Rightarrow> world \<Rightarrow> world" where
  "return_work starter hadWork w = (if hadWork then emit [WorkReturned starter] w else w)"

definition finishPartial :: "keyed \<Rightarrow> (nat \<Rightarrow> bool) \<Rightarrow> nat \<Rightarrow> Result \<Rightarrow> world \<Rightarrow> world" where
  "finishPartial K cancelled c res w =
    (let co = comp_of w c; g = cw_reg w in
     if co_finished co then w
     else
       let valid = (\<not> rg_closed g \<and> \<not> co_noCommit co \<and> co_waiters co \<noteq> [] \<and> entry_valid (rg_entries g) (co_entry co) \<and>
             e_runtime (erow g (ref_index (co_entry co))) = Some c \<and> lineage_valid (rg_lineages g) (co_lineage co) \<and>
             and (l_flags (lrow g (ref_index (co_lineage co)))) lineagePhaseMask \<noteq> 0);
           (w1, head) = detachAll c w;
           w2 = unpin_computation c w1;
           w3 = (if \<not> valid \<and> lineage_valid (rg_lineages (cw_reg w2)) (co_lineage co)
             then remove_of K c (tombstoneComputation c w2) else w2) in
       return_work (co_starter co) (co_work co) (deliverWaiters cancelled head res valid w3))"

definition finishTerminal :: "keyed \<Rightarrow> (nat \<Rightarrow> bool) \<Rightarrow> nat \<Rightarrow> Result \<Rightarrow> bool \<Rightarrow> world \<Rightarrow> world" where
  "finishTerminal K cancelled c res offerResult w =
    (let co = comp_of w c; g = cw_reg w in
     if co_finished co then w
     else
       let deliver = (offerResult \<and> \<not> rg_closed g \<and> \<not> co_noCommit co \<and> co_waiters co \<noteq> [] \<and>
             entry_valid (rg_entries g) (co_entry co) \<and> e_runtime (erow g (ref_index (co_entry co))) = Some c);
           (w1, head) = detachAll c w;
           w2 = remove_of K c (unpin_computation c (tombstoneComputation c w1)) in
       return_work (co_starter co) (co_work co) (deliverWaiters cancelled head res deliver w2))"

definition finishDiscarded :: "keyed \<Rightarrow> (nat \<Rightarrow> bool) \<Rightarrow> nat \<Rightarrow> world \<Rightarrow> world" where
  "finishDiscarded K cancelled c w =
    (let co = comp_of w c in
     if co_finished co then w
     else
       let (w1, head) = detachAll c w;
           w2 = unpin_computation c w1;
           w3 = (if lineage_valid (rg_lineages (cw_reg w2)) (co_lineage co) then remove_of K c (tombstoneComputation c w2) else w2) in
       return_work (co_starter co) (co_work co)
         (deliverWaiters cancelled head \<lparr>r_kind = KindNone, r_text = [], r_cwdID = 0, r_isError = False\<rparr> False w3))"

section \<open>The outcome of a computation\<close>

text \<open>\<open>expired\<close>: the context of the computation has passed its deadline.  \<open>None\<close> is not usable, \<open>Some (Some code)\<close>
  expired with that code.\<close>

definition computationStatus :: "nat \<Rightarrow> bool \<Rightarrow> int64 \<Rightarrow> world \<Rightarrow> ErrorCode option option" where
  "computationStatus c expired now w =
    (let co = comp_of w c; g = cw_reg w in
     if co_finished co \<or> co_noCommit co \<or> rg_closed g \<or> \<not> entry_valid (rg_entries g) (co_entry co) \<or>
       e_runtime (erow g (ref_index (co_entry co))) \<noteq> Some c \<or> co_waiters co = []
     then None
     else if sint now \<ge> sint (l_commitDeadline (lrow g (ref_index (co_lineage co)))) then Some (Some ErrorCursorExpired)
     else if expired then Some (Some (co_deadlineCode co))
     else Some None)"

definition previewSuccessor :: "keyed \<Rightarrow> nat \<Rightarrow> page_state option \<Rightarrow> int64 \<Rightarrow> world \<Rightarrow> registry_error + token" where
  "previewSuccessor K c successor now w =
    (let co = comp_of w c; g = cw_reg w; e = ref_index (co_entry co); i = ref_index (co_lineage co) in
     if co_noCommit co \<or> co_waiters co = [] \<or> \<not> entry_valid (rg_entries g) (co_entry co) \<or>
       e_runtime (erow g e) \<noteq> Some c \<or> \<not> lineage_valid (rg_lineages g) (co_lineage co)
     then Inl (Coded ErrorCursorExpired)
     else if rg_closed g \<or> and (l_flags (lrow g i)) lineagePhaseMask = 0 \<or> sint now \<ge> sint (l_workExpiresAt (lrow g i)) \<or>
       and (e_flags (erow g e)) entryFlagMustTerminalize \<noteq> 0
     then Inl (Coded ErrorCursorExpired)
     else case (e_state (erow g e), successor) of
       (Some parent, Some succ) \<Rightarrow>
         if ps_tool succ \<noteq> ps_tool parent \<or> ps_cwdID succ \<noteq> ps_cwdID parent then Inl (Coded ErrorInvalidInput)
         else (case tokenForEntry g e of
           None \<Rightarrow> Inl RegistryInvariantFailed
         | Some (parentToken, _) \<Rightarrow>
             let child = km_child K parentToken (ps_digest succ) in
             if index_lookup (rg_tokens g) child (tokenHome K g child) \<noteq> None then Inl RegistryInvariantFailed
             else Inr child)
     | _ \<Rightarrow> Inl (Coded ErrorInvalidInput))"

text \<open>What the environment decides while an outcome is handled: the clock at each section, the cancelled calls at
  each delivery, whether the deadline of the context has passed, and \<open>hs_other k\<close>, what the other goroutines do to the
  world before the \<open>k\<close>-th section.\<close>

record handling =
  hs_now :: "nat \<Rightarrow> int64"
  hs_cancelled :: "nat \<Rightarrow> bool"
  hs_expired :: bool
  hs_other :: "nat \<Rightarrow> world \<Rightarrow> world"

text \<open>\<open>None\<close> is a panic.\<close>

definition handleOutcome :: "keyed \<Rightarrow> handling \<Rightarrow> nat \<Rightarrow> Outcome \<Rightarrow> world \<Rightarrow> world option" where
  "handleOutcome K h c outcome w0 =
    (let w = hs_other h 0 w0; terminal = (\<lambda>res w. Some (finishTerminal K (hs_cancelled h) c res True w)) in
     case computationStatus c (hs_expired h) (hs_now h 0) w of
       None \<Rightarrow> Some (finishDiscarded K (hs_cancelled h) c (hs_other h 1 w))
     | Some (Some code) \<Rightarrow>
         Some (finishDiscarded K (hs_cancelled h) c
           (hs_other h 2 (expireComputation (hs_cancelled h) c code (hs_other h 1 w))))
     | Some None \<Rightarrow>
       (case oc_Successor outcome of
          None \<Rightarrow>
            if oc_Finalize outcome \<noteq> None \<or> \<not> is_ok (Result_Validate (oc_Result outcome))
            then terminal (cursorResult ErrorIOError) (hs_other h 1 w)
            else terminal (oc_Result outcome) (hs_other h 1 w)
        | Some succ \<Rightarrow>
          (case oc_Finalize outcome of
             None \<Rightarrow> terminal (cursorResult ErrorBudgetExceeded) (hs_other h 1 w)
           | Some finalize \<Rightarrow>
             if \<not> ProgressProof_Valid (oc_Progress outcome) then terminal (cursorResult ErrorBudgetExceeded) (hs_other h 1 w)
             else
               let w1 = hs_other h 1 w in
               (case previewSuccessor K c (Some succ) (hs_now h 1) w1 of
                  Inl err \<Rightarrow> terminal (cursorResult (CodeOf err)) (hs_other h 2 w1)
                | Inr child \<Rightarrow>
                  (case finalize child of
                     None \<Rightarrow> terminal (cursorResult ErrorIOError) (hs_other h 2 w1)
                   | Some res \<Rightarrow>
                     if \<not> is_ok (Result_Validate res) then terminal (cursorResult ErrorIOError) (hs_other h 2 w1)
                     else
                       let w2 = hs_other h 2 w1 in
                       (case materializeSuccessor K (co_entry (comp_of w2 c)) (Some succ) res (oc_Reservation outcome)
                           (hs_now h 2) (cw_reg w2) of
                          None \<Rightarrow> None
                        | Some (g, Inl err) \<Rightarrow> terminal (cursorResult (CodeOf err)) (hs_other h 3 (w2\<lparr>cw_reg := g\<rparr>))
                        | Some (g, Inr committed) \<Rightarrow>
                            if committed \<noteq> child
                            then terminal (cursorResult (CodeOf RegistryInvariantFailed)) (hs_other h 3 (w2\<lparr>cw_reg := g\<rparr>))
                            else Some (finishPartial K (hs_cancelled h) c res (hs_other h 3 (w2\<lparr>cw_reg := g\<rparr>))))))))) "

definition run :: "keyed \<Rightarrow> handling \<Rightarrow> nat \<Rightarrow> Outcome option \<Rightarrow> world \<Rightarrow> world option" where
  "run K h c outcome w =
    (case outcome of
       None \<Rightarrow> handleOutcome K h c \<lparr>oc_Result = cursorResult ErrorIOError, oc_Successor = None,
         oc_Reservation = \<lparr>ru_Kind = NoReservationKind, ru_Slots = 0, ru_Bytes = 0, ru_MustTerminalize = False\<rparr>,
         oc_Progress = \<lparr>pp_Kind = NoProgress, pp_BeforeValue = 0, pp_AfterValue = 0, pp_Before = [], pp_After = []\<rparr>,
         oc_Finalize = None\<rparr> w
     | Some o' \<Rightarrow> handleOutcome K h c o' w)"

end
