(* ===== verification/CursorWorld.thy ===== *)
theory CursorWorld
  imports CursorContinue
begin

text \<open>
  The invariant of the world of continuations: the registry is in order, every waiter that is still attached
  belongs to a running computation, and every other call has been answered exactly once and has handed its work
  lease back exactly once.  Every critical section keeps it.
\<close>

section \<open>Rows of entries and pins\<close>

lemma entry_bounds:
  assumes "registry_inv K g ls pages" "l \<in> set ls" "e \<in> set (pages l)"
  shows "e < length (e_rows (rg_entries g))" "unat (of_nat e :: arenaRef) = e" "e_occupied (e_rows (rg_entries g) ! e) \<noteq> 0"
    "e_lineage (e_rows (rg_entries g) ! e) = of_nat l" "e \<in> live_entries (rg_entries g)"
proof -
  show live: "e \<in> live_entries (rg_entries g)" "e_lineage (e_rows (rg_entries g) ! e) = of_nat l"
    using registry_invD(8) [OF assms(1,2)] assms(3) by (simp_all add: lineage_ok_def)
  then show b: "e < length (e_rows (rg_entries g))" "e_occupied (e_rows (rg_entries g) ! e) \<noteq> 0" by (simp_all add: live_entries_iff)
  show "unat (of_nat e :: arenaRef) = e" using b(1) sizes_okD(1,2) [OF assms(1)] by (intro unat_ref) simp
qed

lemma upd_erow_fields:
  "rg_lineages (upd_erow i f g) = rg_lineages g" "rg_tokens (upd_erow i f g) = rg_tokens g" "rg_ids (upd_erow i f g) = rg_ids g"
  "rg_cfg (upd_erow i f g) = rg_cfg g" "rg_layout (upd_erow i f g) = rg_layout g" "rg_base (upd_erow i f g) = rg_base g"
  "rg_closed (upd_erow i f g) = rg_closed g" "rg_nextID (upd_erow i f g) = rg_nextID g" "rg_comps (upd_erow i f g) = rg_comps g"
  "rg_closedRoots (upd_erow i f g) = rg_closedRoots g" "rg_used (upd_erow i f g) = rg_used g" "rg_total (upd_erow i f g) = rg_total g"
  "e_rows (rg_entries (upd_erow i f g)) = (e_rows (rg_entries g))[unat i := f (erow g i)]"
  by (simp_all add: upd_erow_def)

definition plain_change :: "(page_state, Result, nat) entry_row \<Rightarrow> (page_state, Result, nat) entry_row \<Rightarrow> bool" where
  "plain_change w v \<longleftrightarrow> e_occupied w = e_occupied v \<and> e_generation w = e_generation v \<and> e_nextFree w = e_nextFree v \<and>
    e_lineage w = e_lineage v \<and> e_successor w = e_successor v"

lemma upd_erow_inv:
  assumes inv: "registry_inv K g ls pages" and e: "l \<in> set ls" "e \<in> set (pages l)"
    and q: "plain_change (f (e_rows (rg_entries g) ! e)) (e_rows (rg_entries g) ! e)"
  shows "registry_inv K (upd_erow (of_nat e) f g) ls pages" "reused_at_most d g \<Longrightarrow> reused_at_most d (upd_erow (of_nat e) f g)"
proof -
  note D = registry_invD [OF inv] and B = entry_bounds [OF inv e]
  let ?g = "upd_erow (of_nat e) f g" and ?w = "f (e_rows (rg_entries g) ! e)"
  have ents: "rg_entries ?g = (rg_entries g)\<lparr>e_rows := (e_rows (rg_entries g))[e := ?w]\<rparr>" using B(2) by (simp add: upd_erow_def)
  have view: "entry_view (rg_entries ?g) = entry_view (rg_entries g)"
    unfolding ents by (rule entry_view_row) (use q in \<open>simp_all add: plain_change_def\<close>)
  have succ: "map e_successor (e_rows (rg_entries ?g)) = map e_successor (e_rows (rg_entries g))"
    using q B(1) by (simp add: ents map_update plain_change_def list_update_same_conv)
  have lin: "e_lineage (e_rows (rg_entries ?g) ! x) = e_lineage (e_rows (rg_entries g) ! x)" for x
    using q B(1) by (cases "x = e") (simp_all add: ents plain_change_def)
  show "registry_inv K ?g ls pages"
    unfolding registry_inv_def upd_erow_fields view
  proof (intro conjI ballI)
    show "sizes_ok ?g" using D(1) by (simp add: sizes_ok_def Let_def upd_erow_fields)
    show "tokens_ok K (rg_tokens g) (rg_entries ?g)" by (rule tokens_ok_live [OF D(6)]) (simp add: view)
    show "lineage_ok (rg_entries ?g) (rg_lineages g) pages x" if "x \<in> set ls" for x
      using D(8) [OF that] by (simp add: lineage_ok_def succ lin view)
    show "accounts_ok ?g ls pages" using D(10) by (simp add: accounts_ok_def upd_erow_fields)
    show "idle_entries (rg_entries ?g)"
      unfolding idle_entries_def
    proof (intro ballI impI)
      fix w
      assume "w \<in> set (e_rows (rg_entries ?g))" and free: "e_occupied w = 0"
      then have "w = ?w \<or> w \<in> set (e_rows (rg_entries g))" unfolding ents by (auto dest!: in_set_update_cases)
      moreover have "w \<noteq> ?w" using free q B(3) by (auto simp: plain_change_def)
      ultimately show "idle_entry w" using D(15) free by (auto simp: idle_entries_def)
    qed
  qed (use D in auto)
  have gens: "map e_generation (e_rows (rg_entries ?g)) = map e_generation (e_rows (rg_entries g))"
    using q B(1) by (simp add: ents map_update plain_change_def list_update_same_conv)
  show "reused_at_most d ?g" if "reused_at_most d g"
    by (rule reused_at_most_gens [OF that gens]) (simp add: upd_erow_fields)
qed

lemma upd_erow_good:
  assumes "registry_good K g ls pages" "l \<in> set ls" "e \<in> set (pages l)"
    "plain_change (f (e_rows (rg_entries g) ! e)) (e_rows (rg_entries g) ! e)"
  shows "registry_good K (upd_erow (of_nat e) f g) ls pages"
  using upd_erow_inv [where f = f, OF registry_goodD [OF assms(1)] assms(2-4)] assms(1)
  by (auto simp: registry_good_def upd_erow_fields)

lemma upd_lrow_good:
  assumes "registry_good K g ls pages" "l \<in> set ls"
    "quiet_change (f (l_rows (rg_lineages g) ! l)) (l_rows (rg_lineages g) ! l)"
  shows "registry_good K (upd_lrow (of_nat l) f g) ls pages"
proof -
  note R = registry_inv_row [OF registry_goodD [OF assms(1)] assms(2)]
  obtain d where d: "reused_at_most d g" "d + length ls \<le> unat (rg_nextID g)" using assms(1) by (auto simp: registry_good_def)
  let ?g = "upd_lrow (of_nat l) f g"
  have "map l_generation (l_rows (rg_lineages ?g)) = map l_generation (l_rows (rg_lineages g))"
    using assms(3) R(1,2) by (simp add: upd_lrow_fields map_update quiet_change_def list_update_same_conv)
  then have "reused_at_most d ?g" by (intro reused_at_most_gens [OF d(1)]) (simp add: upd_lrow_fields)
  then show ?thesis
    using quiet_inv [where f = f, OF registry_goodD [OF assms(1)] assms(2,3)] d(2) by (auto simp: registry_good_def upd_lrow_fields)
qed

text \<open>Rewriting an entry with the same computation.\<close>

lemma erow_state:
  assumes st: "registry_state K g ls pages" and e: "l \<in> set ls" "e \<in> set (pages l)"
    and q: "plain_change (f (e_rows (rg_entries g) ! e)) (e_rows (rg_entries g) ! e)"
    "e_runtime (f (e_rows (rg_entries g) ! e)) = e_runtime (e_rows (rg_entries g) ! e)"
  shows "registry_state K (upd_erow (of_nat e) f g) ls pages"
proof -
  note S = registry_stateD [OF st] and B = entry_bounds [OF registry_stateD(2) [OF st] e]
  let ?g = "upd_erow (of_nat e) f g"
  have good: "registry_good K ?g ls pages" by (rule upd_erow_good [where f = f, OF S(1) e q(1)])
  have row: "e_generation (e_rows (rg_entries ?g) ! x) = e_generation (e_rows (rg_entries g) ! x)"
    "e_runtime (e_rows (rg_entries ?g) ! x) = e_runtime (e_rows (rg_entries g) ! x)" for x
    using q B(1,2) by (cases "x = e"; simp add: upd_erow_fields plain_change_def)+
  have "work_frame g (filter (\<lambda>l. l \<in> set ls) ls) pages ?g"
    unfolding work_frame_def filter_self row by (simp add: upd_erow_fields)
  then have "comps_ok ?g ls pages" by (rule comps_ok_frame [OF S(3,2) registry_goodD [OF good]]) auto
  then show ?thesis using good by (simp add: registry_state_def)
qed

section \<open>Pinning and unpinning\<close>

lemma comps_okD:
  assumes "comps_ok g ls pages"
  shows "\<And>c. c < length (rg_comps g) \<Longrightarrow> \<not> co_finished (rg_comps g ! c) \<Longrightarrow>
      \<exists>l \<in> set ls. \<exists>e \<in> set (pages l). co_entry (rg_comps g ! c) = entry_ref g (of_nat e) \<and>
        co_lineage (rg_comps g ! c) = lineage_ref g (of_nat l) \<and> e_runtime (e_rows (rg_entries g) ! e) = Some c \<and>
        co_root (rg_comps g ! c) = l_root (l_rows (rg_lineages g) ! l)"
    "\<And>l e c. l \<in> set ls \<Longrightarrow> e \<in> set (pages l) \<Longrightarrow> e_runtime (e_rows (rg_entries g) ! e) = Some c \<Longrightarrow>
      c < length (rg_comps g) \<and> \<not> co_finished (rg_comps g ! c) \<and> co_entry (rg_comps g ! c) = entry_ref g (of_nat e)"
    "\<And>l. l \<in> set ls \<Longrightarrow> unat (l_pins (l_rows (rg_lineages g) ! l)) =
      card {e \<in> set (pages l). e_runtime (e_rows (rg_entries g) ! e) \<noteq> None}"
  using assms unfolding comps_ok_def by blast+

text \<open>The entry \<open>e\<close> gets the computation \<open>r\<close>, its lineage the pin count \<open>k\<close>, and the computations become \<open>cs\<close>.\<close>

definition repin :: "nat \<Rightarrow> nat \<Rightarrow> nat option \<Rightarrow> uint32 \<Rightarrow> computation list \<Rightarrow> registry \<Rightarrow> registry" where
  "repin l e r k cs g = (upd_lrow (of_nat l) (\<lambda>x. x\<lparr>l_pins := k\<rparr>) (upd_erow (of_nat e) (\<lambda>x. x\<lparr>e_runtime := r\<rparr>) g))\<lparr>rg_comps := cs\<rparr>"

lemma repin_good:
  assumes "registry_good K g ls pages" "l \<in> set ls" "e \<in> set (pages l)"
  shows "registry_good K (repin l e r k cs g) ls pages"
proof -
  have 1: "registry_good K (upd_erow (of_nat e) (\<lambda>x. x\<lparr>e_runtime := r\<rparr>) g) ls pages"
    by (rule upd_erow_good [OF assms]) (simp add: plain_change_def)
  have "registry_good K (upd_lrow (of_nat l) (\<lambda>x. x\<lparr>l_pins := k\<rparr>) (upd_erow (of_nat e) (\<lambda>x. x\<lparr>e_runtime := r\<rparr>) g)) ls pages"
    by (rule upd_lrow_good [OF 1 assms(2)]) (simp add: quiet_change_def)
  then show ?thesis by (simp add: repin_def registry_good_comps)
qed

lemma repin_rows:
  assumes "registry_inv K g ls pages" "l \<in> set ls" "e \<in> set (pages l)"
  shows "rg_comps (repin l e r k cs g) = cs"
    "e_runtime (e_rows (rg_entries (repin l e r k cs g)) ! x) = (if x = e then r else e_runtime (e_rows (rg_entries g) ! x))"
    "entry_ref (repin l e r k cs g) i = entry_ref g i" "lineage_ref (repin l e r k cs g) i = lineage_ref g i"
    "l_pins (l_rows (rg_lineages (repin l e r k cs g)) ! y) = (if y = l then k else l_pins (l_rows (rg_lineages g) ! y))"
    "l_root (l_rows (rg_lineages (repin l e r k cs g)) ! y) = l_root (l_rows (rg_lineages g) ! y)"
proof -
  note B = entry_bounds [OF assms] and R = registry_inv_row [OF assms(1,2)]
  let ?g = "repin l e r k cs g"
  have er: "e_rows (rg_entries ?g) = (e_rows (rg_entries g))[e := (e_rows (rg_entries g) ! e)\<lparr>e_runtime := r\<rparr>]"
    using B(2) by (simp add: repin_def upd_lrow_fields upd_erow_fields)
  have lr: "l_rows (rg_lineages ?g) = (l_rows (rg_lineages g))[l := (l_rows (rg_lineages g) ! l)\<lparr>l_pins := k\<rparr>]"
    using R(2) by (simp add: repin_def upd_lrow_fields upd_erow_fields)
  show "rg_comps ?g = cs" by (simp add: repin_def)
  show "e_runtime (e_rows (rg_entries ?g) ! x) = (if x = e then r else e_runtime (e_rows (rg_entries g) ! x))"
    using B(1) by (simp add: er)
  show "entry_ref ?g i = entry_ref g i" using B(1) by (simp add: entry_ref_def er nth_list_update)
  show "lineage_ref ?g i = lineage_ref g i" using R(1) by (simp add: lineage_ref_def lr nth_list_update)
  show "l_pins (l_rows (rg_lineages ?g) ! y) = (if y = l then k else l_pins (l_rows (rg_lineages g) ! y))"
    "l_root (l_rows (rg_lineages ?g) ! y) = l_root (l_rows (rg_lineages g) ! y)"
    using R(1) by (simp_all add: lr nth_list_update)
qed

lemma unpin_state:
  assumes st: "registry_state K g ls pages" and c: "c < length (rg_comps g)"
    and le: "l \<in> set ls" "e \<in> set (pages l)" "e_runtime (e_rows (rg_entries g) ! e) = Some c"
    and cs: "length cs = length (rg_comps g)" "\<And>d. d < length (rg_comps g) \<Longrightarrow> d \<noteq> c \<Longrightarrow> cs ! d = rg_comps g ! d" "co_finished (cs ! c)"
  shows "registry_state K (repin l e None (l_pins (l_rows (rg_lineages g) ! l) - 1) cs g) ls pages"
    "l_pins (l_rows (rg_lineages g) ! l) \<noteq> 0"
proof -
  note S = registry_stateD [OF st]
  note C = comps_okD [OF S(3)] and D = registry_invD [OF S(2)]
  let ?k = "l_pins (l_rows (rg_lineages g) ! l) - 1"
  let ?g = "repin l e None ?k cs g"
  note G = repin_rows [OF S(2) le(1,2), of None ?k cs]
  have uniq: "x = e \<and> y = l" if "y \<in> set ls" "x \<in> set (pages y)" "e_runtime (e_rows (rg_entries g) ! x) = Some c" for x y
  proof -
    have "entry_ref g (of_nat x) = entry_ref g (of_nat e)" using C(2) [OF that] C(2) [OF le] by simp
    then have "(of_nat x :: arenaRef) = of_nat e" by (simp add: entry_ref_def)
    then have "x = e" using entry_bounds(2) [OF S(2) that(1,2)] entry_bounds(2) [OF S(2) le(1,2)] by metis
    then have "e \<in> set (pages y)" using that(2) by simp
    then have "y = l" using pages_disjoint [OF S(2) that(1) le(1)] le(2) by blast
    then show ?thesis using \<open>x = e\<close> by blast
  qed
  let ?A = "\<lambda>y. {x \<in> set (pages y). e_runtime (e_rows (rg_entries g) ! x) \<noteq> None}"
  have fin: "finite (?A y)" for y by simp
  have el: "e \<in> ?A l" using le by simp
  then have pos: "0 < card (?A l)" using fin card_gt_0_iff by blast
  then show nz: "l_pins (l_rows (rg_lineages g) ! l) \<noteq> 0" using C(3) [OF le(1)] by (metis less_irrefl unat_0)
  have "comps_ok ?g ls pages"
    unfolding comps_ok_def G cs(1)
  proof (intro conjI allI ballI impI)
    fix d
    assume d: "d < length (rg_comps g)" "\<not> co_finished (cs ! d)"
    then have dc: "d \<noteq> c" using cs(3) by auto
    then have same: "cs ! d = rg_comps g ! d" using cs(2) d(1) by blast
    obtain y x where "y \<in> set ls" "x \<in> set (pages y)" "co_entry (rg_comps g ! d) = entry_ref g (of_nat x)"
      "co_lineage (rg_comps g ! d) = lineage_ref g (of_nat y)" "e_runtime (e_rows (rg_entries g) ! x) = Some d"
      "co_root (rg_comps g ! d) = l_root (l_rows (rg_lineages g) ! y)"
      using C(1) [OF d(1)] d(2) same by auto
    moreover from this have "x \<noteq> e" using le(3) dc by auto
    ultimately show "\<exists>l \<in> set ls. \<exists>x \<in> set (pages l). co_entry (cs ! d) = entry_ref g (of_nat x) \<and>
        co_lineage (cs ! d) = lineage_ref g (of_nat l) \<and> (if x = e then None else e_runtime (e_rows (rg_entries g) ! x)) = Some d \<and>
        co_root (cs ! d) = l_root (l_rows (rg_lineages g) ! l)"
      unfolding same by (intro bexI [of _ y] bexI [of _ x]) simp_all
  next
    fix y x d
    assume y: "y \<in> set ls" "x \<in> set (pages y)" and r: "(if x = e then None else e_runtime (e_rows (rg_entries g) ! x)) = Some d"
    then have x: "x \<noteq> e" "e_runtime (e_rows (rg_entries g) ! x) = Some d" by (auto split: if_splits)
    note o = C(2) [OF y x(2)]
    have "d \<noteq> c" using uniq [OF y] x by auto
    then show "d < length (rg_comps g)" "\<not> co_finished (cs ! d)" "co_entry (cs ! d) = entry_ref g (of_nat x)"
      using o cs(2) by simp_all
  next
    fix y
    assume y: "y \<in> set ls"
    show "unat (if y = l then ?k else l_pins (l_rows (rg_lineages g) ! y)) =
        card {x \<in> set (pages y). (if x = e then None else e_runtime (e_rows (rg_entries g) ! x)) \<noteq> None}"
    proof (cases "y = l")
      case True
      have "{x \<in> set (pages l). (if x = e then None else e_runtime (e_rows (rg_entries g) ! x)) \<noteq> None} = ?A l - {e}"
        by auto
      moreover have "card (?A l - {e}) = card (?A l) - 1" using el by simp
      moreover have "unat ?k = unat (l_pins (l_rows (rg_lineages g) ! l)) - 1" using nz by (simp add: unat_minus_one)
      ultimately show ?thesis using True C(3) [OF le(1)] by simp
    next
      case False
      have "e \<notin> set (pages y)" using pages_disjoint [OF S(2) y le(1) False] le(2) by blast
      then have "{x \<in> set (pages y). (if x = e then None else e_runtime (e_rows (rg_entries g) ! x)) \<noteq> None} = ?A y" by auto
      then show ?thesis using False C(3) [OF y] by simp
    qed
  qed
  then show "registry_state K ?g ls pages" using repin_good [OF S(1) le(1,2)] by (simp add: registry_state_def)
qed

lemma pin_state:
  assumes st: "registry_state K g ls pages" and le: "l \<in> set ls" "e \<in> set (pages l)" "e_runtime (e_rows (rg_entries g) ! e) = None"
    and co: "co_entry co = entry_ref g (of_nat e)" "co_lineage co = lineage_ref g (of_nat l)" "\<not> co_finished co"
      "co_root co = l_root (l_rows (rg_lineages g) ! l)"
  shows "registry_state K (repin l e (Some (length (rg_comps g))) (l_pins (l_rows (rg_lineages g) ! l) + 1) (rg_comps g @ [co]) g) ls pages"
proof -
  note S = registry_stateD [OF st]
  note C = comps_okD [OF S(3)] and D = registry_invD [OF S(2)]
  let ?c = "length (rg_comps g)" and ?k = "l_pins (l_rows (rg_lineages g) ! l) + 1"
  let ?g = "repin l e (Some ?c) ?k (rg_comps g @ [co]) g"
  note G = repin_rows [OF S(2) le(1,2), of "Some ?c" ?k "rg_comps g @ [co]"]
  let ?A = "\<lambda>y. {x \<in> set (pages y). e_runtime (e_rows (rg_entries g) ! x) \<noteq> None}"
  have "card (?A l) \<le> card (set (pages l))" by (rule card_mono) auto
  then have "card (?A l) \<le> length (pages l)" using card_length le_trans by blast
  then have "unat (l_pins (l_rows (rg_lineages g) ! l)) < 4294967295"
    using C(3) [OF le(1)] registry_inv_row(5) [OF S(2) le(1)] sizes_okD(1) [OF S(2)] by simp
  then have uk: "unat ?k = Suc (unat (l_pins (l_rows (rg_lineages g) ! l)))" by (simp add: unat_word_ariths)
  have "comps_ok ?g ls pages"
    unfolding comps_ok_def G
  proof (intro conjI allI ballI impI)
    fix d
    assume d: "d < length (rg_comps g @ [co])" "\<not> co_finished ((rg_comps g @ [co]) ! d)"
    show "\<exists>l \<in> set ls. \<exists>x \<in> set (pages l). co_entry ((rg_comps g @ [co]) ! d) = entry_ref g (of_nat x) \<and>
        co_lineage ((rg_comps g @ [co]) ! d) = lineage_ref g (of_nat l) \<and>
        (if x = e then Some ?c else e_runtime (e_rows (rg_entries g) ! x)) = Some d \<and>
        co_root ((rg_comps g @ [co]) ! d) = l_root (l_rows (rg_lineages g) ! l)"
    proof (cases "d = ?c")
      case True
      then show ?thesis using le co by (intro bexI [of _ l] bexI [of _ e]) simp_all
    next
      case False
      then have d': "d < ?c" "(rg_comps g @ [co]) ! d = rg_comps g ! d" using d(1) by (simp_all add: nth_append)
      obtain y x where "y \<in> set ls" "x \<in> set (pages y)" "co_entry (rg_comps g ! d) = entry_ref g (of_nat x)"
        "co_lineage (rg_comps g ! d) = lineage_ref g (of_nat y)" "e_runtime (e_rows (rg_entries g) ! x) = Some d"
        "co_root (rg_comps g ! d) = l_root (l_rows (rg_lineages g) ! y)"
        using C(1) [OF d'(1)] d(2) d'(2) by auto
      moreover from this have "x \<noteq> e" using le(3) by auto
      ultimately show ?thesis unfolding d'(2) by (intro bexI [of _ y] bexI [of _ x]) simp_all
    qed
  next
    fix y x d
    assume y: "y \<in> set ls" "x \<in> set (pages y)" and r: "(if x = e then Some ?c else e_runtime (e_rows (rg_entries g) ! x)) = Some d"
    have "d < Suc ?c \<and> \<not> co_finished ((rg_comps g @ [co]) ! d) \<and> co_entry ((rg_comps g @ [co]) ! d) = entry_ref g (of_nat x)"
    proof (cases "x = e")
      case True
      then have "d = ?c" using r by simp
      then show ?thesis using True co nth_append_length [of "rg_comps g" co "[]"] by simp
    next
      case False
      then have "e_runtime (e_rows (rg_entries g) ! x) = Some d" using r by simp
      note o = C(2) [OF y this]
      then show ?thesis by (simp add: nth_append)
    qed
    then show "d < length (rg_comps g @ [co])" "\<not> co_finished ((rg_comps g @ [co]) ! d)"
      "co_entry ((rg_comps g @ [co]) ! d) = entry_ref g (of_nat x)" by simp_all
  next
    fix y
    assume y: "y \<in> set ls"
    show "unat (if y = l then ?k else l_pins (l_rows (rg_lineages g) ! y)) =
        card {x \<in> set (pages y). (if x = e then Some ?c else e_runtime (e_rows (rg_entries g) ! x)) \<noteq> None}"
    proof (cases "y = l")
      case True
      have "{x \<in> set (pages l). (if x = e then Some ?c else e_runtime (e_rows (rg_entries g) ! x)) \<noteq> None} = insert e (?A l)"
        using le(2) by auto
      moreover have "card (insert e (?A l)) = Suc (card (?A l))" using le(3) by (intro card_insert_disjoint) auto
      ultimately show ?thesis using True C(3) [OF le(1)] uk by simp
    next
      case False
      have "e \<notin> set (pages y)" using pages_disjoint [OF S(2) y le(1) False] le(2) by blast
      then have "{x \<in> set (pages y). (if x = e then Some ?c else e_runtime (e_rows (rg_entries g) ! x)) \<noteq> None} = ?A y" by auto
      then show ?thesis using False C(3) [OF y] by simp
    qed
  qed
  then show ?thesis using repin_good [OF S(1) le(1,2)] by (simp add: registry_state_def)
qed

end
