(* ===== verification/CursorCalls.thy ===== *)
theory CursorCalls
  imports CursorWorld
begin

text \<open>
  The bookkeeping of the calls: which of them are still to be answered, and which work leases are still out.
  While an operation runs, the calls of \<open>pend\<close> are detached but not yet answered and those of \<open>owed\<close> have work
  that is not yet handed back.
\<close>

section \<open>Answers and returns\<close>

fun answers_call :: "nat \<Rightarrow> effect \<Rightarrow> bool" where
  "answers_call n (Deliver m res) = (m = n)"
| "answers_call n (CloseWithoutResponse m) = (m = n)"
| "answers_call n (WorkReturned m) = False"

fun returns_work :: "nat \<Rightarrow> effect \<Rightarrow> bool" where
  "returns_work n (WorkReturned m) = (m = n)"
| "returns_work n e = False"

fun call_of :: "effect \<Rightarrow> nat" where
  "call_of (Deliver m res) = m"
| "call_of (CloseWithoutResponse m) = m"
| "call_of (WorkReturned m) = m"

definition answers :: "nat \<Rightarrow> effect list \<Rightarrow> nat" where
  "answers n tr = length (filter (answers_call n) tr)"

definition returns :: "nat \<Rightarrow> effect list \<Rightarrow> nat" where
  "returns n tr = length (filter (returns_work n) tr)"

lemma answers_append [simp]: "answers n (xs @ ys) = answers n xs + answers n ys"
  by (simp add: answers_def)

lemma returns_append [simp]: "returns n (xs @ ys) = returns n xs + returns n ys"
  by (simp add: returns_def)

lemma answers_Cons [simp]: "answers n (e # es) = (if answers_call n e then 1 else 0) + answers n es" "answers n [] = 0"
  by (simp_all add: answers_def)

lemma returns_Cons [simp]: "returns n (e # es) = (if returns_work n e then 1 else 0) + returns n es" "returns n [] = 0"
  by (simp_all add: returns_def)

lemma answers_other: "(\<And>e. e \<in> set tr \<Longrightarrow> call_of e \<noteq> n) \<Longrightarrow> answers n tr = 0 \<and> returns n tr = 0"
proof (induction tr)
  case (Cons e tr)
  have "\<not> answers_call n e \<and> \<not> returns_work n e" using Cons.prems [of e] by (cases e) auto
  then show ?case using Cons by simp
qed simp

section \<open>The invariant of the calls\<close>

definition comp_ok :: "waiter_node list \<Rightarrow> nat \<Rightarrow> computation \<Rightarrow> bool" where
  "comp_ok nodes c co \<longleftrightarrow> distinct (co_waiters co) \<and> (co_finished co \<longrightarrow> co_waiters co = []) \<and>
    co_starter co < length nodes \<and> wn_comp (nodes ! co_starter co) = Some c \<and> \<not> wn_lease (nodes ! co_starter co) \<and>
    (\<forall>n \<in> set (co_waiters co). n < length nodes \<and> wn_attached (nodes ! n) \<and> wn_comp (nodes ! n) = Some c)"

definition working :: "computation list \<Rightarrow> nat \<Rightarrow> bool" where
  "working cs n \<longleftrightarrow> (\<exists>c < length cs. \<not> co_finished (cs ! c) \<and> co_starter (cs ! c) = n)"

definition node_ok :: "computation list \<Rightarrow> effect list \<Rightarrow> nat set \<Rightarrow> nat set \<Rightarrow> nat \<Rightarrow> waiter_node \<Rightarrow> bool" where
  "node_ok cs tr pend owed n nd \<longleftrightarrow>
    (\<forall>c. wn_comp nd = Some c \<longrightarrow> c < length cs) \<and>
    (wn_attached nd \<longrightarrow> n \<notin> pend \<and> (\<exists>c < length cs. wn_comp nd = Some c \<and> n \<in> set (co_waiters (cs ! c)))) \<and>
    answers n tr = (if wn_attached nd \<or> n \<in> pend then 0 else 1) \<and>
    returns n tr = (if (wn_attached nd \<or> n \<in> pend) \<and> wn_lease nd \<or> working cs n \<or> n \<in> owed then 0 else 1)"

definition calls_ok :: "world \<Rightarrow> nat set \<Rightarrow> nat set \<Rightarrow> bool" where
  "calls_ok w pend owed \<longleftrightarrow>
    (\<forall>c < length (rg_comps (cw_reg w)). comp_ok (cw_nodes w) c (comp_of w c)) \<and>
    (\<forall>n < length (cw_nodes w). node_ok (rg_comps (cw_reg w)) (cw_log w) pend owed n (cw_nodes w ! n)) \<and>
    (\<forall>e \<in> set (cw_log w). call_of e < length (cw_nodes w)) \<and>
    (\<forall>n \<in> owed. n < length (cw_nodes w) \<and> \<not> wn_lease (cw_nodes w ! n) \<and> \<not> working (rg_comps (cw_reg w)) n)"

lemma calls_okD:
  assumes "calls_ok w pend owed"
  shows "\<And>c. c < length (rg_comps (cw_reg w)) \<Longrightarrow> comp_ok (cw_nodes w) c (comp_of w c)"
    "\<And>n. n < length (cw_nodes w) \<Longrightarrow> node_ok (rg_comps (cw_reg w)) (cw_log w) pend owed n (cw_nodes w ! n)"
    "\<And>e. e \<in> set (cw_log w) \<Longrightarrow> call_of e < length (cw_nodes w)"
    "\<And>n. n \<in> owed \<Longrightarrow> n < length (cw_nodes w) \<and> \<not> wn_lease (cw_nodes w ! n) \<and> \<not> working (rg_comps (cw_reg w)) n"
  using assms unfolding calls_ok_def by blast+

text \<open>Only the waiters, the starters and the ends of the computations matter.\<close>

definition same_calls :: "computation list \<Rightarrow> computation list \<Rightarrow> bool" where
  "same_calls cs ds \<longleftrightarrow> length cs = length ds \<and> (\<forall>c < length ds. co_waiters (cs ! c) = co_waiters (ds ! c) \<and>
    co_starter (cs ! c) = co_starter (ds ! c) \<and> co_finished (cs ! c) = co_finished (ds ! c))"

lemma same_work_calls: "same_work cs ds \<Longrightarrow> same_calls cs ds"
  by (simp add: same_calls_def same_work_len same_work_nth)

lemma working_cong: "same_calls cs ds \<Longrightarrow> working cs n = working ds n"
  by (auto simp: working_def same_calls_def)

lemma calls_ok_cong:
  assumes "calls_ok w pend owed" "same_calls (rg_comps (cw_reg w')) (rg_comps (cw_reg w))" "cw_nodes w' = cw_nodes w" "cw_log w' = cw_log w"
  shows "calls_ok w' pend owed"
proof -
  note C = calls_okD [OF assms(1)] and S = assms(2) [unfolded same_calls_def]
  have len: "length (rg_comps (cw_reg w')) = length (rg_comps (cw_reg w))" using S by blast
  have wk: "working (rg_comps (cw_reg w')) n = working (rg_comps (cw_reg w)) n" for n by (rule working_cong [OF assms(2)])
  have nd: "node_ok (rg_comps (cw_reg w')) tr pend owed n nd = node_ok (rg_comps (cw_reg w)) tr pend owed n nd" for tr n nd
    unfolding node_ok_def wk len using S by auto
  show ?thesis
    unfolding calls_ok_def assms(3,4) len wk nd
  proof (intro conjI allI ballI impI)
    fix c
    assume c: "c < length (rg_comps (cw_reg w))"
    show "comp_ok (cw_nodes w) c (comp_of w' c)" using C(1) [OF c] S c by (simp add: comp_ok_def)
  qed (use C in blast)+
qed

section \<open>Steps of the bookkeeping\<close>

lemma upd_node_simps [simp]:
  "cw_reg (upd_node n f w) = cw_reg w" "cw_log (upd_node n f w) = cw_log w" "length (cw_nodes (upd_node n f w)) = length (cw_nodes w)"
  by (simp_all add: upd_node_def)

lemma emit_simps [simp]:
  "cw_reg (emit es w) = cw_reg w" "cw_nodes (emit es w) = cw_nodes w" "cw_log (emit es w) = cw_log w @ es"
  by (simp_all add: emit_def)

lemma upd_comp_simps [simp]:
  "cw_nodes (upd_comp c f w) = cw_nodes w" "cw_log (upd_comp c f w) = cw_log w"
  "rg_comps (cw_reg (upd_comp c f w)) = (rg_comps (cw_reg w))[c := f (comp_of w c)]"
  by (simp_all add: upd_comp_def)

lemma upd_reg_simps [simp]:
  "cw_nodes (upd_reg f w) = cw_nodes w" "cw_log (upd_reg f w) = cw_log w" "cw_reg (upd_reg f w) = f (cw_reg w)"
  by (simp_all add: upd_reg_def)

lemma closeWaiterDone_node:
  "wn_comp (cw_nodes (closeWaiterDone n w) ! m) = wn_comp (cw_nodes w ! m)"
  "wn_attached (cw_nodes (closeWaiterDone n w) ! m) = wn_attached (cw_nodes w ! m)"
  "wn_lease (cw_nodes (closeWaiterDone n w) ! m) = wn_lease (cw_nodes w ! m)"
  "cw_reg (closeWaiterDone n w) = cw_reg w" "cw_log (closeWaiterDone n w) = cw_log w"
  "length (cw_nodes (closeWaiterDone n w)) = length (cw_nodes w)"
  by (cases "n < length (cw_nodes w)"; simp add: closeWaiterDone_def upd_node_def nth_list_update list_update_beyond)+

lemma calls_ok_nodes:
  assumes "calls_ok w pend owed" "cw_reg w' = cw_reg w" "cw_log w' = cw_log w" "length (cw_nodes w') = length (cw_nodes w)"
    "\<And>m. wn_comp (cw_nodes w' ! m) = wn_comp (cw_nodes w ! m)"
    "\<And>m. wn_attached (cw_nodes w' ! m) = wn_attached (cw_nodes w ! m)"
    "\<And>m. wn_lease (cw_nodes w' ! m) = wn_lease (cw_nodes w ! m)"
  shows "calls_ok w' pend owed"
proof -
  note C = calls_okD [OF assms(1)]
  show ?thesis
    unfolding calls_ok_def assms(2,3,4)
  proof (intro conjI allI ballI impI)
    fix c
    assume "c < length (rg_comps (cw_reg w))"
    then show "comp_ok (cw_nodes w') c (comp_of w c)" using C(1) [of c] unfolding comp_ok_def assms(4,5,6,7) by blast
  next
    fix n
    assume "n < length (cw_nodes w)"
    then show "node_ok (rg_comps (cw_reg w)) (cw_log w) pend owed n (cw_nodes w' ! n)"
      using C(2) [of n] unfolding node_ok_def assms(5,6,7) by blast
  next
    fix n
    assume "n \<in> owed"
    then show "n < length (cw_nodes w)" "\<not> wn_lease (cw_nodes w' ! n)" "\<not> working (rg_comps (cw_reg w)) n"
      using C(4) [of n] assms(7) [of n] by blast+
  qed (use C in blast)+
qed

lemma closeWaiterDone_calls: "calls_ok w pend owed \<Longrightarrow> calls_ok (closeWaiterDone n w) pend owed"
  by (erule calls_ok_nodes) (simp_all add: closeWaiterDone_node)

text \<open>A detached call is answered.\<close>

lemma answer_calls:
  assumes "calls_ok w pend owed" "n \<in> pend" "n < length (cw_nodes w)" "answers_call n e" "\<not> wn_lease (cw_nodes w ! n)"
  shows "calls_ok (emit [e] w) (pend - {n}) owed"
proof -
  note C = calls_okD [OF assms(1)]
  have e: "call_of e = n" "\<not> returns_work m e" "answers_call m e \<longleftrightarrow> m = n" for m using assms(4) by (cases e; auto)+
  have na: "\<not> wn_attached (cw_nodes w ! n)" using C(2) [OF assms(3)] assms(2) by (auto simp: node_ok_def)
  show ?thesis
    unfolding calls_ok_def emit_simps
  proof (intro conjI allI ballI impI)
    fix m
    assume "m < length (cw_nodes w)"
    then show "node_ok (rg_comps (cw_reg w)) (cw_log w @ [e]) (pend - {n}) owed m (cw_nodes w ! m)"
      using C(2) [of m] e na assms(2,5) by (cases "m = n") (auto simp: node_ok_def)
  qed (use C e assms(3) in auto)
qed

lemma answer_lease_calls:
  assumes "calls_ok w pend owed" "n \<in> pend" "n < length (cw_nodes w)" "answers_call n e" "wn_lease (cw_nodes w ! n)"
  shows "calls_ok (emit [WorkReturned n] (upd_node n (\<lambda>nd. nd\<lparr>wn_lease := False\<rparr>) (emit [e] w))) (pend - {n}) owed"
proof -
  note C = calls_okD [OF assms(1)]
  have e: "call_of e = n" "\<not> returns_work m e" "answers_call m e \<longleftrightarrow> m = n" for m using assms(4) by (cases e; auto)+
  have na: "\<not> wn_attached (cw_nodes w ! n)" using C(2) [OF assms(3)] assms(2) by (auto simp: node_ok_def)
  have no: "n \<notin> owed" using C(4) assms(5) by blast
  have nw: "\<not> working (rg_comps (cw_reg w)) n"
    using C(1) assms(5) unfolding working_def comp_ok_def by blast
  have nodes: "cw_nodes (upd_node n (\<lambda>nd. nd\<lparr>wn_lease := False\<rparr>) w) ! m =
      (if m = n then (cw_nodes w ! n)\<lparr>wn_lease := False\<rparr> else cw_nodes w ! m)" for m
    using assms(3) by (simp add: upd_node_def)
  have nodes': "cw_nodes (upd_node n f (emit [e] w)) = cw_nodes (upd_node n f w)" for f by (simp add: upd_node_def)
  show ?thesis
    unfolding calls_ok_def emit_simps upd_node_simps nodes'
  proof (intro conjI allI ballI impI)
    fix c
    assume c: "c < length (rg_comps (cw_reg w))"
    show "comp_ok (cw_nodes (upd_node n (\<lambda>nd. nd\<lparr>wn_lease := False\<rparr>) w)) c (comp_of w c)"
      using C(1) [OF c] by (auto simp: comp_ok_def nodes)
  next
    fix m
    assume "m < length (cw_nodes w)"
    then show "node_ok (rg_comps (cw_reg w)) ((cw_log w @ [e]) @ [WorkReturned n]) (pend - {n}) owed m
        (cw_nodes (upd_node n (\<lambda>nd. nd\<lparr>wn_lease := False\<rparr>) w) ! m)"
      using C(2) [of m] e na no nw assms(2,5) by (cases "m = n") (auto simp: node_ok_def nodes)
  next
    fix m
    assume "m \<in> owed"
    then show "m < length (cw_nodes w)" "\<not> wn_lease (cw_nodes (upd_node n (\<lambda>nd. nd\<lparr>wn_lease := False\<rparr>) w) ! m)"
      "\<not> working (rg_comps (cw_reg w)) m"
      using C(4) [of m] by (auto simp: nodes)
  qed (use C e assms(3) in auto)
qed

lemma deliverWaiters_calls:
  assumes "calls_ok w pend owed" "set ns \<subseteq> pend" "distinct ns" "\<And>n. n \<in> set ns \<Longrightarrow> n < length (cw_nodes w)"
  shows "calls_ok (deliverWaiters cancelled ns res deliver w) (pend - set ns) owed \<and>
    cw_reg (deliverWaiters cancelled ns res deliver w) = cw_reg w \<and>
    length (cw_nodes (deliverWaiters cancelled ns res deliver w)) = length (cw_nodes w)"
  using assms
proof (induction ns arbitrary: w pend)
  case (Cons n ns)
  define e where "e = (if deliver \<and> \<not> cancelled n then Deliver n res else CloseWithoutResponse n)"
  define w2 where "w2 = (if wn_lease (cw_nodes (emit [e] w) ! n)
    then emit [WorkReturned n] (upd_node n (\<lambda>nd. nd\<lparr>wn_lease := False\<rparr>) (emit [e] w)) else emit [e] w)"
  have run: "deliverWaiters cancelled (n # ns) res deliver w = deliverWaiters cancelled ns res deliver w2"
    by (simp add: w2_def e_def Let_def)
  have n: "n \<in> pend" "n < length (cw_nodes w)" "answers_call n e" using Cons.prems(2,4) by (simp_all add: e_def)
  have ok: "calls_ok w2 (pend - {n}) owed"
    unfolding w2_def using answer_calls [OF Cons.prems(1) n] answer_lease_calls [OF Cons.prems(1) n] by simp
  have len: "length (cw_nodes w2) = length (cw_nodes w)" "cw_reg w2 = cw_reg w" by (simp_all add: w2_def)
  have sub: "set ns \<subseteq> pend - {n}" "distinct ns" "\<And>m. m \<in> set ns \<Longrightarrow> m < length (cw_nodes w2)"
    using Cons.prems(2-4) len by auto
  have eq: "pend - set (n # ns) = pend - {n} - set ns" by auto
  show "calls_ok (deliverWaiters cancelled (n # ns) res deliver w) (pend - set (n # ns)) owed \<and>
    cw_reg (deliverWaiters cancelled (n # ns) res deliver w) = cw_reg w \<and>
    length (cw_nodes (deliverWaiters cancelled (n # ns) res deliver w)) = length (cw_nodes w)"
    unfolding run eq using Cons.IH [OF ok sub] len by simp
qed simp

text \<open>The work of a finished computation is handed back.\<close>

lemma return_owed_calls:
  assumes "calls_ok w pend owed" "n \<in> owed" "n \<notin> pend"
  shows "calls_ok (emit [WorkReturned n] w) pend (owed - {n})"
proof -
  note C = calls_okD [OF assms(1)]
  show ?thesis
    unfolding calls_ok_def emit_simps
  proof (intro conjI allI ballI impI)
    fix m
    assume "m < length (cw_nodes w)"
    then show "node_ok (rg_comps (cw_reg w)) (cw_log w @ [WorkReturned n]) pend (owed - {n}) m (cw_nodes w ! m)"
      using C(2) [of m] C(4) [OF assms(2)] assms(2,3) by (cases "m = n") (auto simp: node_ok_def)
  qed (use C assms(2) in auto)
qed

text \<open>Some waiters of a computation are detached.\<close>

lemma detach_calls:
  assumes ok: "calls_ok w pend owed" and c: "c < length (rg_comps (cw_reg w))" and N: "N \<subseteq> set (co_waiters (comp_of w c))"
    and cs: "rg_comps (cw_reg w') = (rg_comps (cw_reg w))[c := co]" "co_waiters co = rest" "distinct rest"
      "set rest = set (co_waiters (comp_of w c)) - N" "co_starter co = co_starter (comp_of w c)"
      "co_finished co = co_finished (comp_of w c)"
    and nd: "length (cw_nodes w') = length (cw_nodes w)" "\<And>m. wn_comp (cw_nodes w' ! m) = wn_comp (cw_nodes w ! m)"
      "\<And>m. m < length (cw_nodes w) \<Longrightarrow> wn_attached (cw_nodes w' ! m) = (m \<notin> N \<and> wn_attached (cw_nodes w ! m))"
      "\<And>m. wn_lease (cw_nodes w' ! m) = wn_lease (cw_nodes w ! m)"
    and tr: "cw_log w' = cw_log w"
  shows "calls_ok w' (pend \<union> N) owed"
proof -
  note C = calls_okD [OF ok]
  note cc = C(1) [OF c, unfolded comp_ok_def]
  have len: "length (rg_comps (cw_reg w')) = length (rg_comps (cw_reg w))" by (simp add: cs)
  have comp: "co_starter (comp_of w' d) = co_starter (comp_of w d)" "co_finished (comp_of w' d) = co_finished (comp_of w d)" for d
    using c cs by (cases "d = c"; simp)+
  have wt: "set (co_waiters (comp_of w' d)) = set (co_waiters (comp_of w d)) - N" "distinct (co_waiters (comp_of w' d))"
    if d: "d < length (rg_comps (cw_reg w))" for d
  proof -
    have "set (co_waiters (comp_of w' d)) = set (co_waiters (comp_of w d)) - N \<and> distinct (co_waiters (comp_of w' d))"
    proof (cases "d = c")
      case True
      then show ?thesis using c cs by simp
    next
      case False
      have "n \<notin> N" if n: "n \<in> set (co_waiters (comp_of w d))" for n
      proof
        assume "n \<in> N"
        then have "wn_comp (cw_nodes w ! n) = Some c" using N cc by blast
        moreover have "wn_comp (cw_nodes w ! n) = Some d" using C(1) [OF d] n by (simp add: comp_ok_def)
        ultimately show False using False by simp
      qed
      moreover have "comp_of w' d = comp_of w d" using False by (simp add: cs)
      ultimately show ?thesis using C(1) [OF d] by (auto simp: comp_ok_def)
    qed
    then show "set (co_waiters (comp_of w' d)) = set (co_waiters (comp_of w d)) - N" "distinct (co_waiters (comp_of w' d))" by blast+
  qed
  have wk: "working (rg_comps (cw_reg w')) n = working (rg_comps (cw_reg w)) n" for n by (simp add: working_def len comp)
  show ?thesis
    unfolding calls_ok_def len tr nd(1) wk
  proof (intro conjI allI ballI impI)
    fix d
    assume d: "d < length (rg_comps (cw_reg w))"
    have "co_waiters (comp_of w' d) = []" if "co_finished (comp_of w d)"
    proof -
      have "co_waiters (comp_of w d) = []" using C(1) [OF d] that by (simp add: comp_ok_def)
      then have "set (co_waiters (comp_of w' d)) = {}" using wt(1) [OF d] by simp
      then show ?thesis by simp
    qed
    then show "comp_ok (cw_nodes w') d (comp_of w' d)"
      using C(1) [OF d] wt [OF d] nd unfolding comp_ok_def comp by auto
  next
    fix n
    assume n: "n < length (cw_nodes w)"
    have at: "n \<in> N \<Longrightarrow> wn_attached (cw_nodes w ! n)" using N cc by blast
    note o = C(2) [OF n, unfolded node_ok_def]
    show "node_ok (rg_comps (cw_reg w')) (cw_log w) (pend \<union> N) owed n (cw_nodes w' ! n)"
      unfolding node_ok_def len wk nd(2,4) nd(3) [OF n]
    proof (intro conjI impI)
      show "\<forall>d. wn_comp (cw_nodes w ! n) = Some d \<longrightarrow> d < length (rg_comps (cw_reg w))" using o by blast
      assume a: "n \<notin> N \<and> wn_attached (cw_nodes w ! n)"
      then show "n \<notin> pend \<union> N" using o by blast
      obtain d where d: "d < length (rg_comps (cw_reg w))" "wn_comp (cw_nodes w ! n) = Some d" "n \<in> set (co_waiters (comp_of w d))"
        using o a by blast
      then show "\<exists>d < length (rg_comps (cw_reg w)). wn_comp (cw_nodes w ! n) = Some d \<and> n \<in> set (co_waiters (comp_of w' d))"
        using wt(1) [OF d(1)] a by auto
    next
      show "answers n (cw_log w) = (if n \<notin> N \<and> wn_attached (cw_nodes w ! n) \<or> n \<in> pend \<union> N then 0 else 1)"
        "returns n (cw_log w) = (if (n \<notin> N \<and> wn_attached (cw_nodes w ! n) \<or> n \<in> pend \<union> N) \<and> wn_lease (cw_nodes w ! n) \<or>
          working (rg_comps (cw_reg w)) n \<or> n \<in> owed then 0 else 1)"
        using o at by auto
    qed
  next
    fix n
    assume "n \<in> owed"
    then show "n < length (cw_nodes w)" "\<not> wn_lease (cw_nodes w' ! n)" "\<not> working (rg_comps (cw_reg w)) n"
      using C(4) [of n] nd(4) [of n] by blast+
  qed (use C in blast)
qed

lemma release_nodes_simps:
  "cw_reg (release_nodes ns w) = cw_reg w" "cw_log (release_nodes ns w) = cw_log w"
  "length (cw_nodes (release_nodes ns w)) = length (cw_nodes w)"
  "wn_comp (cw_nodes (release_nodes ns w) ! m) = wn_comp (cw_nodes w ! m)"
  "wn_lease (cw_nodes (release_nodes ns w) ! m) = wn_lease (cw_nodes w ! m)"
  "m < length (cw_nodes w) \<Longrightarrow> wn_attached (cw_nodes (release_nodes ns w) ! m) = (m \<notin> set ns \<and> wn_attached (cw_nodes w ! m))"
proof -
  have node: "wn_comp (cw_nodes (upd_node n (\<lambda>nd. nd\<lparr>wn_attached := False\<rparr>) w) ! m) = wn_comp (cw_nodes w ! m)"
    "wn_lease (cw_nodes (upd_node n (\<lambda>nd. nd\<lparr>wn_attached := False\<rparr>) w) ! m) = wn_lease (cw_nodes w ! m)"
    "m < length (cw_nodes w) \<Longrightarrow> wn_attached (cw_nodes (upd_node n (\<lambda>nd. nd\<lparr>wn_attached := False\<rparr>) w) ! m) =
      (m \<noteq> n \<and> wn_attached (cw_nodes w ! m))" for n m w
    by (cases "n < length (cw_nodes w)"; simp add: upd_node_def nth_list_update list_update_beyond)+
  show "cw_reg (release_nodes ns w) = cw_reg w" "cw_log (release_nodes ns w) = cw_log w"
    "length (cw_nodes (release_nodes ns w)) = length (cw_nodes w)"
    by (induction ns arbitrary: w) (simp_all add: closeWaiterDone_node)
  show "wn_comp (cw_nodes (release_nodes ns w) ! m) = wn_comp (cw_nodes w ! m)"
    "wn_lease (cw_nodes (release_nodes ns w) ! m) = wn_lease (cw_nodes w ! m)"
    by (induction ns arbitrary: w) (simp_all add: closeWaiterDone_node node)
  show "m < length (cw_nodes w) \<Longrightarrow> wn_attached (cw_nodes (release_nodes ns w) ! m) = (m \<notin> set ns \<and> wn_attached (cw_nodes w ! m))"
    by (induction ns arbitrary: w) (auto simp: closeWaiterDone_node node)
qed

lemma detachAll_calls:
  assumes ok: "calls_ok w pend owed" and c: "c < length (rg_comps (cw_reg w))" and d: "detachAll c w = (w', head)"
  shows "calls_ok w' (pend \<union> set head) owed" "distinct head" "\<And>n. n \<in> set head \<Longrightarrow> n < length (cw_nodes w')"
    "cw_reg w' = (cw_reg w)\<lparr>rg_comps := (rg_comps (cw_reg w))[c := (comp_of w c)\<lparr>co_waiters := []\<rparr>]\<rparr>"
    "length (cw_nodes w') = length (cw_nodes w)" "head = co_waiters (comp_of w c)"
proof -
  have head: "head = co_waiters (comp_of w c)" and w': "w' = upd_comp c (\<lambda>co. co\<lparr>co_waiters := []\<rparr>) (release_nodes head w)"
    using d by (auto simp: detachAll_def Let_def)
  then show "head = co_waiters (comp_of w c)" by simp
  note cc = calls_okD(1) [OF ok c, unfolded comp_ok_def]
  show reg: "cw_reg w' = (cw_reg w)\<lparr>rg_comps := (rg_comps (cw_reg w))[c := (comp_of w c)\<lparr>co_waiters := []\<rparr>]\<rparr>"
    by (simp add: w' upd_comp_def release_nodes_simps)
  show len: "length (cw_nodes w') = length (cw_nodes w)" by (simp add: w' release_nodes_simps)
  show "distinct head" using cc head by blast
  show "\<And>n. n \<in> set head \<Longrightarrow> n < length (cw_nodes w')" using cc head len by auto
  show "calls_ok w' (pend \<union> set head) owed"
    by (rule detach_calls [OF ok c, where co = "(comp_of w c)\<lparr>co_waiters := []\<rparr>" and rest = "[]"])
       (simp_all add: reg head w' release_nodes_simps)
qed

lemma detach_one_calls:
  assumes ok: "calls_ok w pend owed" and c: "c < length (rg_comps (cw_reg w))" and n: "n < length (cw_nodes w)"
    and at: "wn_attached (cw_nodes w ! n)" "wn_comp (cw_nodes w ! n) = Some c"
  shows "calls_ok (detach c n w) (insert n pend) owed"
    "cw_reg (detach c n w) = (cw_reg w)\<lparr>rg_comps := (rg_comps (cw_reg w))[c := (comp_of w c)\<lparr>co_waiters := remove1 n (co_waiters (comp_of w c))\<rparr>]\<rparr>"
    "length (cw_nodes (detach c n w)) = length (cw_nodes w)" "n \<in> set (co_waiters (comp_of w c))"
    "wn_lease (cw_nodes (detach c n w) ! m) = wn_lease (cw_nodes w ! m)"
    "wn_comp (cw_nodes (detach c n w) ! m) = wn_comp (cw_nodes w ! m)"
proof -
  have w': "detach c n w = closeWaiterDone n (upd_node n (\<lambda>nd. nd\<lparr>wn_attached := False\<rparr>)
       (upd_comp c (\<lambda>co. co\<lparr>co_waiters := remove1 n (co_waiters co)\<rparr>) w))" using at by (simp add: detach_def)
  have nin: "n \<in> set (co_waiters (comp_of w c))"
    using calls_okD(2) [OF ok n] at by (auto simp: node_ok_def)
  then show "n \<in> set (co_waiters (comp_of w c))" .
  have dist: "distinct (co_waiters (comp_of w c))" using calls_okD(1) [OF ok c] by (simp add: comp_ok_def)
  show reg: "cw_reg (detach c n w) = (cw_reg w)\<lparr>rg_comps := (rg_comps (cw_reg w))[c := (comp_of w c)\<lparr>co_waiters := remove1 n (co_waiters (comp_of w c))\<rparr>]\<rparr>"
    by (simp add: w' closeWaiterDone_node upd_comp_def)
  show len: "length (cw_nodes (detach c n w)) = length (cw_nodes w)" by (simp add: w' closeWaiterDone_node)
  have node: "wn_comp (cw_nodes (upd_node n (\<lambda>nd. nd\<lparr>wn_attached := False\<rparr>) w) ! m) = wn_comp (cw_nodes w ! m)"
    "wn_lease (cw_nodes (upd_node n (\<lambda>nd. nd\<lparr>wn_attached := False\<rparr>) w) ! m) = wn_lease (cw_nodes w ! m)"
    "m < length (cw_nodes w) \<Longrightarrow> wn_attached (cw_nodes (upd_node n (\<lambda>nd. nd\<lparr>wn_attached := False\<rparr>) w) ! m) =
      (m \<notin> {n} \<and> wn_attached (cw_nodes w ! m))" for m
    using n by (simp_all add: upd_node_def nth_list_update)
  have nodes: "cw_nodes (upd_node n f (upd_comp c h w)) = cw_nodes (upd_node n f w)" for f h by (simp add: upd_node_def)
  show "wn_lease (cw_nodes (detach c n w) ! m) = wn_lease (cw_nodes w ! m)"
    "wn_comp (cw_nodes (detach c n w) ! m) = wn_comp (cw_nodes w ! m)"
    by (simp_all add: w' closeWaiterDone_node nodes node)
  have "calls_ok (detach c n w) (pend \<union> {n}) owed"
    by (rule detach_calls [OF ok c, where co = "(comp_of w c)\<lparr>co_waiters := remove1 n (co_waiters (comp_of w c))\<rparr>"
          and rest = "remove1 n (co_waiters (comp_of w c))"])
       (use nin dist in \<open>simp_all add: reg len w' closeWaiterDone_node nodes node set_remove1_eq\<close>)
  then show "calls_ok (detach c n w) (insert n pend) owed" by simp
qed

end
