(* ===== verification/Spec2Isabelle.thy ===== *)
theory Spec2Isabelle
  imports CursorIndex CursorArena CursorAccounting JsonDecimal JsonString WorkLease Admission
    SubLimiter Api Transport IdRegistry JsonLimits JsonViews Session ResponseStream Connection Config CursorCalls
begin

text \<open>
  A verification library for \<open>mcp-file-tools\<close>, a Go server that exposes file reading and
  searching as MCP tools over stdio.  (header in progress)
\<close>

end
